(* ===== verification/TJ_Prelude.thy ===== *)
theory TJ_Prelude
  imports Main "HOL-Library.Word" "HOL-Library.Monad_Syntax"
begin

text \<open>
  What every component of the development shares: the machine types of the Rust
  sources, memory that is read and written through bounds-checked accesses, the
  counted loops of the sources as combinators, and the weakest-precondition
  calculus the component proofs run on.

  A raw-pointer access \<open>*p.add(i)\<close> of the sources is \<open>rd xs i\<close> or
  \<open>wr xs i v\<close>: the value \<open>None\<close> stands for undefined behaviour, so a
  theorem that an operation yields \<open>Some r\<close> also says that every access it
  makes is inside its block.
\<close>

unbundle bit_operations_syntax

section \<open>Machine types\<close>

type_synonym u8 = "8 word"
type_synonym u16 = "16 word"
type_synonym u32 = "32 word"
type_synonym u64 = "64 word"
type_synonym u128 = "128 word"
type_synonym i64 = "64 word"

text \<open>
  The casts between the 64-bit limbs and the 128-bit intermediates of the sources:
  \<open>x as u128\<close>, \<open>s as u64\<close> and \<open>(s >> 64) as u64\<close>.
\<close>

definition to128 :: "u64 \<Rightarrow> u128" where
  "to128 x = ucast x"

definition lo64 :: "u128 \<Rightarrow> u64" where
  "lo64 x = ucast x"

definition hi64 :: "u128 \<Rightarrow> u64" where
  "hi64 x = ucast (drop_bit 64 x)"

text \<open>\<open>((d >> 64) & 1) as u64\<close>: the borrow of a 128-bit wrapping difference.\<close>

definition borrow64 :: "u128 \<Rightarrow> u64" where
  "borrow64 d = ucast (drop_bit 64 d AND 1)"

section \<open>Checked memory\<close>

definition rd :: "'a list \<Rightarrow> nat \<Rightarrow> 'a option" where
  "rd xs i = (if i < length xs then Some (xs ! i) else None)"

definition wr :: "'a list \<Rightarrow> nat \<Rightarrow> 'a \<Rightarrow> 'a list option" where
  "wr xs i v = (if i < length xs then Some (xs[i := v]) else None)"

section \<open>Weakest preconditions over the option monad\<close>

text \<open>\<open>wp m P\<close>: the computation \<open>m\<close> returns, and its result satisfies \<open>P\<close>.\<close>

definition wp :: "'a option \<Rightarrow> ('a \<Rightarrow> bool) \<Rightarrow> bool" where
  "wp m P = (case m of None \<Rightarrow> False | Some x \<Rightarrow> P x)"

named_theorems wp_simps "weakest preconditions of the monadic constructs"

lemma wp_Some [simp, wp_simps]: "wp (Some x) P = P x"
  by (simp add: wp_def)

lemma wp_None [simp, wp_simps]: "wp None P = False"
  by (simp add: wp_def)

lemma wp_bind [wp_simps]: "wp (Option.bind m f) P = wp m (\<lambda>x. wp (f x) P)"
  by (cases m) (simp_all add: wp_def)

lemma wp_if [wp_simps]: "wp (if b then m else m') P = (if b then wp m P else wp m' P)"
  by simp

lemma wp_case_prod [wp_simps]:
  "wp (case p of (x, y) \<Rightarrow> f x y) P = (case p of (x, y) \<Rightarrow> wp (f x y) P)"
  by (cases p) simp

lemma wp_Let [wp_simps]: "wp (Let x f) P = (let y = x in wp (f y) P)"
  by (simp add: Let_def)

lemma wp_rd [wp_simps]: "wp (rd xs i) P = (i < length xs \<and> P (xs ! i))"
  by (simp add: rd_def)

lemma wp_wr [wp_simps]: "wp (wr xs i v) P = (i < length xs \<and> P (xs[i := v]))"
  by (simp add: wr_def)

lemma wpI: "m = Some x \<Longrightarrow> P x \<Longrightarrow> wp m P"
  by simp

lemma wpE: "wp m P \<Longrightarrow> (\<And>x. m = Some x \<Longrightarrow> P x \<Longrightarrow> thesis) \<Longrightarrow> thesis"
  by (cases m) simp_all

lemma wp_iff: "wp m P \<longleftrightarrow> (\<exists>x. m = Some x \<and> P x)"
  by (cases m) simp_all

lemma wp_eqI: "wp m (\<lambda>r. r = x) \<Longrightarrow> m = Some x"
  by (cases m) simp_all

lemma wp_mono: "wp m P \<Longrightarrow> (\<And>x. m = Some x \<Longrightarrow> P x \<Longrightarrow> Q x) \<Longrightarrow> wp m Q"
  by (cases m) simp_all

section \<open>Counted loops\<close>

text \<open>\<open>for i in lo..hi { body }\<close> over the mutable variables \<open>s\<close>.\<close>

function for_range :: "nat \<Rightarrow> nat \<Rightarrow> (nat \<Rightarrow> 's \<Rightarrow> 's option) \<Rightarrow> 's \<Rightarrow> 's option" where
  "for_range lo hi body s =
     (if lo < hi then do { s' \<leftarrow> body lo s; for_range (Suc lo) hi body s' } else Some s)"
  by pat_completeness auto
termination
  by (relation "measure (\<lambda>(lo, hi, _, _). hi - lo)") auto

declare for_range.simps [simp del]

text \<open>The loop that walks \<open>i\<close> from \<open>n - 1\<close> down to \<open>0\<close>.\<close>

primrec for_down :: "nat \<Rightarrow> (nat \<Rightarrow> 's \<Rightarrow> 's option) \<Rightarrow> 's \<Rightarrow> 's option" where
  "for_down 0 body s = Some s"
| "for_down (Suc i) body s = do { s' \<leftarrow> body i s; for_down i body s' }"

lemma for_range_empty [simp]: "hi \<le> lo \<Longrightarrow> for_range lo hi body s = Some s"
  by (simp add: for_range.simps)

lemma for_range_step:
  "lo < hi \<Longrightarrow> for_range lo hi body s = do { s' \<leftarrow> body lo s; for_range (Suc lo) hi body s' }"
  by (subst for_range.simps) simp

lemma wp_for_range:
  assumes "lo \<le> hi" "I lo s"
    and "\<And>i s. lo \<le> i \<Longrightarrow> i < hi \<Longrightarrow> I i s \<Longrightarrow> wp (body i s) (I (Suc i))"
    and "\<And>s. I hi s \<Longrightarrow> Q s"
  shows "wp (for_range lo hi body s) Q"
  using assms
proof (induction lo hi body s rule: for_range.induct)
  case (1 lo hi body s)
  show ?case
  proof (cases "lo < hi")
    case True
    with "1.prems" have "wp (body lo s) (I (Suc lo))" by simp
    then obtain s' where s': "body lo s = Some s'" "I (Suc lo) s'" by (auto elim: wpE)
    have "wp (for_range (Suc lo) hi body s') Q"
      by (rule "1.IH" [OF True s'(1)]) (use True s'(2) "1.prems" in auto)
    with True s' show ?thesis by (simp add: for_range_step)
  next
    case False
    with "1.prems" show ?thesis by simp
  qed
qed

lemma wp_for_down:
  assumes "I n s"
    and "\<And>i s. i < n \<Longrightarrow> I (Suc i) s \<Longrightarrow> wp (body i s) (I i)"
    and "\<And>s. I 0 s \<Longrightarrow> Q s"
  shows "wp (for_down n body s) Q"
  using assms
proof (induction n arbitrary: s)
  case 0
  then show ?case by simp
next
  case (Suc n)
  then have "wp (body n s) (I n)" by simp
  then obtain s' where s': "body n s = Some s'" "I n s'" by (auto elim: wpE)
  have "wp (for_down n body s') Q"
    by (rule Suc.IH) (use s'(2) Suc.prems in auto)
  with s' show ?case by simp
qed

text \<open>A loop that writes \<open>h i\<close> at every index \<open>i\<close>.\<close>

lemma fill_loop:
  assumes "\<And>i r. i < n \<Longrightarrow> length r = n \<Longrightarrow> body i r = wr r i (h i)" "length r0 = n"
  shows "for_range 0 n body r0 = Some (map h [0..<n])"
proof (rule wp_eqI)
  show "wp (for_range 0 n body r0) (\<lambda>r. r = map h [0..<n])"
  proof (rule wp_for_range [where I = "\<lambda>i r. r = map h [0..<i] @ drop i r0"])
    fix i r assume i: "0 \<le> i" "i < n" "r = map h [0..<i] @ drop i r0"
    then have "length r = n" using assms(2) by simp
    then show "wp (body i r) (\<lambda>r. r = map h [0..<Suc i] @ drop (Suc i) r0)"
      using i assms by (simp add: wp_wr list_update_append Cons_nth_drop_Suc [symmetric])
  qed (use assms(2) in auto)
qed

section \<open>Words\<close>

text \<open>
  \<open>LB\<close> is the base of the 64-bit limbs. It is kept folded, so that the
  arithmetic of the component proofs is symbolic in it.
\<close>

definition LB :: nat where
  "LB = 2 ^ 64"

lemma LB_pos [simp]: "0 < LB" "LB \<noteq> 0" "Suc 0 < LB" "Suc 0 \<le> LB" "1 < LB" "LB \<noteq> Suc 0"
  by (simp_all add: LB_def)

lemma LB_power: "2 ^ (64 * n) = LB ^ n"
  by (simp add: LB_def power_mult)

lemma unat_less_LB [simp]: "unat (x :: u64) < LB"
  using unsigned_less [of x] by (simp add: LB_def)

lemma unat_le_LB: "unat (x :: u64) \<le> LB - 1"
  using unat_less_LB [of x] by linarith

lemma unat_less_u128: "unat (x :: u128) < LB * LB"
  using unsigned_less [of x] by (simp add: LB_def)

lemma unat_to128 [simp]: "unat (to128 x) = unat x"
proof -
  have "unat x < 2 ^ LENGTH(64)" by (rule unsigned_less)
  then have "unat x < 2 ^ 64" by simp
  also have "(2::nat) ^ 64 < 2 ^ 128" by simp
  finally show ?thesis by (simp add: to128_def unsigned_ucast_eq take_bit_nat_eq_self)
qed

lemma to128_0 [simp]: "to128 0 = 0"
  by (simp add: to128_def)

lemma unat_lo64: "unat (lo64 x) = unat x mod LB"
  by (simp add: lo64_def unsigned_ucast_eq take_bit_eq_mod LB_def)

lemma unat_hi64: "unat (hi64 x) = unat x div LB"
proof -
  have "unat x div LB < LB"
    using unat_less_u128 [of x] by (simp add: less_mult_imp_div_less)
  then have "unat x div 2 ^ 64 < 2 ^ 64"
    unfolding LB_def .
  then have "take_bit 64 (unat x div 2 ^ 64) = unat x div 2 ^ 64"
    by (rule take_bit_nat_eq_self)
  then show ?thesis
    unfolding hi64_def unsigned_ucast_eq unat_drop_bit_eq by (simp add: drop_bit_eq_div LB_def)
qed

lemma lo64_hi64: "unat (lo64 x) + LB * unat (hi64 x) = unat x"
  by (simp add: unat_lo64 unat_hi64)

lemma unat_add_128: "unat x + unat y < LB * LB \<Longrightarrow> unat (x + y :: u128) = unat x + unat y"
  by (simp add: unat_word_ariths LB_def)

lemma unat_mult_128: "unat x * unat y < LB * LB \<Longrightarrow> unat (x * y :: u128) = unat x * unat y"
  by (simp add: unat_word_ariths LB_def)

text \<open>A multiply-accumulate of 64-bit limbs stays inside 128 bits.\<close>

lemma mac_less:
  assumes "a < LB" "b < LB" "c < LB" "d < LB"
  shows "a * b + c + d < LB * LB"
proof -
  obtain L where L: "LB = Suc L" using LB_pos(1) by (metis gr0_conv_Suc)
  have "a * b \<le> L * L" using assms L by (intro mult_le_mono) auto
  moreover have "c \<le> L" "d \<le> L" using assms L by auto
  ultimately have "a * b + c + d \<le> L * L + L + L" by linarith
  then show ?thesis by (simp add: L)
qed

lemma LB_le_sq: "a < LB \<Longrightarrow> a < LB * LB"
  by (meson le_square less_le_trans)

lemma unat_mac_128:
  "unat (to128 c + to128 a * to128 b + to128 d) = unat c + unat a * unat b + unat d"
proof -
  have "unat a * unat b + unat c + unat d < LB * LB" by (rule mac_less) simp_all
  then show ?thesis by (simp add: unat_add_128 unat_mult_128)
qed

lemma unat_adc_128: "unat (to128 a + to128 b + to128 c) = unat a + unat b + unat c"
  using mac_less [of "unat a" 1 "unat b" "unat c"] by (simp add: unat_add_128)

lemma unat_adc2_128: "unat (to128 a + to128 b) = unat a + unat b"
  using mac_less [of "unat a" 1 "unat b" 0] by (simp add: unat_add_128)

text \<open>
  The borrow trick of the sources: \<open>(a - b - borrow)\<close> in 128-bit wrapping
  arithmetic, whose low half is the limb and whose bit 64 is the next borrow.
\<close>

lemma unat_borrow64: "unat (borrow64 d) = unat d div LB mod 2"
proof -
  have "unat (drop_bit 64 d AND 1) = unat d div LB mod 2"
    unfolding and_one_eq unat_mod unat_drop_bit_eq by (simp add: drop_bit_eq_div LB_def)
  moreover have "unat d div LB mod 2 < 2" by simp
  then have "take_bit 64 (unat d div LB mod 2) = unat d div LB mod 2"
    by (intro take_bit_nat_eq_self) simp
  ultimately show ?thesis
    by (simp add: borrow64_def unsigned_ucast_eq)
qed

lemma borrow64_le_1 [simp]: "unat (borrow64 d) \<le> Suc 0"
  by (simp add: unat_borrow64)

lemma sbb_nat:
  fixes a b c d :: nat
  assumes "a < LB" "b < LB" "c \<le> 1" "d < LB * LB" "(d + (b + c)) mod (LB * LB) = a"
  shows "d mod LB + b + c = a + LB * (d div LB mod 2)"
proof (cases "b + c \<le> a")
  case True
  have "a < LB * LB" using LB_le_sq assms(1) .
  have "d + (b + c) < LB * LB"
  proof (rule ccontr)
    assume "\<not> d + (b + c) < LB * LB"
    moreover have "d + (b + c) < LB * LB + LB * LB"
      using assms LB_le_sq [of "b"] mac_less [of b 1 c 0] by simp
    ultimately have "d + (b + c) = a + LB * LB"
      using assms(5) by (simp add: le_mod_geq)
    then show False using assms(4) True by linarith
  qed
  then have "d + (b + c) = a" using assms(5) by simp
  then have "d < LB" using assms(1) by linarith
  then show ?thesis using \<open>d + (b + c) = a\<close> by simp
next
  case False
  then have "\<not> d + (b + c) < LB * LB" using assms(5) by auto
  moreover have "d + (b + c) < LB * LB + LB * LB"
    using assms LB_le_sq [of "b"] mac_less [of b 1 c 0] by simp
  ultimately have d: "d + (b + c) = a + LB * LB"
    using assms(5) by (simp add: le_mod_geq)
  obtain L where L: "LB = Suc L" "odd L"
    using LB_pos(1) by (metis LB_def even_Suc even_numeral even_power gr0_conv_Suc zero_less_numeral)
  have "LB * LB = LB * L + LB" by (simp add: L(1))
  then have k: "d = LB * L + (LB + a - (b + c))" using d assms(2,3) by linarith
  moreover have "LB + a - (b + c) < LB" using False LB_pos(1) by arith
  ultimately have "d div LB = L" "d mod LB = LB + a - (b + c)" by simp_all
  moreover have "b + c \<le> LB" using assms by simp
  ultimately show ?thesis using L(2) by (simp add: mod_2_eq_odd)
qed

lemma sbb_128:
  assumes "unat c \<le> Suc 0"
  shows "unat (lo64 (to128 a - to128 b - to128 c)) + unat b + unat c =
    unat a + LB * unat (borrow64 (to128 a - to128 b - to128 c))"
proof -
  let ?d = "to128 a - to128 b - to128 c"
  have "(unat ?d + unat (to128 b + to128 c)) mod 2 ^ LENGTH(128) = unat a"
    using unat_word_ariths(1) [of ?d "to128 b + to128 c"] by simp
  then have "(unat ?d + (unat b + unat c)) mod (LB * LB) = unat a"
    unfolding unat_adc2_128 by (simp add: LB_def)
  then show ?thesis
    unfolding unat_lo64 unat_borrow64
    by (intro sbb_nat) (use assms unat_less_u128 in auto)
qed

end
