(* ===== verification/BigInt_Core.thy ===== *)
theory BigInt_Core
  imports TJ_Prelude
begin

text \<open>
  The BigInt heap block (\<open>layout.rs\<close>) and the block helpers of
  \<open>internal.rs\<close>, \<open>construct.rs\<close> and \<open>compare.rs\<close> that read or copy one
  block: allocation, accessors, \<open>normalize\<close>, the in-place small multiply and add
  that every parser uses, and \<open>clone\<close>.

  \<open>bi_val\<close> is the integer a block stands for, \<open>canonical\<close> the layout
  invariant (no leading zero limb, no signed zero) and \<open>bi_of_int\<close> the one
  fresh canonical block of an integer: the later theories state each operation as
  an equation \<open>op a b = Some (bi_of_int (\<dots>))\<close>.
\<close>

section \<open>The heap block\<close>

text \<open>The cast \<open>n as u32\<close> of a \<open>usize\<close>: it wraps.\<close>

definition as_u32 :: "nat \<Rightarrow> u32" where
  "as_u32 n = of_nat n"

record bigint =
  refcount :: u32
  type_tag :: u16
  hflags :: u16
  sign :: u32
  words :: "u64 list"

definition TAG_BIGINT :: u16 where
  "TAG_BIGINT = 10"

definition alloc_raw :: "u32 \<Rightarrow> bigint" where
  "alloc_raw len =
     \<lparr>refcount = 1, type_tag = TAG_BIGINT, hflags = 0, sign = 0,
      words = replicate (unat len) 0\<rparr>"

definition read_len :: "bigint \<Rightarrow> u32" where
  "read_len b = as_u32 (length (words b))"

definition read_sign :: "bigint \<Rightarrow> u32" where
  "read_sign b = sign b"

definition write_sign :: "bigint \<Rightarrow> u32 \<Rightarrow> bigint" where
  "write_sign b s = b\<lparr>sign := s\<rparr>"

text \<open>\<open>write_len\<close> only ever lowers the limb count: the limbs past it are never read again.\<close>

definition write_len :: "bigint \<Rightarrow> u32 \<Rightarrow> bigint" where
  "write_len b len = b\<lparr>words := take (unat len) (words b)\<rparr>"

primrec normalize_len :: "u64 list \<Rightarrow> nat \<Rightarrow> nat" where
  "normalize_len w 0 = 0"
| "normalize_len w (Suc n) = (if w ! n = 0 then normalize_len w n else Suc n)"

definition normalize :: "bigint \<Rightarrow> bigint" where
  "normalize b =
     (let new_len = normalize_len (words b) (unat (read_len b));
          b' = write_len b (as_u32 new_len)
      in if new_len = 0 then write_sign b' 0 else b')"

text \<open>The copy loop \<open>for i in 0..n { *dst.add(i) = *src.add(i) }\<close> of the sources.\<close>

definition copy_words :: "u64 list \<Rightarrow> u64 list \<Rightarrow> nat \<Rightarrow> u64 list option" where
  "copy_words dst src n = for_range 0 n (\<lambda>i dst. do { v \<leftarrow> rd src i; wr dst i v }) dst"

text \<open>
  The realloc-on-carry tail that \<open>mul_u32_inplace\<close>, \<open>add_u32_inplace\<close> and
  \<open>shl_inplace_one\<close> share: a block one limb longer, with the sign kept.
\<close>

definition grow_carry :: "bigint \<Rightarrow> u64 list \<Rightarrow> u64 \<Rightarrow> bigint option" where
  "grow_carry b w carry =
     (let len = unat (read_len b) in
      if carry \<noteq> 0 then do {
        let nb = write_sign (alloc_raw (as_u32 (len + 1))) (read_sign b);
        nw \<leftarrow> copy_words (words nb) w len;
        nw \<leftarrow> wr nw len carry;
        Some (nb\<lparr>words := nw\<rparr>)
      } else Some (b\<lparr>words := w\<rparr>))"

definition mul_u32_limb :: "u128 \<Rightarrow> nat \<Rightarrow> u64 list \<times> u64 \<Rightarrow> (u64 list \<times> u64) option" where
  "mul_u32_limb mul128 i = (\<lambda>(w, carry). do {
     x \<leftarrow> rd w i;
     let prod = to128 x * mul128 + to128 carry;
     w \<leftarrow> wr w i (lo64 prod);
     Some (w, hi64 prod)
   })"

definition mul_u32_inplace :: "bigint \<Rightarrow> u32 \<Rightarrow> bigint option" where
  "mul_u32_inplace b mul = do {
     (w, carry) \<leftarrow> for_range 0 (unat (read_len b)) (mul_u32_limb (ucast mul)) (words b, 0);
     grow_carry b w carry
   }"

text \<open>
  The \<open>break\<close> on a zero carry leaves the remaining limbs as they are: the
  iterations after it do nothing.
\<close>

definition add_u32_limb :: "nat \<Rightarrow> u64 list \<times> u64 \<Rightarrow> (u64 list \<times> u64) option" where
  "add_u32_limb i = (\<lambda>(w, carry).
     if carry = 0 then Some (w, carry) else do {
       x \<leftarrow> rd w i;
       let sum = to128 x + to128 carry;
       w \<leftarrow> wr w i (lo64 sum);
       Some (w, hi64 sum)
     })"

definition add_u32_inplace :: "bigint \<Rightarrow> u32 \<Rightarrow> bigint option" where
  "add_u32_inplace b add = do {
     (w, carry) \<leftarrow> for_range 0 (unat (read_len b)) add_u32_limb (words b, ucast add);
     grow_carry b w carry
   }"

definition bigint_clone :: "bigint \<Rightarrow> bigint option" where
  "bigint_clone a = do {
     let len = read_len a;
     let r = alloc_raw len;
     w \<leftarrow> (if len > 0 then copy_words (words r) (words a) (unat len) else Some (words r));
     Some (write_sign (r\<lparr>words := w\<rparr>) (read_sign a))
   }"

definition bigint_is_nonzero :: "bigint \<Rightarrow> int" where
  "bigint_is_nonzero p = (if read_len p = 0 then 0 else 1)"

section \<open>Values of limb lists\<close>

primrec mval :: "u64 list \<Rightarrow> nat" where
  "mval [] = 0"
| "mval (w # ws) = unat w + LB * mval ws"

fun limbs :: "nat \<Rightarrow> u64 list" where
  "limbs n = (if n = 0 then [] else of_nat (n mod LB) # limbs (n div LB))"

declare limbs.simps [simp del]

lemma limbs_0 [simp]: "limbs 0 = []"
  by (simp add: limbs.simps)

lemma limbs_pos: "n \<noteq> 0 \<Longrightarrow> limbs n = of_nat (n mod LB) # limbs (n div LB)"
  by (subst limbs.simps) simp

lemma unat_of_nat_LB [simp]: "n < LB \<Longrightarrow> unat (of_nat n :: u64) = n"
  by (simp add: unat_of_nat LB_def)

lemma mval_limbs [simp]: "mval (limbs n) = n"
proof (induction n rule: limbs.induct)
  case (1 n)
  then show ?case by (cases "n = 0") (simp_all add: limbs_pos)
qed

lemma mval_append: "mval (xs @ ys) = mval xs + LB ^ length xs * mval ys"
  by (induction xs) (simp_all add: algebra_simps)

lemma mval_replicate_0 [simp]: "mval (replicate n 0) = 0"
  by (induction n) simp_all

lemma mval_less: "mval ws < LB ^ length ws"
proof (induction ws)
  case (Cons w ws)
  then have "mval ws + 1 \<le> LB ^ length ws" by simp
  then have "LB * (mval ws + 1) \<le> LB * LB ^ length ws" by (rule mult_le_mono2)
  then have "LB * mval ws + LB \<le> LB * LB ^ length ws" by (simp only: distrib_left mult_1_right)
  then show ?case using unat_less_LB [of w] by (simp only: mval.simps length_Cons power_Suc)
qed simp

lemma mval_take_Suc:
  "i < length xs \<Longrightarrow> mval (take (Suc i) xs) = mval (take i xs) + LB ^ i * unat (xs ! i)"
  by (simp add: take_Suc_conv_app_nth mval_append)

lemma take_update_same [simp]: "take i (xs[i := v]) = take i xs"
  by simp

lemma mval_take_Suc_update:
  "i < length xs \<Longrightarrow> mval (take (Suc i) (xs[i := v])) = mval (take i xs) + LB ^ i * unat v"
  by (simp add: mval_take_Suc)

lemma mval_update_last:
  "length xs = Suc i \<Longrightarrow> mval (xs[i := v]) = mval (take i xs) + LB ^ i * unat v"
  using mval_take_Suc_update [of i xs v] by simp

lemma limbs_eq_Nil [simp]: "limbs n = [] \<longleftrightarrow> n = 0"
  by (cases "n = 0") (simp_all add: limbs_pos)

lemma last_limbs: "n \<noteq> 0 \<Longrightarrow> last (limbs n) \<noteq> 0"
proof (induction n rule: limbs.induct)
  case (1 n)
  show ?case
  proof (cases "n div LB = 0")
    case True
    with "1.prems" have "n < LB" by (simp add: div_eq_0_iff)
    moreover from this "1.prems" have "unat (of_nat n :: u64) \<noteq> 0" by simp
    ultimately show ?thesis using True "1.prems"
      by (auto simp: limbs_pos simp del: unat_of_nat_LB)
  next
    case False
    with 1 show ?thesis by (simp add: limbs_pos)
  qed
qed

lemma mval_pos_if_last: "ws \<noteq> [] \<Longrightarrow> last ws \<noteq> 0 \<Longrightarrow> LB ^ (length ws - 1) \<le> mval ws"
proof (induction ws)
  case (Cons w ws)
  show ?case
  proof (cases "ws = []")
    case True
    with Cons.prems have "unat w \<noteq> 0" by (simp add: unat_eq_0)
    with True show ?thesis by simp
  next
    case False
    with Cons have "LB ^ (length ws - 1) \<le> mval ws" by simp
    then have "LB * LB ^ (length ws - 1) \<le> LB * mval ws" by (rule mult_le_mono2)
    moreover have "LB * LB ^ (length ws - 1) = LB ^ length ws"
      using False by (cases ws) simp_all
    ultimately show ?thesis by (simp only: mval.simps length_Cons diff_Suc_1)
  qed
qed simp

lemma limbs_mval: "(ws \<noteq> [] \<longrightarrow> last ws \<noteq> 0) \<Longrightarrow> limbs (mval ws) = ws"
proof (induction ws)
  case (Cons w ws)
  have "0 < LB ^ (length (w # ws) - 1)" by simp
  also have "\<dots> \<le> mval (w # ws)"
    by (rule mval_pos_if_last) (use Cons.prems in auto)
  finally have "mval (w # ws) \<noteq> 0" by (simp del: mval.simps)
  moreover have "mval (w # ws) mod LB = unat w" "mval (w # ws) div LB = mval ws"
    by simp_all
  moreover have "limbs (mval ws) = ws"
    using Cons by (cases ws) auto
  ultimately show ?case by (simp add: limbs_pos del: mval.simps)
qed simp

lemma length_limbs_le: "length (limbs n) \<le> k \<longleftrightarrow> n < LB ^ k"
proof
  assume "length (limbs n) \<le> k"
  then have "LB ^ length (limbs n) \<le> LB ^ k" by (simp add: power_increasing)
  with mval_less [of "limbs n"] show "n < LB ^ k" by (simp only: mval_limbs)
next
  assume n: "n < LB ^ k"
  show "length (limbs n) \<le> k"
  proof (rule ccontr)
    assume l: "\<not> length (limbs n) \<le> k"
    then have "n \<noteq> 0" by (cases "n = 0") simp_all
    then have "LB ^ (length (limbs n) - 1) \<le> n"
      using mval_pos_if_last [of "limbs n"] last_limbs by simp
    moreover from l have "LB ^ k \<le> LB ^ (length (limbs n) - 1)" by (simp add: power_increasing)
    ultimately show False using n by linarith
  qed
qed

lemma length_limbs_mval: "length (limbs (mval ws)) \<le> length ws"
  by (simp add: length_limbs_le mval_less)

lemma last_le_mval: "i < length ws \<Longrightarrow> LB ^ i * unat (ws ! i) \<le> mval ws"
  using mval_append [of "take (Suc i) ws" "drop (Suc i) ws"] by (simp add: mval_take_Suc)

section \<open>Blocks and the integers they stand for\<close>

text \<open>The bound of the \<open>u32\<close> limb count.\<close>

definition LEN_LIM :: nat where
  "LEN_LIM = 2 ^ 32"

lemma LEN_LIM_pos [simp]: "0 < LEN_LIM" "Suc 0 < LEN_LIM"
  by (simp_all add: LEN_LIM_def)

lemma unat_as_u32 [simp]: "n < LEN_LIM \<Longrightarrow> unat (as_u32 n) = n"
  by (simp add: as_u32_def unat_of_nat LEN_LIM_def)

lemma unat_as_u32_mod: "unat (as_u32 n) = n mod LEN_LIM"
  by (simp add: as_u32_def unat_of_nat LEN_LIM_def)

lemma unat_add_len: "unat x + unat y < LEN_LIM \<Longrightarrow> unat (x + y :: u32) = unat x + unat y"
  by (simp add: unat_word_ariths LEN_LIM_def)

lemma unat_len_less [simp]: "unat (n :: u32) < LEN_LIM"
  using unsigned_less [of n] by (simp add: LEN_LIM_def)

lemma as_u32_0: "n < LEN_LIM \<Longrightarrow> as_u32 n = 0 \<longleftrightarrow> n = 0"
  by (metis unat_as_u32 unat_eq_0 unsigned_0)

definition fresh :: "u32 \<Rightarrow> u64 list \<Rightarrow> bigint" where
  "fresh s ws = \<lparr>refcount = 1, type_tag = TAG_BIGINT, hflags = 0, sign = s, words = ws\<rparr>"

definition mag :: "bigint \<Rightarrow> nat" where
  "mag b = mval (words b)"

definition bi_len :: "bigint \<Rightarrow> nat" where
  "bi_len b = length (words b)"

definition bi_val :: "bigint \<Rightarrow> int" where
  "bi_val b = (if sign b = 0 then int (mag b) else - int (mag b))"

definition canonical :: "bigint \<Rightarrow> bool" where
  "canonical b \<longleftrightarrow>
     (sign b = 0 \<or> sign b = 1) \<and> (words b = [] \<longrightarrow> sign b = 0) \<and>
     (words b \<noteq> [] \<longrightarrow> last (words b) \<noteq> 0) \<and> bi_len b < LEN_LIM"

definition mag_of :: "nat \<Rightarrow> bigint" where
  "mag_of n = fresh 0 (limbs n)"

definition bi_of_int :: "int \<Rightarrow> bigint" where
  "bi_of_int i = fresh (if i < 0 then 1 else 0) (limbs (nat \<bar>i\<bar>))"

lemma fresh_simps [simp]:
  "words (fresh s ws) = ws" "sign (fresh s ws) = s" "bi_len (fresh s ws) = length ws"
  "mag (fresh s ws) = mval ws" "(fresh s ws)\<lparr>words := ws'\<rparr> = fresh s ws'"
  "write_sign (fresh s ws) s' = fresh s' ws" "read_sign (fresh s ws) = s"
  by (simp_all add: fresh_def bi_len_def mag_def write_sign_def read_sign_def)

lemma fresh_inject [simp]: "fresh s ws = fresh t vs \<longleftrightarrow> s = t \<and> ws = vs"
  by (simp add: fresh_def)

lemma mag_of_simps [simp]:
  "mag (mag_of n) = n" "sign (mag_of n) = 0" "words (mag_of n) = limbs n"
  "read_sign (mag_of n) = 0"
  by (simp_all add: mag_of_def)

lemma alloc_raw_fresh: "alloc_raw len = fresh 0 (replicate (unat len) 0)"
  by (simp add: alloc_raw_def fresh_def)

lemma alloc_raw_0 [simp]: "alloc_raw 0 = mag_of 0"
  by (simp add: alloc_raw_fresh mag_of_def)

lemma read_len [simp]: "bi_len b < LEN_LIM \<Longrightarrow> unat (read_len b) = bi_len b"
  by (simp add: read_len_def bi_len_def)

lemma read_len_0: "bi_len b < LEN_LIM \<Longrightarrow> read_len b = 0 \<longleftrightarrow> words b = []"
  by (simp add: read_len_def bi_len_def as_u32_0)

lemma mag_less: "mag b < LB ^ bi_len b"
  by (simp add: mag_def bi_len_def mval_less)

lemma bi_len_mag_of: "bi_len (mag_of n) \<le> k \<longleftrightarrow> n < LB ^ k"
  by (simp add: mag_of_def length_limbs_le)

lemma bi_len_mag_of_mag: "bi_len (mag_of (mag b)) \<le> bi_len b"
  by (simp add: bi_len_mag_of mag_less)

lemma canonical_mag_of: "n < LB ^ k \<Longrightarrow> k < LEN_LIM \<Longrightarrow> canonical (mag_of n)"
  using bi_len_mag_of [of n k] by (simp add: canonical_def last_limbs)

lemma mag_of_mag: "canonical b \<Longrightarrow> limbs (mag b) = words b"
  by (simp add: canonical_def mag_def limbs_mval)

lemma canonical_len [simp]: "canonical b \<Longrightarrow> bi_len b < LEN_LIM"
  by (simp add: canonical_def)

lemma canonical_sign: "canonical b \<Longrightarrow> sign b = 0 \<or> sign b = 1"
  by (simp add: canonical_def)

lemma mag_0_iff: "canonical b \<Longrightarrow> mag b = 0 \<longleftrightarrow> words b = []"
  using mag_of_mag [of b] by (metis limbs_eq_Nil)

lemma canonical_neg: "canonical b \<Longrightarrow> sign b = 1 \<Longrightarrow> 0 < mag b"
  using mag_0_iff [of b] by (auto simp: canonical_def)

lemma bi_val_bi_of_int [simp]: "bi_val (bi_of_int i) = i"
  by (simp add: bi_val_def bi_of_int_def)

lemma abs_bi_val [simp]: "nat \<bar>bi_val b\<bar> = mag b"
  by (simp add: bi_val_def)

lemma mag_bi_of_int [simp]: "mag (bi_of_int i) = nat \<bar>i\<bar>"
  by (simp add: bi_of_int_def)

lemma canonical_bi_of_int: "nat \<bar>i\<bar> < LB ^ k \<Longrightarrow> k < LEN_LIM \<Longrightarrow> canonical (bi_of_int i)"
  using length_limbs_le [of "nat \<bar>i\<bar>" k] by (auto simp: canonical_def bi_of_int_def last_limbs)

lemma bi_of_int_bi_val:
  "canonical b \<Longrightarrow> bi_of_int (bi_val b) = fresh (sign b) (words b)"
  using canonical_neg [of b] canonical_sign [of b]
  by (auto simp: bi_of_int_def mag_of_mag bi_val_def)

lemma canonical_eqI: "canonical a \<Longrightarrow> canonical b \<Longrightarrow> bi_val a = bi_val b \<Longrightarrow>
  sign a = sign b \<and> words a = words b"
  using bi_of_int_bi_val [of a] bi_of_int_bi_val [of b]
  by (metis fresh_simps(1,2))

lemma mag_of_bi_of_int: "mag_of n = bi_of_int (int n)"
  by (simp add: mag_of_def bi_of_int_def)

lemma fresh_1_bi_of_int: "0 < n \<Longrightarrow> fresh 1 (limbs n) = bi_of_int (- int n)"
  by (simp add: bi_of_int_def)

section \<open>normalize, the copy loop and the carry tail\<close>

lemma normalize_len_le: "normalize_len w n \<le> n"
  by (induction n) auto

lemma take_normalize_len:
  "n \<le> length w \<Longrightarrow> take (normalize_len w n) w = limbs (mval (take n w))"
proof (induction n)
  case (Suc n)
  then have n: "n < length w" by simp
  show ?case
  proof (cases "w ! n = 0")
    case True
    with Suc n show ?thesis by (simp add: mval_take_Suc)
  next
    case False
    with n have "last (take (Suc n) w) \<noteq> 0"
      by (simp add: take_Suc_conv_app_nth)
    with n False show ?thesis by (simp add: limbs_mval)
  qed
qed simp

lemma normalize_fresh:
  assumes "length ws < LEN_LIM"
  shows "normalize (fresh s ws) = fresh (if mval ws = 0 then 0 else s) (limbs (mval ws))"
proof -
  let ?n = "normalize_len ws (length ws)"
  have n: "?n < LEN_LIM" using normalize_len_le [of ws "length ws"] assms by linarith
  have t: "take ?n ws = limbs (mval ws)" using take_normalize_len [of "length ws" ws] by simp
  have z: "?n = 0 \<longleftrightarrow> mval ws = 0"
    using t normalize_len_le [of ws "length ws"] by (metis limbs_eq_Nil take_eq_Nil le_zero_eq length_0_conv)
  have "unat (read_len (fresh s ws)) = length ws"
    using assms by simp
  then show ?thesis
    using n t z by (simp add: normalize_def write_len_def Let_def)
qed

lemma normalize_mag: "length ws < LEN_LIM \<Longrightarrow> normalize (fresh 0 ws) = mag_of (mval ws)"
  by (simp add: normalize_fresh mag_of_def)

lemma normalize_bi_of_int:
  "n < LB ^ k \<Longrightarrow> k < LEN_LIM \<Longrightarrow> s = 0 \<or> s = 1 \<Longrightarrow>
   normalize (fresh s (limbs n)) = bi_of_int (if s = 0 then int n else - int n)"
  using length_limbs_le [of n k] by (auto simp: normalize_fresh bi_of_int_def)

lemma wp_copy_words:
  assumes "n \<le> length src" "n \<le> length dst"
  shows "copy_words dst src n = Some (take n src @ drop n dst)"
proof (rule wp_eqI)
  show "wp (copy_words dst src n) (\<lambda>r. r = take n src @ drop n dst)"
    unfolding copy_words_def
    by (rule wp_for_range [where I = "\<lambda>i d. d = take i src @ drop i dst"])
      (use assms in \<open>auto simp: wp_simps list_update_append take_Suc_conv_app_nth
         Cons_nth_drop_Suc [symmetric]\<close>)
qed

lemma copy_words_all:
  "length dst = length src \<Longrightarrow> copy_words dst src (length src) = Some src"
  by (simp add: wp_copy_words)

lemma grow_carry:
  assumes "length w = bi_len b" "bi_len b + 1 < LEN_LIM"
  shows "grow_carry b w carry =
    Some (if carry \<noteq> 0 then fresh (sign b) (w @ [carry]) else b\<lparr>words := w\<rparr>)"
  using assms
  by (auto simp: grow_carry_def alloc_raw_fresh wp_copy_words wr_def read_sign_def
      list_update_append Let_def simp del: replicate.simps) simp

text \<open>
  One limb of a carry chain: writing the low half of \<open>x + carry\<close> at \<open>i\<close> and
  passing the high half on keeps the value of the finished limbs plus the carry.
\<close>

lemma limb_step:
  assumes "i < length w" "unat lo + LB * unat hi = x + unat c" "mval (take i w) + LB ^ i * unat c = m"
  shows "mval (take (Suc i) (w[i := lo])) + LB ^ Suc i * unat hi = m + LB ^ i * x"
proof -
  have "mval (take (Suc i) (w[i := lo])) + LB ^ Suc i * unat hi =
      mval (take i w) + LB ^ i * (unat lo + LB * unat hi)"
    using assms(1) by (simp add: mval_take_Suc_update algebra_simps)
  also have "\<dots> = mval (take i w) + LB ^ i * unat c + LB ^ i * x"
    by (simp add: assms(2) algebra_simps)
  finally show ?thesis by (simp add: assms(3))
qed

lemma limb_borrow_step:
  assumes "i < length w" "unat lo + y + unat c = x + LB * unat c'"
    and "mval (take i w) + n = m + LB ^ i * unat c"
  shows "mval (take (Suc i) (w[i := lo])) + (n + LB ^ i * y) = m + LB ^ i * x + LB ^ Suc i * unat c'"
proof -
  have "mval (take (Suc i) (w[i := lo])) + (n + LB ^ i * y) = m + LB ^ i * (unat lo + y + unat c)"
    using assms(1,3) by (simp add: mval_take_Suc_update algebra_simps)
  then show ?thesis unfolding assms(2) by (simp add: algebra_simps)
qed

lemma limbs_eqI: "mval ws = n \<Longrightarrow> ws = [] \<or> LB ^ (length ws - 1) \<le> n \<Longrightarrow> limbs n = ws"
proof -
  assume n: "mval ws = n" and l: "ws = [] \<or> LB ^ (length ws - 1) \<le> n"
  have "last ws \<noteq> 0" if "ws \<noteq> []"
  proof
    assume "last ws = 0"
    with that have ws: "ws = butlast ws @ [0]" by (metis append_butlast_last_id)
    then have "mval ws = mval (butlast ws)" by (metis mval_append mval.simps(1,2) mult_0_right add_0_right unsigned_0)
    then have "n < LB ^ (length ws - 1)" using n mval_less [of "butlast ws"] by simp
    with l that show False by simp
  qed
  then show ?thesis using limbs_mval [of ws] n by blast
qed

lemma length_limbs_lower: "limbs n = [] \<or> LB ^ (length (limbs n) - 1) \<le> n"
  using mval_pos_if_last [of "limbs n"] last_limbs [of n] by (cases "n = 0") simp_all

text \<open>The carry loops followed by the carry tail leave the limbs of the exact value.\<close>

lemma grow_carry_limbs:
  assumes "length w = length (limbs n)" "mval w + LB ^ length w * unat carry = v" "n \<le> v"
    and "length (limbs n) + 1 < LEN_LIM"
  shows "grow_carry (fresh s (limbs n)) w carry = Some (fresh s (limbs v))"
proof (cases "carry = 0")
  case True
  have "limbs v = w"
    by (rule limbs_eqI) (use assms True length_limbs_lower [of n] in auto)
  with True assms show ?thesis by (simp add: grow_carry)
next
  case False
  then have "unat carry \<noteq> 0" by (simp add: unat_eq_0)
  then have "LB ^ length w \<le> v" using assms(2) by (cases "unat carry") auto
  then have "limbs v = w @ [carry]"
    by (intro limbs_eqI) (use assms(2) in \<open>simp_all add: mval_append\<close>)
  with False assms show ?thesis by (simp add: grow_carry)
qed

lemma unat_u32_128: "unat (ucast (m :: u32) :: u128) = unat m"
proof -
  have "unat m < 2 ^ LENGTH(32)" by (rule unsigned_less)
  then have "unat m < 2 ^ 128" by simp
  then show ?thesis by (simp add: unsigned_ucast_eq take_bit_nat_eq_self)
qed

lemma unat_u32_64 [simp]: "unat (ucast (m :: u32) :: u64) = unat m"
proof -
  have "unat m < 2 ^ LENGTH(32)" by (rule unsigned_less)
  then have "unat m < 2 ^ 64" by simp
  then show ?thesis by (simp add: unsigned_ucast_eq take_bit_nat_eq_self)
qed

lemma u32_128_via_64: "(ucast (m :: u32) :: u128) = to128 (ucast m)"
  by (metis unat_u32_128 unat_u32_64 unat_to128 unsigned_word_eqI)

lemma drop_eq_nth: "drop i w = drop i v \<Longrightarrow> i < length w \<Longrightarrow> i < length v \<Longrightarrow>
  w ! i = v ! i \<and> drop (Suc i) w = drop (Suc i) v"
  by (simp add: Cons_nth_drop_Suc [symmetric])

text \<open>What the carry loops keep: the finished limbs and the carry hold \<open>F i\<close>.\<close>

definition carry_inv :: "u64 list \<Rightarrow> (nat \<Rightarrow> nat) \<Rightarrow> nat \<Rightarrow> u64 list \<times> u64 \<Rightarrow> bool" where
  "carry_inv v F i = (\<lambda>(w, c). length w = length v \<and> drop i w = drop i v \<and>
     mval (take i w) + LB ^ i * unat c = F i)"

lemma carry_inv_step:
  assumes "carry_inv v F i (w, c)" "i < length v" "unat lo + LB * unat hi = x + unat c"
    and "F (Suc i) = F i + LB ^ i * x"
  shows "carry_inv v F (Suc i) (w[i := lo], hi)"
  using assms limb_step [of i w lo hi x c] drop_eq_nth [of i w v] by (simp add: carry_inv_def)

lemma mul_u32_limb_step:
  fixes m :: u32
  assumes "carry_inv v (\<lambda>i. mval (take i v) * unat m) i (w, c)" "i < length v"
  shows "wp (mul_u32_limb (ucast m) i (w, c)) (carry_inv v (\<lambda>i. mval (take i v) * unat m) (Suc i))"
proof -
  let ?p = "to128 (v ! i) * to128 (ucast m) + to128 c"
  have w: "length w = length v" "w ! i = v ! i"
    using assms drop_eq_nth [of i w v] by (simp_all add: carry_inv_def)
  have "unat (lo64 ?p) + LB * unat (hi64 ?p) = unat (v ! i) * unat m + unat c"
    using unat_mac_128 [of 0 "v ! i" "ucast m" c] by (simp add: lo64_hi64)
  then have "carry_inv v (\<lambda>i. mval (take i v) * unat m) (Suc i) (w[i := lo64 ?p], hi64 ?p)"
    by (rule carry_inv_step [OF assms]) (simp add: mval_take_Suc assms(2) algebra_simps)
  then show ?thesis
    using assms(2) w by (simp add: mul_u32_limb_def wp_simps u32_128_via_64)
qed

lemma add_u32_limb_step:
  assumes "carry_inv v (\<lambda>i. mval (take i v) + d) i (w, c)" "i < length v"
  shows "wp (add_u32_limb i (w, c)) (carry_inv v (\<lambda>i. mval (take i v) + d) (Suc i))"
proof -
  let ?p = "to128 (v ! i) + to128 c"
  have w: "length w = length v" "w ! i = v ! i"
    using assms drop_eq_nth [of i w v] by (simp_all add: carry_inv_def)
  have "unat (lo64 ?p) + LB * unat (hi64 ?p) = unat (v ! i) + unat c"
    by (simp add: lo64_hi64 unat_adc2_128)
  then have *: "carry_inv v (\<lambda>i. mval (take i v) + d) (Suc i) (w[i := lo64 ?p], hi64 ?p)"
    by (rule carry_inv_step [OF assms]) (simp add: mval_take_Suc assms(2) algebra_simps)
  have "carry_inv v (\<lambda>i. mval (take i v) + d) (Suc i) (w, 0)" if "c = 0"
    using assms that w drop_eq_nth [of i w v] by (auto simp: carry_inv_def mval_take_Suc)
  with * show ?thesis
    using assms(2) w by (simp add: add_u32_limb_def wp_simps)
qed

lemma carry_inv_grow:
  assumes "carry_inv (limbs n) F (length (limbs n)) (w, c)" "n \<le> F (length (limbs n))"
    and "length (limbs n) + 1 < LEN_LIM"
  shows "grow_carry (fresh s (limbs n)) w c = Some (fresh s (limbs (F (length (limbs n)))))"
  by (rule grow_carry_limbs) (use assms in \<open>auto simp: carry_inv_def\<close>)

lemma mul_u32_inplace_limbs:
  assumes m: "m \<noteq> 0" and len: "length (limbs n) + 1 < LEN_LIM"
  shows "mul_u32_inplace (fresh s (limbs n)) m = Some (fresh s (limbs (n * unat m)))"
proof -
  let ?v = "limbs n" and ?F = "\<lambda>i. mval (take i (limbs n)) * unat m"
  have "wp (for_range 0 (length ?v) (mul_u32_limb (ucast m)) (?v, 0)) (carry_inv ?v ?F (length ?v))"
    by (rule wp_for_range [where I = "carry_inv ?v ?F"])
      (auto simp: mul_u32_limb_step, simp add: carry_inv_def)
  moreover have "n \<le> ?F (length ?v)" using m by (cases "unat m") (simp_all add: unat_eq_0)
  ultimately show ?thesis
    using len carry_inv_grow [of n ?F] by (auto simp: mul_u32_inplace_def elim!: wpE)
qed

lemma add_u32_inplace_limbs:
  assumes "length (limbs n) + 1 < LEN_LIM"
  shows "add_u32_inplace (fresh s (limbs n)) d = Some (fresh s (limbs (n + unat d)))"
proof -
  let ?v = "limbs n" and ?F = "\<lambda>i. mval (take i (limbs n)) + unat d"
  have "wp (for_range 0 (length ?v) add_u32_limb (?v, ucast d)) (carry_inv ?v ?F (length ?v))"
    by (rule wp_for_range [where I = "carry_inv ?v ?F"])
      (auto simp: add_u32_limb_step, simp add: carry_inv_def)
  then show ?thesis
    using assms carry_inv_grow [of n ?F] by (auto simp: add_u32_inplace_def elim!: wpE)
qed

lemma bigint_clone_fresh:
  "bi_len a < LEN_LIM \<Longrightarrow> bigint_clone a = Some (fresh (sign a) (words a))"
  by (auto simp: bigint_clone_def alloc_raw_fresh read_sign_def copy_words_all bi_len_def
      word_gt_0 read_len_0 Let_def)

section \<open>Small blocks\<close>

lemma bi_len_small: "nat \<bar>i\<bar> < LB ^ k \<Longrightarrow> bi_len (bi_of_int i) \<le> k"
  by (simp add: bi_of_int_def length_limbs_le)

text \<open>Blocks of integers below \<open>2 ^ 192\<close>: what the concrete instances of the properties need.\<close>

lemma small_block:
  assumes "\<bar>i\<bar> < 2 ^ 192"
  shows "canonical (bi_of_int i)" "bi_len (bi_of_int i) \<le> 3" "bi_len (bi_of_int i) < LEN_LIM"
proof -
  have "int (nat \<bar>i\<bar>) < int (LB ^ 3)" using assms by (simp add: LB_def)
  then have n: "nat \<bar>i\<bar> < LB ^ 3" by (simp only: of_nat_less_iff)
  show "canonical (bi_of_int i)" by (rule canonical_bi_of_int [OF n]) (simp add: LEN_LIM_def)
  show "bi_len (bi_of_int i) \<le> 3" by (rule bi_len_small [OF n])
  then show "bi_len (bi_of_int i) < LEN_LIM" by (rule le_less_trans) (simp add: LEN_LIM_def)
qed

end
