(* ===== verification/BigInt_Arith.thy ===== *)
theory BigInt_Arith
  imports BigInt_Core
begin

text \<open>
  Magnitude comparison, addition and subtraction (\<open>arith.rs\<close>), the signed
  \<open>+\<close> and \<open>-\<close> built on them, and signed comparison and equality
  (\<open>compare.rs\<close>). The magnitude operations are shown to compute on the numbers
  the limbs stand for, the signed ones to be integer addition, subtraction and order.
\<close>

section \<open>The operations\<close>

text \<open>The \<open>while i >= 0\<close> scan from the top limb, with its early return.\<close>

primrec mag_cmp_words :: "u64 list \<Rightarrow> u64 list \<Rightarrow> nat \<Rightarrow> int option" where
  "mag_cmp_words aw bw 0 = Some 0"
| "mag_cmp_words aw bw (Suc i) = do {
     av \<leftarrow> rd aw i;
     bv \<leftarrow> rd bw i;
     if av \<noteq> bv then Some (if av < bv then - 1 else 1) else mag_cmp_words aw bw i
   }"

definition mag_cmp :: "bigint \<Rightarrow> bigint \<Rightarrow> int option" where
  "mag_cmp a b =
     (let na = unat (read_len a); nb = unat (read_len b) in
      if na \<noteq> nb then Some (if na < nb then - 1 else 1)
      else mag_cmp_words (words a) (words b) na)"

definition mag_add_limb ::
  "u64 list \<Rightarrow> u64 list \<Rightarrow> nat \<Rightarrow> nat \<Rightarrow> nat \<Rightarrow> u64 list \<times> u64 \<Rightarrow> (u64 list \<times> u64) option" where
  "mag_add_limb aw bw na nb i = (\<lambda>(ow, carry). do {
     av \<leftarrow> (if i < na then rd aw i else Some 0);
     bv \<leftarrow> (if i < nb then rd bw i else Some 0);
     let sum = to128 av + to128 bv + to128 carry;
     ow \<leftarrow> wr ow i (lo64 sum);
     Some (ow, hi64 sum)
   })"

definition mag_add :: "bigint \<Rightarrow> bigint \<Rightarrow> bigint option" where
  "mag_add a b = do {
     let na = unat (read_len a);
     let nb = unat (read_len b);
     let n = max na nb;
     let out = alloc_raw (as_u32 (n + 1));
     (ow, carry) \<leftarrow> for_range 0 n (mag_add_limb (words a) (words b) na nb) (words out, 0);
     ow \<leftarrow> wr ow n carry;
     Some (normalize (out\<lparr>words := ow\<rparr>))
   }"

definition mag_sub_limb ::
  "u64 list \<Rightarrow> u64 list \<Rightarrow> nat \<Rightarrow> nat \<Rightarrow> u64 list \<times> u64 \<Rightarrow> (u64 list \<times> u64) option" where
  "mag_sub_limb aw bw nb i = (\<lambda>(ow, borrow). do {
     av \<leftarrow> rd aw i;
     bv \<leftarrow> (if i < nb then rd bw i else Some 0);
     let diff = to128 av - to128 bv - to128 borrow;
     ow \<leftarrow> wr ow i (lo64 diff);
     Some (ow, borrow64 diff)
   })"

definition mag_sub :: "bigint \<Rightarrow> bigint \<Rightarrow> bigint option" where
  "mag_sub a b = do {
     let na = unat (read_len a);
     let nb = unat (read_len b);
     let out = alloc_raw (as_u32 na);
     (ow, borrow) \<leftarrow> for_range 0 na (mag_sub_limb (words a) (words b) nb) (words out, 0);
     Some (normalize (out\<lparr>words := ow\<rparr>))
   }"

definition bigint_add :: "bigint \<Rightarrow> bigint \<Rightarrow> bigint option" where
  "bigint_add a b = do {
     let a_sign = read_sign a;
     let b_sign = read_sign b;
     r \<leftarrow> (if a_sign = b_sign then do { r \<leftarrow> mag_add a b; Some (write_sign r a_sign) }
       else do {
         c \<leftarrow> mag_cmp a b;
         if c = 0 then Some (alloc_raw 0)
         else if c > 0 then do { r \<leftarrow> mag_sub a b; Some (write_sign r a_sign) }
         else do { r \<leftarrow> mag_sub b a; Some (write_sign r b_sign) }
       });
     Some (normalize r)
   }"

definition bigint_sub :: "bigint \<Rightarrow> bigint \<Rightarrow> bigint option" where
  "bigint_sub a b = do {
     let a_sign = read_sign a;
     let b_sign = read_sign b;
     r \<leftarrow> (if a_sign \<noteq> b_sign then do { r \<leftarrow> mag_add a b; Some (write_sign r a_sign) }
       else do {
         c \<leftarrow> mag_cmp a b;
         if c = 0 then Some (alloc_raw 0)
         else if c > 0 then do { r \<leftarrow> mag_sub a b; Some (write_sign r a_sign) }
         else do { r \<leftarrow> mag_sub b a; Some (write_sign r (if a_sign = 0 then 1 else 0)) }
       });
     Some (normalize r)
   }"

definition bigint_cmp :: "bigint \<Rightarrow> bigint \<Rightarrow> int option" where
  "bigint_cmp a b =
     (let a_sign = read_sign a; b_sign = read_sign b in
      if a_sign \<noteq> b_sign then
        (if read_len a = 0 \<and> read_len b = 0 then Some 0
         else Some (if a_sign \<noteq> 0 then - 1 else 1))
      else do {
        m \<leftarrow> mag_cmp a b;
        Some (if a_sign \<noteq> 0 then - m else m)
      })"

definition bigint_eq :: "bigint \<Rightarrow> bigint \<Rightarrow> int option" where
  "bigint_eq a b = do { c \<leftarrow> bigint_cmp a b; Some (if c = 0 then 1 else 0) }"

section \<open>Magnitudes\<close>

lemma mag_cmp_words_sgn:
  "n \<le> length aw \<Longrightarrow> n \<le> length bw \<Longrightarrow>
   mag_cmp_words aw bw n = Some (sgn (int (mval (take n aw)) - int (mval (take n bw))))"
proof (induction n)
  case (Suc n)
  then have n: "n < length aw" "n < length bw" by simp_all
  let ?a = "mval (take n aw)" and ?b = "mval (take n bw)"
  have lt: "x + LB ^ n * u < y + LB ^ n * v" if "x < LB ^ n" "u < v" for x y u v
  proof -
    from that(2) have "LB ^ n * (u + 1) \<le> LB ^ n * v" by (intro mult_le_mono2) simp
    with that(1) show ?thesis by simp
  qed
  have ab: "?a < LB ^ n" "?b < LB ^ n"
    using mval_less [of "take n aw"] mval_less [of "take n bw"] n by simp_all
  show ?case
  proof (cases "aw ! n" "bw ! n" rule: linorder_cases)
    case equal
    with Suc n show ?thesis by (simp add: rd_def mval_take_Suc)
  next
    case less
    then have "mval (take (Suc n) aw) < mval (take (Suc n) bw)"
      using n ab lt by (simp add: mval_take_Suc word_less_nat_alt)
    with less n show ?thesis by (auto simp: rd_def sgn_if)
  next
    case greater
    then have "mval (take (Suc n) bw) < mval (take (Suc n) aw)"
      using n ab lt by (simp add: mval_take_Suc word_less_nat_alt)
    with greater n show ?thesis by (auto simp: rd_def sgn_if)
  qed
qed simp

lemma mag_cmp_limbs:
  assumes "words a = limbs m" "words b = limbs n" "bi_len a < LEN_LIM" "bi_len b < LEN_LIM"
  shows "mag_cmp a b = Some (sgn (int m - int n))"
proof -
  have lt: "x < y" if "length (limbs x) < length (limbs y)" for x y
    using that length_limbs_le [of x "length (limbs x)"] length_limbs_le [of y "length (limbs x)"]
    by linarith
  have "mag_cmp_words (limbs m) (limbs n) (length (limbs m)) = Some (sgn (int m - int n))"
    if "length (limbs m) = length (limbs n)"
    using mag_cmp_words_sgn [of "length (limbs m)" "limbs m" "limbs n"] that by simp
  then show ?thesis
    using assms lt [of m n] lt [of n m]
    by (auto simp: mag_cmp_def Let_def bi_len_def)
qed

lemma mag_cmp_canonical:
  "canonical a \<Longrightarrow> canonical b \<Longrightarrow> mag_cmp a b = Some (sgn (int (mag a) - int (mag b)))"
  by (rule mag_cmp_limbs) (simp_all add: mag_of_mag)

definition limb_or_0 :: "u64 list \<Rightarrow> nat \<Rightarrow> u64" where
  "limb_or_0 ws i = (if i < length ws then ws ! i else 0)"

lemma rd_or_0: "(if i < length ws then rd ws i else Some 0) = Some (limb_or_0 ws i)"
  by (simp add: rd_def limb_or_0_def)

lemma mval_take_Suc_or_0:
  "mval (take (Suc i) ws) = mval (take i ws) + LB ^ i * unat (limb_or_0 ws i)"
  by (simp add: limb_or_0_def mval_take_Suc)

lemma mag_add_limb_step:
  assumes "carry_inv v (\<lambda>i. mval (take i aw) + mval (take i bw)) i (w, c)" "i < length v"
  shows "wp (mag_add_limb aw bw (length aw) (length bw) i (w, c))
    (carry_inv v (\<lambda>i. mval (take i aw) + mval (take i bw)) (Suc i))"
proof -
  let ?a = "limb_or_0 aw i" and ?b = "limb_or_0 bw i"
  let ?s = "to128 ?a + to128 ?b + to128 c"
  have w: "length w = length v"
    using assms by (simp add: carry_inv_def)
  have "unat (lo64 ?s) + LB * unat (hi64 ?s) = (unat ?a + unat ?b) + unat c"
    by (simp add: lo64_hi64 unat_adc_128)
  then have "carry_inv v (\<lambda>i. mval (take i aw) + mval (take i bw)) (Suc i) (w[i := lo64 ?s], hi64 ?s)"
    by (rule carry_inv_step [OF assms]) (simp add: mval_take_Suc_or_0 algebra_simps)
  then show ?thesis
    using assms(2) w by (simp add: mag_add_limb_def rd_or_0 wp_simps)
qed

lemma mag_add_mag_of:
  assumes "max (bi_len a) (bi_len b) + 1 < LEN_LIM"
  shows "mag_add a b = Some (mag_of (mag a + mag b))"
proof (rule wp_eqI)
  define n where "n = max (bi_len a) (bi_len b)"
  let ?aw = "words a" and ?bw = "words b"
  let ?F = "\<lambda>i. mval (take i ?aw) + mval (take i ?bw)" and ?v = "replicate (Suc n) (0 :: u64)"
  have "wp (for_range 0 n (mag_add_limb ?aw ?bw (length ?aw) (length ?bw)) (?v, 0))
      (carry_inv ?v ?F n)"
    by (rule wp_for_range [where I = "carry_inv ?v ?F"])
      (auto intro: mag_add_limb_step, simp add: carry_inv_def)
  moreover have "length ?aw \<le> n" "length ?bw \<le> n" by (simp_all add: n_def bi_len_def)
  ultimately show "wp (mag_add a b) (\<lambda>r. r = mag_of (mag a + mag b))"
    using assms unfolding n_def [symmetric]
    by (auto simp: mag_add_def wp_simps Let_def alloc_raw_fresh carry_inv_def mag_def normalize_mag
        n_def [symmetric] mval_update_last simp flip: bi_len_def simp del: replicate.simps
        elim!: wp_mono)
qed

text \<open>What the borrow loop keeps.\<close>

definition borrow_inv :: "u64 list \<Rightarrow> u64 list \<Rightarrow> nat \<Rightarrow> u64 list \<times> u64 \<Rightarrow> bool" where
  "borrow_inv aw bw i = (\<lambda>(w, c). length w = length aw \<and> unat c \<le> Suc 0 \<and>
     mval (take i w) + mval (take i bw) = mval (take i aw) + LB ^ i * unat c)"

lemma mag_sub_limb_step:
  assumes "borrow_inv aw bw i (w, c)" "i < length aw"
  shows "wp (mag_sub_limb aw bw (length bw) i (w, c)) (borrow_inv aw bw (Suc i))"
proof -
  let ?b = "limb_or_0 bw i"
  let ?d = "to128 (aw ! i) - to128 ?b - to128 c"
  have w: "length w = length aw" "unat c \<le> Suc 0"
    using assms by (simp_all add: borrow_inv_def)
  have "mval (take (Suc i) (w[i := lo64 ?d])) + (mval (take i bw) + LB ^ i * unat ?b) =
      mval (take i aw) + LB ^ i * unat (aw ! i) + LB ^ Suc i * unat (borrow64 ?d)"
    by (rule limb_borrow_step [OF _ sbb_128 [OF w(2)]])
      (use assms w in \<open>simp_all add: borrow_inv_def\<close>)
  then have "borrow_inv aw bw (Suc i) (w[i := lo64 ?d], borrow64 ?d)"
    using w assms(2)
    by (simp add: borrow_inv_def mval_take_Suc_or_0 [of i bw] mval_take_Suc [of i aw])
  then show ?thesis
    using assms(2) w by (simp add: mag_sub_limb_def rd_or_0 wp_simps)
qed

lemma borrow_inv_end:
  assumes "borrow_inv aw bw (length aw) (w, c)" "mval bw \<le> mval aw"
  shows "mval w = mval aw - mval bw"
proof -
  let ?n = "length aw"
  have "mval bw = mval (take ?n bw) + LB ^ length (take ?n bw) * mval (drop ?n bw)"
    by (metis append_take_drop_id mval_append)
  moreover have "mval (drop ?n bw) = 0"
  proof (rule ccontr)
    assume d: "mval (drop ?n bw) \<noteq> 0"
    then have l: "?n \<le> length bw" by (cases "?n \<le> length bw") auto
    have "LB ^ ?n * 1 \<le> LB ^ ?n * mval (drop ?n bw)" using d by (intro mult_le_mono2) simp
    with calculation l have "LB ^ ?n \<le> mval bw"
      by (simp only: length_take min_absorb2 mult_1_right)
    with assms(2) mval_less [of aw] show False by simp
  qed
  ultimately have t: "mval (take ?n bw) = mval bw" by simp
  with assms(1) have e: "mval w + mval bw = mval aw + LB ^ ?n * unat c" "length w = ?n" "unat c \<le> Suc 0"
    by (auto simp: borrow_inv_def)
  moreover have "unat c = 0"
  proof (rule ccontr)
    assume "unat c \<noteq> 0"
    with e have "mval w + mval bw = mval aw + LB ^ ?n" by (simp add: le_Suc_eq)
    with mval_less [of w] e(2) assms(2) show False by simp
  qed
  ultimately show ?thesis by simp
qed

lemma mag_sub_mag_of:
  assumes "bi_len a < LEN_LIM" "bi_len b < LEN_LIM" "mag b \<le> mag a"
  shows "mag_sub a b = Some (mag_of (mag a - mag b))"
proof (rule wp_eqI)
  let ?aw = "words a" and ?bw = "words b"
  have "wp (for_range 0 (length ?aw) (mag_sub_limb ?aw ?bw (length ?bw)) (replicate (length ?aw) 0, 0))
      (borrow_inv ?aw ?bw (length ?aw))"
    by (rule wp_for_range [where I = "borrow_inv ?aw ?bw"])
      (auto intro: mag_sub_limb_step, simp add: borrow_inv_def)
  then obtain w c where loop: "for_range 0 (length ?aw) (mag_sub_limb ?aw ?bw (length ?bw))
      (replicate (length ?aw) 0, 0) = Some (w, c)" and inv: "borrow_inv ?aw ?bw (length ?aw) (w, c)"
    by (auto elim: wpE)
  have "length w = length ?aw" using inv by (simp add: borrow_inv_def)
  moreover have "mval w = mag a - mag b"
    using borrow_inv_end [OF inv] assms(3) by (simp add: mag_def)
  ultimately show "wp (mag_sub a b) (\<lambda>r. r = mag_of (mag a - mag b))"
    using loop assms(1,2)
    by (simp add: mag_sub_def Let_def alloc_raw_fresh normalize_mag) (simp add: bi_len_def normalize_mag)
qed

section \<open>Signed addition, subtraction and order\<close>

lemma normalize_signed:
  "length (limbs n) < LEN_LIM \<Longrightarrow> s = 0 \<or> s = 1 \<Longrightarrow>
   normalize (write_sign (mag_of n) s) = bi_of_int (if s = 0 then int n else - int n)"
  by (auto simp: mag_of_def normalize_fresh bi_of_int_def)

lemma length_limbs_add:
  "length (limbs (mag a + mag b)) \<le> max (bi_len a) (bi_len b) + 1"
proof -
  let ?n = "max (bi_len a) (bi_len b)"
  have "mag a < LB ^ ?n" "mag b < LB ^ ?n"
    using less_le_trans [OF mag_less [of a]] less_le_trans [OF mag_less [of b]]
    by (simp_all add: power_increasing)
  then have "mag a + mag b < 2 * LB ^ ?n" by simp
  also have "\<dots> \<le> LB * LB ^ ?n" by (intro mult_le_mono1) (simp add: LB_def)
  finally show ?thesis by (simp add: length_limbs_le)
qed

lemma length_limbs_mag: "m \<le> mag a \<Longrightarrow> length (limbs m) \<le> bi_len a"
  using mag_less [of a] by (simp add: length_limbs_le)

lemma normalize_mag_of_0: "normalize (mag_of 0) = bi_of_int 0"
  by (simp add: mag_of_def normalize_fresh bi_of_int_def)

lemmas signed_simps = read_sign_def Let_def mag_add_mag_of mag_sub_mag_of mag_cmp_canonical
  normalize_signed normalize_mag_of_0 bi_val_def sgn_if

lemma bigint_add_of_int:
  assumes "canonical a" "canonical b" "max (bi_len a) (bi_len b) + 1 < LEN_LIM"
  shows "bigint_add a b = Some (bi_of_int (bi_val a + bi_val b))"
proof -
  have "length (limbs (mag a + mag b)) < LEN_LIM"
    using length_limbs_add [of a b] assms(3) by linarith
  moreover have "length (limbs (mag a - mag b)) < LEN_LIM" "length (limbs (mag b - mag a)) < LEN_LIM"
    using length_limbs_mag [of "mag a - mag b" a] length_limbs_mag [of "mag b - mag a" b] assms(3)
    by (simp_all add: less_le_trans)
  ultimately show ?thesis
    using assms canonical_sign [OF assms(1)] canonical_sign [OF assms(2)]
    by (auto simp: bigint_add_def signed_simps split: if_splits)
qed

lemma bigint_sub_of_int:
  assumes "canonical a" "canonical b" "max (bi_len a) (bi_len b) + 1 < LEN_LIM"
  shows "bigint_sub a b = Some (bi_of_int (bi_val a - bi_val b))"
proof -
  have "length (limbs (mag a + mag b)) < LEN_LIM"
    using length_limbs_add [of a b] assms(3) by linarith
  moreover have "length (limbs (mag a - mag b)) < LEN_LIM" "length (limbs (mag b - mag a)) < LEN_LIM"
    using length_limbs_mag [of "mag a - mag b" a] length_limbs_mag [of "mag b - mag a" b] assms(3)
    by (simp_all add: less_le_trans)
  ultimately show ?thesis
    using assms canonical_sign [OF assms(1)] canonical_sign [OF assms(2)]
    by (auto simp: bigint_sub_def signed_simps split: if_splits)
qed

lemma bigint_cmp_sgn:
  assumes "canonical a" "canonical b"
  shows "bigint_cmp a b = Some (sgn (bi_val a - bi_val b))"
proof -
  have "read_len c = 0 \<longleftrightarrow> mag c = 0" if "canonical c" for c
    using that by (simp add: read_len_0 mag_0_iff)
  then show ?thesis
    using assms canonical_sign [OF assms(1)] canonical_sign [OF assms(2)]
      canonical_neg [OF assms(1)] canonical_neg [OF assms(2)]
    by (auto simp: bigint_cmp_def signed_simps)
qed

lemma bigint_eq_iff:
  assumes "canonical a" "canonical b"
  shows "bigint_eq a b = Some (if bi_val a = bi_val b then 1 else 0)"
  using bigint_cmp_sgn [OF assms] by (simp add: bigint_eq_def sgn_if)

section \<open>Properties\<close>

text \<open>C15: \<open>a + b\<close>: the sign dispatch, the limb addition with carry and the limb subtraction
  with borrow return the fresh canonical block of the integer sum, for every pair of canonical
  blocks whose result fits the 32-bit limb count; no access leaves its block.\<close>

theorem add_correct:
  assumes "canonical a" "canonical b" "max (bi_len a) (bi_len b) + 1 < LEN_LIM"
  shows "bigint_add a b = Some (bi_of_int (bi_val a + bi_val b))"
  using assms by (rule bigint_add_of_int)

lemma add_correct_witness:
  "bigint_add (bi_of_int (2 ^ 128 - 1)) (bi_of_int (- 5)) = Some (bi_of_int (2 ^ 128 - 6))"
  using add_correct [of "bi_of_int (2 ^ 128 - 1)" "bi_of_int (- 5)"]
    small_block [of "2 ^ 128 - 1"] small_block [of "- 5"]
  by (simp add: LEN_LIM_def)

text \<open>\<open>a - b\<close> returns the fresh canonical block of the integer difference.\<close>

theorem sub_correct:
  assumes "canonical a" "canonical b" "max (bi_len a) (bi_len b) + 1 < LEN_LIM"
  shows "bigint_sub a b = Some (bi_of_int (bi_val a - bi_val b))"
  using assms by (rule bigint_sub_of_int)

lemma sub_correct_witness:
  "bigint_sub (bi_of_int (2 ^ 64)) (bi_of_int (2 ^ 64)) = Some (bi_of_int 0)"
  using sub_correct [of "bi_of_int (2 ^ 64)" "bi_of_int (2 ^ 64)"] small_block [of "2 ^ 64"]
  by (simp add: LEN_LIM_def)

text \<open>The three-way comparison is the order of the integers, and equality agrees with it:
  on canonical blocks the sign test, the length test and the limb scan decide the order of the
  values.\<close>

theorem cmp_correct:
  assumes "canonical a" "canonical b"
  shows "bigint_cmp a b = Some (sgn (bi_val a - bi_val b)) \<and>
    bigint_eq a b = Some (if bi_val a = bi_val b then 1 else 0)"
  using bigint_cmp_sgn [OF assms] bigint_eq_iff [OF assms] by blast+

lemma cmp_correct_witness:
  "bigint_cmp (bi_of_int (- (2 ^ 64))) (bi_of_int 3) = Some (- 1) \<and>
   bigint_eq (bi_of_int (2 ^ 64)) (bi_of_int (2 ^ 64)) = Some 1"
  using cmp_correct [of "bi_of_int (- (2 ^ 64))" "bi_of_int 3"] small_block [of "- (2 ^ 64)"] small_block [of 3]
    cmp_correct [of "bi_of_int (2 ^ 64)" "bi_of_int (2 ^ 64)"] small_block [of "2 ^ 64"]
  by simp_all

end
