(* ===== verification/BigInt_Mul.thy ===== *)
theory BigInt_Mul
  imports BigInt_Arith
begin

text \<open>
  Multiplication (\<open>mul.rs\<close>): the schoolbook product, the split, add-at and
  subtract-in-place helpers, Karatsuba's recursion and the dispatcher between the
  two. The main lemma is that the dispatcher computes the product of the magnitudes,
  by whichever route, with every limb access inside its block.
\<close>

section \<open>The operations\<close>

definition KARATSUBA_THRESHOLD :: u32 where
  "KARATSUBA_THRESHOLD = 32"

definition mul_limb ::
  "u64 list \<Rightarrow> u64 list \<Rightarrow> nat \<Rightarrow> nat \<Rightarrow> u64 list \<times> u64 \<Rightarrow> (u64 list \<times> u64) option" where
  "mul_limb aw bw i j = (\<lambda>(rw, carry). do {
     r \<leftarrow> rd rw (i + j);
     x \<leftarrow> rd aw i;
     y \<leftarrow> rd bw j;
     let cur = to128 r + to128 x * to128 y + to128 carry;
     rw \<leftarrow> wr rw (i + j) (lo64 cur);
     Some (rw, hi64 cur)
   })"

definition mul_row :: "u64 list \<Rightarrow> u64 list \<Rightarrow> nat \<Rightarrow> nat \<Rightarrow> u64 list \<Rightarrow> u64 list option" where
  "mul_row aw bw nb i rw = do {
     (rw, carry) \<leftarrow> for_range 0 nb (mul_limb aw bw i) (rw, 0);
     t \<leftarrow> rd rw (i + nb);
     wr rw (i + nb) (t + carry)
   }"

definition mag_mul_schoolbook :: "bigint \<Rightarrow> bigint \<Rightarrow> bigint option" where
  "mag_mul_schoolbook a b = do {
     let na = read_len a;
     let nb = read_len b;
     let r = alloc_raw (na + nb);
     rw \<leftarrow> for_range 0 (unat na) (mul_row (words a) (words b) (unat nb)) (words r);
     Some (normalize (r\<lparr>words := rw\<rparr>))
   }"

text \<open>The copy loop from an offset: \<open>*dst.add(i) = *src.add(m + i)\<close>.\<close>

definition copy_words_from :: "u64 list \<Rightarrow> u64 list \<Rightarrow> nat \<Rightarrow> nat \<Rightarrow> u64 list option" where
  "copy_words_from dst src off n =
     for_range 0 n (\<lambda>i dst. do { v \<leftarrow> rd src (off + i); wr dst i v }) dst"

definition mag_split_at :: "bigint \<Rightarrow> u32 \<Rightarrow> (bigint \<times> bigint) option" where
  "mag_split_at a m = do {
     let alen = read_len a;
     let lo_len = min alen m;
     let hi_len = (if m \<le> alen then alen - m else 0);
     let lo = alloc_raw lo_len;
     lw \<leftarrow> (if lo_len > 0 then copy_words (words lo) (words a) (unat lo_len) else Some (words lo));
     let hi = alloc_raw hi_len;
     hw \<leftarrow> (if hi_len > 0 then copy_words_from (words hi) (words a) (unat m) (unat hi_len)
       else Some (words hi));
     Some (normalize (lo\<lparr>words := lw\<rparr>), normalize (hi\<lparr>words := hw\<rparr>))
   }"

definition add_at_limb ::
  "u64 list \<Rightarrow> nat \<Rightarrow> nat \<Rightarrow> u64 list \<times> u64 \<Rightarrow> (u64 list \<times> u64) option" where
  "add_at_limb aw off i = (\<lambda>(rw, carry). do {
     r \<leftarrow> rd rw (off + i);
     x \<leftarrow> rd aw i;
     let sum = to128 r + to128 x + to128 carry;
     rw \<leftarrow> wr rw (off + i) (lo64 sum);
     Some (rw, hi64 sum)
   })"

text \<open>
  The second loop runs while the carry is not zero and \<open>off + i < rlen\<close>. A zero
  carry ends it; here the remaining iterations then do nothing, as
  \<open>add_u32_limb\<close> does.
\<close>

definition mag_add_in_place_at :: "bigint \<Rightarrow> bigint \<Rightarrow> u32 \<Rightarrow> bigint option" where
  "mag_add_in_place_at result addend off = do {
     let rlen = unat (read_len result);
     let alen = unat (read_len addend);
     (rw, carry) \<leftarrow> for_range 0 alen (add_at_limb (words addend) (unat off)) (words result, 0);
     (rw, carry) \<leftarrow> for_range (unat off + alen) rlen add_u32_limb (rw, carry);
     Some (result\<lparr>words := rw\<rparr>)
   }"

definition sub_at_limb :: "u64 list \<Rightarrow> nat \<Rightarrow> u64 list \<times> u64 \<Rightarrow> (u64 list \<times> u64) option" where
  "sub_at_limb bw i = (\<lambda>(rw, borrow). do {
     x \<leftarrow> rd rw i;
     y \<leftarrow> rd bw i;
     let diff = to128 x - to128 y - to128 borrow;
     rw \<leftarrow> wr rw i (lo64 diff);
     Some (rw, borrow64 diff)
   })"

definition borrow_limb :: "nat \<Rightarrow> u64 list \<times> u64 \<Rightarrow> (u64 list \<times> u64) option" where
  "borrow_limb i = (\<lambda>(rw, borrow).
     if borrow = 0 then Some (rw, borrow) else do {
       x \<leftarrow> rd rw i;
       let diff = to128 x - to128 borrow;
       rw \<leftarrow> wr rw i (lo64 diff);
       Some (rw, borrow64 diff)
     })"

definition mag_sub_in_place :: "bigint \<Rightarrow> bigint \<Rightarrow> bigint option" where
  "mag_sub_in_place result b = do {
     let rlen = unat (read_len result);
     let blen = unat (read_len b);
     (rw, borrow) \<leftarrow> for_range 0 blen (sub_at_limb (words b)) (words result, 0);
     (rw, borrow) \<leftarrow> for_range blen rlen borrow_limb (rw, borrow);
     Some (result\<lparr>words := rw\<rparr>)
   }"

text \<open>
  Karatsuba's step, with the dispatcher it recurses through as an argument.
  \<open>m\<close> is \<open>n.div_ceil(2)\<close>.
\<close>

definition mag_mul_karatsuba ::
  "(bigint \<Rightarrow> bigint \<Rightarrow> bigint option) \<Rightarrow> bigint \<Rightarrow> bigint \<Rightarrow> bigint option" where
  "mag_mul_karatsuba mul a b = do {
     let na = read_len a;
     let nb = read_len b;
     let n = max na nb;
     let m = as_u32 ((unat n + 1) div 2);
     (al, ah) \<leftarrow> mag_split_at a m;
     (bl, bh) \<leftarrow> mag_split_at b m;
     z0 \<leftarrow> mul al bl;
     z2 \<leftarrow> mul ah bh;
     sum_a \<leftarrow> mag_add al ah;
     sum_b \<leftarrow> mag_add bl bh;
     z1 \<leftarrow> mul sum_a sum_b;
     z1 \<leftarrow> mag_sub_in_place z1 z0;
     z1 \<leftarrow> mag_sub_in_place z1 z2;
     let z1 = normalize z1;
     let r = alloc_raw (na + nb);
     r \<leftarrow> mag_add_in_place_at r z0 0;
     r \<leftarrow> mag_add_in_place_at r z1 m;
     r \<leftarrow> mag_add_in_place_at r z2 (2 * m);
     Some (normalize r)
   }"

section \<open>Schoolbook\<close>

lemma mval_update:
  "i < length xs \<Longrightarrow> mval (xs[i := v]) + LB ^ i * unat (xs ! i) = mval xs + LB ^ i * unat v"
proof (induction xs arbitrary: i)
  case (Cons x xs)
  show ?case
  proof (cases i)
    case (Suc j)
    with Cons have "mval (xs[j := v]) + LB ^ j * unat (xs ! j) = mval xs + LB ^ j * unat v" by simp
    then have "LB * (mval (xs[j := v]) + LB ^ j * unat (xs ! j)) = LB * (mval xs + LB ^ j * unat v)"
      by (simp only:)
    with Suc show ?thesis by (simp add: algebra_simps)
  qed simp
qed simp

text \<open>One limb of a carry chain that runs over the whole of \<open>w\<close> in place.\<close>

lemma mval_update_carry:
  assumes "k < length w" "unat lo + LB * unat hi = unat (w ! k) + x + unat c"
    and "mval w + LB ^ k * unat c = F"
  shows "mval (w[k := lo]) + LB ^ Suc k * unat hi = F + LB ^ k * x"
proof -
  have "mval (w[k := lo]) + LB ^ Suc k * unat hi + LB ^ k * unat (w ! k) =
      mval w + LB ^ k * (unat lo + LB * unat hi)"
    using mval_update [OF assms(1), of lo] by (simp add: algebra_simps)
  also have "\<dots> = F + LB ^ k * x + LB ^ k * unat (w ! k)"
    using assms(3) unfolding assms(2) by (simp add: algebra_simps)
  finally show ?thesis by simp
qed

definition row_inv :: "u64 list \<Rightarrow> nat \<Rightarrow> nat \<Rightarrow> (nat \<Rightarrow> nat) \<Rightarrow> nat \<Rightarrow> u64 list \<times> u64 \<Rightarrow> bool" where
  "row_inv bw L i F j = (\<lambda>(rw, c). length rw = L \<and> (\<forall>k. i + length bw \<le> k \<longrightarrow> k < L \<longrightarrow> rw ! k = 0) \<and>
     mval rw + LB ^ (i + j) * unat c = F j)"

lemma mul_limb_step:
  assumes "row_inv bw L i F j (rw, c)" "j < length bw" "i < length aw" "i + length bw \<le> L"
    and "F (Suc j) = F j + LB ^ (i + j) * (unat (aw ! i) * unat (bw ! j))"
  shows "wp (mul_limb aw bw i j (rw, c)) (row_inv bw L i F (Suc j))"
proof -
  let ?s = "to128 (rw ! (i + j)) + to128 (aw ! i) * to128 (bw ! j) + to128 c"
  have l: "i + j < length rw" using assms by (simp add: row_inv_def)
  have "unat (lo64 ?s) + LB * unat (hi64 ?s) =
      unat (rw ! (i + j)) + unat (aw ! i) * unat (bw ! j) + unat c"
    by (simp add: lo64_hi64 unat_mac_128)
  from mval_update_carry [OF l this, of "F j"]
  have "mval (rw[i + j := lo64 ?s]) + LB ^ (i + Suc j) * unat (hi64 ?s) = F (Suc j)"
    using assms(1,5) by (simp add: row_inv_def)
  then have "row_inv bw L i F (Suc j) (rw[i + j := lo64 ?s], hi64 ?s)"
    using assms(1,2) by (simp add: row_inv_def)
  then show ?thesis using assms(2,3) l by (simp add: mul_limb_def wp_simps)
qed

definition school_inv :: "u64 list \<Rightarrow> u64 list \<Rightarrow> nat \<Rightarrow> u64 list \<Rightarrow> bool" where
  "school_inv aw bw i rw \<longleftrightarrow> length rw = length aw + length bw \<and>
     (\<forall>k. i + length bw \<le> k \<longrightarrow> k < length rw \<longrightarrow> rw ! k = 0) \<and>
     mval rw = mval (take i aw) * mval bw"

lemma mul_row_step:
  assumes "school_inv aw bw i rw" "i < length aw"
  shows "wp (mul_row aw bw (length bw) i rw) (school_inv aw bw (Suc i))"
proof -
  let ?L = "length aw + length bw"
  define F where "F = (\<lambda>j. mval (take i aw) * mval bw + LB ^ i * unat (aw ! i) * mval (take j bw))"
  have F: "F (Suc j) = F j + LB ^ (i + j) * (unat (aw ! i) * unat (bw ! j))" if "j < length bw" for j
    using that by (simp add: F_def mval_take_Suc power_add algebra_simps)
  have "wp (for_range 0 (length bw) (mul_limb aw bw i) (rw, 0)) (row_inv bw ?L i F (length bw))"
    by (rule wp_for_range [where I = "row_inv bw ?L i F"])
      (use assms F in \<open>auto intro!: mul_limb_step\<close>, auto simp: row_inv_def F_def school_inv_def)
  then obtain rw' c where loop: "for_range 0 (length bw) (mul_limb aw bw i) (rw, 0) = Some (rw', c)"
    and inv: "row_inv bw ?L i F (length bw) (rw', c)" by (auto elim: wpE)
  let ?k = "i + length bw"
  have l: "?k < length rw'" "rw' ! ?k = 0" "length rw' = ?L"
    using inv assms(2) by (auto simp: row_inv_def)
  have "mval (rw'[?k := c]) = mval rw' + LB ^ ?k * unat c"
    using mval_update [OF l(1), of c] l(2) by simp
  also have "\<dots> = mval (take (Suc i) aw) * mval bw"
    using inv assms(2) by (simp add: row_inv_def F_def mval_take_Suc algebra_simps)
  finally have "school_inv aw bw (Suc i) (rw'[?k := c])"
    using inv l by (simp add: school_inv_def row_inv_def)
  then show ?thesis using loop l by (simp add: mul_row_def wp_simps)
qed

lemma mag_mul_schoolbook_mag_of:
  assumes "bi_len a + bi_len b < LEN_LIM"
  shows "mag_mul_schoolbook a b = Some (mag_of (mag a * mag b))"
proof (rule wp_eqI)
  let ?aw = "words a" and ?bw = "words b"
  have "wp (for_range 0 (length ?aw) (mul_row ?aw ?bw (length ?bw))
      (replicate (length ?aw + length ?bw) 0)) (school_inv ?aw ?bw (length ?aw))"
    by (rule wp_for_range [where I = "school_inv ?aw ?bw"])
      (auto intro: mul_row_step, auto simp: school_inv_def)
  then show "wp (mag_mul_schoolbook a b) (\<lambda>r. r = mag_of (mag a * mag b))"
    using assms
    by (auto simp: mag_mul_schoolbook_def wp_simps Let_def alloc_raw_fresh unat_add_len bi_len_def
        read_len_def school_inv_def mag_def normalize_mag elim!: wp_mono)
qed

section \<open>Split, add-at and subtract-in-place\<close>

lemma copy_words_from:
  assumes "off + n \<le> length src" "n \<le> length dst"
  shows "copy_words_from dst src off n = Some (take n (drop off src) @ drop n dst)"
proof (rule wp_eqI)
  show "wp (copy_words_from dst src off n) (\<lambda>r. r = take n (drop off src) @ drop n dst)"
    unfolding copy_words_from_def
    by (rule wp_for_range [where I = "\<lambda>i d. d = take i (drop off src) @ drop i dst"])
      (use assms in \<open>auto simp: wp_simps list_update_append take_Suc_conv_app_nth
         Cons_nth_drop_Suc [symmetric, of _ dst]\<close>)
qed

lemma unat_min_u32: "unat (min x y :: u32) = min (unat x) (unat y)"
  by (simp add: min_def word_le_nat_alt)

lemma mag_split_at_words:
  assumes "bi_len a < LEN_LIM"
  shows "mag_split_at a m =
    Some (mag_of (mval (take (unat m) (words a))), mag_of (mval (drop (unat m) (words a))))"
proof -
  let ?l = "min (bi_len a) (unat m)" and ?h = "bi_len a - unat m"
  have lo: "unat (min (read_len a) m) = ?l"
    using assms by (simp add: unat_min_u32)
  have hi: "unat (if m \<le> read_len a then read_len a - m else 0) = ?h"
    using assms by (simp add: unat_sub word_le_nat_alt)
  have lw: "(if x > 0 then copy_words (replicate (unat x) 0) (words a) (unat x)
      else Some (replicate (unat x) 0)) = Some (take (unat m) (words a))"
    if "unat x = ?l" for x :: u32
  proof (cases "x = 0")
    case True
    with that have "bi_len a = 0 \<or> unat m = 0" by (simp add: min_def split: if_splits)
    with True show ?thesis by (auto simp: bi_len_def)
  next
    case False
    with that show ?thesis by (auto simp: wp_copy_words bi_len_def word_gt_0 min_def)
  qed
  have hw: "(if x > 0 then copy_words_from (replicate (unat x) 0) (words a) (unat m) (unat x)
      else Some (replicate (unat x) 0)) = Some (drop (unat m) (words a))"
    if "unat x = ?h" for x :: u32
  proof (cases "x = 0")
    case True
    with that show ?thesis by (auto simp: bi_len_def)
  next
    case False
    then have "unat x \<noteq> 0" by (simp add: unat_eq_0)
    with that False show ?thesis by (simp add: copy_words_from bi_len_def word_gt_0)
  qed
  show ?thesis
    unfolding mag_split_at_def Let_def alloc_raw_fresh fresh_simps lw [OF lo] hw [OF hi]
    using assms by (simp add: normalize_mag bi_len_def)
qed

lemma mval_take_drop: "mval (take m ws) + LB ^ m * mval (drop m ws) = mval ws"
proof (cases "m \<le> length ws")
  case True
  then show ?thesis by (metis append_take_drop_id mval_append length_take min_absorb2)
qed simp

text \<open>A carry that runs through the whole block: what both loops of add-at keep.\<close>

definition ripple_inv :: "nat \<Rightarrow> nat \<Rightarrow> nat \<Rightarrow> u64 list \<times> u64 \<Rightarrow> bool" where
  "ripple_inv L F k = (\<lambda>(rw, c). length rw = L \<and> mval rw + LB ^ k * unat c = F)"

lemma add_at_limb_step:
  assumes "ripple_inv L (R + LB ^ off * mval (take i aw)) (off + i) (rw, c)"
    and "i < length aw" "off + length aw \<le> L"
  shows "wp (add_at_limb aw off i (rw, c))
    (ripple_inv L (R + LB ^ off * mval (take (Suc i) aw)) (Suc (off + i)))"
proof -
  let ?s = "to128 (rw ! (off + i)) + to128 (aw ! i) + to128 c"
  have l: "off + i < length rw" using assms by (simp add: ripple_inv_def)
  have "unat (lo64 ?s) + LB * unat (hi64 ?s) = unat (rw ! (off + i)) + unat (aw ! i) + unat c"
    by (simp add: lo64_hi64 unat_adc_128)
  from mval_update_carry [OF l this, of "R + LB ^ off * mval (take i aw)"] assms l
  show ?thesis
    by (simp add: add_at_limb_def wp_simps ripple_inv_def mval_take_Suc power_add algebra_simps)
qed

lemma add_ripple_step:
  assumes "ripple_inv L F k (rw, c)" "k < L"
  shows "wp (add_u32_limb k (rw, c)) (ripple_inv L F (Suc k))"
proof -
  let ?s = "to128 (rw ! k) + to128 c"
  have l: "k < length rw" using assms by (simp add: ripple_inv_def)
  have "unat (lo64 ?s) + LB * unat (hi64 ?s) = unat (rw ! k) + 0 + unat c"
    by (simp add: lo64_hi64 unat_adc2_128)
  from mval_update_carry [OF l this, of F] assms l
  show ?thesis by (auto simp: add_u32_limb_def wp_simps ripple_inv_def)
qed

lemma mag_add_in_place_at_spec:
  assumes "length ws < LEN_LIM" "unat off + bi_len b \<le> length ws"
    and "mval ws + LB ^ unat off * mag b < LB ^ length ws"
  shows "wp (mag_add_in_place_at (fresh s ws) b off)
    (\<lambda>r. \<exists>ws'. r = fresh s ws' \<and> length ws' = length ws \<and>
       mval ws' = mval ws + LB ^ unat off * mag b)"
proof -
  let ?o = "unat off" and ?L = "length ws" and ?bw = "words b"
  let ?F = "\<lambda>i. mval ws + LB ^ ?o * mval (take i ?bw)"
  have bl: "length ?bw = bi_len b" by (simp add: bi_len_def)
  have "wp (for_range 0 (bi_len b) (add_at_limb ?bw ?o) (ws, 0))
      (ripple_inv ?L (?F (bi_len b)) (?o + bi_len b))"
    by (rule wp_for_range [where I = "\<lambda>i. ripple_inv ?L (?F i) (?o + i)"])
      (use assms bl in \<open>auto intro!: add_at_limb_step\<close>, simp add: ripple_inv_def)
  then obtain rw c where loop1: "for_range 0 (bi_len b) (add_at_limb ?bw ?o) (ws, 0) = Some (rw, c)"
    and inv1: "ripple_inv ?L (?F (bi_len b)) (?o + bi_len b) (rw, c)" by (auto elim: wpE)
  have "wp (for_range (?o + bi_len b) ?L add_u32_limb (rw, c)) (ripple_inv ?L (?F (bi_len b)) ?L)"
    by (rule wp_for_range [where I = "ripple_inv ?L (?F (bi_len b))"])
      (use assms inv1 in \<open>auto intro!: add_ripple_step\<close>)
  then obtain rw' c' where loop2: "for_range (?o + bi_len b) ?L add_u32_limb (rw, c) = Some (rw', c')"
    and inv2: "ripple_inv ?L (?F (bi_len b)) ?L (rw', c')" by (auto elim: wpE)
  have F: "?F (bi_len b) = mval ws + LB ^ ?o * mag b" by (simp add: bl [symmetric] mag_def)
  have "unat c' = 0"
  proof (rule ccontr)
    assume "unat c' \<noteq> 0"
    then have "LB ^ ?L \<le> LB ^ ?L * unat c'" by simp
    with inv2 F assms(3) show False by (simp add: ripple_inv_def)
  qed
  with inv2 F have "length rw' = ?L" "mval rw' = mval ws + LB ^ ?o * mag b"
    by (simp_all add: ripple_inv_def)
  moreover have "bi_len b < LEN_LIM" using assms by linarith
  ultimately show ?thesis
    using loop1 loop2 assms(1) by (auto simp: mag_add_in_place_at_def Let_def intro!: exI [of _ rw'])
qed

lemma mval_update_borrow:
  assumes "k < length w" "unat lo + y + unat c = unat (w ! k) + LB * unat c'"
    and "mval w + n = m + LB ^ k * unat c"
  shows "mval (w[k := lo]) + (n + LB ^ k * y) = m + LB ^ Suc k * unat c'"
proof -
  have "mval (w[k := lo]) + (n + LB ^ k * y) + LB ^ k * unat (w ! k) =
      m + LB ^ k * (unat lo + y + unat c)"
    using mval_update [OF assms(1), of lo] assms(3) by (simp add: algebra_simps)
  also have "\<dots> = m + LB ^ Suc k * unat c' + LB ^ k * unat (w ! k)"
    unfolding assms(2) by (simp add: algebra_simps)
  finally show ?thesis by simp
qed

definition unripple_inv :: "nat \<Rightarrow> nat \<Rightarrow> nat \<Rightarrow> nat \<Rightarrow> u64 list \<times> u64 \<Rightarrow> bool" where
  "unripple_inv L m n k = (\<lambda>(rw, c). length rw = L \<and> unat c \<le> Suc 0 \<and>
     mval rw + n = m + LB ^ k * unat c)"

lemma sub_at_limb_step:
  assumes "unripple_inv L m (mval (take i bw)) i (rw, c)" "i < length bw" "length bw \<le> L"
  shows "wp (sub_at_limb bw i (rw, c)) (unripple_inv L m (mval (take (Suc i) bw)) (Suc i))"
proof -
  have l: "i < length rw" "unat c \<le> Suc 0" using assms by (auto simp: unripple_inv_def)
  from mval_update_borrow [OF l(1) sbb_128 [OF l(2)], of "mval (take i bw)" m "bw ! i"] assms l
  show ?thesis by (simp add: sub_at_limb_def wp_simps unripple_inv_def mval_take_Suc)
qed

lemma borrow_limb_step:
  assumes "unripple_inv L m n k (rw, c)" "k < L"
  shows "wp (borrow_limb k (rw, c)) (unripple_inv L m n (Suc k))"
proof -
  have l: "k < length rw" "unat c \<le> Suc 0" using assms by (auto simp: unripple_inv_def)
  have "unat (lo64 (to128 (rw ! k) - to128 c)) + 0 + unat c =
      unat (rw ! k) + LB * unat (borrow64 (to128 (rw ! k) - to128 c))"
    using sbb_128 [OF l(2), of "rw ! k" 0] by simp
  from mval_update_borrow [OF l(1) this, of n m] assms l
  show ?thesis by (auto simp: borrow_limb_def wp_simps unripple_inv_def)
qed

lemma mag_sub_in_place_spec:
  assumes "length ws < LEN_LIM" "bi_len b \<le> length ws" "mag b \<le> mval ws"
  shows "wp (mag_sub_in_place (fresh s ws) b)
    (\<lambda>r. \<exists>ws'. r = fresh s ws' \<and> length ws' = length ws \<and> mval ws' = mval ws - mag b)"
proof -
  let ?L = "length ws" and ?bw = "words b"
  have bl: "length ?bw = bi_len b" by (simp add: bi_len_def)
  have "wp (for_range 0 (bi_len b) (sub_at_limb ?bw) (ws, 0))
      (unripple_inv ?L (mval ws) (mval (take (bi_len b) ?bw)) (bi_len b))"
    by (rule wp_for_range [where I = "\<lambda>i. unripple_inv ?L (mval ws) (mval (take i ?bw)) i"])
      (use assms bl in \<open>auto intro!: sub_at_limb_step\<close>, simp add: unripple_inv_def)
  then obtain rw c where loop1: "for_range 0 (bi_len b) (sub_at_limb ?bw) (ws, 0) = Some (rw, c)"
    and inv1: "unripple_inv ?L (mval ws) (mag b) (bi_len b) (rw, c)"
    using bl by (auto simp: mag_def elim: wpE)
  have "wp (for_range (bi_len b) ?L borrow_limb (rw, c)) (unripple_inv ?L (mval ws) (mag b) ?L)"
    by (rule wp_for_range [where I = "unripple_inv ?L (mval ws) (mag b)"])
      (use assms inv1 in \<open>auto intro!: borrow_limb_step\<close>)
  then obtain rw' c' where loop2: "for_range (bi_len b) ?L borrow_limb (rw, c) = Some (rw', c')"
    and inv2: "unripple_inv ?L (mval ws) (mag b) ?L (rw', c')" by (auto elim: wpE)
  then have e: "length rw' = ?L" "mval rw' + mag b = mval ws + LB ^ ?L * unat c'"
    by (simp_all add: unripple_inv_def)
  have "unat c' = 0"
  proof (rule ccontr)
    assume "unat c' \<noteq> 0"
    then have "LB ^ ?L \<le> LB ^ ?L * unat c'" by simp
    with e mval_less [of rw'] assms(3) show False by simp
  qed
  with e have "mval rw' = mval ws - mag b" by simp
  moreover have "bi_len b < LEN_LIM" using assms by linarith
  ultimately show ?thesis
    using loop1 loop2 e(1) assms(1) by (auto simp: mag_sub_in_place_def Let_def intro!: exI [of _ rw'])
qed

section \<open>Karatsuba and the dispatcher\<close>

text \<open>
  The blocks Karatsuba recurses on have at most \<open>m + 1\<close> limbs, whatever the
  operands: this is what makes the recursion of the dispatcher well-founded.
\<close>

definition kara_m :: "bigint \<Rightarrow> bigint \<Rightarrow> nat" where
  "kara_m a b = (max (unat (read_len a)) (unat (read_len b)) + 1) div 2"

definition kara_arg :: "bigint \<Rightarrow> bigint \<Rightarrow> bigint \<Rightarrow> bigint \<Rightarrow> bool" where
  "kara_arg a b x y \<longleftrightarrow> max (bi_len x) (bi_len y) \<le> kara_m a b + 1 \<and>
     bi_len x + bi_len y \<le> 2 * (kara_m a b + 1)"

lemma kara_m_less: "kara_m a b + 1 < LEN_LIM"
proof -
  have "max (unat (read_len a)) (unat (read_len b)) < LEN_LIM" by simp
  moreover have "8 < LEN_LIM" by (simp add: LEN_LIM_def)
  ultimately show ?thesis unfolding kara_m_def by linarith
qed

lemma mag_split_at_len:
  assumes "mag_split_at a m = Some (lo, hi)" "unat (read_len a) \<le> 2 * unat m"
  shows "bi_len lo \<le> unat m" "bi_len hi \<le> unat m"
proof -
  have norm: "bi_len (normalize (fresh 0 ws)) \<le> unat x"
    if "length ws = unat x" for ws and x :: u32
    using that length_limbs_mval [of ws] by (simp add: normalize_mag mag_of_def)
  have len: "length w = length v" if "for_range i n (\<lambda>i d. do { u \<leftarrow> rd s (f i); wr d i u }) v = Some w"
    for w v s :: "u64 list" and i n f
    using that
  proof (induction i n "\<lambda>i (d :: u64 list). do { u \<leftarrow> rd s (f i); wr d i u }" v rule: for_range.induct)
    case (1 lo hi v)
    then show ?case
      by (cases "lo < hi")
        (auto simp: for_range_step Option.bind_eq_Some_conv wr_def split: if_splits)
  qed
  let ?x = "min (read_len a) m" and ?y = "if m \<le> read_len a then read_len a - m else 0 :: u32"
  have x: "unat ?x \<le> unat m" by (simp add: unat_min_u32)
  have y: "unat ?y \<le> unat m"
    using assms(2) by (auto simp: unat_sub word_le_nat_alt le_diff_conv)
  obtain lw hw where lo: "lo = normalize (fresh 0 lw)" "length lw = unat ?x"
    and hi: "hi = normalize (fresh 0 hw)" "length hw = unat ?y"
    using assms(1) unfolding mag_split_at_def Let_def alloc_raw_fresh fresh_simps
    by (auto simp: Option.bind_eq_Some_conv copy_words_def copy_words_from_def
        dest!: len split: if_splits)
  show "bi_len lo \<le> unat m" using norm [OF lo(2)] x lo(1) by simp
  show "bi_len hi \<le> unat m" using norm [OF hi(2)] y hi(1) by simp
qed

lemma unat_kara_m: "unat (as_u32 (kara_m a b)) = kara_m a b"
  using kara_m_less [of a b] by simp

lemma kara_m_bounds: "unat (read_len a) \<le> 2 * kara_m a b" "unat (read_len b) \<le> 2 * kara_m a b"
  by (simp_all add: kara_m_def)

lemma unat_max_u32: "unat (max x y :: u32) = max (unat x) (unat y)"
  by (simp add: max_def word_le_nat_alt)

lemma kara_sum_len:
  assumes "bi_len x \<le> kara_m a b" "bi_len y \<le> kara_m a b" "mag_add x y = Some s"
  shows "bi_len s \<le> kara_m a b + 1"
proof -
  have "max (bi_len x) (bi_len y) + 1 < LEN_LIM"
    using assms(1,2) kara_m_less [of a b] by simp
  then have "s = mag_of (mag x + mag y)" using assms(3) by (simp add: mag_add_mag_of)
  then show ?thesis
    using length_limbs_add [of x y] assms(1,2) by (simp add: mag_of_def)
qed

lemma mag_mul_karatsuba_unfold:
  "mag_mul_karatsuba mul a b = do {
     (al, ah) \<leftarrow> mag_split_at a (as_u32 (kara_m a b));
     (bl, bh) \<leftarrow> mag_split_at b (as_u32 (kara_m a b));
     z0 \<leftarrow> mul al bl;
     z2 \<leftarrow> mul ah bh;
     sum_a \<leftarrow> mag_add al ah;
     sum_b \<leftarrow> mag_add bl bh;
     z1 \<leftarrow> mul sum_a sum_b;
     z1 \<leftarrow> mag_sub_in_place z1 z0;
     z1 \<leftarrow> mag_sub_in_place z1 z2;
     r \<leftarrow> mag_add_in_place_at (alloc_raw (read_len a + read_len b)) z0 0;
     r \<leftarrow> mag_add_in_place_at r (normalize z1) (as_u32 (kara_m a b));
     r \<leftarrow> mag_add_in_place_at r z2 (2 * as_u32 (kara_m a b));
     Some (normalize r)
   }"
  by (simp add: mag_mul_karatsuba_def Let_def unat_max_u32 kara_m_def)

lemma mag_mul_karatsuba_cong [fundef_cong]:
  assumes "a = a'" "b = b'" "\<And>x y. kara_arg a' b' x y \<Longrightarrow> f x y = g x y"
  shows "mag_mul_karatsuba f a b = mag_mul_karatsuba g a' b'"
proof -
  let ?m = "as_u32 (kara_m a' b')"
  have fg: "f al bl = g al bl \<and> f ah bh = g ah bh \<and>
      (\<forall>sa sb. mag_add al ah = Some sa \<longrightarrow> mag_add bl bh = Some sb \<longrightarrow> f sa sb = g sa sb)"
    if sa: "mag_split_at a' ?m = Some (al, ah)" and sb: "mag_split_at b' ?m = Some (bl, bh)"
    for al ah bl bh
  proof -
    have len: "bi_len al \<le> kara_m a' b'" "bi_len ah \<le> kara_m a' b'"
        "bi_len bl \<le> kara_m a' b'" "bi_len bh \<le> kara_m a' b'"
      using mag_split_at_len [OF sa] mag_split_at_len [OF sb]
      by (simp_all add: unat_kara_m kara_m_bounds)
    have "f al bl = g al bl" "f ah bh = g ah bh"
      by (rule assms(3), use len in \<open>simp add: kara_arg_def\<close>)+
    moreover have "f s t = g s t" if "mag_add al ah = Some s" "mag_add bl bh = Some t" for s t
      by (rule assms(3)) (use kara_sum_len [OF len(1,2) that(1)] kara_sum_len [OF len(3,4) that(2)]
        in \<open>simp add: kara_arg_def\<close>)
    ultimately show ?thesis by blast
  qed
  show ?thesis
    unfolding mag_mul_karatsuba_unfold assms(1,2)
    by (intro Option.bind_cong refl) (use fg in \<open>auto intro!: Option.bind_cong\<close>)
qed

lemma kara_arg_decreases:
  assumes "\<not> min (read_len a) (read_len b) < KARATSUBA_THRESHOLD" "kara_arg a b x y"
  shows "max (unat (read_len x)) (unat (read_len y)) < max (unat (read_len a)) (unat (read_len b))"
proof -
  have "32 \<le> max (unat (read_len a)) (unat (read_len b))"
    using assms(1) by (auto simp: KARATSUBA_THRESHOLD_def word_le_nat_alt not_less)
  then have "kara_m a b + 1 < max (unat (read_len a)) (unat (read_len b))"
    unfolding kara_m_def by linarith
  moreover have "bi_len x < LEN_LIM" "bi_len y < LEN_LIM"
    using assms(2) kara_m_less [of a b] by (simp_all add: kara_arg_def)
  ultimately show ?thesis using assms(2) by (simp add: kara_arg_def)
qed

text \<open>\<open>mag_mul\<close>, the dispatcher; its size is the limb count of the longer operand.\<close>

function mag_mul :: "bigint \<Rightarrow> bigint \<Rightarrow> bigint option" where
  "mag_mul a b =
     (let na = read_len a; nb = read_len b in
      if na = 0 \<or> nb = 0 then Some (alloc_raw 0)
      else if min na nb < KARATSUBA_THRESHOLD then mag_mul_schoolbook a b
      else mag_mul_karatsuba mag_mul a b)"
  by pat_completeness auto
termination
  by (relation "measure (\<lambda>(a, b). max (unat (read_len a)) (unat (read_len b)))")
    (use kara_arg_decreases in \<open>auto simp del: max_less_iff_conj less_max_iff_disj\<close>)

declare mag_mul.simps [simp del]

definition bigint_mul :: "bigint \<Rightarrow> bigint \<Rightarrow> bigint option" where
  "bigint_mul a b = do {
     r \<leftarrow> mag_mul a b;
     let a_sign = read_sign a;
     let b_sign = read_sign b;
     let r_sign = (if a_sign XOR b_sign \<noteq> 0 then 1 else 0);
     let r = write_sign r r_sign;
     let r = (if read_len r = 0 then write_sign r 0 else r);
     Some (normalize r)
   }"

section \<open>The product\<close>

lemma length_limbs_shifted:
  assumes "LB ^ m * z < LB ^ k" "m \<le> k"
  shows "m + length (limbs z) \<le> k"
proof -
  have "LB ^ k = LB ^ m * LB ^ (k - m)" using assms(2) by (simp flip: power_add)
  with assms(1) have "z < LB ^ (k - m)" by simp
  then have "length (limbs z) \<le> k - m" by (simp add: length_limbs_le)
  with assms(2) show ?thesis by linarith
qed

lemma length_limbs_mono: "m \<le> n \<Longrightarrow> length (limbs m) \<le> length (limbs n)"
  using mval_less [of "limbs n"] by (simp add: length_limbs_le)

text \<open>The recombination of the three products.\<close>

lemma mag_sub_in_place_mag_of:
  assumes "length ws < LEN_LIM" "length (limbs z) \<le> length ws" "z \<le> mval ws"
  obtains ws' where "mag_sub_in_place (fresh 0 ws) (mag_of z) = Some (fresh 0 ws')"
    "length ws' = length ws" "mval ws' = mval ws - z"
  using mag_sub_in_place_spec [of ws "mag_of z" 0] assms
  by (auto simp: bi_len_def elim!: wpE)

lemma mag_add_in_place_at_mag_of:
  assumes "length ws < LEN_LIM" "mval ws + LB ^ unat off * z < LB ^ length ws" "unat off \<le> length ws"
  obtains ws' where "mag_add_in_place_at (fresh 0 ws) (mag_of z) off = Some (fresh 0 ws')"
    "length ws' = length ws" "mval ws' = mval ws + LB ^ unat off * z"
proof -
  have "unat off + length (limbs z) \<le> length ws"
    by (rule length_limbs_shifted) (use assms in auto)
  then show thesis
    using that mag_add_in_place_at_spec [of ws off "mag_of z" 0] assms
    by (auto simp: bi_len_def elim!: wpE)
qed

lemma kara_recombine:
  fixes x0 x1 y0 y1 :: nat
  assumes len: "L < LEN_LIM" and m: "unat m \<le> L" "unat (2 * m) = 2 * unat m" "2 * unat m \<le> L"
    and prod: "(x0 + LB ^ unat m * x1) * (y0 + LB ^ unat m * y1) < LB ^ L"
    and z1: "length (limbs ((x0 + x1) * (y0 + y1))) < LEN_LIM"
  shows "do {
     z1 \<leftarrow> mag_sub_in_place (mag_of ((x0 + x1) * (y0 + y1))) (mag_of (x0 * y0));
     z1 \<leftarrow> mag_sub_in_place z1 (mag_of (x1 * y1));
     r \<leftarrow> mag_add_in_place_at (fresh 0 (replicate L 0)) (mag_of (x0 * y0)) 0;
     r \<leftarrow> mag_add_in_place_at r (normalize z1) m;
     r \<leftarrow> mag_add_in_place_at r (mag_of (x1 * y1)) (2 * m);
     Some (normalize r) } =
   Some (mag_of ((x0 + LB ^ unat m * x1) * (y0 + LB ^ unat m * y1)))"
proof -
  let ?B = "LB ^ unat m" and ?s = "(x0 + x1) * (y0 + y1)" and ?c = "x0 * y1 + x1 * y0"
  have s: "?s = x0 * y0 + x1 * y1 + ?c" by (simp add: algebra_simps)
  have p: "(x0 + ?B * x1) * (y0 + ?B * y1) = x0 * y0 + ?B * ?c + LB ^ (2 * unat m) * (x1 * y1)"
    by (simp add: algebra_simps mult_2_right power_add)
  have b2: "LB ^ unat (2 * m) = LB ^ (2 * unat m)" using m by simp
  have rr: "x0 * y0 + ?B * ?c + LB ^ unat (2 * m) * (x1 * y1) = (x0 + ?B * x1) * (y0 + ?B * y1)"
    unfolding b2 p ..
  obtain w1 where w1: "mag_sub_in_place (fresh 0 (limbs ?s)) (mag_of (x0 * y0)) = Some (fresh 0 w1)"
    "length w1 = length (limbs ?s)" "mval w1 = x1 * y1 + ?c"
    by (rule mag_sub_in_place_mag_of [of "limbs ?s" "x0 * y0"]) (use z1 s length_limbs_mono in auto)
  obtain w2 where w2: "mag_sub_in_place (fresh 0 w1) (mag_of (x1 * y1)) = Some (fresh 0 w2)"
    "length w2 = length w1" "mval w2 = ?c"
    by (rule mag_sub_in_place_mag_of [of w1 "x1 * y1"])
      (use z1 s w1 length_limbs_mono [of "x1 * y1" ?s] in auto)
  obtain r0 where r0: "mag_add_in_place_at (fresh 0 (replicate L 0)) (mag_of (x0 * y0)) 0 = Some (fresh 0 r0)"
    "length r0 = L" "mval r0 = x0 * y0"
    by (rule mag_add_in_place_at_mag_of [of "replicate L 0" 0 "x0 * y0"])
      (use len prod p in auto)
  obtain r1 where r1: "mag_add_in_place_at (fresh 0 r0) (mag_of ?c) m = Some (fresh 0 r1)"
    "length r1 = L" "mval r1 = x0 * y0 + ?B * ?c"
    by (rule mag_add_in_place_at_mag_of [of r0 m ?c]) (use len prod p r0 m in auto)
  obtain r2 where r2: "mag_add_in_place_at (fresh 0 r1) (mag_of (x1 * y1)) (2 * m) = Some (fresh 0 r2)"
    "length r2 = L" "mval r2 = (x0 + ?B * x1) * (y0 + ?B * y1)"
  proof (rule mag_add_in_place_at_mag_of [of r1 "2 * m" "x1 * y1"])
    show "length r1 < LEN_LIM" "unat (2 * m) \<le> length r1" using len r1 m by simp_all
    show "mval r1 + LB ^ unat (2 * m) * (x1 * y1) < LB ^ length r1"
      unfolding r1 rr by (rule prod)
  qed (use r1 rr in simp)
  have "normalize (fresh 0 w2) = mag_of ?c"
    using w1(2) w2 z1 by (simp add: normalize_mag)
  then show ?thesis
    using w1 w2 r0 r1 r2 len by (simp add: mag_of_def [of ?s] normalize_mag)
qed

lemma mag_mul_mag_of:
  "bi_len a + bi_len b < LEN_LIM \<Longrightarrow> mag_mul a b = Some (mag_of (mag a * mag b))"
proof (induction a b rule: mag_mul.induct)
  case (1 a b)
  let ?m = "kara_m a b" and ?B = "LB ^ kara_m a b"
  have len: "bi_len a < LEN_LIM" "bi_len b < LEN_LIM" using "1.prems" by simp_all
  consider "words a = [] \<or> words b = []"
    | "words a \<noteq> []" "words b \<noteq> []" "min (read_len a) (read_len b) < KARATSUBA_THRESHOLD"
    | "words a \<noteq> []" "words b \<noteq> []" "\<not> min (read_len a) (read_len b) < KARATSUBA_THRESHOLD"
    by blast
  then show ?case
  proof cases
    case 1
    then show ?thesis
      using len by (auto simp: mag_mul.simps [of a b] read_len_0 mag_def)
  next
    case 2
    then show ?thesis
      using len "1.prems" by (simp add: mag_mul.simps [of a b] read_len_0 mag_mul_schoolbook_mag_of)
  next
    case 3
    have IH: "mag_mul x y = Some (mag_of (mag x * mag y))"
      if "kara_arg a b x y" "bi_len x + bi_len y < LEN_LIM" for x y
      by (rule "1.IH" [OF refl refl]) (use 3 len that in \<open>auto simp: read_len_0\<close>)
    have n: "32 \<le> bi_len a" "32 \<le> bi_len b"
      using 3 len by (auto simp: KARATSUBA_THRESHOLD_def word_le_nat_alt not_less unat_min_u32)
    have m: "?m = (max (bi_len a) (bi_len b) + 1) div 2" using len by (simp add: kara_m_def)
    have "2 * ?m + 3 \<le> bi_len a + bi_len b" unfolding m using n by (simp add: max_def) presburger
    then have m2: "2 * ?m \<le> bi_len a + bi_len b" "2 * (?m + 1) < LEN_LIM"
      using "1.prems" by simp_all
    define x0 x1 y0 y1 where xy: "x0 = mval (take ?m (words a))" "x1 = mval (drop ?m (words a))"
      "y0 = mval (take ?m (words b))" "y1 = mval (drop ?m (words b))"
    have ab: "mag a = x0 + ?B * x1" "mag b = y0 + ?B * y1"
      by (simp_all add: xy mag_def mval_take_drop)
    have "bi_len a \<le> 2 * ?m" "bi_len b \<le> 2 * ?m" unfolding m by linarith+
    then have part: "length (limbs x0) \<le> ?m" "length (limbs x1) \<le> ?m"
        "length (limbs y0) \<le> ?m" "length (limbs y1) \<le> ?m"
      unfolding xy
      by - (rule order_trans [OF length_limbs_mval], simp add: bi_len_def; fail)+
    have sum: "length (limbs (u + v)) \<le> ?m + 1"
      if "length (limbs u) \<le> ?m" "length (limbs v) \<le> ?m" for u v
      using length_limbs_add [of "mag_of u" "mag_of v"] that by (simp add: bi_len_def)
    have z: "mag_mul (mag_of u) (mag_of v) = Some (mag_of (u * v))"
      if "length (limbs u) \<le> ?m + 1" "length (limbs v) \<le> ?m + 1" for u v
      using IH [of "mag_of u" "mag_of v"] that m2(2) by (simp add: kara_arg_def bi_len_def)
    have add: "mag_add (mag_of u) (mag_of v) = Some (mag_of (u + v))"
      if "length (limbs u) \<le> ?m" "length (limbs v) \<le> ?m" for u v
      using mag_add_mag_of [of "mag_of u" "mag_of v"] that m2(2) by (simp add: bi_len_def)
    have "mag a * mag b < LB ^ (bi_len a + bi_len b)"
      unfolding power_add by (intro mult_strict_mono mag_less) simp_all
    moreover have "length (limbs ((x0 + x1) * (y0 + y1))) \<le> (?m + 1) + (?m + 1)"
      unfolding length_limbs_le power_add
      using sum [OF part(1,2)] sum [OF part(3,4)] by (intro mult_strict_mono) (simp_all add: length_limbs_le mult.commute)
    moreover have u: "unat (as_u32 ?m) = ?m" using m2 by simp
    moreover have "unat (2 * as_u32 ?m) = 2 * ?m"
      using unat_add_len [of "as_u32 ?m" "as_u32 ?m"] m2 u by simp
    ultimately have "mag_mul_karatsuba mag_mul a b = Some (mag_of (mag a * mag b))"
      using len "1.prems" m2 part sum [OF part(1,2)] sum [OF part(3,4)]
        kara_recombine [of "bi_len a + bi_len b" "as_u32 ?m" x0 x1 y0 y1]
      by (simp add: mag_mul_karatsuba_unfold mag_split_at_words unat_kara_m xy [symmetric] z add
          alloc_raw_fresh unat_add_len ab)
    with 3 len show ?thesis
      by (simp add: mag_mul.simps [of a b] read_len_0)
  qed
qed

lemma bigint_mul_of_int:
  assumes "canonical a" "canonical b" "bi_len a + bi_len b < LEN_LIM"
  shows "bigint_mul a b = Some (bi_of_int (bi_val a * bi_val b))"
proof -
  have "mag a * mag b < LB ^ (bi_len a + bi_len b)"
    unfolding power_add by (intro mult_strict_mono mag_less) simp_all
  then have "length (limbs (mag a * mag b)) < LEN_LIM"
    using assms(3) by (meson length_limbs_le le_less_trans)
  moreover have "nat (int (mag a) * int (mag b)) = mag a * mag b" "\<not> int (mag a) * int (mag b) < 0"
    by (simp_all flip: of_nat_mult)
  ultimately show ?thesis
    using assms(3) canonical_sign [OF assms(1)] canonical_sign [OF assms(2)]
      mag_0_iff [OF assms(1)] mag_0_iff [OF assms(2)]
    by (auto simp: bigint_mul_def mag_mul_mag_of read_sign_def Let_def normalize_signed bi_val_def
        mag_of_def normalize_fresh bi_of_int_def read_len_0)
qed

section \<open>Properties\<close>

text \<open>C5: \<open>a * b\<close>, through the dispatcher, the schoolbook loops and the Karatsuba recursion
  with its in-place additions and subtractions, returns the fresh canonical block of the integer
  product whenever the limb counts of the operands sum below \<open>2 ^ 32\<close>.\<close>

theorem mul_correct:
  assumes "canonical a" "canonical b" "bi_len a + bi_len b < LEN_LIM"
  shows "bigint_mul a b = Some (bi_of_int (bi_val a * bi_val b))"
  using assms by (rule bigint_mul_of_int)

lemma mul_correct_witness:
  "bigint_mul (bi_of_int (2 ^ 64 + 1)) (bi_of_int (- 3)) = Some (bi_of_int (- 3 * (2 ^ 64 + 1)))"
  using mul_correct [of "bi_of_int (2 ^ 64 + 1)" "bi_of_int (- 3)"]
    small_block [of "2 ^ 64 + 1"] small_block [of "- 3"]
  by (simp add: LEN_LIM_def)

text \<open>C19: the Karatsuba dispatcher computes what the schoolbook reference computes, for operands
  of every length, recursion included.\<close>

theorem karatsuba_schoolbook:
  assumes "bi_len a + bi_len b < LEN_LIM"
  shows "mag_mul a b = mag_mul_schoolbook a b"
  using assms mag_mul_mag_of mag_mul_schoolbook_mag_of by simp

lemma karatsuba_schoolbook_witness:
  "mag_mul (fresh 0 [7, 1]) (fresh 0 [5]) = mag_mul_schoolbook (fresh 0 [7, 1]) (fresh 0 [5])"
  by (rule karatsuba_schoolbook) (simp_all add: LEN_LIM_def)

end
