(* ===== verification/Limb_Bits.thy ===== *)
theory Limb_Bits
  imports BigInt_Core
begin

text \<open>
  The bits of a magnitude and the bits of its limbs: bit \<open>n\<close> of \<open>mval ws\<close> is bit
  \<open>n mod 64\<close> of limb \<open>n div 64\<close>. Also the length in bits of a natural number, and
  what setting one fresh bit adds to a value.
\<close>

section \<open>Bits of a limb list\<close>

lemma mval_Cons_bits: "take_bit 64 (mval (w # ws)) = unat w" "drop_bit 64 (mval (w # ws)) = mval ws"
  using unat_less_LB [of w] by (simp_all add: take_bit_eq_mod drop_bit_eq_div LB_def)

lemma bit_mval_Cons:
  "bit (mval (w # ws)) n = (if n < 64 then bit w n else bit (mval ws) (n - 64))"
proof (cases "n < 64")
  case True
  then have "bit (mval (w # ws)) n = bit (take_bit 64 (mval (w # ws))) n"
    by (simp add: bit_take_bit_iff del: mval.simps)
  with True show ?thesis by (simp only: mval_Cons_bits) (simp add: bit_unsigned_iff)
next
  case False
  then have "bit (mval (w # ws)) n = bit (drop_bit 64 (mval (w # ws))) (n - 64)"
    by (simp add: bit_drop_bit_eq o_def del: mval.simps)
  with False show ?thesis by (simp only: mval_Cons_bits) simp
qed

lemma bit_mval:
  "bit (mval ws) n \<longleftrightarrow> n div 64 < length ws \<and> bit (ws ! (n div 64)) (n mod 64)"
proof (induction ws arbitrary: n)
  case (Cons w ws)
  show ?case
  proof (cases "n < 64")
    case True
    then show ?thesis by (simp add: bit_mval_Cons del: mval.simps)
  next
    case False
    then obtain m where "n = m + 64" by (metis add.commute le_add_diff_inverse2 not_less)
    moreover have "(m + 64) div 64 = Suc (m div 64)" by simp
    ultimately show ?thesis by (simp add: bit_mval_Cons Cons.IH del: mval.simps)
  qed
qed simp

lemma bit_word_ge: "bit (w :: u64) n \<Longrightarrow> n < 64"
  using bit_imp_le_length by fastforce

lemma less_LB_bits: "n < LB ^ k \<longleftrightarrow> (\<forall>i \<ge> 64 * k. \<not> bit n i)"
proof -
  have "n < LB ^ k \<longleftrightarrow> take_bit (64 * k) n = n"
    by (simp add: take_bit_nat_eq_self_iff LB_power)
  also have "\<dots> \<longleftrightarrow> (\<forall>i. bit n i \<longrightarrow> i < 64 * k)"
    by (simp only: bit_eq_iff bit_take_bit_iff possible_bit_nat) blast
  finally show ?thesis by (meson not_le)
qed

section \<open>Length in bits\<close>

fun bitlen :: "nat \<Rightarrow> nat" where
  "bitlen n = (if n = 0 then 0 else Suc (bitlen (n div 2)))"

declare bitlen.simps [simp del]

lemma bitlen_0 [simp]: "bitlen 0 = 0"
  by (simp add: bitlen.simps)

lemma bitlen_pos: "n \<noteq> 0 \<Longrightarrow> bitlen n = Suc (bitlen (n div 2))"
  by (subst bitlen.simps) simp

lemma bitlen_upper: "n < 2 ^ bitlen n"
proof (induction n rule: bitlen.induct)
  case (1 n)
  then show ?case by (cases "n = 0") (auto simp: bitlen_pos)
qed

lemma bitlen_lower: "n \<noteq> 0 \<Longrightarrow> 2 ^ (bitlen n - 1) \<le> n"
proof (induction n rule: bitlen.induct)
  case (1 n)
  show ?case
  proof (cases "n div 2 = 0")
    case True
    with "1.prems" show ?thesis by (simp add: bitlen_pos)
  next
    case False
    with 1 have "2 ^ (bitlen (n div 2) - 1) \<le> n div 2" by simp
    then have "2 * 2 ^ (bitlen (n div 2) - 1) \<le> 2 * (n div 2)" by (rule mult_le_mono2)
    moreover have "2 * 2 ^ (bitlen (n div 2) - 1) = (2::nat) ^ bitlen (n div 2)"
      using False by (simp add: bitlen_pos)
    ultimately have "2 ^ bitlen (n div 2) \<le> n" by (simp add: le_trans)
    with "1.prems" show ?thesis by (simp add: bitlen_pos)
  qed
qed

lemma bitlen_unique: "2 ^ k \<le> n \<Longrightarrow> n < 2 ^ Suc k \<Longrightarrow> bitlen n = Suc k"
proof -
  assume n: "2 ^ k \<le> n" "n < 2 ^ Suc k"
  then have "n \<noteq> 0" by (metis le_zero_eq power_not_zero zero_neq_numeral)
  then have "2 ^ (bitlen n - 1) \<le> n" "n < 2 ^ bitlen n" "bitlen n \<noteq> 0"
    using bitlen_lower [of n] bitlen_upper [of n] bitlen_pos [of n] by simp_all
  then have "(2::nat) ^ (bitlen n - 1) < 2 ^ Suc k" "(2::nat) ^ k < 2 ^ bitlen n"
    using n by linarith+
  then have "bitlen n - 1 < Suc k" "k < bitlen n"
    by - (rule power_less_imp_less_exp [of "2::nat"], simp, assumption)+
  then show ?thesis by simp
qed

lemma bitlen_le: "bitlen n \<le> k \<longleftrightarrow> n < 2 ^ k"
proof
  assume "bitlen n \<le> k"
  then have "(2::nat) ^ bitlen n \<le> 2 ^ k" by (simp add: power_increasing)
  then show "n < 2 ^ k" using bitlen_upper [of n] by linarith
next
  assume n: "n < 2 ^ k"
  show "bitlen n \<le> k"
  proof (cases "n = 0")
    case False
    then have "(2::nat) ^ (bitlen n - 1) < 2 ^ k" using bitlen_lower n by (meson le_less_trans)
    then have "bitlen n - 1 < k" by (rule power_less_imp_less_exp [rotated]) simp
    then show ?thesis by linarith
  qed simp
qed

lemma bitlen_mval_snoc:
  assumes "w \<noteq> 0"
  shows "bitlen (mval (ws @ [w])) = 64 * length ws + bitlen (unat w)"
proof -
  let ?k = "bitlen (unat w) - 1"
  have w: "unat w \<noteq> 0" using assms by (simp add: unat_eq_0)
  then have k: "bitlen (unat w) = Suc ?k" by (simp add: bitlen_pos)
  have "2 ^ ?k \<le> unat w" "unat w + 1 \<le> 2 ^ Suc ?k"
    using bitlen_lower [OF w] bitlen_upper [of "unat w"] unfolding k [symmetric] by simp_all
  then have le: "LB ^ length ws * 2 ^ ?k \<le> LB ^ length ws * unat w"
    "LB ^ length ws * (unat w + 1) \<le> LB ^ length ws * 2 ^ Suc ?k"
    using mult_le_mono2 by blast+
  have "bitlen (mval (ws @ [w])) = Suc (64 * length ws + ?k)"
  proof (rule bitlen_unique)
    show "2 ^ (64 * length ws + ?k) \<le> mval (ws @ [w])"
      using trans_le_add2 [OF le(1), of "mval ws"] by (simp add: mval_append power_add LB_power)
    have "mval (ws @ [w]) < LB ^ length ws * (unat w + 1)"
      using mval_less [of ws] by (simp add: mval_append)
    also have "\<dots> \<le> LB ^ length ws * 2 ^ Suc ?k" by (rule le(2))
    finally show "mval (ws @ [w]) < 2 ^ Suc (64 * length ws + ?k)"
      by (simp add: power_add LB_power mult.left_commute)
  qed
  with k show ?thesis by simp
qed

section \<open>Setting and reading one bit\<close>

lemma add_fresh_bit:
  fixes q :: nat
  assumes "2 ^ Suc i dvd q"
  shows "q OR 2 ^ i = q + 2 ^ i"
proof -
  have "\<not> bit q i" using assms by (auto simp: bit_iff_odd elim!: dvdE)
  then show ?thesis
    by (subst disjunctive_add [symmetric]) (auto simp: bit_exp_iff)
qed

lemma mval_or_bit:
  assumes "i div 64 < length ws"
  shows "mval (ws[i div 64 := ws ! (i div 64) OR push_bit (i mod 64) 1]) = mval ws OR 2 ^ i"
proof (rule bit_eqI)
  fix n
  show "bit (mval (ws[i div 64 := ws ! (i div 64) OR push_bit (i mod 64) 1])) n = bit (mval ws OR 2 ^ i) n"
  proof (cases "n div 64 = i div 64")
    case True
    then have "n mod 64 = i mod 64 \<longleftrightarrow> n = i" by (metis div_mult_mod_eq)
    with True assms show ?thesis
      by (auto simp: bit_mval bit_or_iff bit_push_bit_iff bit_exp_iff bit_1_iff)
  next
    case False
    then show ?thesis by (auto simp: bit_mval bit_or_iff bit_exp_iff)
  qed
qed

lemma drop_bit_Suc_nat: "(n :: nat) div 2 ^ i = 2 * (n div 2 ^ Suc i) + of_bool (bit n i)"
proof -
  have "n div 2 ^ Suc i = n div 2 ^ i div 2" by (metis div_mult2_eq power_Suc2)
  moreover have "n div 2 ^ i mod 2 = of_bool (bit n i)"
    by (simp add: bit_iff_odd mod_2_eq_odd)
  ultimately show ?thesis using div_mult_mod_eq [of "n div 2 ^ i" 2] by simp
qed

end
