(* ===== verification/BigInt_Div.thy ===== *)
theory BigInt_Div
  imports BigInt_Mul Limb_Bits "HOL-Library.Signed_Division"
begin

text \<open>
  \<open>divmod.rs\<close>: the bit accessors, the bit-by-bit long division \<open>mag_divmod\<close>,
  and the operators \<open>/\<close>, \<open>%\<close>, \<open>**\<close> and unary \<open>-\<close>. Division by zero and
  negative exponents throw a RangeError: the thrown error is the \<open>Inl\<close> of the
  result, and \<open>None\<close> remains undefined behaviour.
\<close>

section \<open>Thrown errors\<close>

datatype js_error = RangeError string | SyntaxError string | TypeError string

type_synonym 'a outcome = "(js_error + 'a) option"

abbreviation throw :: "js_error \<Rightarrow> 'a outcome" where
  "throw e \<equiv> Some (Inl e)"

abbreviation ret :: "'a \<Rightarrow> 'a outcome" where
  "ret x \<equiv> Some (Inr x)"

section \<open>Bit accessors\<close>

lemma unat_half: "unat (drop_bit (Suc 0) h :: u64) = unat h div 2"
  by (simp add: drop_bit_eq_div unat_div)

function hi_bits_loop :: "u64 \<Rightarrow> u32 \<Rightarrow> u32" where
  "hi_bits_loop hi hi_bits =
     (if hi \<noteq> 0 then hi_bits_loop (drop_bit 1 hi) (hi_bits + 1) else hi_bits)"
  by pat_completeness auto
termination
  by (relation "measure (\<lambda>(hi, _). unat hi)")
    (auto simp: unat_half unat_gt_0)

declare hi_bits_loop.simps [simp del]

definition bit_count :: "bigint \<Rightarrow> u32 option" where
  "bit_count b =
     (let len = read_len b in
      if len = 0 then Some 0
      else do {
        hi \<leftarrow> rd (words b) (unat len - 1);
        let hi_bits = hi_bits_loop hi 0;
        Some ((len - 1) * 64 + hi_bits)
      })"

definition bit_at :: "bigint \<Rightarrow> u32 \<Rightarrow> u64 option" where
  "bit_at b i =
     (let limb = i div 64; off = i mod 64 in
      if limb \<ge> read_len b then Some 0
      else do { w \<leftarrow> rd (words b) (unat limb); Some (drop_bit (unat off) w AND 1) })"

definition shl_one_limb :: "nat \<Rightarrow> u64 list \<times> u64 \<Rightarrow> (u64 list \<times> u64) option" where
  "shl_one_limb i = (\<lambda>(w, carry). do {
     x \<leftarrow> rd w i;
     let next = drop_bit 63 x AND 1;
     w \<leftarrow> wr w i (push_bit 1 x OR carry);
     Some (w, next)
   })"

definition shl_inplace_one :: "bigint \<Rightarrow> bigint option" where
  "shl_inplace_one r = do {
     (w, carry) \<leftarrow> for_range 0 (unat (read_len r)) shl_one_limb (words r, 0);
     grow_carry r w carry
   }"

definition set_bit_big :: "bigint \<Rightarrow> u32 \<Rightarrow> bigint option" where
  "set_bit_big b i =
     (let limb = i div 64; off = i mod 64 in
      if limb \<ge> read_len b then Some b
      else do {
        x \<leftarrow> rd (words b) (unat limb);
        w \<leftarrow> wr (words b) (unat limb) (x OR push_bit (unat off) 1);
        Some (b\<lparr>words := w\<rparr>)
      })"

section \<open>Long division and the operators\<close>

text \<open>\<open>r |= 1\<close>, on a fresh one-limb block when \<open>r\<close> is still empty.\<close>

definition or_low_bit :: "bigint \<Rightarrow> bigint option" where
  "or_low_bit r =
     (if read_len r = 0 then do {
        let r = alloc_raw 1;
        w \<leftarrow> wr (words r) 0 1;
        Some (r\<lparr>words := w\<rparr>)
      } else do {
        x \<leftarrow> rd (words r) 0;
        w \<leftarrow> wr (words r) 0 (x OR 1);
        Some (r\<lparr>words := w\<rparr>)
      })"

definition divmod_step ::
  "bigint \<Rightarrow> bigint \<Rightarrow> nat \<Rightarrow> bigint \<times> bigint \<Rightarrow> (bigint \<times> bigint) option" where
  "divmod_step a b i = (\<lambda>(q, r). do {
     r \<leftarrow> shl_inplace_one r;
     bt \<leftarrow> bit_at a (as_u32 i);
     r \<leftarrow> (if bt \<noteq> 0 then or_low_bit r else Some r);
     c \<leftarrow> mag_cmp r b;
     if c \<ge> 0 then do {
       r \<leftarrow> mag_sub r b;
       q \<leftarrow> set_bit_big q (as_u32 i);
       Some (q, r)
     } else Some (q, r)
   })"

definition mag_divmod :: "bigint \<Rightarrow> bigint \<Rightarrow> (bigint \<times> bigint) option" where
  "mag_divmod a b = do {
     let a_len = read_len a;
     let q = alloc_raw a_len;
     let r = alloc_raw 0;
     c \<leftarrow> mag_cmp a b;
     if c < 0 then do {
       let r_clone = alloc_raw a_len;
       w \<leftarrow> (if a_len > 0 then copy_words (words r_clone) (words a) (unat a_len)
             else Some (words r_clone));
       Some (q, r_clone\<lparr>words := w\<rparr>)
     } else do {
       a_bits \<leftarrow> bit_count a;
       (q, r) \<leftarrow> for_down (unat a_bits) (divmod_step a b) (q, r);
       Some (normalize q, normalize r)
     }
   }"

definition div_zero_msg :: string where
  "div_zero_msg = ''0 is an invalid divisor value.''"

definition bigint_div :: "bigint \<Rightarrow> bigint \<Rightarrow> bigint outcome" where
  "bigint_div a b =
     (if read_len b = 0 then throw (RangeError div_zero_msg)
      else do {
        (q, r) \<leftarrow> mag_divmod a b;
        let a_sign = read_sign a;
        let b_sign = read_sign b;
        let q_sign = (if a_sign XOR b_sign \<noteq> 0 then 1 else 0);
        ret (normalize (write_sign q q_sign))
      })"

definition bigint_mod :: "bigint \<Rightarrow> bigint \<Rightarrow> bigint outcome" where
  "bigint_mod a b =
     (if read_len b = 0 then throw (RangeError div_zero_msg)
      else do {
        (q, r) \<leftarrow> mag_divmod a b;
        let a_sign = read_sign a;
        ret (normalize (write_sign r a_sign))
      })"

text \<open>
  \<open>pow\<close> reaches multiplication through an \<open>extern "C"\<close> declaration: the
  multiplication is an argument of the loop and of \<open>bigint_pow_with\<close>, which
  \<open>bigint_pow\<close> links to \<open>bigint_mul\<close>.
\<close>

definition pow_step ::
  "(bigint \<Rightarrow> bigint \<Rightarrow> bigint option) \<Rightarrow> bigint \<Rightarrow> u32 \<Rightarrow> nat \<Rightarrow> bigint \<times> bigint \<Rightarrow>
    (bigint \<times> bigint) option" where
  "pow_step mul ex e_bits i = (\<lambda>(result, cur). do {
     bt \<leftarrow> bit_at ex (as_u32 i);
     result \<leftarrow> (if bt \<noteq> 0 then mul result cur else Some result);
     cur \<leftarrow> (if as_u32 i + 1 < e_bits then mul cur cur else Some cur);
     Some (result, cur)
   })"

definition bigint_pow_with ::
  "(bigint \<Rightarrow> bigint \<Rightarrow> bigint option) \<Rightarrow> bigint \<Rightarrow> bigint \<Rightarrow> bigint outcome" where
  "bigint_pow_with mul base ex =
     (if read_sign ex \<noteq> 0 then throw (RangeError ''BigInt negative exponent'')
      else do {
        let result = alloc_raw 1;
        w \<leftarrow> wr (words result) 0 1;
        let result = result\<lparr>words := w\<rparr>;
        if read_len ex = 0 then ret result
        else do {
          let base_len = read_len base;
          let cur = alloc_raw base_len;
          w \<leftarrow> (if base_len > 0 then copy_words (words cur) (words base) (unat base_len)
                else Some (words cur));
          let cur = cur\<lparr>words := w\<rparr>;
          exp_lo \<leftarrow> rd (words ex) 0;
          let result_sign = (if read_sign base \<noteq> 0 \<and> exp_lo AND 1 \<noteq> 0 then 1 else 0);
          e_bits \<leftarrow> bit_count ex;
          (result, cur) \<leftarrow> for_range 0 (unat e_bits) (pow_step mul ex e_bits) (result, cur);
          ret (normalize (write_sign result (if read_len result = 0 then 0 else result_sign)))
        }
      })"

definition bigint_pow :: "bigint \<Rightarrow> bigint \<Rightarrow> bigint outcome" where
  "bigint_pow = bigint_pow_with bigint_mul"

definition bigint_neg :: "bigint \<Rightarrow> bigint option" where
  "bigint_neg a = do {
     let len = read_len a;
     let r = alloc_raw len;
     w \<leftarrow> (if len > 0 then copy_words (words r) (words a) (unat len) else Some (words r));
     let new_sign = (if len = 0 then 0 else if read_sign a = 0 then 1 else 0);
     Some (write_sign (r\<lparr>words := w\<rparr>) new_sign)
   }"


section \<open>The bit accessors on magnitudes\<close>

lemma hi_bits_loop_bitlen: "hi_bits_loop h acc = acc + as_u32 (bitlen (unat h))"
proof (induction h acc rule: hi_bits_loop.induct)
  case (1 h acc)
  show ?case
  proof (cases "h = 0")
    case True
    then show ?thesis by (simp add: hi_bits_loop.simps as_u32_def)
  next
    case False
    then have "bitlen (unat h) = Suc (bitlen (unat (drop_bit 1 h)))"
      by (simp add: unat_half bitlen_pos unat_eq_0)
    with 1 [OF False] False show ?thesis
      by (simp add: hi_bits_loop.simps [of h] as_u32_def algebra_simps)
  qed
qed

lemma bitlen_mag_le: "bitlen (mag b) \<le> 64 * bi_len b"
  unfolding bitlen_le LB_power by (rule mag_less)

lemma bit_count_mag:
  assumes "canonical b" "64 * bi_len b < LEN_LIM"
  shows "bit_count b = Some (as_u32 (bitlen (mag b)))"
proof (cases "words b" rule: rev_cases)
  case Nil
  then show ?thesis
    using assms by (simp add: bit_count_def read_len_0 mag_def as_u32_def)
next
  case (snoc ws w)
  have w: "w \<noteq> 0" using assms(1) snoc by (simp add: canonical_def)
  have l: "bi_len b = Suc (length ws)" "read_len b = as_u32 (Suc (length ws))"
    using snoc by (simp_all add: bi_len_def read_len_def)
  have "(read_len b - 1) * 64 + as_u32 (bitlen (unat w)) = as_u32 (bitlen (mag b))"
    unfolding mag_def snoc bitlen_mval_snoc [OF w] l(2) by (simp add: as_u32_def)
  then show ?thesis
    using assms snoc l(1) by (simp add: bit_count_def read_len_0 rd_def hi_bits_loop_bitlen)
qed

lemma unat_div64: "unat (i div 64 :: u32) = unat i div 64" "unat (i mod 64 :: u32) = unat i mod 64"
  by (simp_all add: unat_div unat_mod)

lemma and_1_bit: "drop_bit n w AND 1 = (of_bool (bit w n) :: u64)"
  by (simp add: and_one_eq bit_iff_odd_drop_bit mod_2_eq_odd)

lemma bit_at_mag:
  assumes "bi_len b < LEN_LIM"
  shows "bit_at b i = Some (of_bool (bit (mag b) (unat i)))"
proof -
  have "i div 64 \<ge> read_len b \<longleftrightarrow> \<not> unat i div 64 < length (words b)"
    using assms read_len [OF assms] by (auto simp: word_le_nat_alt unat_div64 bi_len_def)
  then show ?thesis
    by (auto simp: bit_at_def Let_def rd_def unat_div64 and_1_bit mag_def bit_mval)
qed

lemma unat_add_64: "unat x + unat y < LB \<Longrightarrow> unat (x + y :: u64) = unat x + unat y"
  by (simp add: unat_word_ariths LB_def)

lemma shl_limb_value:
  assumes "unat c \<le> Suc 0"
  shows "unat (push_bit 1 x OR c) + LB * unat (drop_bit 63 x AND 1) = 2 * unat x + unat (c :: u64)"
proof -
  have "unat c = unat (0 :: u64) \<or> unat c = unat (1 :: u64)" using assms by auto
  then have "c = 0 \<or> c = 1" by (simp only: word_unat_eq_iff)
  then have "push_bit 1 x OR c = push_bit 1 x + c"
    by (intro disjunctive_add [symmetric]) (auto simp: bit_push_bit_iff bit_1_iff bit_0)
  moreover have "unat (push_bit 1 x) = 2 * unat x mod LB"
    by (simp add: push_bit_eq_mult unat_word_ariths LB_def mult.commute)
  moreover have "2 * unat x mod LB + unat c < LB"
  proof -
    have less: "r + d < L" if "even r" "r < L" "even L" "d \<le> Suc 0" for r d L :: nat
      using that by presburger
    have "even (2 * unat x mod LB)" by (simp add: LB_def dvd_mod_iff)
    moreover have "2 * unat x mod LB < LB" "even LB" by (simp_all add: LB_def)
    ultimately show ?thesis using assms less by blast
  qed
  ultimately have "unat (push_bit 1 x OR c) = 2 * unat x mod LB + unat c"
    by (simp only: unat_add_64)
  moreover have "unat (drop_bit 63 x AND 1) = 2 * unat x div LB"
  proof -
    have "unat (drop_bit 63 x AND 1) = unat x div 2 ^ 63 mod 2"
      unfolding and_one_eq unat_mod unat_drop_bit_eq by (simp add: drop_bit_eq_div)
    also have "unat x div 2 ^ 63 < 2" using unat_less_LB [of x] by (simp add: LB_def less_mult_imp_div_less)
    then have "unat x div 2 ^ 63 mod 2 = unat x div 2 ^ 63" by simp
    also have "\<dots> = 2 * unat x div LB" by (simp add: LB_def)
    finally show ?thesis .
  qed
  ultimately show ?thesis
    by simp
qed


lemma shl_one_limb_step:
  assumes "carry_inv v (\<lambda>i. 2 * mval (take i v)) i (w, c) \<and> unat c \<le> Suc 0" "i < length v"
  shows "wp (shl_one_limb i (w, c))
    (\<lambda>p. carry_inv v (\<lambda>i. 2 * mval (take i v)) (Suc i) p \<and> unat (snd p) \<le> Suc 0)"
proof -
  let ?x = "v ! i" and ?n = "drop_bit 63 (v ! i) AND 1"
  have w: "length w = length v" "w ! i = v ! i"
    using assms drop_eq_nth [of i w v] by (simp_all add: carry_inv_def)
  have "unat (push_bit 1 ?x OR c) + LB * unat ?n = 2 * unat ?x + unat c"
    by (rule shl_limb_value) (use assms in simp)
  then have "carry_inv v (\<lambda>i. 2 * mval (take i v)) (Suc i) (w[i := push_bit 1 ?x OR c], ?n)"
    by (rule carry_inv_step [OF conjunct1 [OF assms(1)] assms(2)])
      (simp add: mval_take_Suc assms(2) algebra_simps)
  then show ?thesis
    using assms(2) w by (simp add: shl_one_limb_def wp_simps and_1_bit)
qed

lemma shl_inplace_one_limbs:
  assumes "length (limbs n) + 1 < LEN_LIM"
  shows "shl_inplace_one (fresh s (limbs n)) = Some (fresh s (limbs (2 * n)))"
proof -
  let ?v = "limbs n" and ?F = "\<lambda>i. 2 * mval (take i (limbs n))"
  have "wp (for_range 0 (length ?v) shl_one_limb (?v, 0)) (carry_inv ?v ?F (length ?v))"
    by (rule wp_for_range [where I = "\<lambda>i p. carry_inv ?v ?F i p \<and> unat (snd p) \<le> Suc 0"])
      (auto intro: shl_one_limb_step, simp add: carry_inv_def)
  then show ?thesis
    using assms carry_inv_grow [of n ?F] by (auto simp: shl_inplace_one_def elim!: wpE)
qed

lemma set_bit_big_mval:
  assumes "bi_len b < LEN_LIM" "unat i < 64 * bi_len b" "2 ^ Suc (unat i) dvd mag b"
  shows "set_bit_big b i = Some (b\<lparr>words := (words b)[unat i div 64 :=
      words b ! (unat i div 64) OR push_bit (unat i mod 64) 1]\<rparr>)"
    and "mval ((words b)[unat i div 64 := words b ! (unat i div 64) OR push_bit (unat i mod 64) 1])
      = mag b + 2 ^ unat i"
proof -
  have i: "unat i div 64 < length (words b)"
    using assms(2) by (simp add: bi_len_def less_mult_imp_div_less mult.commute)
  then have "\<not> i div 64 \<ge> read_len b"
    using assms(1) read_len [OF assms(1)] by (auto simp: word_le_nat_alt unat_div64 bi_len_def)
  with i show "set_bit_big b i = Some (b\<lparr>words := (words b)[unat i div 64 :=
      words b ! (unat i div 64) OR push_bit (unat i mod 64) 1]\<rparr>)"
    by (simp add: set_bit_big_def Let_def rd_def wr_def unat_div64)
  show "mval ((words b)[unat i div 64 := words b ! (unat i div 64) OR push_bit (unat i mod 64) 1])
      = mag b + 2 ^ unat i"
    using mval_or_bit [OF i] add_fresh_bit [OF assms(3)] by (simp add: mag_def)
qed

section \<open>Long division\<close>

text \<open>
  What the division loop keeps: above bit \<open>i\<close>, \<open>q\<close> holds the quotient bits and \<open>r\<close>
  the remainder of the part of the dividend read so far.
\<close>

definition divmod_inv :: "nat \<Rightarrow> nat \<Rightarrow> nat \<Rightarrow> nat \<Rightarrow> bigint \<times> bigint \<Rightarrow> bool" where
  "divmod_inv A B n i = (\<lambda>(q, r). \<exists>qw. q = fresh 0 qw \<and> length qw = n \<and>
     mval qw = 2 ^ i * (A div 2 ^ i div B) \<and> r = mag_of (A div 2 ^ i mod B))"

lemma or_1_limbs:
  assumes "n \<noteq> 0"
  shows "(limbs (2 * n))[0 := limbs (2 * n) ! 0 OR 1] = limbs (2 * n + 1)"
proof -
  let ?w = "limbs (2 * n)"
  have l: "?w \<noteq> []" using assms by simp
  have "mval (?w[0 div 64 := ?w ! (0 div 64) OR push_bit (0 mod 64) 1]) = 2 * n OR 2 ^ 0"
    using mval_or_bit [of 0 ?w] l by simp
  also have "\<dots> = 2 * n + 1" using add_fresh_bit [of 0 "2 * n"] by simp
  finally have v: "mval (?w[0 := ?w ! 0 OR 1]) = 2 * n + 1" by simp
  show ?thesis
    by (rule limbs_eqI [symmetric, OF v]) (use length_limbs_lower [of "2 * n"] assms in auto)
qed

lemma limbs_1: "limbs (Suc 0) = [1]"
  by (simp add: limbs_pos)

lemma length_limbs_double:
  assumes "length (limbs n) + 1 < LEN_LIM"
  shows "length (limbs (2 * n)) < LEN_LIM"
proof -
  have "n < LB ^ length (limbs n)" using length_limbs_le by blast
  then have "2 * n < LB ^ (length (limbs n) + 1)" by (simp add: LB_def)
  then show ?thesis using assms by (metis length_limbs_le le_less_trans)
qed

lemma shl_inplace_one_mag_of:
  "length (limbs n) + 1 < LEN_LIM \<Longrightarrow> shl_inplace_one (mag_of n) = Some (mag_of (2 * n))"
  by (simp add: mag_of_def shl_inplace_one_limbs)

text \<open>Shifting the next dividend bit into the even remainder.\<close>

lemma or_low_bit_even:
  assumes "length (limbs (2 * n)) < LEN_LIM"
  shows "or_low_bit (mag_of (2 * n)) = Some (mag_of (2 * n + 1))"
  using assms or_1_limbs [of n]
  by (cases "n = 0")
    (auto simp: or_low_bit_def mag_of_def read_len_0 alloc_raw_fresh wr_def rd_def limbs_1)

lemma div_mod_by_sub:
  fixes u B k :: nat
  assumes "u < 2 * B" "B \<noteq> 0"
  shows "(B * k + u) div B = (if B \<le> u then Suc k else k)"
    "(B * k + u) mod B = (if B \<le> u then u - B else u)"
  using assms by (simp_all add: div_nat_eqI le_mod_geq)

lemma divmod_inv_step:
  assumes "divmod_inv (mag a) (mag b) (bi_len a) (Suc i) (q, r)" "i < 64 * bi_len a"
    and "canonical b" "mag b \<noteq> 0" "bi_len b + 1 < LEN_LIM" "64 * bi_len a < LEN_LIM"
  shows "wp (divmod_step a b i (q, r)) (divmod_inv (mag a) (mag b) (bi_len a) i)"
proof -
  let ?A = "mag a" and ?B = "mag b"
  define h t :: nat where "h = ?A div 2 ^ Suc i" and "t = of_bool (bit ?A i)"
  have A: "?A div 2 ^ i = 2 * h + t" unfolding h_def t_def by (rule drop_bit_Suc_nat)
  obtain qw where q: "q = fresh 0 qw" "length qw = bi_len a" "mval qw = 2 ^ Suc i * (h div ?B)"
    and r: "r = mag_of (h mod ?B)"
    using assms(1) by (auto simp: divmod_inv_def h_def)
  have i: "unat (as_u32 i) = i" using assms by simp
  have len: "bi_len a < LEN_LIM" using assms(6) by simp
  have "h mod ?B < ?B" "t \<le> 1" using assms(4) by (simp_all add: t_def)
  then have "h mod ?B < LB ^ bi_len b" "2 * (h mod ?B) + t < 2 * ?B"
    using mag_less [of b] by linarith+
  then have l: "length (limbs (h mod ?B)) + 1 < LEN_LIM"
    using assms(5) by (metis add_le_mono1 le_less_trans length_limbs_le)
  define u where "u = 2 * (h mod ?B) + t"
  have "2 * h = 2 * (?B * (h div ?B) + h mod ?B)" by simp
  then have u: "u < 2 * ?B" "2 * h + t = ?B * (2 * (h div ?B)) + u"
    using \<open>2 * (h mod ?B) + t < 2 * ?B\<close> unfolding u_def distrib_left by linarith+
  have "u < LB ^ Suc (bi_len b)"
    using u(1) mag_less [of b] by (auto simp: LB_def)
  then have lu: "length (limbs u) < LEN_LIM" using assms(5) by (metis Suc_eq_plus1 le_less_trans length_limbs_le)
  have cmp: "mag_cmp (mag_of u) b = Some (sgn (int u - int ?B))"
    by (rule mag_cmp_limbs) (use assms lu in \<open>simp_all add: mag_of_mag bi_len_def\<close>)
  have step: "divmod_step a b i (q, r) =
      (if ?B \<le> u then do { r \<leftarrow> mag_sub (mag_of u) b; q \<leftarrow> set_bit_big q (as_u32 i); Some (q, r) }
       else Some (q, mag_of u))"
    using assms(2,6) l len i or_low_bit_even [OF length_limbs_double [OF l]] cmp
    by (auto simp: divmod_step_def r shl_inplace_one_mag_of bit_at_mag u_def t_def sgn_if)
  show ?thesis
  proof (cases "?B \<le> u")
    case True
    obtain qw' where "set_bit_big q (as_u32 i) = Some (fresh 0 qw')" "length qw' = bi_len a"
      "mval qw' = 2 ^ i * Suc (2 * (h div ?B))"
      using set_bit_big_mval [of q "as_u32 i"] q i len assms(2) by simp
    moreover have "mag_sub (mag_of u) b = Some (mag_of (u - ?B))"
      using mag_sub_mag_of [of "mag_of u" b] True lu assms(5) by (simp add: bi_len_def)
    ultimately show ?thesis
      using True unfolding step divmod_inv_def A u(2) div_mod_by_sub [OF u(1) assms(4)] by simp
  next
    case False
    then show ?thesis
      using q unfolding step divmod_inv_def A u(2) div_mod_by_sub [OF u(1) assms(4)] by simp
  qed
qed


lemma mag_divmod_mag_of:
  assumes "canonical a" "canonical b" "mag b \<noteq> 0" "64 * bi_len a < LEN_LIM"
  shows "wp (mag_divmod a b) (\<lambda>(q, r). \<exists>qw rw. q = fresh 0 qw \<and> r = fresh 0 rw \<and>
    length qw < LEN_LIM \<and> length rw < LEN_LIM \<and> mval qw = mag a div mag b \<and> mval rw = mag a mod mag b)"
proof (cases "mag a < mag b")
  case True
  then have "mag_cmp a b = Some (- 1)" using assms by (simp add: mag_cmp_canonical sgn_if)
  then show ?thesis
    using True assms(1) canonical_len [OF assms(1)]
    by (auto simp: mag_divmod_def alloc_raw_fresh copy_words_all bi_len_def word_gt_0 read_len_0
        Let_def mag_def)
next
  case False
  let ?A = "mag a" and ?B = "mag b" and ?n = "bi_len a"
  have cmp: "\<exists>c. mag_cmp a b = Some c \<and> \<not> c < 0"
    using False assms by (simp add: mag_cmp_canonical sgn_if)
  have "length (limbs ?B) \<le> ?n" using False by (intro length_limbs_mag) simp
  then have lb: "bi_len b \<le> ?n" using mag_of_mag [OF assms(2)] by (simp add: bi_len_def)
  have "0 < ?n" using lb assms(3) by (cases "bi_len b") (auto simp: bi_len_def mag_def)
  then have lb1: "bi_len b + 1 < LEN_LIM" using lb assms(4) by linarith
  have bits: "bitlen ?A \<le> 64 * ?n" by (rule bitlen_mag_le)
  then have ub: "unat (as_u32 (bitlen ?A)) = bitlen ?A" using assms(4) by simp
  have inv: "wp (for_down (bitlen ?A) (divmod_step a b) (fresh 0 (replicate ?n 0), mag_of 0))
     (divmod_inv ?A ?B ?n 0)"
  proof (rule wp_for_down [where I = "divmod_inv ?A ?B ?n"])
    show "divmod_inv ?A ?B ?n (bitlen ?A) (fresh 0 (replicate ?n 0), mag_of 0)"
      using bitlen_upper [of ?A] by (simp add: divmod_inv_def)
  next
    fix i p assume "i < bitlen ?A" "divmod_inv ?A ?B ?n (Suc i) p"
    then show "wp (divmod_step a b i p) (divmod_inv ?A ?B ?n i)"
      using divmod_inv_step [of a b i "fst p" "snd p"] assms lb1 bits by simp
  qed simp
  have "length (limbs (?A mod ?B)) \<le> ?n"
    by (rule length_limbs_mag) simp
  moreover have "length (limbs (?A div ?B)) \<le> ?n"
    by (rule length_limbs_mag) simp
  ultimately show ?thesis
    using inv cmp assms(4) ub bit_count_mag [OF assms(1,4)]
    by (auto simp: mag_divmod_def alloc_raw_fresh divmod_inv_def normalize_fresh mag_of_def
        elim!: wpE)
qed

lemma sdiv_signs:
  "bi_val a sdiv bi_val b =
     (if (sign a = 0) = (sign b = 0) then int (mag a div mag b) else - int (mag a div mag b))"
  "bi_val a smod bi_val b = (if sign a = 0 then int (mag a mod mag b) else - int (mag a mod mag b))"
  by (auto simp: bi_val_def signed_divide_int_def signed_modulo_int_def sgn_if of_nat_div of_nat_mod
      minus_div_mult_eq_mod [symmetric])

lemma bigint_div_of_int:
  assumes "canonical a" "canonical b" "bi_val b \<noteq> 0" "64 * bi_len a < LEN_LIM"
  shows "bigint_div a b = ret (bi_of_int (bi_val a sdiv bi_val b))"
proof -
  have b: "mag b \<noteq> 0" using assms(3) by (simp add: bi_val_def split: if_splits)
  then have "read_len b \<noteq> 0" using assms(2) by (simp add: read_len_0 mag_0_iff)
  then show ?thesis
    using mag_divmod_mag_of [OF assms(1,2) b assms(4)]
      canonical_sign [OF assms(1)] canonical_sign [OF assms(2)]
    unfolding sdiv_signs
    by (auto simp: bigint_div_def read_sign_def Let_def normalize_fresh bi_of_int_def elim!: wpE)
qed

lemma bigint_mod_of_int:
  assumes "canonical a" "canonical b" "bi_val b \<noteq> 0" "64 * bi_len a < LEN_LIM"
  shows "bigint_mod a b = ret (bi_of_int (bi_val a smod bi_val b))"
proof -
  have b: "mag b \<noteq> 0" using assms(3) by (simp add: bi_val_def split: if_splits)
  then have "read_len b \<noteq> 0" using assms(2) by (simp add: read_len_0 mag_0_iff)
  then show ?thesis
    using mag_divmod_mag_of [OF assms(1,2) b assms(4)] canonical_sign [OF assms(1)]
    unfolding sdiv_signs
    by (auto simp: bigint_mod_def read_sign_def Let_def normalize_fresh bi_of_int_def elim!: wpE)
qed

lemma bi_val_0_iff: "canonical b \<Longrightarrow> bi_val b = 0 \<longleftrightarrow> read_len b = 0"
  by (simp add: bi_val_def read_len_0 mag_0_iff)

lemma bigint_div_zero:
  assumes "canonical b" "bi_val b = 0"
  shows "bigint_div a b = throw (RangeError div_zero_msg)"
    "bigint_mod a b = throw (RangeError div_zero_msg)"
  using assms by (simp_all add: bi_val_0_iff bigint_div_def bigint_mod_def)

lemma bigint_neg_of_int:
  assumes "canonical a"
  shows "bigint_neg a = Some (bi_of_int (- bi_val a))"
  using assms canonical_len [OF assms] canonical_sign [OF assms] canonical_neg [OF assms]
    mag_of_mag [OF assms] mag_0_iff [OF assms]
  by (auto simp: bigint_neg_def alloc_raw_fresh copy_words_all bi_len_def word_gt_0 read_len_0
      Let_def bi_val_def bi_of_int_def read_sign_def)


section \<open>Square and multiply\<close>

text \<open>What \<open>pow\<close> relies on: the product of two magnitudes whose block fits.\<close>

locale big_multiplier =
  fixes mul :: "bigint \<Rightarrow> bigint \<Rightarrow> bigint option"
  assumes mul_mag_of: "length (limbs m) + length (limbs n) < LEN_LIM \<Longrightarrow>
    mul (mag_of m) (mag_of n) = Some (mag_of (m * n))"
begin

lemma mul_powers:
  assumes "j \<le> e" "k \<le> e" "2 * length (limbs (m ^ e)) < LEN_LIM"
  shows "mul (mag_of (m ^ j)) (mag_of (m ^ k)) = Some (mag_of (m ^ (j + k)))"
proof -
  have two: "2 < LEN_LIM" by (simp add: LEN_LIM_def)
  have "2 * length (limbs (m ^ i)) < LEN_LIM" if "i \<le> e" for i
  proof (cases "m = 0")
    case True
    then show ?thesis using two by (cases i) (simp_all add: limbs_1)
  next
    case False
    then have "m ^ i \<le> m ^ e" using that by (simp add: power_increasing)
    then show ?thesis using length_limbs_mono [of "m ^ i" "m ^ e"] assms(3) by linarith
  qed
  then have "2 * length (limbs (m ^ j)) < LEN_LIM" "2 * length (limbs (m ^ k)) < LEN_LIM"
    using assms by blast+
  then show ?thesis by (simp add: mul_mag_of power_add)
qed

lemma pow_loop:
  assumes ex: "bi_len ex < LEN_LIM" "mag ex = e" "e \<noteq> 0" "bitlen e < LEN_LIM"
    and fit: "2 * length (limbs (m ^ e)) < LEN_LIM"
  shows "wp (for_range 0 (bitlen e) (pow_step mul ex (as_u32 (bitlen e))) (mag_of 1, mag_of m))
    (\<lambda>(result, cur). result = mag_of (m ^ e))"
proof (rule wp_for_range [where I = "\<lambda>i (result, cur). result = mag_of (m ^ (e mod 2 ^ i)) \<and>
    (i < bitlen e \<longrightarrow> cur = mag_of (m ^ 2 ^ i))"])
  show "case (mag_of 1, mag_of m) of (result, cur) \<Rightarrow> result = mag_of (m ^ (e mod 2 ^ 0)) \<and>
    (0 < bitlen e \<longrightarrow> cur = mag_of (m ^ 2 ^ 0))" by simp
next
  fix i s
  assume i: "i < bitlen e" and s: "case s of (result, cur) \<Rightarrow>
    result = mag_of (m ^ (e mod 2 ^ i)) \<and> (i < bitlen e \<longrightarrow> cur = mag_of (m ^ 2 ^ i))"
  have le: "2 ^ j \<le> e" if "j < bitlen e" for j
  proof -
    have "(2::nat) ^ j \<le> 2 ^ (bitlen e - 1)" using that by (simp add: power_increasing)
    then show ?thesis using bitlen_lower [OF ex(3)] by linarith
  qed
  have s': "s = (mag_of (m ^ (e mod 2 ^ i)), mag_of (m ^ 2 ^ i))" using s i by auto
  have m1: "mul (mag_of (m ^ (e mod 2 ^ i))) (mag_of (m ^ 2 ^ i)) = Some (mag_of (m ^ (e mod 2 ^ i + 2 ^ i)))"
    by (rule mul_powers [of _ e]) (use le [OF i] fit in simp_all)
  have m2: "mul (mag_of (m ^ 2 ^ i)) (mag_of (m ^ 2 ^ i)) = Some (mag_of (m ^ 2 ^ Suc i))"
    using mul_powers [of "2 ^ i" e "2 ^ i" m] le [OF i] fit by (simp add: mult_2)
  have e: "e mod 2 ^ Suc i = (if bit e i then e mod 2 ^ i + 2 ^ i else e mod 2 ^ i)"
    using take_bit_Suc_from_most [of i e] by (simp add: take_bit_eq_mod del: power_Suc)
  have u: "unat (as_u32 i) = i" "as_u32 i + 1 < as_u32 (bitlen e) \<longleftrightarrow> Suc i < bitlen e"
  proof -
    have "as_u32 i + 1 = as_u32 (Suc i)" by (simp add: as_u32_def)
    then show "as_u32 i + 1 < as_u32 (bitlen e) \<longleftrightarrow> Suc i < bitlen e"
      using i ex(4) by (simp add: word_less_nat_alt)
  qed (use i ex(4) in simp)
  show "wp (pow_step mul ex (as_u32 (bitlen e)) i s) (\<lambda>(result, cur).
    result = mag_of (m ^ (e mod 2 ^ Suc i)) \<and> (Suc i < bitlen e \<longrightarrow> cur = mag_of (m ^ 2 ^ Suc i)))"
    using ex m1 m2 u by (simp add: pow_step_def s' bit_at_mag e del: power_Suc)
next
  fix s
  assume "case s of (result, cur) \<Rightarrow> result = mag_of (m ^ (e mod 2 ^ bitlen e)) \<and>
    (bitlen e < bitlen e \<longrightarrow> cur = mag_of (m ^ 2 ^ bitlen e))"
  then show "case s of (result, cur) \<Rightarrow> result = mag_of (m ^ e)"
    using bitlen_upper [of e] by auto
qed simp

end

lemma bigint_mul_mag_of:
  assumes "length (limbs m) + length (limbs n) < LEN_LIM"
  shows "bigint_mul (mag_of m) (mag_of n) = Some (mag_of (m * n))"
proof -
  have "canonical (mag_of k)" if "length (limbs k) < LEN_LIM" for k
    using that by (simp add: canonical_def mag_of_def last_limbs)
  then show ?thesis
    using bigint_mul_of_int [of "mag_of m" "mag_of n"] assms
    by (simp add: mag_of_def bi_val_def) (simp add: bi_of_int_def flip: of_nat_mult)
qed

interpretation bm: big_multiplier bigint_mul
  by unfold_locales (rule bigint_mul_mag_of)

lemma bigint_pow_of_int:
  assumes "canonical base" "canonical ex" "0 \<le> bi_val ex" "64 * bi_len ex < LEN_LIM"
    and "2 * length (limbs (mag base ^ mag ex)) < LEN_LIM"
  shows "bigint_pow base ex = ret (bi_of_int (bi_val base ^ nat (bi_val ex)))"
proof -
  have ex: "sign ex = 0" "nat (bi_val ex) = mag ex"
    using assms(3) canonical_neg [OF assms(2)] canonical_sign [OF assms(2)]
    by (auto simp: bi_val_def split: if_splits)
  let ?m = "mag base" and ?e = "mag ex"
  have cur: "(alloc_raw (read_len base))\<lparr>words := words base\<rparr> = mag_of ?m"
    using assms(1) by (simp add: alloc_raw_fresh mag_of_def mag_of_mag)
  have one: "(alloc_raw 1)\<lparr>words := [1]\<rparr> = mag_of 1" "wr (words (alloc_raw 1)) 0 1 = Some [1]"
    by (simp_all add: alloc_raw_fresh mag_of_def limbs_1 wr_def)
  have copy: "(if read_len base > 0
      then copy_words (words (alloc_raw (read_len base))) (words base) (unat (read_len base))
      else Some (words (alloc_raw (read_len base)))) = Some (words base)"
    using canonical_len [OF assms(1)]
    by (auto simp: alloc_raw_fresh copy_words_all bi_len_def word_gt_0 read_len_0)
  show ?thesis
  proof (cases "?e = 0")
    case True
    then have "read_len ex = 0" using assms(2) by (simp add: read_len_0 mag_0_iff)
    with True show ?thesis
      using ex one by (simp add: bigint_pow_def bigint_pow_with_def read_sign_def mag_of_bi_of_int)
  next
    case False
    then have ne: "read_len ex \<noteq> 0" "words ex \<noteq> []"
      using assms(2) by (simp_all add: read_len_0 mag_0_iff)
    have bits: "bitlen ?e < LEN_LIM" using bitlen_mag_le [of ex] assms(4) by linarith
    have lo: "rd (words ex) 0 = Some (words ex ! 0)" "words ex ! 0 AND 1 = of_bool (odd ?e)"
    proof -
      have "bit ?e 0 = bit (words ex ! 0) 0" using ne by (simp add: mag_def bit_mval)
      then show "words ex ! 0 AND 1 = of_bool (odd ?e)"
        by (simp add: bit_0 and_one_eq mod_2_eq_odd)
    qed (use ne in \<open>simp add: rd_def\<close>)
    have "canonical ex" "length (limbs (?m ^ ?e)) < LEN_LIM" using assms by simp_all
    moreover have "(bi_val base) ^ ?e = (if sign base \<noteq> 0 \<and> odd ?e then - int (?m ^ ?e) else int (?m ^ ?e))"
      by (simp add: bi_val_def power_minus_odd)
    moreover have "read_len (mag_of k) = 0 \<longleftrightarrow> k = 0" if "length (limbs k) < LEN_LIM" for k
      using that by (simp add: mag_of_def read_len_0)
    ultimately show ?thesis
      using bm.pow_loop [OF _ refl False bits assms(5)] ne lo one ex copy cur bits
        bit_count_mag [OF assms(2,4)] canonical_neg [OF assms(1)] canonical_sign [OF assms(1)]
      by (auto simp: bigint_pow_def bigint_pow_with_def Let_def read_sign_def normalize_signed elim!: wpE)
  qed
qed

lemma bigint_pow_negative:
  assumes "canonical ex" "bi_val ex < 0"
  shows "bigint_pow base ex = throw (RangeError ''BigInt negative exponent'')"
  using assms by (simp add: bigint_pow_def bigint_pow_with_def read_sign_def bi_val_def split: if_splits)

section \<open>Properties\<close>

text \<open>C9: \<open>a / b\<close> by bit-by-bit long division is the division of the integers truncated toward
  zero, for every non-zero divisor and every dividend of fewer than \<open>2 ^ 32\<close> bits (the range of the
  \<open>u32\<close> bit count).\<close>

theorem div_correct:
  assumes "canonical a" "canonical b" "bi_val b \<noteq> 0" "64 * bi_len a < LEN_LIM"
  shows "bigint_div a b = ret (bi_of_int (bi_val a sdiv bi_val b))"
  using assms by (rule bigint_div_of_int)

lemma div_correct_witness:
  "bigint_div (bi_of_int (- (2 ^ 64))) (bi_of_int 3) = ret (bi_of_int (- (2 ^ 64) sdiv 3))"
  using div_correct [of "bi_of_int (- (2 ^ 64))" "bi_of_int 3"] small_block [of "- (2 ^ 64)"] small_block [of 3]
  by (simp add: LEN_LIM_def)

text \<open>C16: \<open>a % b\<close> is the remainder of the truncated division, with the sign of the dividend.\<close>

theorem mod_correct:
  assumes "canonical a" "canonical b" "bi_val b \<noteq> 0" "64 * bi_len a < LEN_LIM"
  shows "bigint_mod a b = ret (bi_of_int (bi_val a smod bi_val b))"
  using assms by (rule bigint_mod_of_int)

lemma mod_correct_witness:
  "bigint_mod (bi_of_int (- (2 ^ 64))) (bi_of_int 3) = ret (bi_of_int (- (2 ^ 64) smod 3))"
  using mod_correct [of "bi_of_int (- (2 ^ 64))" "bi_of_int 3"] small_block [of "- (2 ^ 64)"] small_block [of 3]
  by (simp add: LEN_LIM_def)

text \<open>a zero divisor makes both operators throw a RangeError, and a negative exponent makes
  \<open>**\<close> throw one, before anything else is computed.\<close>

theorem div_pow_errors:
  assumes "canonical z" "bi_val z = 0" "canonical n" "bi_val n < 0"
  shows "bigint_div a z = throw (RangeError div_zero_msg) \<and>
    bigint_mod a z = throw (RangeError div_zero_msg) \<and>
    bigint_pow a n = throw (RangeError ''BigInt negative exponent'')"
  using bigint_div_zero [OF assms(1,2)] bigint_pow_negative [OF assms(3,4)] by simp

lemma div_pow_errors_witness:
  "bigint_div (bi_of_int 7) (bi_of_int 0) = throw (RangeError div_zero_msg) \<and>
   bigint_pow (bi_of_int 7) (bi_of_int (- 1)) = throw (RangeError ''BigInt negative exponent'')"
  using div_pow_errors [of "bi_of_int 0" "bi_of_int (- 1)" "bi_of_int 7"] small_block [of 0] small_block [of "- 1"]
  by simp

text \<open>\<open>base ** ex\<close> by square-and-multiply, low bit first, is the power of the integers for
  every non-negative exponent whose result fits twice into the limb count; the sign of the result
  comes from the sign of the base and the parity of the exponent.\<close>

theorem pow_correct:
  assumes "canonical base" "canonical ex" "0 \<le> bi_val ex" "64 * bi_len ex < LEN_LIM"
    and "2 * bi_len (mag_of (mag base ^ mag ex)) < LEN_LIM"
  shows "bigint_pow base ex = ret (bi_of_int (bi_val base ^ nat (bi_val ex)))"
  using assms by (intro bigint_pow_of_int) (simp_all add: bi_len_def)

lemma pow_correct_witness:
  "bigint_pow (bi_of_int (- 3)) (bi_of_int 5) = ret (bi_of_int (- 243))"
  using pow_correct [of "bi_of_int (- 3)" "bi_of_int 5"] small_block [of "- 3"] small_block [of 5]
  by (simp add: LEN_LIM_def bi_of_int_def mag_of_def limbs_pos LB_def bi_val_def)

text \<open>Unary minus and \<open>clone\<close> return fresh canonical blocks of the negated and of the same
  integer: there is no negative zero.\<close>

theorem neg_clone_correct:
  assumes "canonical a"
  shows "bigint_neg a = Some (bi_of_int (- bi_val a)) \<and> bigint_clone a = Some (bi_of_int (bi_val a))"
  using bigint_neg_of_int [OF assms] bigint_clone_fresh [OF canonical_len [OF assms]] bi_of_int_bi_val [OF assms]
  by simp

lemma neg_clone_correct_witness:
  "bigint_neg (bi_of_int 0) = Some (bi_of_int 0) \<and> bigint_clone (bi_of_int (- 9)) = Some (bi_of_int (- 9))"
  using neg_clone_correct [of "bi_of_int 0"] neg_clone_correct [of "bi_of_int (- 9)"] small_block [of 0] small_block [of "- 9"]
  by simp

end
