(* ===== verification/BigInt_Bits.thy ===== *)
theory BigInt_Bits
  imports BigInt_Div
begin

text \<open>
  \<open>bitwise.rs\<close>: the limb-wise operations on magnitudes, the increment and
  decrement that translate between a negative operand and the finite part of its
  two's complement form, and the operators \<open>~ & | ^\<close>. The operators are shown to
  be the bit operations of \<open>int\<close>, which are those of infinite two's complement.

  The locale \<open>limbwise\<close> holds what the four limb-wise loops share.
\<close>

section \<open>The operations\<close>

definition mag_and :: "bigint \<Rightarrow> bigint \<Rightarrow> bigint option" where
  "mag_and a b = do {
     let na = read_len a;
     let nb = read_len b;
     let n = min na nb;
     let r = alloc_raw n;
     rw \<leftarrow> for_range 0 (unat n) (\<lambda>i rw. do {
       x \<leftarrow> rd (words a) i;
       y \<leftarrow> rd (words b) i;
       wr rw i (x AND y)
     }) (words r);
     Some (normalize (r\<lparr>words := rw\<rparr>))
   }"

definition mag_or :: "bigint \<Rightarrow> bigint \<Rightarrow> bigint option" where
  "mag_or a b = do {
     let na = unat (read_len a);
     let nb = unat (read_len b);
     let n = max na nb;
     let r = alloc_raw (as_u32 n);
     rw \<leftarrow> for_range 0 n (\<lambda>i rw. do {
       av \<leftarrow> (if i < na then rd (words a) i else Some 0);
       bv \<leftarrow> (if i < nb then rd (words b) i else Some 0);
       wr rw i (av OR bv)
     }) (words r);
     Some (normalize (r\<lparr>words := rw\<rparr>))
   }"

definition mag_xor :: "bigint \<Rightarrow> bigint \<Rightarrow> bigint option" where
  "mag_xor a b = do {
     let na = unat (read_len a);
     let nb = unat (read_len b);
     let n = max na nb;
     let r = alloc_raw (as_u32 n);
     rw \<leftarrow> for_range 0 n (\<lambda>i rw. do {
       av \<leftarrow> (if i < na then rd (words a) i else Some 0);
       bv \<leftarrow> (if i < nb then rd (words b) i else Some 0);
       wr rw i (av XOR bv)
     }) (words r);
     Some (normalize (r\<lparr>words := rw\<rparr>))
   }"

definition mag_andnot :: "bigint \<Rightarrow> bigint \<Rightarrow> bigint option" where
  "mag_andnot a b = do {
     let na = read_len a;
     let nb = unat (read_len b);
     let r = alloc_raw na;
     rw \<leftarrow> for_range 0 (unat na) (\<lambda>i rw. do {
       bv \<leftarrow> (if i < nb then rd (words b) i else Some 0);
       x \<leftarrow> rd (words a) i;
       wr rw i (x AND NOT bv)
     }) (words r);
     Some (normalize (r\<lparr>words := rw\<rparr>))
   }"

definition inc1_limb :: "u64 list \<Rightarrow> nat \<Rightarrow> u64 list \<times> u64 \<Rightarrow> (u64 list \<times> u64) option" where
  "inc1_limb aw i = (\<lambda>(rw, carry). do {
     x \<leftarrow> rd aw i;
     let sum = to128 x + to128 carry;
     rw \<leftarrow> wr rw i (lo64 sum);
     Some (rw, hi64 sum)
   })"

definition mag_inc1 :: "bigint \<Rightarrow> bigint option" where
  "mag_inc1 a = do {
     let na = unat (read_len a);
     let r = alloc_raw (as_u32 (na + 1));
     (rw, carry) \<leftarrow> for_range 0 na (inc1_limb (words a)) (words r, 1);
     rw \<leftarrow> wr rw na carry;
     Some (normalize (r\<lparr>words := rw\<rparr>))
   }"

definition dec1_limb :: "u64 list \<Rightarrow> nat \<Rightarrow> u64 list \<times> u64 \<Rightarrow> (u64 list \<times> u64) option" where
  "dec1_limb aw i = (\<lambda>(rw, borrow). do {
     x \<leftarrow> rd aw i;
     let diff = to128 x - to128 borrow;
     rw \<leftarrow> wr rw i (lo64 diff);
     Some (rw, borrow64 diff)
   })"

definition mag_dec1 :: "bigint \<Rightarrow> bigint option" where
  "mag_dec1 a = do {
     let na = read_len a;
     let r = alloc_raw na;
     (rw, borrow) \<leftarrow> for_range 0 (unat na) (dec1_limb (words a)) (words r, 1);
     Some (normalize (r\<lparr>words := rw\<rparr>))
   }"

definition bigint_not :: "bigint \<Rightarrow> bigint option" where
  "bigint_not a = do {
     w \<leftarrow> wr (words (alloc_raw 1)) 0 1;
     let one = (alloc_raw 1)\<lparr>words := w\<rparr>;
     plus_one \<leftarrow> bigint_add a one;
     bigint_neg plus_one
   }"

definition bigint_and :: "bigint \<Rightarrow> bigint \<Rightarrow> bigint option" where
  "bigint_and a b = do {
     let a_sign = read_sign a;
     let b_sign = read_sign b;
     r \<leftarrow> (if a_sign = 0 \<and> b_sign = 0 then mag_and a b
       else if a_sign \<noteq> 0 \<and> b_sign \<noteq> 0 then do {
         am \<leftarrow> mag_dec1 a;
         bm \<leftarrow> mag_dec1 b;
         ored \<leftarrow> mag_or am bm;
         r \<leftarrow> mag_inc1 ored;
         Some (if read_len r > 0 then write_sign r 1 else r)
       } else do {
         let (p, n) = (if a_sign \<noteq> 0 then (b, a) else (a, b));
         nm \<leftarrow> mag_dec1 n;
         mag_andnot p nm
       });
     Some (normalize r)
   }"

definition bigint_or :: "bigint \<Rightarrow> bigint \<Rightarrow> bigint option" where
  "bigint_or a b = do {
     let a_sign = read_sign a;
     let b_sign = read_sign b;
     r \<leftarrow> (if a_sign = 0 \<and> b_sign = 0 then mag_or a b
       else if a_sign \<noteq> 0 \<and> b_sign \<noteq> 0 then do {
         am \<leftarrow> mag_dec1 a;
         bm \<leftarrow> mag_dec1 b;
         anded \<leftarrow> mag_and am bm;
         r \<leftarrow> mag_inc1 anded;
         Some (if read_len r > 0 then write_sign r 1 else r)
       } else do {
         let (p, n) = (if a_sign \<noteq> 0 then (b, a) else (a, b));
         nm \<leftarrow> mag_dec1 n;
         andnot \<leftarrow> mag_andnot nm p;
         r \<leftarrow> mag_inc1 andnot;
         Some (if read_len r > 0 then write_sign r 1 else r)
       });
     Some (normalize r)
   }"

definition bigint_xor :: "bigint \<Rightarrow> bigint \<Rightarrow> bigint option" where
  "bigint_xor a b = do {
     let a_sign = read_sign a;
     let b_sign = read_sign b;
     r \<leftarrow> (if a_sign = 0 \<and> b_sign = 0 then mag_xor a b
       else if a_sign \<noteq> 0 \<and> b_sign \<noteq> 0 then do {
         am \<leftarrow> mag_dec1 a;
         bm \<leftarrow> mag_dec1 b;
         mag_xor am bm
       } else do {
         let (p, n) = (if a_sign \<noteq> 0 then (b, a) else (a, b));
         nm \<leftarrow> mag_dec1 n;
         xored \<leftarrow> mag_xor p nm;
         r \<leftarrow> mag_inc1 xored;
         Some (if read_len r > 0 then write_sign r 1 else r)
       });
     Some (normalize r)
   }"

section \<open>Limb-wise loops\<close>

text \<open>
  A limb-wise loop applies \<open>f\<close> to the limbs, absent limbs read as zero; \<open>g\<close> is the
  same operation on the magnitudes, and \<open>P\<close> what both do to one bit.
\<close>

locale limbwise =
  fixes f :: "u64 \<Rightarrow> u64 \<Rightarrow> u64" and g :: "nat \<Rightarrow> nat \<Rightarrow> nat" and P :: "bool \<Rightarrow> bool \<Rightarrow> bool"
  assumes bit_f: "n < 64 \<Longrightarrow> bit (f x y) n = P (bit x n) (bit y n)"
    and bit_g: "bit (g m k) n = P (bit m n) (bit k n)"
begin

definition limbwise_words :: "u64 list \<Rightarrow> u64 list \<Rightarrow> nat \<Rightarrow> u64 list" where
  "limbwise_words aw bw n = map (\<lambda>i. f (limb_or_0 aw i) (limb_or_0 bw i)) [0..<n]"

lemma bit_limb_or_0: "bit (limb_or_0 ws (i div 64)) (i mod 64) = bit (mval ws) i"
  by (simp add: limb_or_0_def bit_mval)

lemma mval_limbwise_words:
  assumes "g (mval aw) (mval bw) < LB ^ n"
  shows "mval (limbwise_words aw bw n) = g (mval aw) (mval bw)"
proof (rule bit_eqI)
  fix i
  have "\<not> bit (g (mval aw) (mval bw)) i" if "\<not> i div 64 < n"
    using assms that unfolding less_LB_bits by (metis div_less_iff_less_mult mult.commute not_le zero_less_numeral)
  moreover have "bit (mval (limbwise_words aw bw n)) i \<longleftrightarrow>
      i div 64 < n \<and> P (bit (mval aw) i) (bit (mval bw) i)"
    by (subst bit_mval) (auto simp: limbwise_words_def bit_f bit_limb_or_0)
  ultimately show "bit (mval (limbwise_words aw bw n)) i = bit (g (mval aw) (mval bw)) i"
    by (auto simp: bit_g)
qed

lemma limbwise_loop:
  assumes "\<And>i r. i < n \<Longrightarrow> body i r = wr r i (f (limb_or_0 aw i) (limb_or_0 bw i))"
    and "g (mval aw) (mval bw) < LB ^ n" "n < LEN_LIM"
  shows "do { rw \<leftarrow> for_range 0 n body (replicate n 0); Some (normalize (fresh 0 rw)) } =
    Some (mag_of (g (mval aw) (mval bw)))"
proof -
  have "for_range 0 n body (replicate n 0) = Some (limbwise_words aw bw n)"
    unfolding limbwise_words_def
    by (rule fill_loop) (use assms(1) in auto)
  then show ?thesis
    using assms(2,3) mval_limbwise_words [OF assms(2)]
    by (simp add: normalize_mag) (simp add: limbwise_words_def normalize_mag)
qed

end

interpretation lw_and: limbwise "(AND)" "(AND)" "(\<and>)"
  by unfold_locales (simp_all add: bit_and_iff)

interpretation lw_or: limbwise "(OR)" "(OR)" "(\<or>)"
  by unfold_locales (simp_all add: bit_or_iff)

interpretation lw_xor: limbwise "(XOR)" "(XOR)" "(\<noteq>)"
  by unfold_locales (simp_all add: bit_xor_iff)

interpretation lw_andnot: limbwise "\<lambda>x y. x AND NOT y" "\<lambda>m n. nat (int m AND NOT (int n))" "\<lambda>p q. p \<and> \<not> q"
  by unfold_locales (simp_all add: bit_and_iff bit_not_iff bit_nat_iff bit_of_nat_iff)

lemma mag_and_mag_of:
  assumes "bi_len a < LEN_LIM" "bi_len b < LEN_LIM"
  shows "mag_and a b = Some (mag_of (mag a AND mag b))"
proof -
  let ?n = "min (bi_len a) (bi_len b)"
  have n: "unat (min (read_len a) (read_len b)) = ?n" using assms by (simp add: unat_min_u32)
  have "mag a AND mag b < LB ^ ?n"
    using mag_less [of a] mag_less [of b] by (auto simp: less_LB_bits bit_and_iff min_def)
  then show ?thesis
    using lw_and.limbwise_loop [of ?n _ "words a" "words b"] assms n
    by (simp add: mag_and_def alloc_raw_fresh rd_def limb_or_0_def bi_len_def mag_def)
qed


lemma mag_or_mag_of:
  assumes "bi_len a < LEN_LIM" "bi_len b < LEN_LIM"
  shows "mag_or a b = Some (mag_of (mag a OR mag b))"
proof -
  let ?n = "max (bi_len a) (bi_len b)"
  have "mag a OR mag b < LB ^ ?n"
    using mag_less [of a] mag_less [of b] by (auto simp: less_LB_bits bit_or_iff)
  then show ?thesis
    using lw_or.limbwise_loop [of ?n _ "words a" "words b"] assms
    by (simp add: mag_or_def alloc_raw_fresh rd_or_0 bi_len_def [symmetric]) (simp add: rd_or_0 bi_len_def mag_def)
qed

lemma mag_xor_mag_of:
  assumes "bi_len a < LEN_LIM" "bi_len b < LEN_LIM"
  shows "mag_xor a b = Some (mag_of (mag a XOR mag b))"
proof -
  let ?n = "max (bi_len a) (bi_len b)"
  have "mag a XOR mag b < LB ^ ?n"
    using mag_less [of a] mag_less [of b] by (auto simp: less_LB_bits bit_xor_iff)
  then show ?thesis
    using lw_xor.limbwise_loop [of ?n _ "words a" "words b"] assms
    by (simp add: mag_xor_def alloc_raw_fresh) (simp add: rd_or_0 bi_len_def mag_def)
qed

lemma mag_andnot_mag_of:
  assumes "bi_len a < LEN_LIM" "bi_len b < LEN_LIM"
  shows "mag_andnot a b = Some (mag_of (nat (int (mag a) AND NOT (int (mag b)))))"
proof -
  have "nat (int (mag a) AND NOT (int (mag b))) < LB ^ bi_len a"
    using mag_less [of a]
    by (auto simp: less_LB_bits bit_and_iff bit_not_iff bit_nat_iff bit_of_nat_iff)
  then show ?thesis
    using lw_andnot.limbwise_loop [of "bi_len a" _ "words a" "words b"] assms
    by (simp add: mag_andnot_def alloc_raw_fresh)
      (simp add: rd_or_0 rd_def limb_or_0_def [of "words a"] bi_len_def mag_def)
qed


section \<open>Increment and decrement\<close>

lemma inc1_limb_step:
  assumes "carry_inv v (\<lambda>i. Suc (mval (take i aw))) i (w, c)" "i < length v" "i < length aw"
  shows "wp (inc1_limb aw i (w, c)) (carry_inv v (\<lambda>i. Suc (mval (take i aw))) (Suc i))"
proof -
  let ?s = "to128 (aw ! i) + to128 c"
  have w: "length w = length v" using assms by (simp add: carry_inv_def)
  have "unat (lo64 ?s) + LB * unat (hi64 ?s) = unat (aw ! i) + unat c"
    by (simp add: lo64_hi64 unat_adc2_128)
  then have "carry_inv v (\<lambda>i. Suc (mval (take i aw))) (Suc i) (w[i := lo64 ?s], hi64 ?s)"
    by (rule carry_inv_step [OF assms(1,2)]) (simp add: mval_take_Suc assms(3))
  then show ?thesis
    using assms(2,3) w by (simp add: inc1_limb_def wp_simps)
qed

lemma mag_inc1_mag_of:
  assumes "bi_len a + 1 < LEN_LIM"
  shows "mag_inc1 a = Some (mag_of (mag a + 1))"
proof (rule wp_eqI)
  let ?aw = "words a" and ?n = "length (words a)"
  let ?F = "\<lambda>i. Suc (mval (take i ?aw))"
  define v where "v = replicate (Suc ?n) (0 :: u64)"
  have v: "length v = Suc ?n" by (simp add: v_def)
  have "wp (for_range 0 ?n (inc1_limb ?aw) (v, 1)) (carry_inv v ?F ?n)"
    by (rule wp_for_range [where I = "carry_inv v ?F"])
      (auto intro: inc1_limb_step simp: v, simp add: carry_inv_def)
  then obtain w c where loop: "for_range 0 ?n (inc1_limb ?aw) (v, 1) = Some (w, c)"
    and inv: "carry_inv v ?F ?n (w, c)"
    by (auto elim: wpE)
  have "length w = Suc ?n" "mval (w[?n := c]) = mag a + 1"
    using inv by (auto simp: carry_inv_def mval_update_last mag_def v)
  then show "wp (mag_inc1 a) (\<lambda>r. r = mag_of (mag a + 1))"
    using loop assms
    by (simp add: mag_inc1_def Let_def alloc_raw_fresh wr_def bi_len_def normalize_mag v_def
        del: replicate.simps)
qed

definition dec_inv :: "u64 list \<Rightarrow> nat \<Rightarrow> u64 list \<times> u64 \<Rightarrow> bool" where
  "dec_inv aw i = (\<lambda>(w, c). length w = length aw \<and> unat c \<le> Suc 0 \<and>
     mval (take i w) + 1 = mval (take i aw) + LB ^ i * unat c)"

lemma dec1_limb_step:
  assumes "dec_inv aw i (w, c)" "i < length aw"
  shows "wp (dec1_limb aw i (w, c)) (dec_inv aw (Suc i))"
proof -
  let ?d = "to128 (aw ! i) - to128 0 - to128 c"
  have w: "length w = length aw" "unat c \<le> Suc 0"
    using assms by (simp_all add: dec_inv_def)
  have "mval (take (Suc i) (w[i := lo64 ?d])) + (1 + LB ^ i * unat (0 :: u64)) =
      mval (take i aw) + LB ^ i * unat (aw ! i) + LB ^ Suc i * unat (borrow64 ?d)"
    by (rule limb_borrow_step [OF _ sbb_128 [OF w(2)]])
      (use assms w in \<open>simp_all add: dec_inv_def\<close>)
  then have "dec_inv aw (Suc i) (w[i := lo64 ?d], borrow64 ?d)"
    using w assms(2) by (simp add: dec_inv_def mval_take_Suc [of i aw])
  then show ?thesis
    using assms(2) w by (simp add: dec1_limb_def wp_simps)
qed

lemma mag_dec1_mag_of:
  assumes "bi_len a < LEN_LIM" "0 < mag a"
  shows "mag_dec1 a = Some (mag_of (mag a - 1))"
proof (rule wp_eqI)
  let ?aw = "words a" and ?n = "length (words a)"
  have "wp (for_range 0 ?n (dec1_limb ?aw) (replicate ?n 0, 1)) (dec_inv ?aw ?n)"
    by (rule wp_for_range [where I = "dec_inv ?aw"])
      (auto intro: dec1_limb_step, simp add: dec_inv_def)
  then obtain w c where loop: "for_range 0 ?n (dec1_limb ?aw) (replicate ?n 0, 1) = Some (w, c)"
    and inv: "dec_inv ?aw ?n (w, c)"
    by (auto elim: wpE)
  have l: "length w = ?n" "mval w + 1 = mag a + LB ^ ?n * unat c" "unat c \<le> Suc 0"
    using inv by (auto simp: dec_inv_def mag_def)
  have "unat c = 0"
    using l mval_less [of w] assms(2) by (cases "unat c") auto
  with l have "mval w = mag a - 1" by simp
  with l(1) show "wp (mag_dec1 a) (\<lambda>r. r = mag_of (mag a - 1))"
    using loop assms(1)
    by (simp add: mag_dec1_def Let_def alloc_raw_fresh) (simp add: bi_len_def normalize_mag)
qed

section \<open>The operators on integers\<close>

text \<open>A negative integer as the complement of the finite part of its two's complement form.\<close>

lemma bi_val_neg: "canonical a \<Longrightarrow> sign a \<noteq> 0 \<Longrightarrow> bi_val a = NOT (int (mag a - 1))"
  using canonical_neg [of a] canonical_sign [of a] by (simp add: bi_val_def not_int_def)

lemma bi_val_pos: "sign a = 0 \<Longrightarrow> bi_val a = int (mag a)"
  by (simp add: bi_val_def)

lemma write_sign_inc1:
  assumes "length (limbs n) + 1 < LEN_LIM"
  shows "do { r \<leftarrow> mag_inc1 (mag_of n); Some (normalize (if read_len r > 0 then write_sign r 1 else r)) } =
    Some (bi_of_int (NOT (int n)))"
proof -
  have l: "length (limbs (n + 1)) < LEN_LIM"
    using length_limbs_add [of "mag_of n" "mag_of 1"] assms
    by (cases "limbs n") (simp_all add: bi_len_def limbs_1)
  then have "read_len (mag_of (n + 1)) > 0"
    by (simp add: word_gt_0 read_len_0 bi_len_def)
  moreover have "mag_inc1 (mag_of n) = Some (mag_of (n + 1))"
    using mag_inc1_mag_of [of "mag_of n"] assms by (simp add: bi_len_def)
  moreover have e: "- int (n + 1) = NOT (int n)" by (simp add: not_int_def)
  ultimately show ?thesis
    using normalize_signed [OF l, of 1, unfolded e] by simp
qed

lemma normalize_mag_of: "length (limbs n) < LEN_LIM \<Longrightarrow> normalize (mag_of n) = bi_of_int (int n)"
  by (simp add: mag_of_def normalize_fresh bi_of_int_def)

lemma length_limbs_bits:
  "length (limbs (m AND n)) \<le> length (limbs m)"
  "length (limbs (m AND n)) \<le> length (limbs n)"
  "length (limbs (m OR n)) \<le> max (length (limbs m)) (length (limbs n))"
  "length (limbs (m XOR n)) \<le> max (length (limbs m)) (length (limbs n))"
  "length (limbs (nat (int m AND NOT (int n)))) \<le> length (limbs m)"
  using length_limbs_le [of m "length (limbs m)"] length_limbs_le [of n "length (limbs n)"]
  by (auto simp: length_limbs_le less_LB_bits bit_and_iff bit_or_iff bit_xor_iff bit_not_iff
      bit_nat_iff bit_of_nat_iff)


lemma mag_of_sub1_len: "length (limbs (mag a - 1)) \<le> bi_len a"
  by (rule length_limbs_mag) simp

text \<open>The magnitudes that the sign cases pass between the helpers.\<close>

lemma mag_ops_mag_of:
  assumes "length (limbs m) < LEN_LIM" "length (limbs n) < LEN_LIM"
  shows "mag_and (mag_of m) (mag_of n) = Some (mag_of (m AND n))"
    "mag_or (mag_of m) (mag_of n) = Some (mag_of (m OR n))"
    "mag_xor (mag_of m) (mag_of n) = Some (mag_of (m XOR n))"
    "mag_andnot (mag_of m) (mag_of n) = Some (mag_of (nat (int m AND NOT (int n))))"
  using assms mag_and_mag_of [of "mag_of m" "mag_of n"] mag_or_mag_of [of "mag_of m" "mag_of n"]
    mag_xor_mag_of [of "mag_of m" "mag_of n"] mag_andnot_mag_of [of "mag_of m" "mag_of n"]
  by (simp_all add: bi_len_def)

lemma int_and_not_nonneg: "0 \<le> int m AND NOT (int n)"
  by simp

text \<open>What the three operators share: the operands of every sign case fit their blocks.\<close>

lemma bitop_facts:
  assumes "canonical a" "canonical b" "max (bi_len a) (bi_len b) + 1 < LEN_LIM"
  shows "length (limbs (mag a)) + 1 < LEN_LIM" "length (limbs (mag b)) + 1 < LEN_LIM"
    "length (limbs (mag a - 1)) + 1 < LEN_LIM" "length (limbs (mag b - 1)) + 1 < LEN_LIM"
    "sign a \<noteq> 0 \<Longrightarrow> mag_dec1 a = Some (mag_of (mag a - 1))"
    "sign b \<noteq> 0 \<Longrightarrow> mag_dec1 b = Some (mag_of (mag b - 1))"
proof -
  show "length (limbs (mag a)) + 1 < LEN_LIM" "length (limbs (mag b)) + 1 < LEN_LIM"
    "length (limbs (mag a - 1)) + 1 < LEN_LIM" "length (limbs (mag b - 1)) + 1 < LEN_LIM"
    using assms(3) length_limbs_mag [of "mag a" a] length_limbs_mag [of "mag b" b]
      mag_of_sub1_len [of a] mag_of_sub1_len [of b]
    by - linarith+
  show "sign a \<noteq> 0 \<Longrightarrow> mag_dec1 a = Some (mag_of (mag a - 1))"
    "sign b \<noteq> 0 \<Longrightarrow> mag_dec1 b = Some (mag_of (mag b - 1))"
    using assms canonical_neg [of a] canonical_neg [of b] canonical_sign [of a] canonical_sign [of b]
    by (auto simp: mag_dec1_mag_of)
qed

lemma bitop_fit:
  assumes "length (limbs m) + 1 < LEN_LIM" "length (limbs n) + 1 < LEN_LIM"
  shows "length (limbs (m AND n)) + 1 < LEN_LIM" "length (limbs (m OR n)) + 1 < LEN_LIM"
    "length (limbs (m XOR n)) + 1 < LEN_LIM"
    "length (limbs (nat (int m AND NOT (int n)))) + 1 < LEN_LIM"
    "length (limbs m) < LEN_LIM" "length (limbs n) < LEN_LIM"
  using assms length_limbs_bits(1,3,4,5) [of m n] by (simp_all add: less_max_iff_disj)

lemma bigint_and_of_int:
  assumes "canonical a" "canonical b" "max (bi_len a) (bi_len b) + 1 < LEN_LIM"
  shows "bigint_and a b = Some (bi_of_int (bi_val a AND bi_val b))"
proof -
  let ?a = "mag a - 1" and ?b = "mag b - 1"
  note f = bitop_facts [OF assms] and neg = bi_val_neg [OF assms(1)] bi_val_neg [OF assms(2)]
  have len: "bi_len a < LEN_LIM" "bi_len b < LEN_LIM" using assms by simp_all
  consider "sign a = 0" "sign b = 0" | "sign a \<noteq> 0" "sign b \<noteq> 0"
    | "sign a = 0" "sign b \<noteq> 0" | "sign a \<noteq> 0" "sign b = 0" by blast
  then show ?thesis
  proof cases
    case 1
    then show ?thesis
      using bitop_fit [OF f(1,2)] len
      by (simp add: bigint_and_def read_sign_def bi_val_pos mag_and_mag_of normalize_mag_of of_nat_and_eq)
  next
    case 2
    then show ?thesis
      using bitop_fit [OF f(3,4)] f(5,6) write_sign_inc1 [of "?a OR ?b"]
      by (simp add: bigint_and_def read_sign_def neg mag_ops_mag_of of_nat_or_eq)
  next
    case 3
    have "mag_andnot a (mag_of ?b) = Some (mag_of (nat (int (mag a) AND NOT (int ?b))))"
      using mag_andnot_mag_of [of a "mag_of ?b"] len f(4) by (simp add: bi_len_def)
    with 3 show ?thesis
      using bitop_fit [OF f(1,4)] f(6)
      by (simp add: bigint_and_def read_sign_def neg bi_val_pos normalize_mag_of)
  next
    case 4
    have "mag_andnot b (mag_of ?a) = Some (mag_of (nat (int (mag b) AND NOT (int ?a))))"
      using mag_andnot_mag_of [of b "mag_of ?a"] len f(3) by (simp add: bi_len_def)
    with 4 show ?thesis
      using bitop_fit [OF f(2,3)] f(5)
      by (simp add: bigint_and_def read_sign_def neg bi_val_pos normalize_mag_of and.commute)
  qed
qed


lemma bigint_or_of_int:
  assumes "canonical a" "canonical b" "max (bi_len a) (bi_len b) + 1 < LEN_LIM"
  shows "bigint_or a b = Some (bi_of_int (bi_val a OR bi_val b))"
proof -
  let ?a = "mag a - 1" and ?b = "mag b - 1"
  note f = bitop_facts [OF assms] and neg = bi_val_neg [OF assms(1)] bi_val_neg [OF assms(2)]
  have len: "bi_len a < LEN_LIM" "bi_len b < LEN_LIM" using assms by simp_all
  consider "sign a = 0" "sign b = 0" | "sign a \<noteq> 0" "sign b \<noteq> 0"
    | "sign a = 0" "sign b \<noteq> 0" | "sign a \<noteq> 0" "sign b = 0" by blast
  then show ?thesis
  proof cases
    case 1
    then show ?thesis
      using bitop_fit [OF f(1,2)] len
      by (simp add: bigint_or_def read_sign_def bi_val_pos mag_or_mag_of normalize_mag_of of_nat_or_eq)
  next
    case 2
    then show ?thesis
      using bitop_fit [OF f(3,4)] f(5,6) write_sign_inc1 [of "?a AND ?b"]
      by (simp add: bigint_or_def read_sign_def neg mag_ops_mag_of of_nat_and_eq)
  next
    case 3
    have "mag_andnot (mag_of ?b) a = Some (mag_of (nat (int ?b AND NOT (int (mag a)))))"
      using mag_andnot_mag_of [of "mag_of ?b" a] len f(4) by (simp add: bi_len_def)
    with 3 show ?thesis
      using bitop_fit [OF f(4,1)] f(6) write_sign_inc1 [of "nat (int ?b AND NOT (int (mag a)))"]
      by (simp add: bigint_or_def read_sign_def neg bi_val_pos or.commute)
  next
    case 4
    have "mag_andnot (mag_of ?a) b = Some (mag_of (nat (int ?a AND NOT (int (mag b)))))"
      using mag_andnot_mag_of [of "mag_of ?a" b] len f(3) by (simp add: bi_len_def)
    with 4 show ?thesis
      using bitop_fit [OF f(3,2)] f(5) write_sign_inc1 [of "nat (int ?a AND NOT (int (mag b)))"]
      by (simp add: bigint_or_def read_sign_def neg bi_val_pos)
  qed
qed

lemma bigint_xor_of_int:
  assumes "canonical a" "canonical b" "max (bi_len a) (bi_len b) + 1 < LEN_LIM"
  shows "bigint_xor a b = Some (bi_of_int (bi_val a XOR bi_val b))"
proof -
  let ?a = "mag a - 1" and ?b = "mag b - 1"
  note f = bitop_facts [OF assms] and neg = bi_val_neg [OF assms(1)] bi_val_neg [OF assms(2)]
  have len: "bi_len a < LEN_LIM" "bi_len b < LEN_LIM" using assms by simp_all
  consider "sign a = 0" "sign b = 0" | "sign a \<noteq> 0" "sign b \<noteq> 0"
    | "sign a = 0" "sign b \<noteq> 0" | "sign a \<noteq> 0" "sign b = 0" by blast
  then show ?thesis
  proof cases
    case 1
    then show ?thesis
      using bitop_fit [OF f(1,2)] len
      by (simp add: bigint_xor_def read_sign_def bi_val_pos mag_xor_mag_of normalize_mag_of of_nat_xor_eq)
  next
    case 2
    then show ?thesis
      using bitop_fit [OF f(3,4)] f(5,6)
      by (simp add: bigint_xor_def read_sign_def neg mag_ops_mag_of normalize_mag_of of_nat_xor_eq)
  next
    case 3
    have "mag_xor a (mag_of ?b) = Some (mag_of (mag a XOR ?b))"
      using mag_xor_mag_of [of a "mag_of ?b"] len f(4) by (simp add: bi_len_def)
    with 3 show ?thesis
      using bitop_fit [OF f(1,4)] f(6) write_sign_inc1 [of "mag a XOR ?b"]
      by (simp add: bigint_xor_def read_sign_def neg bi_val_pos of_nat_xor_eq)
  next
    case 4
    have "mag_xor b (mag_of ?a) = Some (mag_of (mag b XOR ?a))"
      using mag_xor_mag_of [of b "mag_of ?a"] len f(3) by (simp add: bi_len_def)
    with 4 show ?thesis
      using bitop_fit [OF f(2,3)] f(5) write_sign_inc1 [of "mag b XOR ?a"]
      by (simp add: bigint_xor_def read_sign_def neg bi_val_pos of_nat_xor_eq xor.commute)
  qed
qed

lemma bigint_not_of_int:
  assumes "canonical a" "max (bi_len a) 1 + 1 < LEN_LIM"
  shows "bigint_not a = Some (bi_of_int (NOT (bi_val a)))"
proof -
  have "length (limbs (nat \<bar>bi_val a + 1\<bar>)) \<le> max (bi_len a) 1 + 1"
  proof -
    have "nat \<bar>bi_val a + 1\<bar> \<le> mag a + mag (mag_of 1)"
      by (simp add: bi_val_def) arith
    then show ?thesis
      using length_limbs_add [of a "mag_of 1"] length_limbs_mono by (fastforce simp: bi_len_def limbs_1)
  qed
  then have "canonical (bi_of_int (bi_val a + 1))"
    using assms(2) by (auto simp: canonical_def bi_of_int_def last_limbs)
  moreover have "canonical (fresh 0 [1])" "bi_val (fresh 0 [1]) = 1"
    using assms(2) by (simp_all add: canonical_def bi_val_def)
  then have "bigint_add a (fresh 0 [1]) = Some (bi_of_int (bi_val a + 1))"
    using bigint_add_of_int [of a "fresh 0 [1]"] assms by simp
  ultimately show ?thesis
    using bigint_neg_of_int [of "bi_of_int (bi_val a + 1)"]
    by (simp add: bigint_not_def alloc_raw_fresh wr_def not_int_def)
qed

section \<open>Properties\<close>

text \<open>C14: \<open>& | ^\<close> with their sign cases over magnitudes are the bit operations of infinite two's
  complement, for operands of every sign.\<close>

theorem bitwise_correct:
  assumes "canonical a" "canonical b" "max (bi_len a) (bi_len b) + 1 < LEN_LIM"
  shows "bigint_and a b = Some (bi_of_int (bi_val a AND bi_val b)) \<and>
    bigint_or a b = Some (bi_of_int (bi_val a OR bi_val b)) \<and>
    bigint_xor a b = Some (bi_of_int (bi_val a XOR bi_val b))"
  using bigint_and_of_int [OF assms] bigint_or_of_int [OF assms] bigint_xor_of_int [OF assms] by simp

lemma bitwise_correct_witness:
  "bigint_and (bi_of_int (- 4)) (bi_of_int 7) = Some (bi_of_int 4) \<and>
   bigint_or (bi_of_int (- 4)) (bi_of_int 7) = Some (bi_of_int (- 1)) \<and>
   bigint_xor (bi_of_int (- 4)) (bi_of_int 7) = Some (bi_of_int (- 5))"
  using bitwise_correct [of "bi_of_int (- 4)" "bi_of_int 7"] small_block [of "- 4"] small_block [of 7]
  by (simp add: LEN_LIM_def)

text \<open>\<open>~a\<close>, computed as \<open>-(a + 1n)\<close>, is the complement of every bit.\<close>

theorem not_correct:
  assumes "canonical a" "max (bi_len a) 1 + 1 < LEN_LIM"
  shows "bigint_not a = Some (bi_of_int (NOT (bi_val a)))"
  using assms by (rule bigint_not_of_int)

lemma not_correct_witness: "bigint_not (bi_of_int (2 ^ 64 - 1)) = Some (bi_of_int (- (2 ^ 64)))"
  using not_correct [of "bi_of_int (2 ^ 64 - 1)"] small_block [of "2 ^ 64 - 1"]
  by (simp add: LEN_LIM_def)

end
