(* ===== verification/BigInt_Shift.thy ===== *)
theory BigInt_Shift
  imports BigInt_Bits
begin

text \<open>
  \<open>shift.rs\<close>: the magnitude shifts, the extraction of the shift amount and the
  operators \<open><<\<close> and \<open>>>\<close>, which call each other for negative amounts. The
  limb shift is a \<open>u32\<close>: for amounts of at least \<open>2 ^ 38\<close> bits the cast
  \<open>(n / 64) as u32\<close> drops high bits, and the last section proves what the
  operators then do.
\<close>

section \<open>The operations\<close>

definition shl_limb :: "u64 list \<Rightarrow> nat \<Rightarrow> nat \<Rightarrow> nat \<Rightarrow> u64 list \<times> u64 \<Rightarrow> (u64 list \<times> u64) option" where
  "shl_limb aw limb_shift bit_shift i = (\<lambda>(rw, carry). do {
     v \<leftarrow> rd aw i;
     rw \<leftarrow> wr rw (i + limb_shift) (push_bit bit_shift v OR carry);
     Some (rw, drop_bit (64 - bit_shift) v)
   })"

text \<open>The copy idiom of the file: a fresh block with the limbs of \<open>n\<close> and sign 0.\<close>

definition abs_block :: "bigint \<Rightarrow> bigint option" where
  "abs_block n = do {
     let nlen = read_len n;
     let r = alloc_raw nlen;
     w \<leftarrow> (if nlen > 0 then copy_words (words r) (words n) (unat nlen) else Some (words r));
     Some (r\<lparr>words := w\<rparr>)
   }"

definition mag_shl :: "bigint \<Rightarrow> u64 \<Rightarrow> bigint option" where
  "mag_shl a n =
     (let alen = read_len a in
      if alen = 0 \<or> n = 0 then abs_block a
      else do {
        let limb_shift = (ucast (n div 64) :: u32);
        let bit_shift = (ucast (n mod 64) :: u32);
        let new_len = alen + limb_shift + 1;
        let r = alloc_raw new_len;
        let aw = words a;
        rw \<leftarrow> (if bit_shift = 0 then
            for_range 0 (unat alen) (\<lambda>i rw. do { v \<leftarrow> rd aw i; wr rw (i + unat limb_shift) v }) (words r)
          else do {
            (rw, carry) \<leftarrow> for_range 0 (unat alen) (shl_limb aw (unat limb_shift) (unat bit_shift)) (words r, 0);
            wr rw (unat alen + unat limb_shift) carry
          });
        Some (normalize (r\<lparr>words := rw\<rparr>))
      })"

definition mag_shr :: "bigint \<Rightarrow> u64 \<Rightarrow> bigint option" where
  "mag_shr a n =
     (let alen = read_len a;
          limb_shift = (ucast (n div 64) :: u32);
          bit_shift = (ucast (n mod 64) :: u32)
      in if limb_shift \<ge> alen then Some (alloc_raw 0)
      else do {
        let new_len = alen - limb_shift;
        let r = alloc_raw new_len;
        let aw = words a;
        rw \<leftarrow> (if bit_shift = 0 then
            for_range 0 (unat new_len) (\<lambda>i rw. do { v \<leftarrow> rd aw (i + unat limb_shift); wr rw i v }) (words r)
          else
            for_range 0 (unat new_len) (\<lambda>i rw. do {
              let src_lo = i + unat limb_shift;
              x \<leftarrow> rd aw src_lo;
              let lo = drop_bit (unat bit_shift) x;
              hi \<leftarrow> (if src_lo + 1 < unat alen
                     then do { y \<leftarrow> rd aw (src_lo + 1); Some (push_bit (64 - unat bit_shift) y) }
                     else Some 0);
              wr rw i (lo OR hi)
            }) (words r));
        Some (normalize (r\<lparr>words := rw\<rparr>))
      })"

definition I64_MAX :: u64 where
  "I64_MAX = 0x7FFFFFFFFFFFFFFF"

definition shift_msg :: string where
  "shift_msg = ''BigInt shift amount too large''"

text \<open>
  After arming the RangeError the source returns 0 and its caller hands back a
  clone that the pending throw discards: the thrown error is the whole outcome.
\<close>

definition to_i64_for_shift :: "bigint \<Rightarrow> i64 outcome" where
  "to_i64_for_shift n =
     (let len = read_len n in
      if len = 0 then ret 0
      else if len > 1 then throw (RangeError shift_msg)
      else do {
        v \<leftarrow> rd (words n) 0;
        if v > I64_MAX then throw (RangeError shift_msg)
        else ret (if read_sign n \<noteq> 0 then - v else v)
      })"

definition clone_block :: "bigint \<Rightarrow> bigint option" where
  "clone_block a = do { r \<leftarrow> abs_block a; Some (write_sign r (read_sign a)) }"

text \<open>
  The two operators call each other once at most: the callee receives the fresh
  block of \<open>|n|\<close>, whose sign is 0.
\<close>

definition shl_positive :: "bigint \<Rightarrow> i64 \<Rightarrow> bigint option" where
  "shl_positive a shift = do {
     r \<leftarrow> mag_shl a shift;
     Some (write_sign r (if read_len r = 0 then 0 else read_sign a))
   }"

definition shr_positive :: "bigint \<Rightarrow> i64 \<Rightarrow> bigint option" where
  "shr_positive a shift =
     (if read_sign a = 0 then mag_shr a shift
      else do {
        am \<leftarrow> mag_dec1 a;
        shifted \<leftarrow> mag_shr am shift;
        r \<leftarrow> mag_inc1 shifted;
        Some (if read_len r > 0 then write_sign r 1 else r)
      })"

definition lift_ret :: "'a option \<Rightarrow> 'a outcome" where
  "lift_ret m = map_option Inr m"

fun is_neg_amount :: "bigint \<Rightarrow> nat" where
  "is_neg_amount n = (if read_sign n \<noteq> 0 then 1 else 0)"

lemma abs_block_sign: "abs_block n = Some r \<Longrightarrow> read_sign r = 0"
  by (auto simp: abs_block_def alloc_raw_fresh Let_def split: if_splits bind_splits)

lemma signed_take_bit_nonneg_self:
  "k < 2 ^ n \<Longrightarrow> 0 \<le> k \<Longrightarrow> signed_take_bit n k = k" for k :: int
  by (rule signed_take_bit_int_eq_self) (auto intro: order_trans [of _ 0])

lemma signed_take_bit_neg_self:
  "k < 2 ^ n \<Longrightarrow> 0 \<le> k \<Longrightarrow> signed_take_bit n (- k) = - k" for k :: int
  by (rule signed_take_bit_int_eq_self) (auto intro: less_le_trans [of _ 1] le_less_trans [of _ 0])

lemma sint_le_I64_MAX: "v \<le> I64_MAX \<Longrightarrow> sint v = int (unat v) \<and> unat v < 2 ^ 63"
proof -
  assume "v \<le> I64_MAX"
  then have "uint v \<le> 0x7FFFFFFFFFFFFFFF" by (simp add: I64_MAX_def word_le_def)
  then have "uint v < 2 ^ 63" "0 \<le> uint v" by simp_all
  then have "signed_take_bit 63 (uint v) = uint v" by (intro signed_take_bit_nonneg_self)
  then have "sint v = uint v" by (simp add: sint_uint)
  moreover have u: "int (unat v) = uint v" by simp
  moreover have "int (unat v) < int (2 ^ 63)" unfolding u using \<open>uint v < 2 ^ 63\<close> by simp
  ultimately show ?thesis unfolding of_nat_less_iff by simp
qed

lemma to_i64_neg_sign: "to_i64_for_shift n = ret s \<Longrightarrow> sint s < 0 \<Longrightarrow> read_sign n \<noteq> 0"
  by (auto simp: to_i64_for_shift_def Let_def not_less dest!: sint_le_I64_MAX
      split: if_splits bind_splits)

function bigint_shl :: "bigint \<Rightarrow> bigint \<Rightarrow> bigint outcome"
  and bigint_shr :: "bigint \<Rightarrow> bigint \<Rightarrow> bigint outcome" where
  "bigint_shl a n =
     (case to_i64_for_shift n of
        None \<Rightarrow> None
      | Some (Inl e) \<Rightarrow> throw e
      | Some (Inr shift) \<Rightarrow>
          if shift = 0 then lift_ret (clone_block a)
          else if sint shift < 0 then
            (case abs_block n of None \<Rightarrow> None | Some abs_n \<Rightarrow> bigint_shr a abs_n)
          else lift_ret (shl_positive a shift))"
| "bigint_shr a n =
     (case to_i64_for_shift n of
        None \<Rightarrow> None
      | Some (Inl e) \<Rightarrow> throw e
      | Some (Inr shift) \<Rightarrow>
          if shift = 0 then lift_ret (clone_block a)
          else if sint shift < 0 then
            (case abs_block n of None \<Rightarrow> None | Some abs_n \<Rightarrow> bigint_shl a abs_n)
          else lift_ret (shr_positive a shift))"
  by pat_completeness auto
termination
  by (relation "measure (\<lambda>p. case p of Inl (a, n) \<Rightarrow> is_neg_amount n | Inr (a, n) \<Rightarrow> is_neg_amount n)")
    (auto dest: abs_block_sign to_i64_neg_sign)

declare bigint_shl.simps [simp del] bigint_shr.simps [simp del]


section \<open>Shifting magnitudes\<close>

lemma shl_word_value:
  fixes x c :: u64
  assumes "0 < k" "k < 64" "unat c < 2 ^ k"
  shows "unat (push_bit k x OR c) + LB * unat (drop_bit (64 - k) x) = 2 ^ k * unat x + unat c"
proof -
  have c: "\<not> bit c n" if "k \<le> n" for n
  proof -
    have "unat c < 2 ^ n" using assms(3) that by (meson le_less_trans less_le_trans not_le power_increasing one_le_numeral)
    then have "\<not> bit (unat c) n" by (simp add: bit_iff_odd)
    then show ?thesis by (simp add: bit_unsigned_iff)
  qed
  have "push_bit k x OR c = push_bit k x + c"
    by (rule disjunctive_add [symmetric]) (use c in \<open>auto simp: bit_push_bit_iff\<close>)
  moreover have p: "unat (push_bit k x) = 2 ^ k * (unat x mod 2 ^ (64 - k))"
  proof -
    have "(2::nat) ^ k * 2 ^ (64 - k) = 2 ^ 64" using assms(2) by (simp flip: power_add)
    moreover have "unat (push_bit k x) = take_bit 64 (push_bit k (unat x))"
      using unsigned_push_bit_eq [where 'a = nat and w = x and n = k] by simp
    ultimately have "unat (push_bit k x) = 2 ^ k * unat x mod (2 ^ k * 2 ^ (64 - k))"
      by (simp only: take_bit_eq_mod push_bit_eq_mult mult.commute)
    then show ?thesis by (simp only: mult_mod_right)
  qed
  moreover have "unat (push_bit k x) + unat c < LB"
  proof -
    have "unat x mod 2 ^ (64 - k) + 1 \<le> 2 ^ (64 - k)" by (simp add: Suc_leI)
    then have "2 ^ k * (unat x mod 2 ^ (64 - k) + 1) \<le> 2 ^ k * 2 ^ (64 - k)" by (rule mult_le_mono2)
    also have "\<dots> = LB" using assms(2) by (simp add: LB_def flip: power_add)
    finally show ?thesis using assms(3) p by (simp add: algebra_simps)
  qed
  moreover have "unat (drop_bit (64 - k) x) = unat x div 2 ^ (64 - k)"
    unfolding unat_drop_bit_eq by (simp add: drop_bit_eq_div)
  moreover have "LB = 2 ^ k * 2 ^ (64 - k)"
    using assms(2) by (simp add: LB_def flip: power_add)
  moreover have "unat x = 2 ^ (64 - k) * (unat x div 2 ^ (64 - k)) + unat x mod 2 ^ (64 - k)" by simp
  then have "2 ^ k * unat x = 2 ^ k * (2 ^ (64 - k) * (unat x div 2 ^ (64 - k)) + unat x mod 2 ^ (64 - k))"
    by (rule arg_cong)
  then have "2 ^ k * unat x =
      2 ^ k * 2 ^ (64 - k) * (unat x div 2 ^ (64 - k)) + 2 ^ k * (unat x mod 2 ^ (64 - k))"
    unfolding distrib_left mult.assoc .
  ultimately show ?thesis by (simp only: unat_add_64)
qed

lemma abs_block_fresh: "bi_len a < LEN_LIM \<Longrightarrow> abs_block a = Some (fresh 0 (words a))"
  by (auto simp: abs_block_def alloc_raw_fresh copy_words_all bi_len_def word_gt_0 read_len_0 Let_def)

lemma clone_block_of_int: "canonical a \<Longrightarrow> clone_block a = Some (bi_of_int (bi_val a))"
  by (simp add: clone_block_def abs_block_fresh read_sign_def bi_of_int_bi_val)

text \<open>The shift amount split into limbs and bits; below \<open>2 ^ 38\<close> the cast keeps it.\<close>

lemma split_amount:
  assumes "unat n div 64 < LEN_LIM"
  shows "unat (ucast (n div 64 :: u64) :: u32) = unat n div 64"
    "unat (ucast (n mod 64 :: u64) :: u32) = unat n mod 64"
proof -
  have "unat n mod 64 < LEN_LIM" by (rule less_trans [of _ 64]) (simp_all add: LEN_LIM_def)
  then show "unat (ucast (n div 64 :: u64) :: u32) = unat n div 64"
    "unat (ucast (n mod 64 :: u64) :: u32) = unat n mod 64"
    using assms by (simp_all add: unsigned_ucast_eq unat_div unat_mod take_bit_nat_eq_self_iff LEN_LIM_def)
qed

lemma mval_padded: "mval (replicate ls 0 @ ws @ replicate k 0) = LB ^ ls * mval ws"
  by (simp add: mval_append)

lemma shl_copy_loop:
  fixes aw :: "u64 list"
  shows "for_range 0 (length aw) (\<lambda>i rw. do { v \<leftarrow> rd aw i; wr rw (i + ls) v }) (replicate (length aw + ls + 1) 0)
   = Some (replicate ls 0 @ aw @ [0])"
proof (rule wp_eqI, rule wp_for_range [where I = "\<lambda>i r. r = replicate ls 0 @ take i aw @
    replicate (length aw + 1 - i) 0"])
  show "replicate (length aw + ls + 1) 0 = replicate ls 0 @ take 0 aw @ replicate (length aw + 1 - 0) 0"
  proof -
    have "length aw + ls + 1 = ls + (length aw + 1)" by simp
    then show ?thesis by (simp only: replicate_add take_0 append_Nil diff_zero)
  qed
next
  fix i r
  assume i: "i < length aw" "r = replicate ls 0 @ take i aw @ replicate (length aw + 1 - i) 0"
  have "replicate (length aw + 1 - i) (0 :: u64) = 0 # replicate (length aw + 1 - Suc i) 0"
    using i(1) by (simp add: Suc_diff_le)
  with i show "wp (do { v \<leftarrow> rd aw i; wr r (i + ls) v })
    (\<lambda>r. r = replicate ls 0 @ take (Suc i) aw @ replicate (length aw + 1 - Suc i) 0)"
    by (simp add: wp_simps list_update_append take_Suc_conv_app_nth)
qed auto

definition shl_inv :: "u64 list \<Rightarrow> nat \<Rightarrow> nat \<Rightarrow> nat \<Rightarrow> u64 list \<times> u64 \<Rightarrow> bool" where
  "shl_inv aw ls bs i = (\<lambda>(r, c). \<exists>u. length u = i \<and>
     r = replicate ls 0 @ u @ replicate (length aw + 1 - i) 0 \<and> unat c < 2 ^ bs \<and>
     mval u + LB ^ i * unat c = 2 ^ bs * mval (take i aw))"

lemma shl_limb_step:
  assumes "shl_inv aw ls bs i (r, c)" "i < length aw" "0 < bs" "bs < 64"
  shows "wp (shl_limb aw ls bs i (r, c)) (shl_inv aw ls bs (Suc i))"
proof -
  let ?v = "aw ! i"
  let ?x = "push_bit bs ?v OR c" and ?c = "drop_bit (64 - bs) ?v"
  obtain u where u: "length u = i" "r = replicate ls 0 @ u @ replicate (length aw + 1 - i) 0"
    "unat c < 2 ^ bs" "mval u + LB ^ i * unat c = 2 ^ bs * mval (take i aw)"
    using assms(1) by (auto simp: shl_inv_def)
  have "replicate (length aw + 1 - i) (0 :: u64) = 0 # replicate (length aw + 1 - Suc i) 0"
    using assms(2) by (simp add: Suc_diff_le)
  then have r: "i + ls < length r"
    "r[i + ls := ?x] = replicate ls 0 @ (u @ [?x]) @ replicate (length aw + 1 - Suc i) 0"
    using u(1,2) by (simp_all add: list_update_append)
  have v: "unat ?x + LB * unat ?c = 2 ^ bs * unat ?v + unat c"
    by (rule shl_word_value) (use assms u in auto)
  have "mval (u @ [?x]) + LB ^ Suc i * unat ?c = mval u + LB ^ i * (unat ?x + LB * unat ?c)"
    using u(1) by (simp add: mval_append algebra_simps)
  also have "\<dots> = mval u + LB ^ i * unat c + LB ^ i * (2 ^ bs * unat ?v)"
    unfolding v by (simp add: algebra_simps)
  also have "\<dots> = 2 ^ bs * mval (take (Suc i) aw)"
    unfolding u(4) by (simp add: mval_take_Suc assms(2) algebra_simps)
  finally have m: "mval (u @ [?x]) + LB ^ Suc i * unat ?c = 2 ^ bs * mval (take (Suc i) aw)" .
  have "unat ?v div 2 ^ (64 - bs) < 2 ^ bs"
    using unat_less_LB [of ?v] assms(4)
    by (simp add: less_mult_imp_div_less LB_def flip: power_add)
  then have "unat ?c < 2 ^ bs" unfolding unat_drop_bit_eq by (simp add: drop_bit_eq_div)
  with m r u(1) show ?thesis
    using assms(2) by (auto simp: shl_limb_def wp_simps shl_inv_def intro!: exI [of _ "u @ [?x]"])
qed


lemma shl_carry_loop:
  assumes "0 < bs" "bs < 64"
  shows "wp (for_range 0 (length aw) (shl_limb aw ls bs) (replicate (length aw + ls + 1) 0, 0))
    (shl_inv aw ls bs (length aw))"
proof (rule wp_for_range [where I = "shl_inv aw ls bs"])
  have "length aw + ls + 1 = ls + (length aw + 1)" by simp
  then have "replicate (length aw + ls + 1) 0 = replicate ls 0 @ [] @ replicate (length aw + 1 - 0) (0 :: u64)"
    by (simp only: replicate_add append_Nil diff_zero)
  then show "shl_inv aw ls bs 0 (replicate (length aw + ls + 1) 0, 0)"
    by (simp only: shl_inv_def prod.case) (intro exI [of _ "[]"], simp)
next
  fix i s assume "i < length aw" "shl_inv aw ls bs i s"
  then show "wp (shl_limb aw ls bs i s) (shl_inv aw ls bs (Suc i))"
    using shl_limb_step [of aw ls bs i "fst s" "snd s"] assms by simp
qed auto

lemma two_power_split: "2 ^ n = LB ^ (n div 64) * 2 ^ (n mod 64)" for n :: nat
proof -
  have "(2::nat) ^ n = 2 ^ (64 * (n div 64) + n mod 64)" by simp
  then show ?thesis by (simp only: power_add LB_power)
qed

lemma mag_shl_mag_of:
  assumes "canonical a" "bi_len a + unat n div 64 + 1 < LEN_LIM"
  shows "mag_shl a n = Some (mag_of (mag a * 2 ^ unat n))"
proof (cases "words a = [] \<or> n = 0")
  case True
  then have "abs_block a = Some (mag_of (mag a * 2 ^ unat n))"
    using assms(1) mag_of_mag [OF assms(1)] mag_0_iff [OF assms(1)]
    by (auto simp: abs_block_fresh mag_of_def)
  with True assms(1) show ?thesis by (auto simp: mag_shl_def read_len_0)
next
  case False
  let ?ls = "unat n div 64" and ?bs = "unat n mod 64" and ?aw = "words a"
  have len: "bi_len a < LEN_LIM" "?ls < LEN_LIM" using assms by simp_all
  note sp = split_amount [OF len(2)]
  have nl: "unat (read_len a + ucast (n div 64) + 1) = length ?aw + ?ls + 1"
    using assms len sp by (simp add: unat_add_len bi_len_def)
  have bs0: "(ucast (n mod 64) :: u32) = 0 \<longleftrightarrow> ?bs = 0"
    using sp(2) by (metis unat_eq_0)
  have la: "unat (read_len a) = length ?aw" using len by (simp add: bi_len_def)
  have ne: "\<not> (read_len a = 0 \<or> n = 0)" using False len by (simp add: read_len_0)
  have pw: "2 ^ unat n = LB ^ ?ls * 2 ^ ?bs" by (rule two_power_split)
  show ?thesis
  proof (cases "?bs = 0")
    case True
    have "mag_shl a n = Some (normalize (fresh 0 (replicate ?ls 0 @ ?aw @ [0])))"
      using shl_copy_loop [of ?aw ?ls] ne True bs0
      by (simp only: mag_shl_def Let_def alloc_raw_fresh fresh_simps nl la sp simp_thms if_True
          if_False Option.bind.bind_lunit)
    moreover have "mval (replicate ?ls 0 @ ?aw @ [0]) = mag a * 2 ^ unat n"
      using True by (simp add: pw mag_def mval_append)
    ultimately show ?thesis using assms(2) by (simp add: normalize_mag bi_len_def)
  next
    case False
    have "0 < ?bs" "?bs < 64" using False by simp_all
    then obtain r c where loop: "for_range 0 (length ?aw) (shl_limb ?aw ?ls ?bs)
        (replicate (length ?aw + ?ls + 1) 0, 0) = Some (r, c)"
      and inv: "shl_inv ?aw ?ls ?bs (length ?aw) (r, c)"
      using shl_carry_loop [of ?bs ?aw ?ls] by (auto elim: wpE)
    obtain u where u: "length u = length ?aw" "r = replicate ?ls 0 @ u @ [0]"
      "mval u + LB ^ length ?aw * unat c = 2 ^ ?bs * mval ?aw"
      using inv by (auto simp: shl_inv_def)
    have w: "wr r (length ?aw + ?ls) c = Some (replicate ?ls 0 @ u @ [c])"
      using u(1,2) by (simp add: wr_def list_update_append)
    have "mag_shl a n = Some (normalize (fresh 0 (replicate ?ls 0 @ u @ [c])))"
      using loop ne False bs0 w
      by (simp only: mag_shl_def Let_def alloc_raw_fresh fresh_simps nl la sp if_True if_False
          Option.bind.bind_lunit prod.case)
    moreover have "mval (replicate ?ls 0 @ u @ [c]) = mag a * 2 ^ unat n"
      using u(1,3) by (simp add: pw mag_def mval_append)
    ultimately show ?thesis using assms(2) u(1) by (simp add: normalize_mag bi_len_def)
  qed
qed


lemma mag_shr_bit:
  fixes ws :: "u64 list"
  assumes "0 < bs" "bs < 64" "m < 64"
  shows "bit (drop_bit bs (limb_or_0 ws j) OR push_bit (64 - bs) (limb_or_0 ws (Suc j))) m =
    bit (mval ws) (64 * j + (m + bs))"
proof (cases "m + bs < 64")
  case True
  then have "(64 * j + (m + bs)) div 64 = j" "(64 * j + (m + bs)) mod 64 = m + bs" by simp_all
  with True assms show ?thesis
    by (auto simp: bit_mval limb_or_0_def bit_or_iff bit_drop_bit_eq bit_push_bit_iff add.commute)
next
  case False
  define k where "k = m + bs - 64"
  have k: "m + bs = 64 + k" "k < 64" using False assms by (simp_all add: k_def)
  then have e: "64 * j + (m + bs) = 64 * Suc j + k" by simp
  have "(64 * Suc j + k) div 64 = Suc j" "(64 * Suc j + k) mod 64 = k"
    using k(2) div_mult_self4 [of 64 "Suc j" k] mod_mult_self4 [of 64 "Suc j" k] by auto
  moreover have "64 - bs \<le> m" "m - (64 - bs) = k" using k False assms by simp_all
  moreover have "\<not> bit (limb_or_0 ws j) (m + bs)"
    using False bit_word_ge [of "limb_or_0 ws j" "m + bs"] by blast
  ultimately show ?thesis
    unfolding e using assms
    by (auto simp: bit_mval limb_or_0_def bit_or_iff bit_drop_bit_eq bit_push_bit_iff add.commute
        split: if_splits)
qed

lemma mval_shifted:
  fixes ws :: "u64 list"
  assumes "ls < length ws" "bs < 64"
    and h: "\<And>j. h j = (if bs = 0 then limb_or_0 ws (j + ls)
      else drop_bit bs (limb_or_0 ws (j + ls)) OR push_bit (64 - bs) (limb_or_0 ws (Suc (j + ls))))"
  shows "mval (map h [0..<length ws - ls]) = mval ws div 2 ^ (64 * ls + bs)"
proof -
  have "mval (map h [0..<length ws - ls]) = drop_bit (64 * ls + bs) (mval ws)"
  proof (rule bit_eqI)
    fix i :: nat
    let ?j = "i div 64" and ?m = "i mod 64"
    have i: "i = 64 * ?j + ?m" by simp
    have hb: "bit (h ?j) ?m = bit (mval ws) (64 * ls + bs + i)"
    proof (cases "bs = 0")
      case True
      have "(64 * ls + i) div 64 = ?j + ls" "(64 * ls + i) mod 64 = ?m"
        using div_mult_self4 [of 64 ls i] mod_mult_self4 [of 64 ls i] by auto
      with True show ?thesis by (auto simp: h limb_or_0_def bit_mval add.commute)
    next
      case False
      then have "bit (h ?j) ?m = bit (mval ws) (64 * (?j + ls) + (?m + bs))"
        using mag_shr_bit [of bs ?m ws "?j + ls"] assms(2) by (simp add: h)
      also have "64 * (?j + ls) + (?m + bs) = 64 * ls + bs + i"
        unfolding distrib_left using i by linarith
      finally show ?thesis .
    qed
    have "bit (mval ws) (64 * ls + bs + i) \<Longrightarrow> ?j < length ws - ls"
    proof -
      assume "bit (mval ws) (64 * ls + bs + i)"
      then have "(64 * ls + bs + i) div 64 < length ws" by (simp add: bit_mval)
      moreover have "ls + ?j \<le> (64 * ls + bs + i) div 64"
        by (metis add.assoc add.commute div_le_mono div_mult_self4 le_add1 zero_neq_numeral)
      ultimately show "?j < length ws - ls" by linarith
    qed
    with hb show "bit (mval (map h [0..<length ws - ls])) i = bit (drop_bit (64 * ls + bs) (mval ws)) i"
      by (subst bit_mval) (auto simp: bit_drop_bit_eq add.commute)
  qed
  then show ?thesis by (simp add: drop_bit_eq_div)
qed


lemma mag_shr_mag_of:
  assumes "bi_len a < LEN_LIM" "unat n div 64 < LEN_LIM"
  shows "mag_shr a n = Some (mag_of (mag a div 2 ^ unat n))"
proof -
  let ?ls = "unat n div 64" and ?bs = "unat n mod 64" and ?aw = "words a"
  note sp = split_amount [OF assms(2)]
  have la: "unat (read_len a) = length ?aw" using assms by (simp add: bi_len_def)
  have bs0: "(ucast (n mod 64) :: u32) = 0 \<longleftrightarrow> ?bs = 0"
    using sp(2) by (metis unat_eq_0)
  have n: "64 * ?ls + ?bs = unat n" by simp
  show ?thesis
  proof (cases "length ?aw \<le> ?ls")
    case True
    then have "read_len a \<le> ucast (n div 64)" by (simp add: word_le_nat_alt la sp)
    moreover have "mag a < 2 ^ unat n"
    proof -
      have "mag a < LB ^ ?ls"
        using less_le_trans [OF mag_less [of a] power_increasing [of "bi_len a" ?ls LB]] True
        by (simp add: bi_len_def)
      also have "\<dots> \<le> 2 ^ unat n" unfolding two_power_split [of "unat n"] by simp
      finally show ?thesis .
    qed
    ultimately show ?thesis by (simp add: mag_shr_def)
  next
    case False
    let ?h = "\<lambda>j. if ?bs = 0 then limb_or_0 ?aw (j + ?ls)
      else drop_bit ?bs (limb_or_0 ?aw (j + ?ls)) OR push_bit (64 - ?bs) (limb_or_0 ?aw (Suc (j + ?ls)))"
    let ?k = "length ?aw - ?ls"
    have ge: "\<not> read_len a \<le> ucast (n div 64)" using False by (simp add: word_le_nat_alt la sp)
    have nl: "unat (read_len a - ucast (n div 64)) = ?k"
      using ge by (simp add: unat_sub la sp)
    have loop: "(if ?bs = 0 then
          for_range 0 ?k (\<lambda>i rw. do { v \<leftarrow> rd ?aw (i + ?ls); wr rw i v }) (replicate ?k 0)
        else
          for_range 0 ?k (\<lambda>i rw. do {
            let src_lo = i + ?ls;
            x \<leftarrow> rd ?aw src_lo;
            let lo = drop_bit ?bs x;
            hi \<leftarrow> (if src_lo + 1 < length ?aw
                   then do { y \<leftarrow> rd ?aw (src_lo + 1); Some (push_bit (64 - ?bs) y) }
                   else Some 0);
            wr rw i (lo OR hi)
          }) (replicate ?k 0)) = Some (map ?h [0..<?k])"
      by (cases "?bs = 0") (auto intro!: fill_loop simp: rd_def limb_or_0_def Let_def)
    have "mag_shr a n = Some (normalize (fresh 0 (map ?h [0..<?k])))"
      using loop ge bs0
      by (simp only: mag_shr_def Let_def alloc_raw_fresh fresh_simps nl la sp simp_thms if_False
          Option.bind.bind_lunit)
    moreover have "mval (map ?h [0..<?k]) = mag a div 2 ^ unat n"
      using mval_shifted [of ?ls ?aw ?bs ?h] False unfolding n by (simp add: mag_def)
    moreover have "length (map ?h [0..<?k]) < LEN_LIM"
      using less_imp_diff_less [of "length ?aw" LEN_LIM ?ls] assms(1) by (simp add: bi_len_def)
    ultimately show ?thesis by (simp only: normalize_mag)
  qed
qed

section \<open>The operators\<close>

definition shift_amount_ok :: "bigint \<Rightarrow> bool" where
  "shift_amount_ok n \<longleftrightarrow> nat \<bar>bi_val n\<bar> div 64 < LEN_LIM"

lemma mag_words: "words n = [v] \<Longrightarrow> mag n = unat v"
  by (simp add: mag_def)

text \<open>An amount that fits \<open>i64\<close> is read exactly; any other throws.\<close>

lemma to_i64_small:
  assumes "canonical n" "mag n < 2 ^ 63"
  shows "\<exists>s. to_i64_for_shift n = ret s \<and> sint s = bi_val n \<and> (s = 0 \<longleftrightarrow> bi_val n = 0) \<and>
    (sign n = 0 \<longrightarrow> unat s = mag n)"
proof (cases "words n = []")
  case True
  then show ?thesis using assms by (simp add: to_i64_for_shift_def read_len_0 bi_val_def mag_def)
next
  case False
  then have n0: "mag n \<noteq> 0" using assms(1) by (simp add: mag_0_iff)
  have "length (limbs (mag n)) \<le> 1" unfolding length_limbs_le using assms(2) by (simp add: LB_def)
  then have "length (words n) \<le> 1" using mag_of_mag [OF assms(1)] by simp
  with False obtain v where v: "words n = [v]" by (cases "words n") auto
  have m: "mag n = unat v" using v by (rule mag_words)
  have le: "v \<le> I64_MAX" using assms(2) by (simp add: m I64_MAX_def word_le_nat_alt)
  note sv = sint_le_I64_MAX [OF le]
  have len: "read_len n = 1" using v by (simp add: read_len_def as_u32_def)
  have v0: "v \<noteq> 0" "uint v \<noteq> 0" using n0 m by (auto simp: uint_0_iff)
  have "sint (- v) = - sint v"
  proof -
    have "int (unat v) < int (2 ^ 63)" unfolding of_nat_less_iff using sv by blast
    then have lt: "int (unat v) < 2 ^ 63" by simp
    have "signed_take_bit 63 (- int (unat v)) = - int (unat v)"
      by (rule signed_take_bit_neg_self) (use lt in simp_all)
    moreover have "sint (- v) = signed_take_bit 63 (- sint v)" by (simp add: sint_word_ariths)
    ultimately show ?thesis using sv by simp
  qed
  then show ?thesis
    using v len le sv m v0 n0 by (auto simp: to_i64_for_shift_def rd_def read_sign_def bi_val_def)
qed

lemma to_i64_large:
  assumes "canonical n" "2 ^ 63 \<le> mag n"
  shows "to_i64_for_shift n = throw (RangeError shift_msg)"
proof -
  have l: "unat (read_len n) = length (words n)" using read_len [OF canonical_len [OF assms(1)]] by (simp add: bi_len_def)
  have ne: "words n \<noteq> []" using assms by (auto simp: mag_def)
  then have nz: "read_len n \<noteq> 0" using assms(1) by (simp add: read_len_0)
  show ?thesis
  proof (cases "length (words n) = 1")
    case True
    then obtain v where v: "words n = [v]" by (cases "words n") auto
    then have "v > I64_MAX" using assms(2) by (simp add: mag_words [OF v] I64_MAX_def word_less_nat_alt)
    then show ?thesis using nz v l by (simp add: to_i64_for_shift_def rd_def word_less_nat_alt)
  next
    case False
    with ne have "1 < length (words n)" by (cases "words n") auto
    then show ?thesis using nz l by (simp add: to_i64_for_shift_def word_less_nat_alt)
  qed
qed


lemma shl_positive_of_int:
  assumes "canonical a" "bi_len a + unat s div 64 + 1 < LEN_LIM"
  shows "shl_positive a s = Some (bi_of_int (bi_val a * 2 ^ unat s))"
proof -
  have "length (limbs (mag a * 2 ^ unat s)) \<le> bi_len a + unat s div 64 + 1"
  proof -
    have "2 ^ unat s < LB ^ (unat s div 64 + 1)"
    proof -
      have "(2::nat) ^ (unat s mod 64) < LB"
        unfolding LB_def by (rule power_strict_increasing) simp_all
      then show ?thesis unfolding two_power_split [of "unat s"] by simp
    qed
    then have "mag a * 2 ^ unat s < LB ^ bi_len a * LB ^ (unat s div 64 + 1)"
      by (intro mult_strict_mono mag_less) simp_all
    then show ?thesis by (simp only: length_limbs_le power_add [symmetric] add.assoc)
  qed
  then have "length (limbs (mag a * 2 ^ unat s)) < LEN_LIM" using assms(2) by linarith
  then have "read_len (mag_of (mag a * 2 ^ unat s)) = 0 \<longleftrightarrow> mag a = 0"
    by (simp add: read_len_0 bi_len_def)
  then show ?thesis
    using mag_shl_mag_of [OF assms] canonical_neg [OF assms(1)] canonical_sign [OF assms(1)]
    by (auto simp: shl_positive_def read_sign_def bi_val_def bi_of_int_def mag_of_def nat_mult_distrib
        nat_power_eq mult_less_0_iff simp flip: of_nat_mult)
qed

lemma shr_positive_of_int:
  assumes "canonical a" "bi_len a + 1 < LEN_LIM" "unat s div 64 < LEN_LIM"
  shows "shr_positive a s = Some (bi_of_int (bi_val a div 2 ^ unat s))"
proof (cases "sign a = 0")
  case True
  then show ?thesis
    using mag_shr_mag_of [OF canonical_len [OF assms(1)] assms(3)]
    by (simp add: shr_positive_def read_sign_def bi_val_pos mag_of_bi_of_int zdiv_int)
next
  case False
  let ?k = "mag a - 1" and ?q = "(mag a - 1) div 2 ^ unat s"
  have dec: "mag_dec1 a = Some (mag_of ?k)"
    using False assms(1) canonical_neg [of a] canonical_sign [of a] by (auto simp: mag_dec1_mag_of)
  have "length (limbs ?k) \<le> bi_len a" by (rule mag_of_sub1_len)
  then have shr: "mag_shr (mag_of ?k) s = Some (mag_of ?q)"
    using mag_shr_mag_of [of "mag_of ?k" s] assms by (simp add: bi_len_def)
  have "length (limbs ?q) \<le> bi_len a"
    using length_limbs_mono [of ?q ?k] mag_of_sub1_len [of a] by (meson div_le_dividend order_trans)
  then have inc: "mag_inc1 (mag_of ?q) = Some (mag_of (?q + 1))" "length (limbs (?q + 1)) < LEN_LIM"
    using mag_inc1_mag_of [of "mag_of ?q"] assms(2) length_limbs_add [of "mag_of ?q" "mag_of 1"]
    by (cases "limbs ?q"; simp add: bi_len_def limbs_1)+
  have "read_len (mag_of (?q + 1)) > 0" using inc(2) by (simp add: word_gt_0 read_len_0 bi_len_def)
  moreover have "write_sign (mag_of (?q + 1)) 1 = bi_of_int (- int (?q + 1))"
    using fresh_1_bi_of_int [of "?q + 1"] by (simp add: mag_of_def)
  moreover have "bi_val a div 2 ^ unat s = - int (?q + 1)"
  proof -
    have "drop_bit (unat s) (NOT (int ?k)) = NOT (drop_bit (unat s) (int ?k))"
      by (rule bit_eqI) (simp add: bit_drop_bit_eq bit_not_iff)
    then show ?thesis
      using False assms(1) by (simp add: bi_val_neg drop_bit_eq_div not_int_def zdiv_int)
  qed
  ultimately show ?thesis
    using False dec shr inc(1) by (simp add: shr_positive_def read_sign_def)
qed

lemma abs_block_canonical:
  assumes "canonical n"
  shows "\<exists>r. abs_block n = Some r \<and> canonical r \<and> bi_val r = \<bar>bi_val n\<bar>"
  using assms
  by (auto simp: abs_block_fresh canonical_def bi_val_def mag_def bi_len_def)

text \<open>\<open>a << n\<close> and \<open>a >> n\<close> are the arithmetic shifts, for amounts below \<open>2 ^ 38\<close> bits.\<close>

definition shift_int :: "int \<Rightarrow> int \<Rightarrow> int" where
  "shift_int x k = (if 0 \<le> k then x * 2 ^ nat k else x div 2 ^ nat (- k))"

lemma amount_lt: "shift_amount_ok n \<Longrightarrow> mag n < 2 ^ 63"
  by (simp add: shift_amount_ok_def LEN_LIM_def)

lemma shl_nonneg_of_int:
  assumes "canonical a" "canonical n" "0 \<le> bi_val n" "mag n < 2 ^ 63" "bi_len a + mag n div 64 + 1 < LEN_LIM"
  shows "bigint_shl a n = ret (bi_of_int (bi_val a * 2 ^ nat (bi_val n)))"
proof -
  have s0: "sign n = 0" "bi_val n = int (mag n)"
    using assms(2,3) canonical_neg [of n] canonical_sign [of n] by (auto simp: bi_val_def)
  obtain s where s: "to_i64_for_shift n = ret s" "sint s = bi_val n" "s = 0 \<longleftrightarrow> bi_val n = 0" "unat s = mag n"
    using to_i64_small [OF assms(2,4)] s0 by auto
  then show ?thesis
    using assms(1,3,5) s0 shl_positive_of_int [OF assms(1), of s]
    by (auto simp: bigint_shl.simps [of a n] lift_ret_def clone_block_of_int)
qed

lemma shr_nonneg_of_int:
  assumes "canonical a" "canonical n" "0 \<le> bi_val n" "mag n < 2 ^ 63" "bi_len a + 1 < LEN_LIM" "mag n div 64 < LEN_LIM"
  shows "bigint_shr a n = ret (bi_of_int (bi_val a div 2 ^ nat (bi_val n)))"
proof -
  have s0: "sign n = 0" "bi_val n = int (mag n)"
    using assms(2,3) canonical_neg [of n] canonical_sign [of n] by (auto simp: bi_val_def)
  obtain s where s: "to_i64_for_shift n = ret s" "sint s = bi_val n" "s = 0 \<longleftrightarrow> bi_val n = 0" "unat s = mag n"
    using to_i64_small [OF assms(2,4)] s0 by auto
  then show ?thesis
    using assms s0 shr_positive_of_int [OF assms(1), of s]
    by (auto simp: bigint_shr.simps [of a n] lift_ret_def clone_block_of_int)
qed


lemma nat_abs_mag: "canonical n \<Longrightarrow> bi_val n < 0 \<Longrightarrow> nat (- bi_val n) = mag n"
  by (simp add: bi_val_def split: if_splits)

lemma shift_neg_step:
  assumes "canonical n" "bi_val n < 0" "mag n < 2 ^ 63"
  obtains r where "canonical r" "bi_val r = int (mag n)" "mag r = mag n"
    "bigint_shl a n = bigint_shr a r" "bigint_shr a n = bigint_shl a r"
proof -
  obtain s where s: "to_i64_for_shift n = ret s" "sint s = bi_val n" "s \<noteq> 0"
    using to_i64_small [OF assms(1,3)] assms(2) by auto
  obtain r where r: "abs_block n = Some r" "canonical r" "bi_val r = \<bar>bi_val n\<bar>"
    using abs_block_canonical [OF assms(1)] by blast
  have "bi_val r = int (mag n)" "mag r = mag n"
    using r(3) assms(2) nat_abs_mag [OF assms(1,2)] abs_bi_val [of r] by auto
  then show thesis
    using that [of r] r s assms(2)
    by (simp add: bigint_shl.simps [of a n] bigint_shr.simps [of a n])
qed

lemma shl_of_int:
  assumes "canonical a" "canonical n"
    and "bi_len a + mag n div 64 + 1 < LEN_LIM"
  shows "bigint_shl a n = ret (bi_of_int (shift_int (bi_val a) (bi_val n)))"
    and "bigint_shr a n = ret (bi_of_int (shift_int (bi_val a) (- bi_val n)))"
proof -
  have lt: "mag n < 2 ^ 63"
  proof -
    have "mag n div 64 < 2 ^ 32" using assms(3) by (simp add: LEN_LIM_def)
    then have "mag n < 2 ^ 32 * 64" by (simp add: div_less_iff_less_mult)
    then show ?thesis by simp
  qed
  have b: "bi_len a + 1 < LEN_LIM" "mag n div 64 < LEN_LIM" using assms(3) by simp_all
  have both: "bigint_shl a n = ret (bi_of_int (shift_int (bi_val a) (bi_val n))) \<and>
    bigint_shr a n = ret (bi_of_int (shift_int (bi_val a) (- bi_val n)))"
  proof (cases "0 \<le> bi_val n")
    case True
    then show ?thesis
      using shl_nonneg_of_int [OF assms(1,2) True lt assms(3)]
        shr_nonneg_of_int [OF assms(1,2) True lt b]
      by (cases "bi_val n = 0") (simp_all add: shift_int_def)
  next
    case False
    then have neg: "bi_val n < 0" by simp
    obtain r where r: "canonical r" "bi_val r = int (mag n)" "mag r = mag n"
      "bigint_shl a n = bigint_shr a r" "bigint_shr a n = bigint_shl a r"
      by (rule shift_neg_step [OF assms(2) neg lt])
    have m: "nat (- bi_val n) = mag n" by (rule nat_abs_mag [OF assms(2) neg])
    have "bigint_shr a r = ret (bi_of_int (bi_val a div 2 ^ mag n))"
      using shr_nonneg_of_int [OF assms(1) r(1)] r(2,3) lt b by simp
    moreover have "bigint_shl a r = ret (bi_of_int (bi_val a * 2 ^ mag n))"
      using shl_nonneg_of_int [OF assms(1) r(1)] r(2,3) lt assms(3) by simp
    ultimately show ?thesis using neg r(4,5) m by (simp add: shift_int_def)
  qed
  then show "bigint_shl a n = ret (bi_of_int (shift_int (bi_val a) (bi_val n)))"
    and "bigint_shr a n = ret (bi_of_int (shift_int (bi_val a) (- bi_val n)))" by simp_all
qed

lemma shift_too_large:
  assumes "canonical n" "2 ^ 63 \<le> mag n"
  shows "bigint_shl a n = throw (RangeError shift_msg)" "bigint_shr a n = throw (RangeError shift_msg)"
  using to_i64_large [OF assms] by (simp_all add: bigint_shl.simps [of a n] bigint_shr.simps [of a n])


section \<open>Amounts of 2 ^ 38 bits and more\<close>

text \<open>
  \<open>to_i64_for_shift\<close> accepts every amount up to \<open>i64::MAX\<close>, but the limb shift
  \<open>(n / 64) as u32\<close> keeps only the low 32 bits of the limb count.
\<close>

lemma limb_shift_wraps:
  "(ucast ((2 ^ 38 :: u64) div 64) :: u32) = 0" "(ucast ((2 ^ 38 :: u64) mod 64) :: u32) = 0"
  "(ucast ((2 ^ 38 - 64 :: u64) div 64) :: u32) = 2 ^ 32 - 1"
  "(ucast ((2 ^ 38 - 64 :: u64) mod 64) :: u32) = 0"
  by simp_all

lemma mag_shr_wraps:
  assumes "bi_len a < LEN_LIM" "words a \<noteq> []"
  shows "mag_shr a (2 ^ 38) = Some (mag_of (mag a))"
proof -
  have l: "unat (read_len a) = length (words a)" using assms(1) by (simp add: bi_len_def)
  then have "0 < read_len a" using assms(2) by (simp add: word_less_nat_alt)
  then have ge: "\<not> read_len a \<le> 0" by simp
  have "for_range 0 (length (words a)) (\<lambda>i rw. do { v \<leftarrow> rd (words a) (i + 0); wr rw i v })
      (replicate (length (words a)) 0) = Some (map (\<lambda>i. words a ! i) [0..<length (words a)])"
    by (rule fill_loop) (simp_all add: rd_def)
  then have "mag_shr a (2 ^ 38) = Some (normalize (fresh 0 (words a)))"
    using ge by (simp only: mag_shr_def Let_def limb_shift_wraps alloc_raw_fresh fresh_simps l
        simp_thms if_True if_False Option.bind.bind_lunit diff_zero unsigned_0 map_nth)
  then show ?thesis using assms(1) by (simp add: normalize_mag bi_len_def mag_def)
qed

lemma mag_shl_wraps:
  assumes "bi_len a + 1 < LEN_LIM" "words a \<noteq> []"
  shows "mag_shl a (2 ^ 38) = Some (mag_of (mag a))"
proof -
  have l: "unat (read_len a) = length (words a)" "bi_len a < LEN_LIM" using assms(1) by (simp_all add: bi_len_def)
  then have ne: "\<not> (read_len a = 0 \<or> (2 ^ 38 :: u64) = 0)" using assms(2) by (simp add: read_len_0)
  have nl: "unat (read_len a + 0 + 1) = length (words a) + 0 + 1"
    using assms(1) l by (simp add: unat_add_len bi_len_def)
  have "mag_shl a (2 ^ 38) = Some (normalize (fresh 0 (replicate 0 0 @ words a @ [0])))"
    using shl_copy_loop [of "words a" 0] ne
    by (simp only: mag_shl_def Let_def limb_shift_wraps alloc_raw_fresh fresh_simps nl l
        simp_thms if_True if_False Option.bind.bind_lunit unsigned_0)
  then show ?thesis using assms(1) by (simp add: normalize_mag bi_len_def mag_def mval_append)
qed

lemma mag_shl_out_of_bounds:
  assumes "words a = [v]"
  shows "mag_shl a (2 ^ 38 - 64) = None"
proof -
  have "read_len a = 1" using assms by (simp add: read_len_def as_u32_def)
  then show ?thesis
    using assms limb_shift_wraps(3,4) by (simp add: mag_shl_def alloc_raw_fresh for_range_step rd_def wr_def)
qed

lemma to_i64_amount:
  assumes "0 < k" "k < 2 ^ 63"
  shows "to_i64_for_shift (bi_of_int (int k)) = ret (of_nat k)" "sint (of_nat k :: u64) = int k"
proof -
  have "canonical (bi_of_int (int k))"
    by (rule canonical_bi_of_int [of _ 1]) (use assms in \<open>simp_all add: LB_def LEN_LIM_def\<close>)
  moreover have "mag (bi_of_int (int k)) = k" "sign (bi_of_int (int k)) = 0" "bi_val (bi_of_int (int k)) = int k"
    by (simp_all add: bi_of_int_def bi_val_def)
  ultimately obtain s where s: "to_i64_for_shift (bi_of_int (int k)) = ret s" "sint s = int k" "unat s = k"
    using to_i64_small [of "bi_of_int (int k)"] assms by auto
  then have "s = of_nat k" by (metis of_nat_unat ucast_id)
  with s show "to_i64_for_shift (bi_of_int (int k)) = ret (of_nat k)" "sint (of_nat k :: u64) = int k" by simp_all
qed

lemma shift_by_2_38:
  assumes "canonical a" "0 < bi_val a" "bi_len a + 1 < LEN_LIM"
  shows "bigint_shr a (bi_of_int (2 ^ 38)) = ret (bi_of_int (bi_val a))"
    and "bigint_shl a (bi_of_int (2 ^ 38)) = ret (bi_of_int (bi_val a))"
proof -
  have a: "sign a = 0" "words a \<noteq> []" "bi_val a = int (mag a)" "mag a \<noteq> 0"
    using assms(1,2) by (auto simp: bi_val_def mag_def split: if_splits)
  have amount: "to_i64_for_shift (bi_of_int (2 ^ 38)) = ret (2 ^ 38)" "sint (2 ^ 38 :: u64) = 2 ^ 38"
    using to_i64_amount [of "2 ^ 38"] by simp_all
  have "read_len (mag_of (mag a)) \<noteq> 0"
    using a(4) length_limbs_mag [of "mag a" a] assms(3) by (simp add: read_len_0 bi_len_def)
  then show "bigint_shr a (bi_of_int (2 ^ 38)) = ret (bi_of_int (bi_val a))"
    "bigint_shl a (bi_of_int (2 ^ 38)) = ret (bi_of_int (bi_val a))"
    using amount a mag_shr_wraps [OF _ a(2)] mag_shl_wraps [OF assms(3) a(2)] assms(3)
    by (simp_all add: bigint_shl.simps [of a] bigint_shr.simps [of a] lift_ret_def shr_positive_def
        shl_positive_def read_sign_def mag_of_bi_of_int) (simp add: bi_of_int_def)
qed

lemma shl_out_of_bounds:
  assumes "canonical a" "words a = [v]"
  shows "bigint_shl a (bi_of_int (2 ^ 38 - 64)) = None"
proof -
  have "to_i64_for_shift (bi_of_int (2 ^ 38 - 64)) = ret (2 ^ 38 - 64)" "sint (2 ^ 38 - 64 :: u64) = 2 ^ 38 - 64"
    using to_i64_amount [of "2 ^ 38 - 64"] by simp_all
  then show ?thesis
    using mag_shl_out_of_bounds [OF assms(2)] by (simp add: bigint_shl.simps [of a] lift_ret_def shl_positive_def)
qed

section \<open>Properties\<close>

text \<open>C20: \<open>a << n\<close> and \<open>a >> n\<close> are the arithmetic shifts for amounts of either sign: a negative
  amount goes to the other operator, and the right shift of a negative integer rounds toward minus
  infinity. The bound keeps the limb shift inside 32 bits.\<close>

theorem shift_correct:
  assumes "canonical a" "canonical n" "bi_len a + mag n div 64 + 1 < LEN_LIM"
  shows "bigint_shl a n = ret (bi_of_int (shift_int (bi_val a) (bi_val n))) \<and>
    bigint_shr a n = ret (bi_of_int (shift_int (bi_val a) (- bi_val n)))"
  using shl_of_int [OF assms] by simp

lemma shift_correct_witness:
  "bigint_shl (bi_of_int (- 3)) (bi_of_int (- 1)) = ret (bi_of_int (- 2)) \<and>
   bigint_shr (bi_of_int (- 3)) (bi_of_int (- 65)) = ret (bi_of_int (- 3 * 2 ^ 65))"
  using shift_correct [of "bi_of_int (- 3)" "bi_of_int (- 1)"] shift_correct [of "bi_of_int (- 3)" "bi_of_int (- 65)"]
    small_block [of "- 3"] small_block [of "- 1"] small_block [of "- 65"]
  by (simp add: LEN_LIM_def shift_int_def)

text \<open>An amount whose magnitude does not fit \<open>i64\<close> makes both shifts throw a RangeError, in
  either direction.\<close>

theorem shift_amount_error:
  assumes "canonical n" "2 ^ 63 \<le> \<bar>bi_val n\<bar>"
  shows "bigint_shl a n = throw (RangeError shift_msg) \<and> bigint_shr a n = throw (RangeError shift_msg)"
proof -
  have "int (2 ^ 63) \<le> int (mag n)" using assms(2) by (simp add: bi_val_def split: if_splits)
  then have "2 ^ 63 \<le> mag n" by (simp only: of_nat_le_iff)
  with shift_too_large [OF assms(1)] show ?thesis by simp
qed

lemma shift_amount_error_witness:
  "bigint_shr (bi_of_int 1) (bi_of_int (2 ^ 64)) = throw (RangeError shift_msg)"
  using shift_amount_error [of "bi_of_int (2 ^ 64)" "bi_of_int 1"] small_block [of "2 ^ 64"] by simp

text \<open>C21: the defect of the limb shift. An amount of exactly \<open>2 ^ 38\<close> bits passes the range check,
  but its limb shift wraps to zero: both operators return a positive operand unchanged, where the
  right shift of a short operand is zero and the left shift is not representable.\<close>

theorem shift_wraps:
  assumes "canonical a" "0 < bi_val a" "bi_len a + 1 < LEN_LIM"
  shows "bigint_shr a (bi_of_int (2 ^ 38)) = ret (bi_of_int (bi_val a)) \<and>
    bigint_shl a (bi_of_int (2 ^ 38)) = ret (bi_of_int (bi_val a))"
  using shift_by_2_38 [OF assms] by simp

lemma shift_wraps_witness: "bigint_shr (bi_of_int 1) (bi_of_int (2 ^ 38)) = ret (bi_of_int 1)"
  using shift_wraps [of "bi_of_int 1"] small_block [of 1] by (simp add: LEN_LIM_def)

text \<open>C22: the defect of the result length. For a left shift of a one-limb operand by
  \<open>2 ^ 38 - 64\<close> bits the length \<open>alen + limb_shift + 1\<close> wraps to one limb, and the copy loop then
  writes past that block: the model has no result.\<close>

theorem shift_out_of_bounds:
  assumes "canonical a" "bi_len a = 1"
  shows "bigint_shl a (bi_of_int (2 ^ 38 - 64)) = None"
proof -
  obtain v where "words a = [v]" using assms(2) by (cases "words a") (auto simp: bi_len_def)
  then show ?thesis by (rule shl_out_of_bounds [OF assms(1)])
qed

lemma shift_out_of_bounds_witness: "bigint_shl (bi_of_int 1) (bi_of_int (2 ^ 38 - 64)) = None"
  using shift_out_of_bounds [of "bi_of_int 1"] small_block [of 1]
  by (simp add: bi_of_int_def limbs_1)

end
