(* ===== verification/BigInt_AsN.thy ===== *)
theory BigInt_AsN
  imports BigInt_Shift
begin

text \<open>
  \<open>asintn.rs\<close> (\<open>BigInt.asUintN\<close>, \<open>BigInt.asIntN\<close>) and \<open>wrap64.rs\<close> (the
  64-bit window of the typed arrays): truncation, masking and multi-limb two's
  complement, shown to be \<open>take_bit\<close> and \<open>signed_take_bit\<close> on the integers.
\<close>

section \<open>The operations\<close>

definition MAX_BITS :: i64 where
  "MAX_BITS = 2 ^ 30"

definition leading_zeros :: "u64 \<Rightarrow> nat" where
  "leading_zeros x = 64 - bitlen (unat x)"

definition magnitude_bitlen :: "bigint \<Rightarrow> u64 option" where
  "magnitude_bitlen p =
     (let len = (ucast (read_len p) :: u64) in
      if len = 0 then Some 0
      else do {
        top \<leftarrow> rd (words p) (unat len - 1);
        Some (len * 64 - of_nat (leading_zeros top))
      })"

text \<open>\<open>bits\<close> is positive wherever it is divided, so signed and unsigned division agree.\<close>

definition mask_top_limb :: "bigint \<Rightarrow> i64 \<Rightarrow> bigint option" where
  "mask_top_limb b bits =
     (let rem = (ucast (bits mod 64) :: u32) in
      if rem \<noteq> 0 then do {
        let nl = unat ((bits + 63) div 64);
        x \<leftarrow> rd (words b) (nl - 1);
        w \<leftarrow> wr (words b) (nl - 1) (x AND (push_bit (unat rem) 1 - 1));
        Some (b\<lparr>words := w\<rparr>)
      } else Some b)"

definition alloc_trunc :: "bigint \<Rightarrow> i64 \<Rightarrow> bigint option" where
  "alloc_trunc val bits = do {
     let nl = (ucast ((bits + 63) div 64) :: u32);
     let b = alloc_raw nl;
     let src_len = read_len val;
     let copy = unat (min src_len nl);
     w \<leftarrow> copy_words (words b) (words val) copy;
     mask_top_limb (b\<lparr>words := w\<rparr>) bits
   }"

text \<open>\<open>overflowing_add\<close>: the wrapped sum, and whether it wrapped.\<close>

definition overflowing_add :: "u64 \<Rightarrow> u64 \<Rightarrow> u64 \<times> bool" where
  "overflowing_add x y = (x + y, x + y < x)"

definition twos_limb :: "nat \<Rightarrow> u64 list \<times> u64 \<Rightarrow> (u64 list \<times> u64) option" where
  "twos_limb i = (\<lambda>(w, carry). do {
     x \<leftarrow> rd w i;
     let (v, c) = overflowing_add (NOT x) carry;
     w \<leftarrow> wr w i v;
     Some (w, if c then 1 else 0)
   })"

definition twos_complement_in_place :: "bigint \<Rightarrow> i64 \<Rightarrow> bigint option" where
  "twos_complement_in_place b bits = do {
     let nl = unat ((bits + 63) div 64);
     (w, carry) \<leftarrow> for_range 0 nl twos_limb (words b, 1);
     mask_top_limb (b\<lparr>words := w\<rparr>) bits
   }"

definition sign_bit_set :: "bigint \<Rightarrow> i64 \<Rightarrow> bool option" where
  "sign_bit_set b bits = do {
     let idx = unat ((bits - 1) div 64);
     let bt = unat (ucast ((bits - 1) mod 64) :: u32);
     x \<leftarrow> rd (words b) idx;
     Some (x AND push_bit bt 1 \<noteq> 0)
   }"

definition clone_value :: "bigint \<Rightarrow> bigint option" where
  "clone_value val = do {
     let len = read_len val;
     let b = alloc_raw len;
     w \<leftarrow> copy_words (words b) (words val) (unat len);
     Some (write_sign (b\<lparr>words := w\<rparr>) (read_sign val))
   }"

definition neg_bits_msg :: string where
  "neg_bits_msg = ''number of bits cannot be negative''"

definition max_size_msg :: string where
  "max_size_msg = ''Maximum BigInt size exceeded''"

definition bigint_as_uint_n :: "i64 \<Rightarrow> bigint \<Rightarrow> bigint outcome" where
  "bigint_as_uint_n bits p =
     (if sint bits < 0 then throw (RangeError neg_bits_msg)
      else if bits = 0 then ret (alloc_raw 0)
      else do {
        let neg = read_sign p \<noteq> 0;
        bl \<leftarrow> magnitude_bitlen p;
        if \<not> neg \<and> bits \<ge> bl then lift_ret (clone_value p)
        else if neg \<and> sint bits > sint MAX_BITS then throw (RangeError max_size_msg)
        else do {
          b \<leftarrow> alloc_trunc p bits;
          b \<leftarrow> (if neg then twos_complement_in_place b bits else Some b);
          ret (normalize b)
        }
      })"

definition bigint_as_int_n :: "i64 \<Rightarrow> bigint \<Rightarrow> bigint outcome" where
  "bigint_as_int_n bits p =
     (if sint bits < 0 then throw (RangeError neg_bits_msg)
      else if bits = 0 then ret (alloc_raw 0)
      else do {
        bl \<leftarrow> magnitude_bitlen p;
        if bits > bl then lift_ret (clone_value p)
        else do {
          b \<leftarrow> alloc_trunc p bits;
          b \<leftarrow> (if read_sign p \<noteq> 0 then twos_complement_in_place b bits else Some b);
          s \<leftarrow> sign_bit_set b bits;
          b \<leftarrow> (if s then do {
                 b \<leftarrow> twos_complement_in_place b bits;
                 Some (write_sign b 1)
               } else Some b);
          ret (normalize b)
        }
      })"

definition bigint_from_u64 :: "u64 \<Rightarrow> bigint option" where
  "bigint_from_u64 v =
     (if v = 0 then Some (alloc_raw 0)
      else do {
        let b = write_sign (alloc_raw 1) 0;
        w \<leftarrow> wr (words b) 0 v;
        Some (b\<lparr>words := w\<rparr>)
      })"

definition bigint_to_u64_wrapping :: "bigint \<Rightarrow> u64 option" where
  "bigint_to_u64_wrapping a =
     (if read_len a = 0 then Some 0
      else do {
        low \<leftarrow> rd (words a) 0;
        Some (if read_sign a = 0 then low else - low)
      })"

section \<open>Widths\<close>

lemma unat_ucast_len: "unat (ucast (read_len p) :: u64) = unat (read_len p)"
  by simp

lemma magnitude_bitlen_mag:
  assumes "canonical p"
  shows "wp (magnitude_bitlen p) (\<lambda>bl. unat bl = bitlen (mag p))"
proof (cases "words p" rule: rev_cases)
  case Nil
  then have "read_len p = 0" using assms by (simp add: read_len_0)
  then show ?thesis using Nil by (simp add: magnitude_bitlen_def mag_def)
next
  case (snoc ws w)
  have w: "w \<noteq> 0" using assms snoc by (simp add: canonical_def)
  have l: "unat (read_len p) = Suc (length ws)" "Suc (length ws) < LEN_LIM"
    using read_len [OF canonical_len [OF assms]] canonical_len [OF assms] snoc by (simp_all add: bi_len_def)
  have bw: "bitlen (unat w) \<le> 64" unfolding bitlen_le using unat_less_LB [of w] by (simp add: LB_def)
  have b0: "0 < bitlen (unat w)" using w by (simp add: bitlen_pos unat_eq_0)
  have u: "unat (of_nat (leading_zeros w) :: u64) = 64 - bitlen (unat w)"
    by (simp add: leading_zeros_def unat_of_nat)
  have "unat (ucast (read_len p) * 64 :: u64) = 64 * Suc (length ws)"
    using l by (simp add: unat_word_ariths LEN_LIM_def)
  then have "unat (ucast (read_len p) * 64 - of_nat (leading_zeros w) :: u64) = 64 * length ws + bitlen (unat w)"
    using bw b0 u by (simp add: unat_sub word_le_nat_alt)
  moreover have "(ucast (read_len p) :: u64) \<noteq> 0" using l(1) by (metis nat.distinct(1) unat_ucast_len unsigned_0)
  ultimately show ?thesis
    using l(1) snoc by (simp add: magnitude_bitlen_def rd_def mag_def bitlen_mval_snoc [OF w])
qed

definition width_limbs :: "nat \<Rightarrow> nat" where
  "width_limbs B = (B + 63) div 64"

lemma width_limbs_split: "r < 64 \<Longrightarrow> width_limbs (64 * q + r) = (if r = 0 then q else Suc q)"
  unfolding width_limbs_def by (cases "r = 0") (simp_all add: div_nat_eqI)

lemma width_limbs_cases: "width_limbs B = (if B mod 64 = 0 then B div 64 else Suc (B div 64))"
  using width_limbs_split [of "B mod 64" "B div 64"] by simp

lemma width_limbs_bounds: "B \<le> 64 * width_limbs B" "64 * width_limbs B \<le> B + 63"
  unfolding width_limbs_def by linarith+

lemma unat_width:
  assumes "unat bits + 63 < LB"
  shows "unat ((bits + 63) div 64 :: i64) = width_limbs (unat bits)"
  using assms by (simp add: unat_div unat_add_64 width_limbs_def)

lemma mval_mask_top:
  assumes "length ws = width_limbs B" "B mod 64 \<noteq> 0"
  shows "mval (ws[width_limbs B - 1 := ws ! (width_limbs B - 1) AND (push_bit (B mod 64) 1 - 1)]) = mval ws mod 2 ^ B"
proof -
  let ?k = "width_limbs B - 1"
  have "width_limbs B = Suc (B div 64)"
    using assms(2) by (simp add: width_limbs_cases)
  then have k: "?k = B div 64" "width_limbs B = Suc (B div 64)" by simp_all
  have m: "push_bit (B mod 64) 1 - 1 = (mask (B mod 64) :: u64)"
    by (simp add: mask_eq_exp_minus_1 push_bit_eq_mult)
  have "mval (ws[?k := ws ! ?k AND (push_bit (B mod 64) 1 - 1)]) = take_bit B (mval ws)"
  proof (rule bit_eqI)
    fix i :: nat
    have lt: "i div 64 < B div 64 \<Longrightarrow> i < B" "i div 64 = B div 64 \<Longrightarrow> i < B \<longleftrightarrow> i mod 64 < B mod 64"
      "i div 64 > B div 64 \<Longrightarrow> \<not> i < B"
      using div_mult_mod_eq [of i 64] div_mult_mod_eq [of B 64] by linarith+
    consider "i div 64 < B div 64" | "i div 64 = B div 64" | "i div 64 > B div 64" by linarith
    then show "bit (mval (ws[?k := ws ! ?k AND (push_bit (B mod 64) 1 - 1)])) i = bit (take_bit B (mval ws)) i"
      unfolding m
      by cases (use lt assms(1) k in \<open>auto simp: bit_mval bit_take_bit_iff bit_and_iff bit_mask_iff\<close>)
  qed
  then show ?thesis by (simp add: take_bit_eq_mod)
qed


lemma mask_top_limb_mval:
  assumes "length ws = width_limbs (unat bits)" "unat bits + 63 < LB"
  shows "\<exists>ws'. mask_top_limb (fresh s ws) bits = Some (fresh s ws') \<and> length ws' = length ws \<and>
    mval ws' = mval ws mod 2 ^ unat bits"
proof -
  have rem: "unat (ucast (bits mod 64) :: u32) = unat bits mod 64"
    using less_trans [of "unat bits mod 64" 64 "2 ^ 32"]
    by (simp add: unsigned_ucast_eq unat_mod take_bit_nat_eq_self_iff)
  have r0: "(ucast (bits mod 64) :: u32) = 0 \<longleftrightarrow> unat bits mod 64 = 0"
    using rem by (metis unat_eq_0)
  show ?thesis
  proof (cases "unat bits mod 64 = 0")
    case True
    then have "64 * width_limbs (unat bits) = unat bits"
      unfolding width_limbs_cases using div_mult_mod_eq [of "unat bits" 64] by simp
    then have "mval ws < 2 ^ unat bits"
      using mval_less [of ws] assms(1) by (metis LB_power)
    with True r0 show ?thesis by (simp add: mask_top_limb_def)
  next
    case False
    then have "0 < width_limbs (unat bits)" using width_limbs_bounds(1) [of "unat bits"] by (cases "width_limbs (unat bits)") auto
    then show ?thesis
      using False r0 rem mval_mask_top [OF assms(1) False] assms
      by (simp add: mask_top_limb_def unat_width rd_def wr_def Let_def)
  qed
qed

lemma alloc_trunc_mval:
  assumes "bi_len p < LEN_LIM" "width_limbs (unat bits) < LEN_LIM" "unat bits + 63 < LB"
  shows "\<exists>ws. alloc_trunc p bits = Some (fresh 0 ws) \<and> length ws = width_limbs (unat bits) \<and>
    mval ws = mag p mod 2 ^ unat bits"
proof -
  let ?n = "width_limbs (unat bits)" and ?c = "min (length (words p)) (width_limbs (unat bits))"
  have nl: "unat (ucast ((bits + 63) div 64) :: u32) = ?n"
    using assms(2,3) unat_width [OF assms(3)]
    by (simp add: unsigned_ucast_eq take_bit_nat_eq_self_iff LEN_LIM_def)
  have c: "unat (min (read_len p) (ucast ((bits + 63) div 64))) = ?c"
    using nl read_len [OF assms(1)] by (simp add: unat_min_u32 bi_len_def)
  let ?w = "take ?c (words p) @ drop ?c (replicate ?n 0)"
  have w: "copy_words (replicate ?n 0) (words p) ?c = Some ?w" by (rule wp_copy_words) simp_all
  have l: "length ?w = ?n" by simp
  have "mval ?w = mval (take ?n (words p))"
    by (cases "length (words p) \<le> ?n") (simp_all add: mval_append)
  moreover have "mval (take ?n (words p)) mod 2 ^ unat bits = mag p mod 2 ^ unat bits"
  proof -
    have "mag p = mval (take ?n (words p)) + LB ^ length (take ?n (words p)) * mval (drop ?n (words p))"
      by (metis append_take_drop_id mag_def mval_append)
    moreover have "2 ^ unat bits dvd LB ^ length (take ?n (words p)) * mval (drop ?n (words p))"
    proof (cases "?n \<le> length (words p)")
      case True
      then have "2 ^ unat bits dvd LB ^ length (take ?n (words p))"
        using width_limbs_bounds(1) by (simp add: LB_power [symmetric] le_imp_power_dvd)
      then show ?thesis by simp
    qed simp
    then obtain k where "LB ^ length (take ?n (words p)) * mval (drop ?n (words p)) = 2 ^ unat bits * k" ..
    ultimately show ?thesis by (simp only: mod_mult_self2)
  qed
  ultimately show ?thesis
    using mask_top_limb_mval [OF l assms(3), of 0] w
    by (simp add: alloc_trunc_def Let_def alloc_raw_fresh nl c)
qed

lemma unat_not_add: "unat (NOT x) + unat x = LB - 1" for x :: u64
proof -
  have m1: "unat (- 1 :: u64) = LB - 1" by (simp add: unsigned_minus_1_eq_mask LB_def mask_eq_exp_minus_1)
  have "NOT x = - 1 - x" by (simp add: not_eq_complement)
  moreover have "x \<le> - 1" by simp
  then have "unat (- 1 - x) = unat (- 1 :: u64) - unat x" by (rule unat_sub)
  ultimately show ?thesis using m1 unat_le_LB [of x] by simp
qed

lemma overflow_value:
  "unat (x + c) + LB * unat (if x + c < x then 1 else 0 :: u64) = unat x + unat c" for x c :: u64
proof -
  have p: "unat (x + c) = (if unat x + unat c < LB then unat x + unat c else unat x + unat c - LB)"
    by (simp add: unat_plus_if' LB_def)
  show ?thesis
  proof (cases "unat x + unat c < LB")
    case True
    then show ?thesis by (simp add: word_less_nat_alt p)
  next
    case False
    then have "unat (x + c) = unat x + unat c - LB" by (simp add: p)
    moreover from this have "unat (x + c) < unat x" using False unat_less_LB [of c] by linarith
    ultimately show ?thesis using False by (simp add: word_less_nat_alt)
  qed
qed

lemma twos_limb_step:
  assumes "carry_inv v (\<lambda>i. LB ^ i - mval (take i v)) i (w, c) \<and> unat c \<le> Suc 0" "i < length v"
  shows "wp (twos_limb i (w, c))
    (\<lambda>p. carry_inv v (\<lambda>i. LB ^ i - mval (take i v)) (Suc i) p \<and> unat (snd p) \<le> Suc 0)"
proof -
  let ?x = "v ! i" and ?F = "\<lambda>i. LB ^ i - mval (take i v)"
  let ?c = "if NOT ?x + c < NOT ?x then 1 else 0 :: u64"
  have w: "length w = length v" "w ! i = v ! i"
    using assms drop_eq_nth [of i w v] by (simp_all add: carry_inv_def)
  have nx: "unat (NOT ?x) + unat ?x = LB - 1"
    by (rule unat_not_add)
  have "unat (NOT ?x + c) + LB * unat ?c = unat (NOT ?x) + unat c"
    by (rule overflow_value)
  then have "unat (NOT ?x + c) + LB * unat ?c = (LB - 1 - unat ?x) + unat c"
    using nx by simp
  then have "carry_inv v ?F (Suc i) (w[i := NOT ?x + c], ?c)"
  proof (rule carry_inv_step [OF conjunct1 [OF assms(1)] assms(2)])
    have "mval (take i v) < LB ^ i" using mval_less [of "take i v"] assms(2) by simp
    moreover have "LB ^ i * unat ?x + LB ^ i * (LB - 1 - unat ?x) + LB ^ i = LB ^ Suc i"
    proof -
      have "unat ?x + (LB - 1 - unat ?x) + 1 = LB" using unat_less_LB [of ?x] by linarith
      then have "LB ^ i * (unat ?x + (LB - 1 - unat ?x) + 1) = LB ^ i * LB" by (rule arg_cong)
      then show ?thesis by (simp only: distrib_left mult_1_right power_Suc2)
    qed
    ultimately show "?F (Suc i) = ?F i + LB ^ i * (LB - 1 - unat ?x)"
      unfolding mval_take_Suc [OF assms(2)] by linarith
  qed
  then show ?thesis
    using assms(2) w by (simp add: twos_limb_def overflowing_add_def wp_simps)
qed


lemma twos_complement_mval:
  assumes "length ws = width_limbs (unat bits)" "unat bits + 63 < LB" "mval ws < 2 ^ unat bits"
  shows "\<exists>ws'. twos_complement_in_place (fresh s ws) bits = Some (fresh s ws') \<and> length ws' = length ws \<and>
    mval ws' = (2 ^ unat bits - mval ws) mod 2 ^ unat bits"
proof -
  let ?n = "width_limbs (unat bits)" and ?F = "\<lambda>i. LB ^ i - mval (take i ws)" and ?P = "2 ^ unat bits :: nat"
  have "wp (for_range 0 ?n twos_limb (ws, 1)) (carry_inv ws ?F ?n)"
    by (rule wp_for_range [where I = "\<lambda>i p. carry_inv ws ?F i p \<and> unat (snd p) \<le> Suc 0"])
      (use assms(1) in \<open>auto intro: twos_limb_step, simp add: carry_inv_def\<close>)
  then obtain w c where loop: "for_range 0 ?n twos_limb (ws, 1) = Some (w, c)"
    and inv: "carry_inv ws ?F ?n (w, c)"
    by (auto elim: wpE)
  have w: "length w = ?n" "mval w + LB ^ ?n * unat c = LB ^ ?n - mval ws"
    using inv assms(1) by (auto simp: carry_inv_def)
  obtain k where k: "LB ^ ?n = ?P * k"
    using le_imp_power_dvd [OF width_limbs_bounds(1) [of "unat bits"], of "2 :: nat"] unfolding LB_power ..
  have "mval ws < LB ^ ?n" using mval_less [of ws] assms(1) by simp
  then have k0: "k \<noteq> 0" using k by (cases "k = 0") auto
  have "mval w mod ?P = (mval w + ?P * (k * unat c)) mod ?P" by simp
  also have "\<dots> = (?P * k - mval ws) mod ?P" using w(2) unfolding k by (simp add: mult.assoc)
  also have "?P * k - mval ws = (?P - mval ws) + ?P * (k - 1)"
    using k0 assms(3) by (cases k) simp_all
  also have "((?P - mval ws) + ?P * (k - 1)) mod ?P = (?P - mval ws) mod ?P" by simp
  finally have "mval w mod ?P = (?P - mval ws) mod ?P" .
  then show ?thesis
    using mask_top_limb_mval [of w bits s] w(1) assms(1,2) loop
    by (auto simp: twos_complement_in_place_def unat_width)
qed

lemma sign_bit_set_mval:
  assumes "length ws = width_limbs (unat bits)" "0 < unat bits" "unat bits < LB"
  shows "sign_bit_set (fresh s ws) bits = Some (bit (mval ws) (unat bits - 1))"
proof -
  let ?i = "unat bits - 1"
  have "1 \<le> bits" using assms(2) by (simp add: word_le_nat_alt)
  then have u: "unat (bits - 1) = ?i" by (simp add: unat_sub)
  have bt: "unat (ucast ((bits - 1) mod 64) :: u32) = ?i mod 64"
    using less_trans [of "?i mod 64" 64 "2 ^ 32"]
    by (simp add: unsigned_ucast_eq unat_mod take_bit_nat_eq_self_iff u)
  have "?i div 64 < length ws"
  proof -
    have "?i < 64 * length ws" using width_limbs_bounds(1) [of "unat bits"] assms(1,2) by linarith
    then show ?thesis by (simp add: less_mult_imp_div_less mult.commute)
  qed
  moreover have "x AND push_bit k 1 \<noteq> 0 \<longleftrightarrow> bit x k" for x :: u64 and k
  proof -
    have "x AND push_bit k 1 = (if bit x k then push_bit k 1 else 0)"
      by (rule bit_eqI) (auto simp: bit_and_iff bit_exp_iff)
    moreover have "push_bit k (1 :: u64) \<noteq> 0" if "bit x k"
      using bit_word_ge [OF that] by simp
    ultimately show ?thesis by auto
  qed
  ultimately show ?thesis
    by (simp add: sign_bit_set_def Let_def rd_def u unat_div bt bit_mval)
qed

section \<open>Results on integers\<close>

lemma clone_value_of_int: "canonical a \<Longrightarrow> clone_value a = Some (bi_of_int (bi_val a))"
  by (simp add: clone_value_def alloc_raw_fresh bi_of_int_bi_val read_sign_def Let_def)
    (simp add: bi_len_def copy_words_all)


lemma sint_nonneg_unat:
  assumes "0 \<le> sint (bits :: i64)"
  shows "sint bits = int (unat bits) \<and> unat bits < 2 ^ 63"
proof -
  have s: "sint bits = signed_take_bit 63 (uint bits)" by (simp add: sint_uint)
  then have nb: "\<not> bit (uint bits) 63"
    using assms signed_take_bit_negative_iff [of 63 "uint bits"] by linarith
  then have "sint bits = take_bit 63 (uint bits)" using s signed_take_bit_eq_if_positive by metis
  moreover have "uint bits < 2 ^ 64" using uint_bounded [of bits] by simp
  then have "take_bit (Suc 63) (uint bits) = uint bits" by (simp add: take_bit_int_eq_self_iff)
  then have "take_bit 63 (uint bits) = uint bits"
    using nb by (simp only: take_bit_Suc_from_most) simp
  moreover have "take_bit 63 (uint bits) < 2 ^ 63" by (rule take_bit_int_less_exp)
  ultimately have "sint bits = int (unat bits)" "int (unat bits) < int (2 ^ 63)" by simp_all
  then show ?thesis unfolding of_nat_less_iff by simp
qed

lemma width_within:
  assumes "canonical p" "unat bits \<le> bitlen (mag p)"
  shows "width_limbs (unat bits) < LEN_LIM"
proof -
  have "width_limbs (unat bits) \<le> bi_len p"
    using width_limbs_bounds(2) [of "unat bits"] bitlen_mag_le [of p] assms(2) by linarith
  then show ?thesis using canonical_len [OF assms(1)] by simp
qed

lemma neg_mod_power:
  "(- int m) mod 2 ^ B = int ((2 ^ B - m mod 2 ^ B) mod 2 ^ B)"
proof -
  have "m mod 2 ^ B < 2 ^ B" by simp
  then have "int ((2 ^ B - m mod 2 ^ B) mod 2 ^ B) = (2 ^ B - int m mod 2 ^ B) mod 2 ^ B"
    by (simp add: zmod_int of_nat_diff)
  also have "\<dots> = (- (int m mod 2 ^ B)) mod 2 ^ B"
    by (metis add_uminus_conv_diff mod_add_self1)
  finally show ?thesis by (simp add: mod_minus_eq)
qed

text \<open>The truncated two's complement of the magnitude, and when it is wanted.\<close>

lemma bigint_as_uint_n_of_int:
  assumes "canonical p" "0 \<le> sint bits" "bi_val p < 0 \<longrightarrow> unat bits \<le> 2 ^ 30"
  shows "bigint_as_uint_n bits p = ret (bi_of_int (take_bit (unat bits) (bi_val p)))"
proof -
  let ?B = "unat bits"
  have B: "sint bits = int ?B" "?B < 2 ^ 63" using sint_nonneg_unat [OF assms(2)] by blast+
  then have lt: "?B + 63 < LB" by (simp add: LB_def)
  obtain bl where bl: "magnitude_bitlen p = Some bl" "unat bl = bitlen (mag p)"
    using magnitude_bitlen_mag [OF assms(1)] by (auto elim: wpE)
  consider "bits = 0" | "bits \<noteq> 0" "sign p = 0" "bl \<le> bits" | "bits \<noteq> 0" "sign p = 0" "\<not> bl \<le> bits"
    | "bits \<noteq> 0" "sign p = 1"
    using canonical_sign [OF assms(1)] by blast
  then show ?thesis
  proof cases
    case 1
    then show ?thesis by (simp add: bigint_as_uint_n_def mag_of_bi_of_int)
  next
    case 2
    then have "mag p < 2 ^ ?B" using bl(2) by (simp add: word_le_nat_alt flip: bitlen_le)
    then have "take_bit ?B (bi_val p) = bi_val p"
      using 2 by (simp add: bi_val_def take_bit_int_eq_self_iff)
    with 2 B bl(1) show ?thesis
      using assms(1,2) by (simp add: bigint_as_uint_n_def read_sign_def lift_ret_def clone_value_of_int)
  next
    case 3
    then have "?B < bitlen (mag p)" using bl(2) by (simp add: word_le_nat_alt)
    then have "width_limbs ?B < LEN_LIM" by (intro width_within [OF assms(1)]) simp
    then obtain ws where "alloc_trunc p bits = Some (fresh 0 ws)" "length ws < LEN_LIM"
      "mval ws = mag p mod 2 ^ ?B"
      using alloc_trunc_mval [OF canonical_len [OF assms(1)] _ lt] by auto
    with 3 B bl(1) show ?thesis
      using assms(2) by (simp add: bigint_as_uint_n_def read_sign_def bi_val_def take_bit_eq_mod
          normalize_mag mag_of_bi_of_int zmod_int)
  next
    case 4
    have "mag p \<noteq> 0" using 4 canonical_neg [OF assms(1)] by simp
    then have neg: "bi_val p = - int (mag p)" "?B \<le> 2 ^ 30" using 4 assms(3) by (simp_all add: bi_val_def)
    then have "int ?B \<le> int (2 ^ 30)" unfolding of_nat_le_iff by blast
    then have "\<not> sint MAX_BITS < sint bits" "width_limbs ?B < LEN_LIM"
      using neg(2) width_limbs_bounds(2) [of ?B] unfolding B(1) by (simp_all add: MAX_BITS_def LEN_LIM_def)
    moreover from this(2) obtain ws where ws: "alloc_trunc p bits = Some (fresh 0 ws)" "length ws = width_limbs ?B"
      "mval ws = mag p mod 2 ^ ?B"
      using alloc_trunc_mval [OF canonical_len [OF assms(1)] _ lt] by auto
    moreover obtain ws' where "twos_complement_in_place (fresh 0 ws) bits = Some (fresh 0 ws')"
      "length ws' = length ws" "mval ws' = (2 ^ ?B - mval ws) mod 2 ^ ?B"
      using twos_complement_mval [OF ws(2) lt, of 0] ws(3) by auto
    ultimately show ?thesis
      using 4 bl(1) assms(2) neg(1) by (simp add: bigint_as_uint_n_def read_sign_def take_bit_eq_mod
          normalize_mag mag_of_bi_of_int neg_mod_power)
  qed
qed


lemma bigint_as_int_n_of_int:
  assumes "canonical p" "0 < sint bits"
  shows "bigint_as_int_n bits p = ret (bi_of_int (signed_take_bit (unat bits - 1) (bi_val p)))"
proof -
  let ?B = "unat bits"
  have B: "sint bits = int ?B" "?B < 2 ^ 63" using sint_nonneg_unat [of bits] assms(2) by (blast dest: less_imp_le)+
  have "0 < int ?B" using assms(2) unfolding B(1) .
  then have B3: "0 < ?B" unfolding of_nat_0_less_iff .
  from B(2) have lt: "?B + 63 < LB" "?B < LB" by (simp_all add: LB_def)
  have nz: "bits \<noteq> 0" "\<not> sint bits < 0" using assms(2) by auto
  obtain bl where bl: "magnitude_bitlen p = Some bl" "unat bl = bitlen (mag p)"
    using magnitude_bitlen_mag [OF assms(1)] by (auto elim: wpE)
  obtain b where b: "?B = Suc b" using B3 by (cases ?B) auto
  show ?thesis
  proof (cases "bl < bits")
    case True
    then have "bitlen (mag p) \<le> b" using bl(2) b by (simp add: word_less_nat_alt)
    then have "mag p < 2 ^ b" by (simp add: bitlen_le)
    then have "int (mag p) < 2 ^ b" by (metis of_nat_less_iff of_nat_numeral of_nat_power)
    then have "signed_take_bit b (bi_val p) = bi_val p"
      using signed_take_bit_nonneg_self [of "int (mag p)" b] signed_take_bit_neg_self [of "int (mag p)" b]
      by (simp add: bi_val_def)
    with True b show ?thesis
      using bl(1) nz assms(1) by (simp add: bigint_as_int_n_def lift_ret_def clone_value_of_int)
  next
    case False
    then have "?B \<le> bitlen (mag p)" using bl(2) by (simp add: word_less_nat_alt)
    then have wl: "width_limbs ?B < LEN_LIM" by (rule width_within [OF assms(1)])
    obtain ws where ws: "alloc_trunc p bits = Some (fresh 0 ws)" "length ws = width_limbs ?B"
      "mval ws = mag p mod 2 ^ ?B"
      using alloc_trunc_mval [OF canonical_len [OF assms(1)] wl lt(1)] by auto
    obtain us where us: "(if sign p \<noteq> 0 then twos_complement_in_place (fresh 0 ws) bits else Some (fresh 0 ws))
        = Some (fresh 0 us)" "length us = width_limbs ?B" "int (mval us) = take_bit ?B (bi_val p)"
    proof (cases "sign p = 0")
      case True
      then show ?thesis using that [of ws] ws by (simp add: bi_val_def take_bit_eq_mod zmod_int)
    next
      case False
      obtain us where "twos_complement_in_place (fresh 0 ws) bits = Some (fresh 0 us)"
        "length us = length ws" "mval us = (2 ^ ?B - mval ws) mod 2 ^ ?B"
        using twos_complement_mval [OF ws(2) lt(1), of 0] ws(3) by auto
      then show ?thesis using that [of us] ws False by (simp add: bi_val_def take_bit_eq_mod neg_mod_power)
    qed
    have sb: "sign_bit_set (fresh 0 us) bits = Some (bit (mval us) b)"
      using sign_bit_set_mval [OF us(2) B3 lt(2)] b by simp
    have "bit (bi_val p) b \<longleftrightarrow> bit (int (mval us)) b" unfolding us(3) b by (simp add: bit_take_bit_iff)
    then have sbv: "bit (bi_val p) b \<longleftrightarrow> bit (mval us) b" by (simp add: bit_of_nat_iff)
    have st: "signed_take_bit b (bi_val p) = int (mval us) - 2 ^ ?B * of_bool (bit (mval us) b)"
      unfolding signed_take_bit_eq_take_bit_minus us(3) b sbv ..
    have um: "mval us < 2 ^ ?B"
    proof -
      have "int (mval us) < 2 ^ ?B" unfolding us(3) by (rule take_bit_int_less_exp)
      then show ?thesis by (metis of_nat_less_iff of_nat_numeral of_nat_power)
    qed
    show ?thesis
    proof (cases "bit (mval us) b")
      case False
      then show ?thesis
        using \<open>\<not> bl < bits\<close> bl(1) nz ws(1) us sb st wl b
        by (simp add: bigint_as_int_n_def read_sign_def normalize_mag mag_of_bi_of_int)
    next
      case True
      then have u0: "mval us \<noteq> 0" using bit_0_eq by (metis bot_apply bot_bool_def)
      obtain vs where vs: "twos_complement_in_place (fresh 0 us) bits = Some (fresh 0 vs)"
        "length vs = length us" "mval vs = (2 ^ ?B - mval us) mod 2 ^ ?B"
        using twos_complement_mval [OF us(2) lt(1) um, of 0] by auto
      have v: "mval vs = 2 ^ ?B - mval us" using vs(3) u0 um by simp
      then have "0 < mval vs" "- int (mval vs) = signed_take_bit b (bi_val p)"
        using um True by (simp_all add: st of_nat_diff)
      moreover from this(1) have "normalize (fresh 1 vs) = bi_of_int (- int (mval vs))"
        using vs(2) us(2) wl by (simp add: normalize_fresh bi_of_int_def)
      ultimately show ?thesis
        using \<open>\<not> bl < bits\<close> bl(1) nz ws(1) us(1) sb True b vs(1)
        by (simp add: bigint_as_int_n_def read_sign_def)
    qed
  qed
qed

lemma bigint_as_n_errors:
  "sint bits < 0 \<Longrightarrow> bigint_as_uint_n bits p = throw (RangeError neg_bits_msg)"
  "sint bits < 0 \<Longrightarrow> bigint_as_int_n bits p = throw (RangeError neg_bits_msg)"
  by (simp_all add: bigint_as_uint_n_def bigint_as_int_n_def)

lemma bigint_as_uint_n_too_wide:
  assumes "canonical p" "bi_val p < 0" "2 ^ 30 < sint bits"
  shows "bigint_as_uint_n bits p = throw (RangeError max_size_msg)"
proof -
  have "sign p \<noteq> 0" "bits \<noteq> 0" "\<not> sint bits < 0" using assms by (auto simp: bi_val_def split: if_splits)
  moreover obtain bl where "magnitude_bitlen p = Some bl"
    using magnitude_bitlen_mag [OF assms(1)] by (auto elim: wpE)
  ultimately show ?thesis
    using assms(3) by (simp add: bigint_as_uint_n_def read_sign_def MAX_BITS_def)
qed

text \<open>The 64-bit window.\<close>

lemma bigint_from_u64_of_int: "bigint_from_u64 v = Some (bi_of_int (uint v))"
proof (cases "v = 0")
  case False
  then have "unat v \<noteq> 0" by (simp add: unat_eq_0)
  then have "limbs (unat v) = [v]" by (simp add: limbs_pos)
  moreover have "nat (uint v) = unat v" by simp
  ultimately show ?thesis
    using False by (simp add: bigint_from_u64_def alloc_raw_fresh wr_def bi_of_int_def)
qed (simp add: bigint_from_u64_def mag_of_bi_of_int)

lemma bigint_to_u64_of_int:
  assumes "canonical a"
  shows "bigint_to_u64_wrapping a = Some (of_int (bi_val a))"
proof (cases "words a")
  case Nil
  then show ?thesis using assms by (simp add: bigint_to_u64_wrapping_def read_len_0 bi_val_def mag_def)
next
  case (Cons w ws)
  have "(of_nat LB :: u64) = 0" by (simp add: LB_def)
  then have "(of_nat (mag a) :: u64) = w" by (simp add: mag_def Cons)
  then show ?thesis
    using assms Cons by (simp add: bigint_to_u64_wrapping_def read_len_0 rd_def read_sign_def bi_val_def)
qed

section \<open>Properties\<close>

text \<open>C25: \<open>BigInt.asUintN(bits, v)\<close> is \<open>v\<close> modulo \<open>2 ^ bits\<close>, by truncation for non-negative
  values and by multi-limb two's complement for negative ones, up to the implementation cap of
  \<open>2 ^ 30\<close> bits on the latter.\<close>

theorem as_uint_n_correct:
  assumes "canonical p" "0 \<le> sint bits" "bi_val p < 0 \<longrightarrow> unat bits \<le> 2 ^ 30"
  shows "bigint_as_uint_n bits p = ret (bi_of_int (take_bit (unat bits) (bi_val p)))"
  using assms by (rule bigint_as_uint_n_of_int)

lemma as_uint_n_correct_witness:
  "bigint_as_uint_n 100 (bi_of_int (- 1)) = ret (bi_of_int (2 ^ 100 - 1))"
  using as_uint_n_correct [of "bi_of_int (- 1)" 100] small_block [of "- 1"]
  by (simp add: take_bit_minus_one_eq_mask mask_eq_exp_minus_1)

text \<open>C26: \<open>BigInt.asIntN(bits, v)\<close> is the signed reading of the low \<open>bits\<close> bits of \<open>v\<close>, for every
  positive width and every value, the most negative one included.\<close>

theorem as_int_n_correct:
  assumes "canonical p" "0 < sint bits"
  shows "bigint_as_int_n bits p = ret (bi_of_int (signed_take_bit (unat bits - 1) (bi_val p)))"
  using assms by (rule bigint_as_int_n_of_int)

lemma as_int_n_correct_witness:
  "bigint_as_int_n 8 (bi_of_int 128) = ret (bi_of_int (- 128)) \<and>
   bigint_as_int_n 8 (bi_of_int (- 129)) = ret (bi_of_int 127)"
  using as_int_n_correct [of "bi_of_int 128" 8] as_int_n_correct [of "bi_of_int (- 129)" 8]
    small_block [of 128] small_block [of "- 129"]
  by simp

text \<open>A negative width is a RangeError of both functions, and so is a width above the cap for
  the unsigned view of a negative value.\<close>

theorem as_n_errors:
  assumes "sint neg_bits < 0" "canonical p" "bi_val p < 0" "2 ^ 30 < sint bits"
  shows "bigint_as_uint_n neg_bits v = throw (RangeError neg_bits_msg) \<and>
    bigint_as_int_n neg_bits v = throw (RangeError neg_bits_msg) \<and>
    bigint_as_uint_n bits p = throw (RangeError max_size_msg)"
  using bigint_as_n_errors [OF assms(1)] bigint_as_uint_n_too_wide [OF assms(2-4)] by simp

lemma as_n_errors_witness:
  "bigint_as_uint_n (- 1) (bi_of_int 5) = throw (RangeError neg_bits_msg) \<and>
   bigint_as_uint_n (2 ^ 31) (bi_of_int (- 5)) = throw (RangeError max_size_msg)"
  using as_n_errors [of "- 1" "bi_of_int (- 5)" "2 ^ 31" "bi_of_int 5"] small_block [of "- 5"]
  by simp

text \<open>the 64-bit window of the typed arrays: the low 64 bits of the two's complement value are
  read for every block, and what \<open>from_u64\<close> stores is read back.\<close>

theorem u64_window:
  assumes "canonical a"
  shows "bigint_to_u64_wrapping a = Some (of_int (bi_val a)) \<and>
    do { b \<leftarrow> bigint_from_u64 v; bigint_to_u64_wrapping b } = Some v"
proof -
  have "canonical (bi_of_int (uint v))"
    by (rule canonical_bi_of_int [of _ 1]) (simp_all add: LEN_LIM_def)
  then show ?thesis
    using bigint_to_u64_of_int [OF assms] by (simp add: bigint_from_u64_of_int bigint_to_u64_of_int)
qed

lemma u64_window_witness:
  "bigint_to_u64_wrapping (bi_of_int (- 1)) = Some (- 1)"
  using u64_window [of "bi_of_int (- 1)" 0] small_block [of "- 1"] by simp

end
