(* ===== verification/BigInt_Text.thy ===== *)
theory BigInt_Text
  imports BigInt_AsN
begin

text \<open>
  The text conversions: \<open>construct.rs\<close> (\<open>from_decimal\<close>, \<open>from_hex\<close>,
  \<open>from_str\<close>), \<open>from_str_strict.rs\<close> (the \<open>StringToBigInt\<close> grammar of the
  language) and \<open>tostring.rs\<close> (digit emission from the tail of a buffer, in chunks
  of the largest power of the radix below \<open>2 ^ 64\<close>).

  A string is its list of bytes. The loops of \<open>tostring.rs\<close> that end only for a
  radix of at least 2 are partial functions; they are shown to return.
\<close>

section \<open>Parsing\<close>

definition is_ascii_digit :: "u8 \<Rightarrow> bool" where
  "is_ascii_digit c \<longleftrightarrow> 0x30 \<le> c \<and> c \<le> 0x39"

text \<open>The digit step of every parser: \<open>mul_u32_inplace\<close>, then \<open>add_u32_inplace\<close>.\<close>

definition push_digit :: "u32 \<Rightarrow> u32 \<Rightarrow> bigint \<Rightarrow> bigint option" where
  "push_digit radix d b = do { b \<leftarrow> mul_u32_inplace b radix; add_u32_inplace b d }"

definition bigint_from_decimal :: "u8 list option \<Rightarrow> nat \<Rightarrow> bigint option" where
  "bigint_from_decimal s n =
     (case s of
        None \<Rightarrow> Some (normalize (alloc_raw 0))
      | Some bytes \<Rightarrow> do {
          b \<leftarrow> for_range 0 n (\<lambda>i b. do {
            c \<leftarrow> rd bytes i;
            if \<not> is_ascii_digit c then Some b
            else push_digit 10 (ucast (c - 0x30)) b
          }) (alloc_raw 0);
          Some (normalize b)
        })"

definition hex_digit :: "u8 \<Rightarrow> u32 option" where
  "hex_digit c =
     (if is_ascii_digit c then Some (ucast (c - 0x30))
      else if 0x61 \<le> c \<and> c \<le> 0x66 then Some (10 + ucast (c - 0x61))
      else if 0x41 \<le> c \<and> c \<le> 0x46 then Some (10 + ucast (c - 0x41))
      else None)"

definition bigint_from_hex :: "u8 list option \<Rightarrow> nat \<Rightarrow> bigint option" where
  "bigint_from_hex s n =
     (case s of
        None \<Rightarrow> Some (normalize (alloc_raw 0))
      | Some bytes \<Rightarrow> do {
          b \<leftarrow> for_range 0 n (\<lambda>i b. do {
            c \<leftarrow> rd bytes i;
            (case hex_digit c of None \<Rightarrow> Some b | Some d \<Rightarrow> push_digit 16 d b)
          }) (alloc_raw 0);
          Some (normalize b)
        })"

text \<open>\<open>ws_len b i\<close> is called with \<open>i\<close> inside \<open>b\<close>; the other accesses are guarded.\<close>

definition ws_len :: "u8 list \<Rightarrow> nat \<Rightarrow> nat" where
  "ws_len b i =
     (let c = b ! i in
      if c = 0x20 \<or> c = 0x09 \<or> c = 0x0A \<or> c = 0x0D \<or> c = 0x0B \<or> c = 0x0C then 1
      else if c = 0xC2 \<and> i + 1 < length b \<and> b ! (i + 1) = 0xA0 then 2
      else if c = 0xE1 \<and> i + 2 < length b \<and> b ! (i + 1) = 0x9A \<and> b ! (i + 2) = 0x80 then 3
      else if c = 0xE2 \<and> i + 2 < length b then
        (let x = b ! (i + 1); y = b ! (i + 2) in
         if x = 0x80 \<and> 0x80 \<le> y \<and> y \<le> 0x8A then 3
         else if x = 0x80 \<and> (y = 0xA8 \<or> y = 0xA9) then 3
         else if x = 0x80 \<and> y = 0xAF then 3
         else if x = 0x81 \<and> y = 0x9F then 3
         else 0)
      else if c = 0xE3 \<and> i + 2 < length b \<and> b ! (i + 1) = 0x80 \<and> b ! (i + 2) = 0x80 then 3
      else if c = 0xEF \<and> i + 2 < length b \<and> b ! (i + 1) = 0xBB \<and> b ! (i + 2) = 0xBF then 3
      else 0)"

definition hex_val :: "u8 \<Rightarrow> u32 option" where
  "hex_val c =
     (if 0x30 \<le> c \<and> c \<le> 0x39 then Some (ucast (c - 0x30))
      else if 0x61 \<le> c \<and> c \<le> 0x66 then Some (ucast (c - 0x61 + 10))
      else if 0x41 \<le> c \<and> c \<le> 0x46 then Some (ucast (c - 0x41 + 10))
      else None)"

function trim_start :: "u8 list \<Rightarrow> nat \<Rightarrow> nat" where
  "trim_start b lo =
     (if lo < length b then
        (let n = ws_len b lo in if n = 0 then lo else trim_start b (lo + n))
      else lo)"
  by pat_completeness auto
termination
  by (relation "measure (\<lambda>(b, lo). length b - lo)") auto

declare trim_start.simps [simp del]

text \<open>The forward rescan that remembers the end of the last byte that is not white space.\<close>

function trim_end :: "u8 list \<Rightarrow> nat \<Rightarrow> nat \<Rightarrow> nat" where
  "trim_end b i last_end =
     (if i < length b then
        (let n = ws_len b i in
         if n = 0 then trim_end b (i + 1) (i + 1) else trim_end b (i + n) last_end)
      else last_end)"
  by pat_completeness auto
termination
  by (relation "measure (\<lambda>(b, i, _). length b - i)") auto

declare trim_end.simps [simp del]

primrec push_digits :: "u32 \<Rightarrow> u32 list \<Rightarrow> bigint \<Rightarrow> bigint option" where
  "push_digits radix [] b = Some b"
| "push_digits radix (d # ds) b = do { b \<leftarrow> push_digit radix d b; push_digits radix ds b }"

definition digit_below :: "u32 \<Rightarrow> u8 \<Rightarrow> bool" where
  "digit_below radix c = (case hex_val c of Some d \<Rightarrow> d < radix | None \<Rightarrow> False)"

definition hex_val_or_0 :: "u8 \<Rightarrow> u32" where
  "hex_val_or_0 c = (case hex_val c of Some d \<Rightarrow> d | None \<Rightarrow> 0)"

text \<open>The radix and the digits of \<open>0x\<close>, \<open>0o\<close> and \<open>0b\<close> forms; radix 0 when there is no prefix.\<close>

definition radix_prefix :: "u8 list \<Rightarrow> u32 \<times> u8 list" where
  "radix_prefix r =
     (let c = r ! 1 in
      if c = 0x78 \<or> c = 0x58 then (16, drop 2 r)
      else if c = 0x6F \<or> c = 0x4F then (8, drop 2 r)
      else if c = 0x62 \<or> c = 0x42 then (2, drop 2 r)
      else (0, r))"

definition parse_decimal :: "bool \<Rightarrow> u8 list \<Rightarrow> bigint option option" where
  "parse_decimal negative r =
     (if r = [] \<or> \<not> list_all is_ascii_digit r then Some None
      else do {
        b \<leftarrow> push_digits 10 (map (\<lambda>c. ucast (c - 0x30)) r) (alloc_raw 0);
        let b = normalize b;
        Some (Some (if negative \<and> read_len b > 0 then write_sign b 1 else b))
      })"

text \<open>
  The result is \<open>Some None\<close> where the source answers NULL: the string is outside
  the grammar.
\<close>

definition parse_trimmed :: "u8 list \<Rightarrow> bigint option option" where
  "parse_trimmed t =
     (if t = [] then Some (Some (normalize (alloc_raw 0)))
      else
        (let (negative, r) = (if t ! 0 = 0x2D then (True, drop 1 t)
               else if t ! 0 = 0x2B then (False, drop 1 t) else (False, t));
             signed = negative \<or> t ! 0 = 0x2B;
             (radix, ds) = (if length r \<ge> 2 \<and> r ! 0 = 0x30 then radix_prefix r else (0, r))
         in if radix \<noteq> 0 then
              (if signed \<or> ds = [] \<or> \<not> list_all (digit_below radix) ds then Some None
               else do {
                 b \<leftarrow> push_digits radix (map hex_val_or_0 ds) (alloc_raw 0);
                 Some (Some (normalize b))
               })
            else parse_decimal negative r))"

definition trim :: "u8 list \<Rightarrow> u8 list" where
  "trim body =
     (let lo = trim_start body 0; hi = trim_end body lo lo in drop lo (take hi body))"

definition bigint_from_str_strict :: "u8 list option \<Rightarrow> bigint option option" where
  "bigint_from_str_strict s =
     (case s of
        None \<Rightarrow> Some (Some (normalize (alloc_raw 0)))
      | Some body \<Rightarrow> parse_trimmed (trim body))"

definition parse_error_msg :: string where
  "parse_error_msg = ''Failed to parse String to BigInt''"

definition bigint_from_str :: "u8 list option \<Rightarrow> bigint outcome" where
  "bigint_from_str s = do {
     r \<leftarrow> bigint_from_str_strict s;
     case r of None \<Rightarrow> throw (SyntaxError parse_error_msg) | Some b \<Rightarrow> ret b
   }"

section \<open>Printing\<close>

definition DEC_CHUNK :: u64 where
  "DEC_CHUNK = 10000000000000000000"

definition DEC_CHUNK_DIGITS :: nat where
  "DEC_CHUNK_DIGITS = 19"

definition checked_mul :: "u64 \<Rightarrow> u64 \<Rightarrow> u64 option" where
  "checked_mul x y = (if unat x * unat y < 2 ^ 64 then Some (x * y) else None)"

partial_function (option) radix_chunk_loop :: "u32 \<Rightarrow> u64 \<Rightarrow> nat \<Rightarrow> (u64 \<times> nat) option" where
  "radix_chunk_loop radix chunk k =
     (case checked_mul chunk (ucast radix) of
        Some n \<Rightarrow> radix_chunk_loop radix n (k + 1)
      | None \<Rightarrow> Some (chunk, k))"

definition radix_chunk :: "u32 \<Rightarrow> (u64 \<times> nat) option" where
  "radix_chunk radix = radix_chunk_loop radix 1 0"

definition digit_char :: "u8 \<Rightarrow> u8" where
  "digit_char d = (if d < 10 then 0x30 + d else 0x61 + (d - 10))"

definition divmod_limb :: "u64 \<Rightarrow> nat \<Rightarrow> u64 list \<times> u64 \<Rightarrow> (u64 list \<times> u64) option" where
  "divmod_limb chunk i = (\<lambda>(w, rem).
     if chunk = 0 then None
     else do {
       x \<leftarrow> rd w i;
       let cur = push_bit 64 (to128 rem) OR to128 x;
       w \<leftarrow> wr w i (lo64 (cur div to128 chunk));
       Some (w, lo64 (cur mod to128 chunk))
     })"

definition divmod_chunk :: "bigint \<Rightarrow> u64 \<Rightarrow> (bigint \<times> u64) option" where
  "divmod_chunk b chunk = do {
     (w, rem) \<leftarrow> for_down (unat (read_len b)) (divmod_limb chunk) (words b, 0);
     Some (normalize (b\<lparr>words := w\<rparr>), rem)
   }"

text \<open>\<open>pos -= 1; buf[pos] = c\<close>\<close>

definition put_byte :: "u8 \<Rightarrow> u8 list \<times> nat \<Rightarrow> (u8 list \<times> nat) option" where
  "put_byte c = (\<lambda>(buf, pos).
     if pos = 0 then None
     else do { buf \<leftarrow> wr buf (pos - 1) c; Some (buf, pos - 1) })"

partial_function (option) emit_top :: "u64 \<Rightarrow> u64 \<Rightarrow> u8 list \<times> nat \<Rightarrow> (u8 list \<times> nat) option" where
  "emit_top radix rem out = do {
     out \<leftarrow> put_byte (digit_char (ucast (rem mod radix))) out;
     let rem = rem div radix;
     if rem = 0 then Some out else emit_top radix rem out
   }"

definition emit_mid :: "u64 \<Rightarrow> nat \<Rightarrow> u64 \<Rightarrow> u8 list \<times> nat \<Rightarrow> (u8 list \<times> nat) option" where
  "emit_mid radix chunk_digits rem out = do {
     (out, rem) \<leftarrow> for_range 0 chunk_digits (\<lambda>_ (out, rem). do {
       out \<leftarrow> put_byte (digit_char (ucast (rem mod radix))) out;
       Some (out, rem div radix)
     }) (out, rem);
     Some out
   }"

partial_function (option) emit_chunks ::
  "u64 \<Rightarrow> u64 \<Rightarrow> nat \<Rightarrow> bigint \<Rightarrow> u8 list \<times> nat \<Rightarrow> (u8 list \<times> nat) option" where
  "emit_chunks radix chunk chunk_digits tmp out =
     (if read_len tmp > 0 then do {
        p \<leftarrow> divmod_chunk tmp chunk;
        let tmp = fst p;
        let rem = snd p;
        out \<leftarrow> (if read_len tmp > 0 then emit_mid radix chunk_digits rem out
                else emit_top radix rem out);
        emit_chunks radix chunk chunk_digits tmp out
      } else Some out)"

definition radix_bytes :: "bigint \<Rightarrow> u32 \<Rightarrow> u32 \<Rightarrow> (u8 list \<times> nat) option" where
  "radix_bytes a a_len radix = do {
     (chunk, chunk_digits) \<leftarrow>
       (if radix = 10 then Some (DEC_CHUNK, DEC_CHUNK_DIGITS) else radix_chunk radix);
     tw \<leftarrow> copy_words (words (alloc_raw a_len)) (words a) (unat a_len);
     let tmp = (alloc_raw a_len)\<lparr>words := tw\<rparr>;
     let cap = (chunk_digits + 64) * unat a_len + 2;
     out \<leftarrow> emit_chunks (ucast radix) chunk chunk_digits tmp (replicate cap 0, cap);
     if read_sign a \<noteq> 0 then put_byte 0x2D out else Some out
   }"

definition to_string_radix :: "bigint \<Rightarrow> u32 \<Rightarrow> u8 list option" where
  "to_string_radix a radix =
     (let a_len = read_len a in
      if a_len = 0 then Some [0x30]
      else do { (buf, pos) \<leftarrow> radix_bytes a a_len radix; Some (drop pos buf) })"


definition radix_msg :: string where
  "radix_msg = ''toString() radix argument must be between 2 and 36''"

definition bigint_to_string_radix :: "bigint \<Rightarrow> i64 \<Rightarrow> u8 list outcome" where
  "bigint_to_string_radix a radix =
     (if \<not> (2 \<le> sint radix \<and> sint radix \<le> 36) then throw (RangeError radix_msg)
      else lift_ret (to_string_radix a (ucast radix)))"

text \<open>The comma groups of three of \<open>toLocaleString\<close>.\<close>

primrec group_digits :: "nat \<Rightarrow> u8 list \<Rightarrow> nat \<Rightarrow> u8 list" where
  "group_digits ndigits [] i = []"
| "group_digits ndigits (d # ds) i =
     (if i > 0 \<and> (ndigits - i) mod 3 = 0 then [0x2C, d] else [d]) @ group_digits ndigits ds (i + 1)"

definition bigint_to_locale_string :: "bigint \<Rightarrow> u8 list option" where
  "bigint_to_locale_string a =
     (let a_len = read_len a in
      if a_len = 0 then Some [0x30]
      else do {
        (buf, pos) \<leftarrow> radix_bytes a a_len 10;
        let digits = drop pos buf;
        d0 \<leftarrow> rd digits 0;
        let sgn = (if d0 = 0x2D then 1 else 0);
        let ndigits = length digits - sgn;
        Some (take sgn digits @ group_digits ndigits (drop sgn digits) 0)
      })"


section \<open>Accumulating digits\<close>

text \<open>The value of a digit string, most significant digit first, after \<open>n\<close>.\<close>

definition horner :: "nat \<Rightarrow> nat list \<Rightarrow> nat \<Rightarrow> nat" where
  "horner r ds n = foldl (\<lambda>n d. n * r + d) n ds"

lemma horner_simps [simp]:
  "horner r [] n = n" "horner r (d # ds) n = horner r ds (n * r + d)"
  "horner r (ds @ es) n = horner r es (horner r ds n)"
  by (simp_all add: horner_def)

lemma horner_ge: "0 < r \<Longrightarrow> n \<le> horner r ds n"
proof (induction ds arbitrary: n)
  case (Cons d ds)
  have "n \<le> n * r + d" using Cons.prems by (cases r) auto
  also have "\<dots> \<le> horner r ds (n * r + d)" using Cons by simp
  finally show ?case by simp
qed simp

lemma horner_less:
  assumes "\<forall>d \<in> set ds. d < r" "n < r ^ k"
  shows "horner r ds n < r ^ (k + length ds)"
  using assms
proof (induction ds arbitrary: n k)
  case (Cons d ds)
  have "n * r + d < (n + 1) * r" using Cons.prems(1) by simp
  also have "\<dots> \<le> r ^ k * r" using Cons.prems(2) by (intro mult_le_mono1) simp
  finally have "n * r + d < r ^ Suc k" by (simp add: mult.commute)
  then show ?case using Cons.IH [of "n * r + d" "Suc k"] Cons.prems(1) by simp
qed simp

text \<open>
  An accumulator holds naturals below \<open>lim\<close> and takes in one digit at a time; the
  parsers below are clients of this interface.
\<close>

lemma map_filter_app: "List.map_filter f (xs @ ys) = List.map_filter f xs @ List.map_filter f ys"
  by (simp add: List.map_filter_def)

locale digit_accumulator =
  fixes push :: "'r \<Rightarrow> 'd \<Rightarrow> 'b \<Rightarrow> 'b option" and radix_of :: "'r \<Rightarrow> nat" and digit_of :: "'d \<Rightarrow> nat"
    and holds :: "nat \<Rightarrow> 'b" and lim :: nat
  assumes push_holds: "0 < radix_of r \<Longrightarrow> n * radix_of r + digit_of d < lim \<Longrightarrow>
    push r d (holds n) = Some (holds (n * radix_of r + digit_of d))"
begin

lemma push_step:
  assumes "0 < radix_of r" "horner (radix_of r) (digit_of d # ds) n < lim"
  shows "push r d (holds n) = Some (holds (n * radix_of r + digit_of d))"
  using horner_ge [OF assms(1), of "n * radix_of r + digit_of d" ds] assms
  by (intro push_holds) simp_all

lemma scan_loop:
  assumes r: "0 < radix_of r" and n: "n \<le> length bytes"
    and lim: "horner (radix_of r) (map digit_of (List.map_filter dig (take n bytes))) 0 < lim"
  shows "for_range 0 n (\<lambda>i b. do { c \<leftarrow> rd bytes i;
      (case dig c of None \<Rightarrow> Some b | Some d \<Rightarrow> push r d b) }) (holds 0) =
    Some (holds (horner (radix_of r) (map digit_of (List.map_filter dig (take n bytes))) 0))"
proof (rule wp_eqI, rule wp_for_range
    [where I = "\<lambda>i b. b = holds (horner (radix_of r) (map digit_of (List.map_filter dig (take i bytes))) 0)"])
  fix i b
  let ?h = "\<lambda>i. horner (radix_of r) (map digit_of (List.map_filter dig (take i bytes))) 0"
  assume i: "i < n" and b: "b = holds (?h i)"
  have t: "take n bytes = take i bytes @ bytes ! i # drop (Suc i) (take n bytes)"
    using i n id_take_nth_drop [of i "take n bytes"] by simp
  show "wp (do { c \<leftarrow> rd bytes i; (case dig c of None \<Rightarrow> Some b | Some d \<Rightarrow> push r d b) })
    (\<lambda>b. b = holds (?h (Suc i)))"
  proof (cases "dig (bytes ! i)")
    case None
    then show ?thesis using i n b by (simp add: wp_simps take_Suc_conv_app_nth map_filter_simps map_filter_app)
  next
    case (Some d)
    have "push r d (holds (?h i)) = Some (holds (?h i * radix_of r + digit_of d))"
      by (rule push_step [of r d "map digit_of (List.map_filter dig (drop (Suc i) (take n bytes)))", OF r])
        (use lim Some in \<open>subst (asm) t, simp add: map_filter_simps map_filter_app\<close>)
    with Some show ?thesis
      using i n b by (simp add: wp_simps take_Suc_conv_app_nth map_filter_simps map_filter_app)
  qed
qed (simp_all add: map_filter_simps)

end

text \<open>Blocks accumulate digits as long as the value fits the limb count.\<close>

definition acc_lim :: nat where
  "acc_lim = LB ^ (LEN_LIM - 2)"

lemma acc_lim_length: "n < acc_lim \<Longrightarrow> length (limbs n) + 1 < LEN_LIM"
proof -
  assume "n < acc_lim"
  then have "length (limbs n) \<le> LEN_LIM - 2" by (simp add: acc_lim_def length_limbs_le)
  moreover have "2 < LEN_LIM" by (simp add: LEN_LIM_def)
  ultimately show ?thesis by linarith
qed

lemma push_digit_mag_of:
  assumes "0 < unat radix" "n * unat radix + unat d < acc_lim"
  shows "push_digit radix d (mag_of n) = Some (mag_of (n * unat radix + unat d))"
proof -
  have "n * 1 \<le> n * unat radix" using assms(1) by (intro mult_le_mono2) simp
  then have "n < acc_lim" "n * unat radix < acc_lim" using assms(2) by linarith+
  moreover have "radix \<noteq> 0" using assms(1) by auto
  ultimately show ?thesis
    using mul_u32_inplace_limbs [of radix n 0, OF _ acc_lim_length]
      add_u32_inplace_limbs [of "n * unat radix" 0 d, OF acc_lim_length]
    by (simp add: push_digit_def mag_of_def)
qed

interpretation acc: digit_accumulator push_digit unat unat mag_of acc_lim
  by unfold_locales (rule push_digit_mag_of)


lemma push_digits_mag_of:
  assumes "0 < unat radix" "horner (unat radix) (map unat ds) n < acc_lim"
  shows "push_digits radix ds (mag_of n) = Some (mag_of (horner (unat radix) (map unat ds) n))"
  using assms(2)
proof (induction ds arbitrary: n)
  case (Cons d ds)
  then show ?case using acc.push_step [of radix d "map unat ds" n] assms(1) by simp
qed simp

lemma horner_fits:
  assumes "\<forall>d \<in> set ds. d < r" "r \<le> LB" "length ds + 1 < LEN_LIM"
  shows "horner r ds 0 < acc_lim"
proof -
  have "horner r ds 0 < r ^ (0 + length ds)"
    by (cases "ds = []") (use assms(1) horner_less [of ds r 0 0] in auto)
  also have "\<dots> \<le> LB ^ length ds" using assms(2) by (simp add: power_mono)
  also have "\<dots> \<le> acc_lim" unfolding acc_lim_def using assms(3) by (intro power_increasing) simp_all
  finally show ?thesis .
qed

lemma normalize_acc: "n < acc_lim \<Longrightarrow> normalize (mag_of n) = bi_of_int (int n)"
  using acc_lim_length [of n] by (intro normalize_mag_of) simp

definition dec_digit :: "u8 \<Rightarrow> nat" where
  "dec_digit c = unat c - 48"

lemma is_ascii_digit_unat: "is_ascii_digit c \<longleftrightarrow> 48 \<le> unat c \<and> unat c \<le> 57"
  by (simp add: is_ascii_digit_def word_le_nat_alt)

lemma unat_u8_32: "unat (ucast (c :: u8) :: u32) = unat c"
proof -
  have "unat c < 2 ^ LENGTH(8)" by (rule unsigned_less)
  then have "unat c < 2 ^ 32" by simp
  then show ?thesis by (simp add: unsigned_ucast_eq take_bit_nat_eq_self)
qed

lemma unat_dec_digit: "is_ascii_digit c \<Longrightarrow> unat (ucast (c - 0x30) :: u32) = dec_digit c"
proof -
  assume "is_ascii_digit c"
  then have "0x30 \<le> c" by (simp add: is_ascii_digit_def)
  then have "unat (c - 0x30) = unat c - unat (0x30 :: u8)" by (rule unat_sub)
  moreover have "unat (ucast (c - 0x30) :: u32) = unat (c - 0x30)" by (rule unat_u8_32)
  ultimately show ?thesis by (simp add: dec_digit_def)
qed

lemma dec_digit_less: "is_ascii_digit c \<Longrightarrow> dec_digit c < 10"
  by (simp add: is_ascii_digit_unat dec_digit_def) linarith

lemma map_filter_if: "List.map_filter (\<lambda>c. if P c then Some (g c) else None) xs = map g (filter P xs)"
  by (induction xs) (simp_all add: map_filter_simps)

lemma bigint_from_decimal_horner:
  assumes "n \<le> length bytes" "n + 1 < LEN_LIM"
  shows "bigint_from_decimal (Some bytes) n =
    Some (bi_of_int (int (horner 10 (map dec_digit (filter is_ascii_digit (take n bytes))) 0)))"
proof -
  let ?dig = "\<lambda>c. if is_ascii_digit c then Some (ucast (c - 0x30) :: u32) else None"
  let ?ds = "map dec_digit (filter is_ascii_digit (take n bytes))"
  have ds: "map unat (List.map_filter ?dig (take n bytes)) = ?ds"
    by (simp add: map_filter_if unat_dec_digit o_def cong: map_cong)
  have "length (filter is_ascii_digit (take n bytes)) \<le> length (take n bytes)" by (rule length_filter_le)
  then have fit: "horner 10 ?ds 0 < acc_lim"
    using assms by (intro horner_fits) (auto simp: dec_digit_less LB_def)
  have body: "(\<lambda>i b. do { c \<leftarrow> rd bytes i;
      if \<not> is_ascii_digit c then Some b else push_digit 10 (ucast (c - 0x30)) b }) =
    (\<lambda>i b. do { c \<leftarrow> rd bytes i; (case ?dig c of None \<Rightarrow> Some b | Some d \<Rightarrow> push_digit 10 d b) })"
    by (intro ext) (auto intro!: Option.bind_cong)
  show ?thesis
    using acc.scan_loop [of 10 n bytes ?dig] assms(1) ds fit
    by (simp add: bigint_from_decimal_def body normalize_acc)
qed

section \<open>Chunks\<close>

lemma checked_mul_Some: "checked_mul x y = Some z \<longleftrightarrow> unat x * unat y < LB \<and> z = x * y"
  by (auto simp: checked_mul_def LB_def)

lemma unat_mult_64: "unat x * unat y < LB \<Longrightarrow> unat (x * y :: u64) = unat x * unat y"
  by (simp add: unat_word_ariths LB_def)

lemma radix_chunk_loop_returns:
  assumes "2 \<le> unat radix" "unat chunk = unat radix ^ k"
  shows "\<exists>c m. radix_chunk_loop radix chunk k = Some (c, m) \<and> k \<le> m \<and> unat c = unat radix ^ m \<and>
    LB \<le> unat radix ^ Suc m"
  using assms(2)
proof (induction "LB - unat chunk" arbitrary: chunk k rule: less_induct)
  case less
  show ?case
  proof (cases "unat chunk * unat radix < LB")
    case True
    let ?n = "chunk * ucast radix"
    have n: "unat ?n = unat radix ^ Suc k" using True less.prems by (simp add: unat_mult_64)
    have "0 < unat chunk" using less.prems assms(1) by simp
    then have "unat chunk * 1 < unat chunk * unat radix" using assms(1) by (intro mult_less_mono2) simp_all
    then have "LB - unat ?n < LB - unat chunk" using True by (simp add: unat_mult_64 diff_less_mono2)
    from less.hyps [OF this n] obtain c m where "radix_chunk_loop radix ?n (Suc k) = Some (c, m)"
      "Suc k \<le> m" "unat c = unat radix ^ m" "LB \<le> unat radix ^ Suc m" by blast
    then show ?thesis
      using True by (subst radix_chunk_loop.simps) (auto simp: checked_mul_def LB_def)
  next
    case False
    then show ?thesis
      using less.prems by (subst radix_chunk_loop.simps) (auto simp: checked_mul_def LB_def mult.commute)
  qed
qed

lemma radix_chunk_returns:
  assumes "2 \<le> unat radix"
  shows "\<exists>c k. radix_chunk radix = Some (c, k) \<and> unat c = unat radix ^ k \<and> LB \<le> unat radix ^ Suc k"
  using radix_chunk_loop_returns [OF assms, of 1 0] by (auto simp: radix_chunk_def)

lemma radix_chunk_loop_spins:
  assumes "radix_chunk_loop radix chunk k = Some y"
  shows "\<not> unat radix \<le> 1"
proof (rule radix_chunk_loop.raw_induct [where P = "\<lambda>radix chunk k y. \<not> unat radix \<le> 1", OF _ assms])
  fix loop and radix :: u32 and chunk :: u64 and k :: nat and y
  assume IH: "\<And>radix chunk k y. loop radix chunk k = Some y \<Longrightarrow> \<not> unat radix \<le> 1"
    and y: "(case checked_mul chunk (ucast radix) of Some n \<Rightarrow> loop radix n (k + 1)
      | None \<Rightarrow> Some (chunk, k)) = Some (y :: u64 \<times> nat)"
  show "\<not> unat radix \<le> 1"
  proof
    assume r: "unat radix \<le> 1"
    then have "unat chunk * unat radix < LB"
      using le_less_trans [OF mult_le_mono2 [OF r, of "unat chunk"], of LB] by simp
    then have "checked_mul chunk (ucast radix) = Some (chunk * ucast radix)"
      by (simp add: checked_mul_def LB_def)
    with y have "loop radix (chunk * ucast radix) (k + 1) = Some y" by simp
    from IH [OF this] r show False by simp
  qed
qed

lemma unat_128_join: "unat (push_bit 64 (to128 r) OR to128 x) = LB * unat r + unat x"
proof -
  have "push_bit 64 (to128 r) OR to128 x = push_bit 64 (to128 r) + to128 x"
  proof (rule disjunctive_add [symmetric])
    fix n
    show "\<not> bit (push_bit 64 (to128 r)) n \<or> \<not> bit (to128 x) n"
      using bit_word_ge [of x n] by (auto simp: bit_push_bit_iff to128_def bit_ucast_iff)
  qed
  moreover have "unat (push_bit 64 (to128 r)) = LB * unat r"
  proof -
    have "unat (push_bit 64 (to128 r)) = take_bit 128 (push_bit 64 (unat (to128 r)))"
      using unsigned_push_bit_eq [where 'a = nat and w = "to128 r" and n = 64] by simp
    moreover have "push_bit 64 (unat r) < 2 ^ 128"
      using unat_less_LB [of r] by (simp add: push_bit_eq_mult LB_def)
    ultimately show ?thesis by (simp add: take_bit_nat_eq_self push_bit_eq_mult LB_def mult.commute)
  qed
  moreover have "LB * unat r + unat x < LB * LB"
    using mac_less [of "unat r" "LB - 1" "unat r" "unat x"] unat_less_LB [of r]
    by (simp add: algebra_simps)
  ultimately show ?thesis by (simp add: unat_add_128)
qed


definition chunk_inv :: "u64 list \<Rightarrow> nat \<Rightarrow> nat \<Rightarrow> u64 list \<times> u64 \<Rightarrow> bool" where
  "chunk_inv v c i = (\<lambda>(w, rem). length w = length v \<and> take i w = take i v \<and> unat rem < c \<and>
     mval (drop i v) = mval (drop i w) * c + unat rem)"

lemma divmod_limb_step:
  assumes "chunk_inv v (unat c) (Suc i) (w, rem)" "i < length v"
  shows "wp (divmod_limb c i (w, rem)) (chunk_inv v (unat c) i)"
proof -
  let ?x = "v ! i" and ?cur = "LB * unat rem + unat (v ! i)"
  have w: "length w = length v" "take (Suc i) w = take (Suc i) v" "unat rem < unat c"
    "mval (drop (Suc i) v) = mval (drop (Suc i) w) * unat c + unat rem"
    using assms(1) by (auto simp: chunk_inv_def)
  have wi: "w ! i = v ! i" "take i w = take i v"
    using w(1,2) assms(2) by (metis lessI nth_take, metis less_imp_le_nat lessI min.absorb1 take_take)
  have c0: "c \<noteq> 0" using w(3) by auto
  have "?cur < unat c * LB"
  proof -
    have "LB * (unat rem + 1) \<le> LB * unat c" using w(3) by (intro mult_le_mono2) simp
    then show ?thesis
      using unat_less_LB [of ?x] unfolding distrib_left mult_1_right mult.commute [of "unat c"] by linarith
  qed
  then have q: "?cur div unat c < LB" by (simp add: less_mult_imp_div_less mult.commute)
  have u: "unat ((push_bit 64 (to128 rem) OR to128 ?x) div to128 c) = ?cur div unat c"
    "unat ((push_bit 64 (to128 rem) OR to128 ?x) mod to128 c) = ?cur mod unat c"
    by (simp_all only: unat_div unat_mod unat_128_join unat_to128)
  have r: "?cur mod unat c < unat c" using w(3) by simp
  have lo: "unat (lo64 ((push_bit 64 (to128 rem) OR to128 ?x) div to128 c)) = ?cur div unat c"
    "unat (lo64 ((push_bit 64 (to128 rem) OR to128 ?x) mod to128 c)) = ?cur mod unat c"
    using q less_trans [OF r unat_less_LB [of c]] by (simp_all only: unat_lo64 u mod_less)
  let ?q = "lo64 ((push_bit 64 (to128 rem) OR to128 ?x) div to128 c)"
    and ?r = "lo64 ((push_bit 64 (to128 rem) OR to128 ?x) mod to128 c)"
  have "drop i (w[i := ?q]) = ?q # drop (Suc i) w" "drop i v = ?x # drop (Suc i) v"
    using assms(2) w(1) by (simp_all add: Cons_nth_drop_Suc [symmetric])
  then have "mval (drop i v) = mval (drop i (w[i := ?q])) * unat c + unat ?r"
    using w(4) div_mult_mod_eq [of ?cur "unat c"] by (simp add: lo algebra_simps)
  then have "chunk_inv v (unat c) i (w[i := ?q], ?r)"
    using w(1) wi(2) lo r by (simp add: chunk_inv_def)
  then show ?thesis
    using c0 assms(2) w(1) wi(1) by (simp add: divmod_limb_def wp_simps)
qed

lemma divmod_chunk_mag_of:
  assumes "length (limbs n) < LEN_LIM" "c \<noteq> 0"
  shows "\<exists>rem. divmod_chunk (mag_of n) c = Some (mag_of (n div unat c), rem) \<and> unat rem = n mod unat c"
proof -
  let ?v = "limbs n"
  have "0 < unat c" using assms(2) by (simp add: unat_gt_0)
  then have "wp (for_down (length ?v) (divmod_limb c) (?v, 0)) (chunk_inv ?v (unat c) 0)"
    by (intro wp_for_down [where I = "chunk_inv ?v (unat c)"])
      (auto intro: divmod_limb_step, simp add: chunk_inv_def)
  then obtain w rem where loop: "for_down (length ?v) (divmod_limb c) (?v, 0) = Some (w, rem)"
    and inv: "chunk_inv ?v (unat c) 0 (w, rem)"
    by (auto elim: wpE)
  have "length w = length ?v" "unat rem < unat c" "n = mval w * unat c + unat rem"
    using inv by (auto simp: chunk_inv_def)
  then have "length w < LEN_LIM" "n div unat c = mval w" "n mod unat c = unat rem"
    using assms(1) by simp_all
  then show ?thesis
    using loop assms(1) by (auto simp: divmod_chunk_def mag_of_def [of n] normalize_mag)
qed

section \<open>Emission\<close>

fun numeral_digits :: "nat \<Rightarrow> nat \<Rightarrow> nat list" where
  "numeral_digits r n = (if r < 2 \<or> n < r then [n] else numeral_digits r (n div r) @ [n mod r])"

declare numeral_digits.simps [simp del]

primrec low_digits :: "nat \<Rightarrow> nat \<Rightarrow> nat \<Rightarrow> nat list" where
  "low_digits r 0 n = []"
| "low_digits r (Suc k) n = (n div r ^ k mod r) # low_digits r k n"

lemma numeral_digits_less: "n < r \<Longrightarrow> numeral_digits r n = [n]"
  by (simp add: numeral_digits.simps)

lemma numeral_digits_step: "2 \<le> r \<Longrightarrow> r \<le> n \<Longrightarrow> numeral_digits r n = numeral_digits r (n div r) @ [n mod r]"
  by (subst numeral_digits.simps) simp

lemma numeral_digits_low:
  assumes "2 \<le> r" "r ^ k \<le> n"
  shows "numeral_digits r n = numeral_digits r (n div r ^ k) @ low_digits r k n"
  using assms(2)
proof (induction k)
  case (Suc k)
  have "r ^ k \<le> r ^ Suc k" using assms(1) by simp
  with Suc.prems have le: "r ^ k \<le> n" by linarith
  have "r \<le> n div r ^ k"
    using Suc.prems assms(1) by (simp add: less_eq_div_iff_mult_less_eq mult.commute)
  then have "numeral_digits r (n div r ^ k) = numeral_digits r (n div r ^ Suc k) @ [n div r ^ k mod r]"
    using numeral_digits_step [OF assms(1)] by (simp only: power_Suc2 div_mult2_eq)
  then show ?case using Suc.IH [OF le] by simp
qed simp

lemma low_digits_mod:
  assumes "0 < r"
  shows "low_digits r k (n mod r ^ k) = low_digits r k n"
proof -
  have "low_digits r j (n mod r ^ k) = low_digits r j n" if "j \<le> k" for j
    using that
  proof (induction j)
    case (Suc j)
    have "r ^ k = r ^ j * (r * r ^ (k - Suc j))"
      using Suc.prems by (simp flip: power_add power_Suc)
    then have "n mod r ^ k div r ^ j mod r = n div r ^ j mod r"
      using assms by (simp add: mod_mult2_eq div_mult2_eq)
    then show ?case using Suc by simp
  qed simp
  then show ?thesis by simp
qed

lemma horner_numeral_digits: "2 \<le> r \<Longrightarrow> horner r (numeral_digits r n) 0 = n"
proof (induction r n rule: numeral_digits.induct)
  case (1 r n)
  then show ?case by (cases "n < r") (simp_all add: numeral_digits_less numeral_digits_step)
qed

lemma numeral_digits_set: "2 \<le> r \<Longrightarrow> d \<in> set (numeral_digits r n) \<Longrightarrow> d < r"
proof (induction r n rule: numeral_digits.induct)
  case (1 r n)
  then show ?case by (cases "n < r") (auto simp: numeral_digits_less numeral_digits_step)
qed

lemma length_numeral_digits:
  assumes "2 \<le> r" "n < 2 ^ k" "0 < k"
  shows "length (numeral_digits r n) \<le> k"
  using assms
proof (induction r n arbitrary: k rule: numeral_digits.induct)
  case (1 r n)
  show ?case
  proof (cases "n < r")
    case True
    then show ?thesis using "1.prems" by (simp add: numeral_digits_less)
  next
    case False
    have "k \<noteq> 1"
    proof
      assume "k = 1"
      with "1.prems" False show False by simp
    qed
    then obtain j where j: "k = Suc j" "0 < j" using "1.prems"(3) by (cases k) auto
    have "n div r \<le> n div 2" using "1.prems"(1) by (rule div_le_mono2 [rotated]) simp
    also have "n div 2 < 2 ^ j" using "1.prems"(2) j(1) by simp
    finally show ?thesis
      using "1.IH" [of j] False "1.prems"(1) j by (simp add: numeral_digits_step)
  qed
qed


text \<open>Going from output \<open>p\<close> to output \<open>q\<close> has written the bytes \<open>s\<close> in front.\<close>

definition emits :: "u8 list \<times> nat \<Rightarrow> u8 list \<Rightarrow> u8 list \<times> nat \<Rightarrow> bool" where
  "emits p s q \<longleftrightarrow> snd q + length s = snd p \<and> snd p \<le> length (fst p) \<and>
     length (fst q) = length (fst p) \<and> drop (snd q) (fst q) = s @ drop (snd p) (fst p)"

lemma emits_refl: "snd p \<le> length (fst p) \<Longrightarrow> emits p [] p"
  by (simp add: emits_def)

lemma emits_trans: "emits p s q \<Longrightarrow> emits q t r \<Longrightarrow> emits p (t @ s) r"
  by (auto simp: emits_def)

lemma put_byte_emits:
  assumes "0 < snd p" "snd p \<le> length (fst p)"
  shows "wp (put_byte c p) (emits p [c])"
proof (cases p)
  case (Pair buf pos)
  then have "pos - 1 < length buf" "0 < pos" using assms by auto
  then show ?thesis
    using Pair by (simp add: put_byte_def wp_simps emits_def Cons_nth_drop_Suc [symmetric])
qed

definition digit_bytes :: "nat list \<Rightarrow> u8 list" where
  "digit_bytes ds = map (\<lambda>d. digit_char (of_nat d)) ds"

lemma length_digit_bytes [simp]: "length (digit_bytes ds) = length ds"
  by (simp add: digit_bytes_def)

lemma digit_bytes_append: "digit_bytes (ds @ es) = digit_bytes ds @ digit_bytes es"
  by (simp add: digit_bytes_def)

lemma ucast_digit: "unat (x :: u64) < 36 \<Longrightarrow> (ucast x :: u8) = of_nat (unat x)"
  by simp

lemma unat_divmod: "unat (x div y :: u64) = unat x div unat y" "unat (x mod y :: u64) = unat x mod unat y"
  by (simp_all add: unat_div unat_mod)

lemma emit_top_emits:
  assumes "2 \<le> unat radix" "length (numeral_digits (unat radix) (unat rem)) \<le> snd p"
    and "snd p \<le> length (fst p)"
  shows "wp (emit_top radix rem p) (emits p (digit_bytes (numeral_digits (unat radix) (unat rem))))"
  using assms(2,3)
proof (induction "unat rem" arbitrary: rem p rule: less_induct)
  case less
  let ?r = "unat radix" and ?d = "digit_char (ucast (rem mod radix))"
  have d: "?d = digit_char (of_nat (unat rem mod ?r))"
    using unat_divmod(2) [of rem radix] by (metis of_nat_unat ucast_id word_unat_eq_iff of_nat_unat)
  have "0 < length (numeral_digits ?r (unat rem))" by (subst numeral_digits.simps) simp
  then have "0 < snd p" using less.prems by linarith
  then obtain q where q: "put_byte ?d p = Some q" "emits p [?d] q"
    using put_byte_emits [of p ?d] less.prems(2) by (auto elim: wpE)
  show ?case
  proof (cases "rem div radix = 0")
    case True
    then have "unat rem < ?r" using assms(1) unat_divmod(1) [of rem radix] by (simp add: div_eq_0_iff)
    then show ?thesis
      using q True d by (subst emit_top.simps) (simp add: numeral_digits_less digit_bytes_def)
  next
    case False
    have ge: "?r \<le> unat rem"
    proof (rule ccontr)
      assume "\<not> ?r \<le> unat rem"
      then have "unat (rem div radix) = 0" by (simp add: unat_divmod)
      with False show False by (simp add: unat_eq_0)
    qed
    have nd: "numeral_digits ?r (unat rem) = numeral_digits ?r (unat (rem div radix)) @ [unat rem mod ?r]"
      using numeral_digits_step [OF assms(1) ge] by (simp add: unat_divmod)
    have "unat (rem div radix) < unat rem" using ge assms(1) by (simp add: unat_divmod)
    moreover have "length (numeral_digits ?r (unat (rem div radix))) \<le> snd q" "snd q \<le> length (fst q)"
      using less.prems q(2) nd by (auto simp: emits_def)
    ultimately have "wp (emit_top radix (rem div radix) q)
        (emits q (digit_bytes (numeral_digits ?r (unat (rem div radix)))))"
      by (rule less.hyps)
    then show ?thesis
      using q False by (subst emit_top.simps)
        (auto simp: nd digit_bytes_append wp_simps elim!: wp_mono dest: emits_trans [OF q(2)]
          simp: d digit_bytes_def)
  qed
qed


lemma emit_mid_emits:
  assumes "k \<le> snd p" "snd p \<le> length (fst p)"
  shows "wp (emit_mid radix k rem p) (emits p (digit_bytes (low_digits (unat radix) k (unat rem))))"
proof -
  let ?r = "unat radix" and ?n = "unat rem"
  let ?I = "\<lambda>i (q, x). emits p (digit_bytes (low_digits ?r i ?n)) q \<and> unat x = ?n div ?r ^ i"
  have "wp (for_range 0 k (\<lambda>_ (out, rem). do {
       out \<leftarrow> put_byte (digit_char (ucast (rem mod radix))) out;
       Some (out, rem div radix)
     }) (p, rem)) (?I k)"
  proof (rule wp_for_range [where I = ?I])
    show "case (p, rem) of (q, x) \<Rightarrow> emits p (digit_bytes (low_digits ?r 0 ?n)) q \<and> unat x = ?n div ?r ^ 0"
      using assms(2) by (simp add: emits_refl digit_bytes_def)
  next
    fix i and s :: "(u8 list \<times> nat) \<times> u64"
    assume i: "i < k" and s: "case s of (q, x) \<Rightarrow>
      emits p (digit_bytes (low_digits ?r i ?n)) q \<and> unat x = ?n div ?r ^ i"
    obtain q x where qx: "s = (q, x)" "emits p (digit_bytes (low_digits ?r i ?n)) q" "unat x = ?n div ?r ^ i"
      using s by auto
    let ?d = "digit_char (ucast (x mod radix))"
    have d: "?d = digit_char (of_nat (?n div ?r ^ i mod ?r))"
      using qx(3) unat_divmod(2) [of x radix] by (metis of_nat_unat)
    have len: "length (digit_bytes (low_digits ?r i ?n)) = i" by (induction i) simp_all
    then have "0 < snd q" "snd q \<le> length (fst q)"
      using qx(2) i assms by (auto simp: emits_def)
    then obtain q' where q': "put_byte ?d q = Some q'" "emits q [?d] q'"
      using put_byte_emits [of q ?d] by (auto elim: wpE)
    have "emits p (digit_bytes (low_digits ?r (Suc i) ?n)) q'"
      using emits_trans [OF qx(2) q'(2)] by (simp add: d digit_bytes_def)
    moreover have "unat (x div radix) = ?n div ?r ^ Suc i"
      using qx(3) by (simp only: unat_divmod power_Suc2 div_mult2_eq)
    ultimately show "wp (case s of (out, rem) \<Rightarrow> do {
       out \<leftarrow> put_byte (digit_char (ucast (rem mod radix))) out;
       Some (out, rem div radix) }) (?I (Suc i))"
      using qx(1) q'(1) by simp
  qed simp_all
  then show ?thesis by (auto simp: emit_mid_def elim!: wpE)
qed

lemma length_low_digits [simp]: "length (low_digits r k n) = k"
  by (induction k) simp_all

text \<open>The chunk loop emits exactly the digits of the magnitude.\<close>

lemma emit_chunks_emits:
  assumes r: "2 \<le> unat radix" and c: "unat chunk = unat radix ^ k" "0 < k"
    and "length (limbs n) < LEN_LIM" "n \<noteq> 0"
    and "length (numeral_digits (unat radix) n) \<le> snd p" "snd p \<le> length (fst p)"
  shows "wp (emit_chunks radix chunk k (mag_of n) p) (emits p (digit_bytes (numeral_digits (unat radix) n)))"
  using assms(4-)
proof (induction n arbitrary: p rule: less_induct)
  case (less n)
  let ?r = "unat radix"
  have pk: "1 < ?r ^ k" using r c(2) by (intro one_less_power) simp_all
  have c0: "chunk \<noteq> 0" using c r by auto
  have tmp: "read_len (mag_of n) > 0" using less.prems(1,2) by (simp add: word_gt_0 read_len_0 bi_len_def)
  obtain rem where rem: "divmod_chunk (mag_of n) chunk = Some (mag_of (n div ?r ^ k), rem)"
    "unat rem = n mod ?r ^ k"
    using divmod_chunk_mag_of [OF less.prems(1) c0] c(1) by auto
  have lq: "length (limbs (n div ?r ^ k)) < LEN_LIM"
    using length_limbs_mono [of "n div ?r ^ k" n] less.prems(1) by (simp add: le_less_trans)
  have q0: "read_len (mag_of (n div ?r ^ k)) > 0 \<longleftrightarrow> n div ?r ^ k \<noteq> 0"
    using lq by (simp add: word_gt_0 read_len_0 bi_len_def)
  show ?case
  proof (cases "n div ?r ^ k = 0")
    case True
    then have "n < ?r ^ k"
      using pk by (metis div_greater_zero_iff less_numeral_extra(3) not_less order.strict_trans zero_less_one)
    then have n: "n mod ?r ^ k = n" by simp
    have "wp (emit_top radix rem p) (emits p (digit_bytes (numeral_digits ?r n)))"
      using emit_top_emits [OF r, of rem p] less.prems rem(2) n by simp
    moreover have "emit_chunks radix chunk k (mag_of 0) q = Some q" for q
      by (subst emit_chunks.simps) (simp add: read_len_def as_u32_def)
    ultimately show ?thesis
      using tmp rem True q0 by (subst emit_chunks.simps) (auto simp: wp_simps)
  next
    case False
    then have ge: "?r ^ k \<le> n" by (meson div_less not_le)
    have nd: "numeral_digits ?r n = numeral_digits ?r (n div ?r ^ k) @ low_digits ?r k n"
      by (rule numeral_digits_low [OF r ge])
    have "low_digits ?r k (unat rem) = low_digits ?r k n"
      unfolding rem(2) by (rule low_digits_mod) (use r in simp)
    then obtain q where q: "emit_mid radix k rem p = Some q" "emits p (digit_bytes (low_digits ?r k n)) q"
      using emit_mid_emits [of k p radix rem] less.prems(3,4) nd by (auto elim: wpE)
    have "n div ?r ^ k < n" using pk less.prems(2) by simp
    moreover have "length (numeral_digits ?r (n div ?r ^ k)) \<le> snd q" "snd q \<le> length (fst q)"
      using less.prems(3,4) q(2) nd by (auto simp: emits_def)
    ultimately have "wp (emit_chunks radix chunk k (mag_of (n div ?r ^ k)) q)
        (emits q (digit_bytes (numeral_digits ?r (n div ?r ^ k))))"
      using less.IH lq False by blast
    then have "wp (emit_chunks radix chunk k (mag_of (n div ?r ^ k)) q)
        (emits p (digit_bytes (numeral_digits ?r n)))"
      by (rule wp_mono) (use emits_trans [OF q(2)] in \<open>simp add: nd digit_bytes_append\<close>)
    then show ?thesis
      using tmp rem False q0 q(1) by (subst emit_chunks.simps) (simp add: wp_simps)
  qed
qed

text \<open>The printed form of an integer.\<close>

definition print_int :: "nat \<Rightarrow> int \<Rightarrow> u8 list" where
  "print_int r i = (if i < 0 then [0x2D] else []) @ digit_bytes (numeral_digits r (nat \<bar>i\<bar>))"

lemma radix_bytes_print:
  assumes "canonical a" "words a \<noteq> []" "2 \<le> unat radix" "unat radix \<le> 36"
  shows "wp (radix_bytes a (read_len a) radix) (\<lambda>(buf, pos). drop pos buf = print_int (unat radix) (bi_val a))"
proof -
  let ?r = "unat radix"
  obtain c k where ck: "(if radix = 10 then Some (DEC_CHUNK, DEC_CHUNK_DIGITS) else radix_chunk radix) = Some (c, k)"
    "unat c = ?r ^ k" "LB \<le> ?r ^ Suc k"
  proof (cases "radix = 10")
    case True
    then show ?thesis
      using that [of DEC_CHUNK DEC_CHUNK_DIGITS] by (simp add: DEC_CHUNK_def DEC_CHUNK_DIGITS_def LB_def)
  next
    case False
    then show ?thesis using that radix_chunk_returns [OF assms(3)] by auto
  qed
  have k0: "0 < k" using ck(3) assms(4) by (cases k) (simp_all add: LB_def)
  define cap where "cap = (k + 64) * unat (read_len a) + 2"
  have n0: "mag a \<noteq> 0" using assms(1,2) by (simp add: mag_0_iff)
  have "mag a < 2 ^ (64 * bi_len a)" using mag_less [of a] by (simp add: LB_power)
  then have "length (numeral_digits ?r (mag a)) \<le> 64 * bi_len a"
    using assms(2,3) by (intro length_numeral_digits) (simp_all add: bi_len_def)
  then have cap: "length (numeral_digits ?r (mag a)) + 1 \<le> cap"
    using assms(1) by (simp add: cap_def algebra_simps)
  have l: "length (limbs (mag a)) < LEN_LIM"
    using assms(1) canonical_len [OF assms(1)] by (simp add: mag_of_mag bi_len_def)
  have u: "unat (ucast radix :: u64) = ?r" by simp
  obtain q where q: "emit_chunks (ucast radix) c k (mag_of (mag a)) (replicate cap 0, cap) = Some q"
    "emits (replicate cap 0, cap) (digit_bytes (numeral_digits ?r (mag a))) q"
    using emit_chunks_emits [of "ucast radix" c k "mag a" "(replicate cap 0, cap)"] ck(2) k0 l n0 cap assms(3)
    by (auto elim: wpE)
  have tmp: "(alloc_raw (read_len a))\<lparr>words := words a\<rparr> = mag_of (mag a)"
    using assms(1) by (simp add: alloc_raw_fresh mag_of_def mag_of_mag)
  have cw: "copy_words (words (alloc_raw (read_len a))) (words a) (unat (read_len a)) = Some (words a)"
    using canonical_len [OF assms(1)] by (simp add: alloc_raw_fresh) (simp add: bi_len_def copy_words_all)
  have d: "drop (snd q) (fst q) = digit_bytes (numeral_digits ?r (mag a))" "0 < snd q" "snd q \<le> length (fst q)"
    using q(2) cap by (auto simp: emits_def)
  obtain q' where q': "put_byte 0x2D q = Some q'" "emits q [0x2D] q'"
    using put_byte_emits [of q "0x2D"] d(2,3) by (auto elim: wpE)
  have neg: "read_sign a \<noteq> 0 \<longleftrightarrow> bi_val a < 0" using n0 by (simp add: bi_val_def read_sign_def)
  have "radix_bytes a (read_len a) radix = (if bi_val a < 0 then put_byte 0x2D q else Some q)"
    unfolding radix_bytes_def Let_def ck(1) Option.bind.bind_lunit prod.case cw tmp
      cap_def [symmetric] q(1) neg ..
  then show ?thesis
    using q'(1) d(1) q'(2) by (cases q; cases q') (simp add: print_int_def emits_def)
qed

lemma to_string_radix_print:
  assumes "canonical a" "2 \<le> unat radix" "unat radix \<le> 36"
  shows "to_string_radix a radix = Some (print_int (unat radix) (bi_val a))"
proof (cases "words a = []")
  case True
  then have "bi_val a = 0" by (simp add: bi_val_def mag_def)
  with True show ?thesis
    using assms by (simp add: to_string_radix_def read_len_0 print_int_def numeral_digits_less digit_bytes_def digit_char_def)
next
  case False
  then show ?thesis
    using radix_bytes_print [OF assms(1) False assms(2,3)] assms(1)
    by (auto simp: to_string_radix_def read_len_0 elim!: wpE)
qed


section \<open>The strict grammar\<close>

text \<open>The byte sequences that are white space, and the ASCII bytes that never start one.\<close>

definition ws_seqs :: "u8 list list" where
  "ws_seqs = [[0x20], [0x09], [0x0A], [0x0D], [0x0B], [0x0C], [0xC2, 0xA0], [0xE1, 0x9A, 0x80],
     [0xE2, 0x80, 0xA8], [0xE2, 0x80, 0xA9], [0xE2, 0x80, 0xAF], [0xE2, 0x81, 0x9F],
     [0xE3, 0x80, 0x80], [0xEF, 0xBB, 0xBF]] @
     map (\<lambda>y. [0xE2, 0x80, y]) [0x80, 0x81, 0x82, 0x83, 0x84, 0x85, 0x86, 0x87, 0x88, 0x89, 0x8A]"

definition plain_byte :: "u8 \<Rightarrow> bool" where
  "plain_byte c \<longleftrightarrow> 0x20 < c \<and> c < 0x80"

lemma ws_len_seq: "w \<in> set ws_seqs \<Longrightarrow> ws_len (pre @ w @ post) (length pre) = length w \<and> 0 < length w"
  unfolding ws_seqs_def
  by (auto simp: ws_len_def nth_append)

lemma ws_len_plain:
  assumes "i < length b" "plain_byte (b ! i)"
  shows "ws_len b i = 0"
proof -
  have "b ! i \<noteq> c" if "\<not> plain_byte c" for c using assms(2) that by auto
  moreover have "\<not> plain_byte 0x20" "\<not> plain_byte 0x09" "\<not> plain_byte 0x0A" "\<not> plain_byte 0x0D" "\<not> plain_byte 0x0B"
    "\<not> plain_byte 0x0C" "\<not> plain_byte 0xC2" "\<not> plain_byte 0xE1" "\<not> plain_byte 0xE2" "\<not> plain_byte 0xE3"
    "\<not> plain_byte 0xEF" by (simp_all add: plain_byte_def)
  ultimately show ?thesis by (simp add: ws_len_def)
qed

lemma trim_start_ws:
  "\<forall>w \<in> set ws. w \<in> set ws_seqs \<Longrightarrow>
   trim_start (pre @ concat ws @ rest) (length pre) = trim_start (pre @ concat ws @ rest) (length pre + length (concat ws))"
proof (induction ws arbitrary: pre)
  case (Cons w ws)
  have w: "ws_len (pre @ w @ concat ws @ rest) (length pre) = length w" "0 < length w"
    using ws_len_seq [of w pre "concat ws @ rest"] Cons.prems by simp_all
  have "trim_start (pre @ concat (w # ws) @ rest) (length pre) =
      trim_start ((pre @ w) @ concat ws @ rest) (length (pre @ w))"
    by (subst trim_start.simps) (use w in \<open>auto simp: Let_def\<close>)
  also have "\<dots> = trim_start ((pre @ w) @ concat ws @ rest) (length (pre @ w) + length (concat ws))"
    by (rule Cons.IH) (use Cons.prems in simp)
  finally show ?case by (simp add: add.assoc)
qed simp

lemma trim_end_plain:
  "\<forall>c \<in> set t. plain_byte c \<Longrightarrow> t \<noteq> [] \<Longrightarrow>
   trim_end (pre @ t @ rest) (length pre) e = trim_end (pre @ t @ rest) (length pre + length t) (length pre + length t)"
proof (induction t arbitrary: pre e)
  case (Cons c t)
  have z: "ws_len (pre @ (c # t) @ rest) (length pre) = 0"
    by (rule ws_len_plain) (use Cons.prems in simp_all)
  have "trim_end (pre @ (c # t) @ rest) (length pre) e =
      trim_end ((pre @ [c]) @ t @ rest) (length (pre @ [c])) (length (pre @ [c]))"
    by (subst trim_end.simps) (use z in simp)
  also have "\<dots> = trim_end ((pre @ [c]) @ t @ rest) (length (pre @ [c]) + length t) (length (pre @ [c]) + length t)"
    using Cons.IH [of "pre @ [c]"] Cons.prems(1) by (cases "t = []") simp_all
  finally show ?case by simp
qed simp

lemma trim_end_ws:
  "\<forall>w \<in> set ws. w \<in> set ws_seqs \<Longrightarrow>
   trim_end (pre @ concat ws) (length pre) e = e"
proof (induction ws arbitrary: pre)
  case Nil
  then show ?case by (simp add: trim_end.simps)
next
  case (Cons w ws)
  have w: "ws_len (pre @ w @ concat ws) (length pre) = length w" "0 < length w"
    using ws_len_seq [of w pre "concat ws"] Cons.prems by simp_all
  have "trim_end (pre @ concat (w # ws)) (length pre) e = trim_end ((pre @ w) @ concat ws) (length (pre @ w)) e"
    by (subst trim_end.simps) (use w in \<open>auto simp: Let_def\<close>)
  also have "\<dots> = e" by (rule Cons.IH) (use Cons.prems in simp)
  finally show ?case .
qed

text \<open>White space at both ends is dropped, and nothing else.\<close>

lemma trim_surrounded:
  assumes "\<forall>w \<in> set ws. w \<in> set ws_seqs" "\<forall>w \<in> set vs. w \<in> set ws_seqs" "\<forall>c \<in> set t. plain_byte c" "t \<noteq> []"
  shows "trim (concat ws @ t @ concat vs) = t"
proof -
  let ?b = "concat ws @ t @ concat vs" and ?l = "length (concat ws)"
  have "trim_start ?b 0 = trim_start ?b ?l"
    using trim_start_ws [of ws "[]" "t @ concat vs"] assms(1) by simp
  also have "\<dots> = ?l"
  proof -
    obtain c t' where "t = c # t'" using assms(4) by (cases t) auto
    then have "ws_len ?b ?l = 0" by (intro ws_len_plain) (use assms(3) in simp_all)
    then show ?thesis by (subst trim_start.simps) simp
  qed
  finally have lo: "trim_start ?b 0 = ?l" .
  have "trim_end ?b ?l ?l = trim_end ?b (?l + length t) (?l + length t)"
    by (rule trim_end_plain [OF assms(3,4)])
  also have "\<dots> = ?l + length t"
    using trim_end_ws [OF assms(2), of "concat ws @ t" "?l + length t"] by simp
  finally have hi: "trim_end ?b ?l ?l = ?l + length t" .
  show ?thesis by (simp add: trim_def lo hi)
qed



text \<open>
  The grammar \<open>StringIntegerLiteral\<close> of the comment that opens
  \<open>from_str_strict.rs\<close>, on trimmed text, with the value of each literal.
\<close>

definition prefix_radix :: "u8 \<Rightarrow> nat option" where
  "prefix_radix x =
     (if x = 0x78 \<or> x = 0x58 then Some 16
      else if x = 0x6F \<or> x = 0x4F then Some 8
      else if x = 0x62 \<or> x = 0x42 then Some 2
      else None)"

definition radix_digit :: "nat \<Rightarrow> u8 \<Rightarrow> bool" where
  "radix_digit r c \<longleftrightarrow> (\<exists>d. hex_val c = Some d \<and> unat d < r)"

definition dec_value :: "u8 list \<Rightarrow> nat" where
  "dec_value ds = horner 10 (map dec_digit ds) 0"

definition radix_value :: "nat \<Rightarrow> u8 list \<Rightarrow> nat" where
  "radix_value r ds = horner r (map (\<lambda>c. unat (hex_val_or_0 c)) ds) 0"

inductive literal :: "u8 list \<Rightarrow> int \<Rightarrow> bool" where
  lit_empty: "literal [] 0"
| lit_dec: "ds \<noteq> [] \<Longrightarrow> list_all is_ascii_digit ds \<Longrightarrow> literal ds (int (dec_value ds))"
| lit_plus: "ds \<noteq> [] \<Longrightarrow> list_all is_ascii_digit ds \<Longrightarrow> literal (0x2B # ds) (int (dec_value ds))"
| lit_minus: "ds \<noteq> [] \<Longrightarrow> list_all is_ascii_digit ds \<Longrightarrow> literal (0x2D # ds) (- int (dec_value ds))"
| lit_radix: "prefix_radix x = Some r \<Longrightarrow> ds \<noteq> [] \<Longrightarrow> list_all (radix_digit r) ds \<Longrightarrow>
    literal (0x30 # x # ds) (int (radix_value r ds))"

lemma parse_decimal_value:
  assumes "ds \<noteq> []" "list_all is_ascii_digit ds" "length ds + 1 < LEN_LIM"
  shows "parse_decimal negative ds =
    Some (Some (bi_of_int (if negative then - int (dec_value ds) else int (dec_value ds))))"
proof -
  have ds: "map unat (map (\<lambda>c. ucast (c - 0x30) :: u32) ds) = map dec_digit ds"
    using assms(2) by (simp add: unat_dec_digit list_all_iff)
  have fit: "dec_value ds < acc_lim"
    unfolding dec_value_def using assms
    by (intro horner_fits) (auto simp: dec_digit_less LB_def list_all_iff)
  then have "push_digits 10 (map (\<lambda>c. ucast (c - 0x30)) ds) (mag_of 0) = Some (mag_of (dec_value ds))"
    using push_digits_mag_of [of 10 "map (\<lambda>c. ucast (c - 0x30)) ds" 0, unfolded ds]
    by (simp add: dec_value_def)
  moreover have "read_len (bi_of_int (int (dec_value ds))) > 0 \<longleftrightarrow> dec_value ds \<noteq> 0"
    using acc_lim_length [OF fit] by (simp add: bi_of_int_def word_gt_0 read_len_0)
  moreover have "write_sign (bi_of_int (int n)) 1 = bi_of_int (- int n)" if "n \<noteq> 0" for n
    using that by (simp add: bi_of_int_def)
  ultimately show ?thesis
    using assms(1,2) fit by (simp add: parse_decimal_def normalize_acc Let_def)
qed

lemma radix_digit_hex: "radix_digit r c \<Longrightarrow> hex_val c = Some (hex_val_or_0 c) \<and> unat (hex_val_or_0 c) < r"
  by (auto simp: radix_digit_def hex_val_or_0_def)

lemma digit_below_radix: "digit_below radix c \<longleftrightarrow> radix_digit (unat radix) c"
  by (auto simp: digit_below_def radix_digit_def word_less_nat_alt split: option.splits)

lemma radix_prefix_cases:
  "prefix_radix x = Some r \<Longrightarrow> \<exists>w. radix_prefix (c # x # ds) = (w, ds) \<and> unat w = r \<and> (r = 16 \<or> r = 8 \<or> r = 2)"
  "prefix_radix x = None \<Longrightarrow> radix_prefix (c # x # ds) = (0, c # x # ds)"
  by (auto simp: prefix_radix_def radix_prefix_def Let_def split: if_splits)

lemma push_radix_value:
  assumes "list_all (radix_digit (unat w)) ds" "0 < unat w" "length ds + 1 < LEN_LIM"
  shows "push_digits w (map hex_val_or_0 ds) (mag_of 0) = Some (mag_of (radix_value (unat w) ds))"
    "radix_value (unat w) ds < acc_lim"
proof -
  have u: "map unat (map hex_val_or_0 ds) = map (\<lambda>c. unat (hex_val_or_0 c)) ds" by simp
  have "unat w \<le> LB" using unat_len_less [of w] by (simp add: LB_def LEN_LIM_def)
  then show fit: "radix_value (unat w) ds < acc_lim"
    unfolding radix_value_def using assms
    by (intro horner_fits) (auto simp: list_all_iff dest: radix_digit_hex)
  then show "push_digits w (map hex_val_or_0 ds) (mag_of 0) = Some (mag_of (radix_value (unat w) ds))"
    using push_digits_mag_of [of w "map hex_val_or_0 ds" 0, unfolded u] assms(2)
    by (simp add: radix_value_def)
qed

lemma digit_not_sign: "is_ascii_digit c \<Longrightarrow> c \<noteq> 0x2D \<and> c \<noteq> 0x2B \<and> prefix_radix c = None"
  by (auto simp: is_ascii_digit_unat prefix_radix_def)

lemma decimal_no_prefix:
  assumes "list_all is_ascii_digit ds"
  shows "(if 2 \<le> length ds \<and> ds ! 0 = 0x30 then radix_prefix ds else (0, ds)) = (0, ds)"
proof (cases "2 \<le> length ds")
  case True
  then obtain c x rest where ds: "ds = c # x # rest" by (cases ds; cases "tl ds") auto
  then show ?thesis using assms digit_not_sign [of x] radix_prefix_cases(2) [of x c rest] by auto
qed simp

text \<open>Every literal is read as its value.\<close>

lemma parse_literal:
  assumes "literal t v" "length t + 1 < LEN_LIM"
  shows "parse_trimmed t = Some (Some (bi_of_int v))"
  using assms
proof (induction rule: literal.induct)
  case lit_empty
  then show ?case by (simp add: parse_trimmed_def normalize_mag_of_0)
next
  case (lit_dec ds)
  then have "ds ! 0 \<noteq> 0x2D" "ds ! 0 \<noteq> 0x2B"
    using digit_not_sign [of "ds ! 0"] by (auto simp: list_all_length)
  then show ?case
    using lit_dec decimal_no_prefix [OF lit_dec(2)] parse_decimal_value [of ds False]
    by (simp add: parse_trimmed_def Let_def)
next
  case (lit_plus ds)
  then show ?case
    using decimal_no_prefix [OF lit_plus(2)] parse_decimal_value [of ds False]
    by (simp add: parse_trimmed_def Let_def)
next
  case (lit_minus ds)
  then show ?case
    using decimal_no_prefix [OF lit_minus(2)] parse_decimal_value [of ds True]
    by (simp add: parse_trimmed_def Let_def)
next
  case (lit_radix x r ds)
  obtain w where w: "radix_prefix (0x30 # x # ds) = (w, ds)" "unat w = r" "r = 16 \<or> r = 8 \<or> r = 2"
    using radix_prefix_cases(1) [OF lit_radix(1)] by blast
  then have "w \<noteq> 0" "0 < unat w" by auto
  moreover have "list_all (digit_below w) ds"
    using lit_radix(3) w(2) by (simp add: digit_below_radix list_all_iff)
  moreover note push_radix_value [of w ds]
  ultimately show ?case
    using lit_radix w by (simp add: parse_trimmed_def Let_def normalize_acc)
qed





section \<open>Round trips\<close>

lemma digit_char_dec:
  assumes "d < 10"
  shows "is_ascii_digit (digit_char (of_nat d))" "dec_digit (digit_char (of_nat d)) = d"
    "plain_byte (digit_char (of_nat d))"
proof -
  have "list_all (\<lambda>d. is_ascii_digit (digit_char (of_nat d)) \<and> dec_digit (digit_char (of_nat d)) = d \<and>
      plain_byte (digit_char (of_nat d))) [0..<10]"
    by code_simp
  then show "is_ascii_digit (digit_char (of_nat d))" "dec_digit (digit_char (of_nat d)) = d"
    "plain_byte (digit_char (of_nat d))"
    using assms by (simp_all add: list_all_iff)
qed

lemma digit_char_hex:
  assumes "d < 16"
  shows "hex_val (digit_char (of_nat d)) = Some (of_nat d)" "plain_byte (digit_char (of_nat d))"
proof -
  have "list_all (\<lambda>d. hex_val (digit_char (of_nat d)) = Some (of_nat d) \<and>
      plain_byte (digit_char (of_nat d))) [0..<16]"
    by code_simp
  then show "hex_val (digit_char (of_nat d)) = Some (of_nat d)" "plain_byte (digit_char (of_nat d))"
    using assms by (simp_all add: list_all_iff)
qed

lemma digit_bytes_dec:
  assumes "\<forall>d \<in> set ds. d < 10"
  shows "list_all is_ascii_digit (digit_bytes ds)" "map dec_digit (digit_bytes ds) = ds"
    "\<forall>c \<in> set (digit_bytes ds). plain_byte c"
  using assms by (induction ds) (simp_all add: digit_bytes_def digit_char_dec)

lemma digit_bytes_hex:
  assumes "\<forall>d \<in> set ds. d < r" "r \<le> 16"
  shows "list_all (radix_digit r) (digit_bytes ds)" "map (\<lambda>c. unat (hex_val_or_0 c)) (digit_bytes ds) = ds"
    "\<forall>c \<in> set (digit_bytes ds). plain_byte c"
proof -
  have u: "unat (of_nat d :: u32) = d" if "d < 16" for d using that by (simp add: unat_of_nat)
  have lt: "\<forall>d \<in> set ds. d < 16 \<and> d < r" using assms by auto
  show "list_all (radix_digit r) (digit_bytes ds)" "map (\<lambda>c. unat (hex_val_or_0 c)) (digit_bytes ds) = ds"
    "\<forall>c \<in> set (digit_bytes ds). plain_byte c"
    using lt by (induction ds) (simp_all add: digit_bytes_def radix_digit_def hex_val_or_0_def digit_char_hex u)
qed

lemma numeral_digits_nonempty: "numeral_digits r n \<noteq> []"
  by (subst numeral_digits.simps) simp


lemma length_print_int:
  assumes "2 \<le> r"
  shows "length (print_int r (bi_val a)) \<le> 64 * bi_len a + 2"
proof -
  have "mag a < 2 ^ (64 * bi_len a + 1)"
    using less_le_trans [OF mag_less [of a], of "2 ^ (64 * bi_len a + 1)"] by (simp add: LB_power)
  then have "length (numeral_digits r (mag a)) \<le> 64 * bi_len a + 1"
    by (intro length_numeral_digits [OF assms]) simp_all
  then show ?thesis by (simp add: print_int_def)
qed


lemma from_str_literal:
  assumes "literal t v" "length t + 1 < LEN_LIM" "\<forall>c \<in> set t. plain_byte c" "t \<noteq> []"
    and "\<forall>w \<in> set ws. w \<in> set ws_seqs" "\<forall>w \<in> set vs. w \<in> set ws_seqs"
  shows "bigint_from_str (Some (concat ws @ t @ concat vs)) = ret (bi_of_int v)"
  using parse_literal [OF assms(1,2)] trim_surrounded [OF assms(5,6,3,4)]
  by (simp add: bigint_from_str_def bigint_from_str_strict_def)


lemma prefixed_print_literal:
  assumes "prefix_radix x = Some r" "0 \<le> i"
  shows "literal (0x30 # x # print_int r i) i" "\<forall>c \<in> set (0x30 # x # print_int r i). plain_byte c"
proof -
  let ?ds = "numeral_digits r (nat \<bar>i\<bar>)"
  have r: "2 \<le> r" "r \<le> 16" "plain_byte x"
    using assms(1) by (auto simp: prefix_radix_def plain_byte_def split: if_splits)
  have less: "\<forall>d \<in> set ?ds. d < r" using numeral_digits_set [OF r(1)] by blast
  note b = digit_bytes_hex [OF less r(2)]
  have ne: "digit_bytes ?ds \<noteq> []" using numeral_digits_nonempty by (simp add: digit_bytes_def)
  have "radix_value r (digit_bytes ?ds) = nat \<bar>i\<bar>" by (simp add: radix_value_def b(2) horner_numeral_digits r)
  then show "literal (0x30 # x # print_int r i) i"
    using lit_radix [OF assms(1) ne b(1)] assms(2) by (simp add: print_int_def)
  show "\<forall>c \<in> set (0x30 # x # print_int r i). plain_byte c"
    using b(3) r(3) assms(2) by (auto simp: print_int_def plain_byte_def)
qed

lemma print_int_sign:
  assumes "2 \<le> r" "r \<le> 36"
  shows "print_int r i = (if i < 0 then [0x2D] else []) @ print_int r \<bar>i\<bar>"
    "0 \<le> i \<Longrightarrow> print_int r i ! 0 \<noteq> 0x2D"
proof -
  show "print_int r i = (if i < 0 then [0x2D] else []) @ print_int r \<bar>i\<bar>" by (simp add: print_int_def)
  assume i: "0 \<le> i"
  have ne: "numeral_digits r (nat \<bar>i\<bar>) \<noteq> []" using numeral_digits_nonempty by simp
  moreover have "digit_char (word_of_nat d) \<noteq> 0x2D" if "d < 36" for d
    using that by (auto simp: digit_char_def word_unat_eq_iff unat_word_ariths unat_of_nat)
  moreover have "hd (numeral_digits r (nat \<bar>i\<bar>)) < 36"
    using numeral_digits_set [OF assms(1) hd_in_set [OF ne]] assms(2) by (rule less_le_trans)
  ultimately show "print_int r i ! 0 \<noteq> 0x2D"
    using i by (cases "numeral_digits r (nat \<bar>i\<bar>)") (auto simp: print_int_def digit_bytes_def)
qed

lemma radix_text_from_str:
  assumes "canonical a" "64 * bi_len a + 5 < LEN_LIM" "prefix_radix x = Some (unat radix)"
  shows "\<exists>s. bigint_to_string_radix a radix = ret s \<and> (bi_val a < 0 \<longleftrightarrow> s ! 0 = 0x2D) \<and>
    bigint_from_str (Some (0x30 # x # (if bi_val a < 0 then drop 1 s else s))) = ret (bi_of_int \<bar>bi_val a\<bar>)"
proof -
  have r: "unat radix = 16 \<or> unat radix = 8 \<or> unat radix = 2"
    using assms(3) by (auto simp: prefix_radix_def split: if_splits)
  moreover have "radix = word_of_nat (unat radix)" by simp
  ultimately have "radix = 16 \<or> radix = 8 \<or> radix = 2" by (metis of_nat_numeral)
  then have w: "unat (ucast radix :: u32) = unat radix" "2 \<le> sint radix" "sint radix \<le> 36" "2 \<le> unat radix" "unat radix \<le> 36"
    by auto
  have s: "bigint_to_string_radix a radix = ret (print_int (unat radix) (bi_val a))"
    using to_string_radix_print [of a "ucast radix"] assms(1) w by (auto simp: bigint_to_string_radix_def lift_ret_def)
  note sg = print_int_sign [OF w(4,5), of "bi_val a"]
  have len: "length (0x30 # x # print_int (unat radix) \<bar>bi_val a\<bar>) + 1 < LEN_LIM"
    using length_print_int [OF w(4), of a] assms(2) sg(1) by simp
  define Q where "Q = print_int (unat radix) \<bar>bi_val a\<bar>"
  have "bigint_from_str (Some (0x30 # x # Q)) = ret (bi_of_int \<bar>bi_val a\<bar>)"
    unfolding Q_def using from_str_literal [OF prefixed_print_literal(1) [OF assms(3)] len
        prefixed_print_literal(2) [OF assms(3)], of "[]" "[]"] by simp
  moreover have "print_int (unat radix) (bi_val a) = (if bi_val a < 0 then [0x2D] else []) @ Q"
    unfolding Q_def by (rule sg(1))
  moreover have "0 \<le> bi_val a \<Longrightarrow> Q ! 0 \<noteq> 0x2D" using sg(2) by (simp add: Q_def)
  ultimately show ?thesis using s by (cases "bi_val a < 0") simp_all
qed

section \<open>Grouped output\<close>

lemma group_digits_filter:
  "0x2C \<notin> set ds \<Longrightarrow> filter (\<lambda>c. c \<noteq> 0x2C) (group_digits n ds i) = ds"
  by (induction ds arbitrary: i) auto

text \<open>
  A comma stands in front of a digit exactly when the number of digits from there
  on is a multiple of three, and never in front of the first one.
\<close>

fun group_ref :: "u8 list \<Rightarrow> bool \<Rightarrow> u8 list" where
  "group_ref [] first = []"
| "group_ref (d # ds) first =
     (if \<not> first \<and> 3 dvd length (d # ds) then 0x2C # d # group_ref ds False else d # group_ref ds False)"

lemma group_digits_ref:
  "n = i + length ds \<Longrightarrow> group_digits n ds i = group_ref ds (i = 0)"
proof (induction ds arbitrary: i)
  case (Cons d ds)
  have "group_digits n ds (i + 1) = group_ref ds False" using Cons.IH [of "i + 1"] Cons.prems by simp
  moreover have "(n - i) mod 3 = 0 \<longleftrightarrow> 3 dvd length (d # ds)" using Cons.prems by (simp add: mod_eq_0_iff_dvd)
  ultimately show ?case by auto
qed simp

definition print_grouped :: "int \<Rightarrow> u8 list" where
  "print_grouped i = (if i < 0 then [0x2D] else []) @ group_ref (digit_bytes (numeral_digits 10 (nat \<bar>i\<bar>))) True"

lemma grouped_output:
  "do { d0 \<leftarrow> rd (print_int 10 i) 0;
        let sgn = (if d0 = 0x2D then 1 else 0);
        Some (take sgn (print_int 10 i) @
          group_digits (length (print_int 10 i) - sgn) (drop sgn (print_int 10 i)) 0) } =
   Some (print_grouped i)"
proof -
  let ?ds = "digit_bytes (numeral_digits 10 (nat \<bar>i\<bar>))"
  have less: "\<forall>d \<in> set (numeral_digits 10 (nat \<bar>i\<bar>)). d < 10" using numeral_digits_set [of 10] by simp
  obtain c cs where cs: "?ds = c # cs"
    using numeral_digits_nonempty [of 10 "nat \<bar>i\<bar>"]
    by (cases "numeral_digits 10 (nat \<bar>i\<bar>)") (auto simp: digit_bytes_def)
  then have "is_ascii_digit c" using digit_bytes_dec(1) [OF less] by simp
  then have c: "c \<noteq> 0x2D" using digit_not_sign by blast
  have "group_digits (length (c # cs)) (c # cs) 0 = group_ref (c # cs) True"
    by (rule group_digits_ref [where i = 0, simplified]) simp
  with c show ?thesis
    by (simp add: print_int_def print_grouped_def cs rd_def del: group_digits.simps group_ref.simps)
qed

lemma to_locale_string_print:
  assumes "canonical a"
  shows "bigint_to_locale_string a = Some (print_grouped (bi_val a))"
proof (cases "words a = []")
  case True
  then have "bi_val a = 0" by (simp add: bi_val_def mag_def)
  with True show ?thesis
    using assms by (simp add: bigint_to_locale_string_def read_len_0 print_grouped_def numeral_digits_less
        digit_bytes_def digit_char_def)
next
  case False
  obtain buf pos where b: "radix_bytes a (read_len a) 10 = Some (buf, pos)" "drop pos buf = print_int 10 (bi_val a)"
    using radix_bytes_print [OF assms False, of 10] by (auto elim: wpE)
  have "read_len a \<noteq> 0" using False assms by (simp add: read_len_0)
  then show ?thesis
    using grouped_output [of "bi_val a"]
    by (simp only: bigint_to_locale_string_def Let_def b Option.bind.bind_lunit prod.case if_False)
qed

section \<open>Properties\<close>



text \<open>C24: \<open>toString(radix)\<close> for radix 16, 8 and 2 is undone by the prefixed forms of the parser, in
  either case of the prefix letter: the text, without the sign of a negative value, behind \<open>0x\<close>,
  \<open>0o\<close> or \<open>0b\<close> is read back as the magnitude. (Prefixed forms have no sign.)\<close>

theorem radix_roundtrip:
  assumes "canonical a" "64 * bi_len a + 5 < LEN_LIM" "prefix_radix x = Some (unat radix)"
  shows "\<exists>s. bigint_to_string_radix a radix = ret s \<and> (bi_val a < 0 \<longleftrightarrow> s ! 0 = 0x2D) \<and>
    bigint_from_str (Some (0x30 # x # (if bi_val a < 0 then drop 1 s else s))) = ret (bi_of_int \<bar>bi_val a\<bar>)"
  using assms by (rule radix_text_from_str)

lemma radix_roundtrip_witness:
  "\<exists>s. bigint_to_string_radix (bi_of_int (- (2 ^ 100))) 16 = ret s \<and>
    bigint_from_str (Some (0x30 # 0x58 # drop 1 s)) = ret (bi_of_int (2 ^ 100))"
  using radix_roundtrip [of "bi_of_int (- (2 ^ 100))" "0x58" 16] small_block [of "- (2 ^ 100)"]
  by (auto simp: LEN_LIM_def prefix_radix_def)

text \<open>C23: \<open>toString(radix)\<close> emits exactly the digits of the magnitude in the radix, most significant
  first, with one sign byte, for every radix from 2 to 36: the chunked division, the tail buffer of
  \<open>(chunk_digits + 64) * len + 2\<close> bytes and the leading-zero rule lose and add nothing, and the loops
  return. Any other radix is a RangeError.\<close>

theorem to_string_correct:
  assumes "canonical a" "2 \<le> sint radix" "sint radix \<le> 36" "sint bad < 2 \<or> 36 < sint bad"
  shows "bigint_to_string_radix a radix = ret (print_int (unat radix) (bi_val a)) \<and>
    bigint_to_string_radix a bad = throw (RangeError radix_msg)"
proof -
  have s: "sint radix = int (unat radix)" using sint_nonneg_unat [of radix] assms(2) by simp
  have "int 2 \<le> int (unat radix)" "int (unat radix) \<le> int 36" using assms(2,3) unfolding s by simp_all
  then have r: "2 \<le> unat radix" "unat radix \<le> 36" by (simp_all only: of_nat_le_iff)
  then have u: "unat (ucast radix :: u32) = unat radix"
    by (simp add: unsigned_ucast_eq take_bit_nat_eq_self_iff)
  show ?thesis
    using to_string_radix_print [of a "ucast radix"] assms r u
    by (auto simp: bigint_to_string_radix_def lift_ret_def)
qed

lemma to_string_correct_witness:
  "bigint_to_string_radix (bi_of_int (- 255)) 16 = ret [0x2D, 0x66, 0x66] \<and>
   bigint_to_string_radix (bi_of_int (- 255)) 1 = throw (RangeError radix_msg)"
proof -
  have "print_int 16 (- 255) = [0x2D, 0x66, 0x66]"
    by code_simp
  then show ?thesis
    using to_string_correct [of "bi_of_int (- 255)" 16 1] small_block [of "- 255"] by simp
qed






text \<open>The literal path \<open>from_decimal\<close> reads the digits among the first \<open>n\<close> bytes, skipping
  every other byte, as one decimal number.\<close>

theorem from_decimal_correct:
  assumes "n \<le> length bytes" "n + 1 < LEN_LIM"
  shows "bigint_from_decimal (Some bytes) n = Some (bi_of_int (int (dec_value (filter is_ascii_digit (take n bytes)))))"
  using bigint_from_decimal_horner [OF assms] by (simp add: dec_value_def)

lemma from_decimal_correct_witness:
  "bigint_from_decimal (Some [0x31, 0x5F, 0x32, 0x6E]) 3 = Some (bi_of_int 12)"
  using from_decimal_correct [of 3 "[0x31, 0x5F, 0x32, 0x6E]"]
  by (simp add: LEN_LIM_def is_ascii_digit_def dec_value_def dec_digit_def)

text \<open>C27: \<open>radix_chunk\<close> returns the largest power of the radix below \<open>2 ^ 64\<close> for every radix of at
  least 2, and never returns for a radix of 0 or 1: the reason for the range check of
  \<open>toString(radix)\<close>.\<close>

theorem radix_chunk_terminates:
  "if 2 \<le> unat radix
   then \<exists>c k. radix_chunk radix = Some (c, k) \<and> unat c = unat radix ^ k \<and> LB \<le> unat radix ^ Suc k
   else radix_chunk radix = None"
  using radix_chunk_returns [of radix] radix_chunk_loop_spins [of radix 1 0]
  by (cases "radix_chunk radix") (auto simp: radix_chunk_def)

text \<open>\<open>toLocaleString\<close> is the decimal text with a comma in front of a digit exactly when a
  multiple of three digits follows from there on, and no comma at the front; the sign is kept.\<close>

theorem locale_string_correct:
  assumes "canonical a"
  shows "bigint_to_locale_string a = Some (print_grouped (bi_val a))"
  using assms by (rule to_locale_string_print)

lemma locale_string_correct_witness:
  "bigint_to_locale_string (bi_of_int (- 12345)) = Some [0x2D, 0x31, 0x32, 0x2C, 0x33, 0x34, 0x35]"
proof -
  have "numeral_digits 10 12345 = [1, 2, 3, 4, 5]" by (simp add: numeral_digits_step numeral_digits_less)
  then have digits: "digit_bytes (numeral_digits 10 12345) = [0x31, 0x32, 0x33, 0x34, 0x35]"
    by (simp add: digit_bytes_def digit_char_def)
  have "group_ref [0x31, 0x32, 0x33, 0x34, 0x35] True = [0x31, 0x32, 0x2C, 0x33, 0x34, 0x35]"
    by (simp add: dvd_eq_mod_eq_0)
  with digits have "print_grouped (- 12345) = [0x2D, 0x31, 0x32, 0x2C, 0x33, 0x34, 0x35]"
    by (simp add: print_grouped_def)
  then show ?thesis
    using locale_string_correct [of "bi_of_int (- 12345)"] small_block [of "- 12345"] by simp
qed

end
