(* ===== verification/Regex_Utf8.thy ===== *)
theory Regex_Utf8
  imports TJ_Prelude
begin

text \<open>
  The text layer of \<open>torajs-regex\<close>: the flag bits of \<open>parser/mod.rs\<close> and
  \<open>flags.rs\<close>, the UTF-8 helpers of \<open>utf8.rs\<close>, the line terminators of
  \<open>vm/line_terminator.rs\<close> and the byte comparison of \<open>vm/mod.rs\<close>. A haystack is its
  list of bytes. A code point is an \<open>int\<close> where the source passes an \<open>i32\<close>.
\<close>

unbundle bit_operations_syntax

section \<open>Flags\<close>

definition RE_FLAG_I :: u8 where "RE_FLAG_I = 0x01"
definition RE_FLAG_G :: u8 where "RE_FLAG_G = 0x02"
definition RE_FLAG_M :: u8 where "RE_FLAG_M = 0x04"
definition RE_FLAG_S :: u8 where "RE_FLAG_S = 0x08"
definition RE_FLAG_U :: u8 where "RE_FLAG_U = 0x10"
definition RE_FLAG_Y :: u8 where "RE_FLAG_Y = 0x20"
definition RE_FLAG_V :: u8 where "RE_FLAG_V = 0x40"
definition RE_FLAG_D :: u8 where "RE_FLAG_D = 0x80"

lemmas flag_defs = RE_FLAG_I_def RE_FLAG_G_def RE_FLAG_M_def RE_FLAG_S_def
  RE_FLAG_U_def RE_FLAG_Y_def RE_FLAG_V_def RE_FLAG_D_def

definition unicode_mode :: "u8 \<Rightarrow> bool" where
  "unicode_mode flags \<longleftrightarrow> flags AND (RE_FLAG_U OR RE_FLAG_V) \<noteq> 0"

definition flag_bit :: "u8 \<Rightarrow> u8 option" where
  "flag_bit b =
     (if b = 0x69 then Some RE_FLAG_I
      else if b = 0x67 then Some RE_FLAG_G
      else if b = 0x6D then Some RE_FLAG_M
      else if b = 0x73 then Some RE_FLAG_S
      else if b = 0x75 then Some RE_FLAG_U
      else if b = 0x79 then Some RE_FLAG_Y
      else if b = 0x76 then Some RE_FLAG_V
      else if b = 0x64 then Some RE_FLAG_D
      else None)"

primrec parse_flags_loop :: "u8 list \<Rightarrow> u8 \<Rightarrow> u8 option" where
  "parse_flags_loop [] out = Some out"
| "parse_flags_loop (b # s) out =
     (case flag_bit b of
        None \<Rightarrow> None
      | Some f \<Rightarrow> if out AND f \<noteq> 0 then None else parse_flags_loop s (out OR f))"

definition parse_flags :: "u8 list \<Rightarrow> u8 option" where
  "parse_flags s = parse_flags_loop s 0"

section \<open>Bytes\<close>

definition is_word_byte :: "u8 \<Rightarrow> bool" where
  "is_word_byte c \<longleftrightarrow>
     0x30 \<le> c \<and> c \<le> 0x39 \<or> 0x41 \<le> c \<and> c \<le> 0x5A \<or> 0x61 \<le> c \<and> c \<le> 0x7A \<or> c = 0x5F"

definition is_ascii_uppercase :: "u8 \<Rightarrow> bool" where
  "is_ascii_uppercase c \<longleftrightarrow> 0x41 \<le> c \<and> c \<le> 0x5A"

definition is_ascii_lowercase :: "u8 \<Rightarrow> bool" where
  "is_ascii_lowercase c \<longleftrightarrow> 0x61 \<le> c \<and> c \<le> 0x7A"

definition char_eq :: "u8 \<Rightarrow> u8 \<Rightarrow> u8 \<Rightarrow> bool" where
  "char_eq a b flags =
     (if a = b then True
      else if flags AND RE_FLAG_I \<noteq> 0 then
        (is_ascii_uppercase a \<and> b = a + 32) \<or> (is_ascii_lowercase a \<and> b = a - 32)
      else False)"

section \<open>Line terminators\<close>

text \<open>\<open>s.get(pos)\<close>\<close>

definition byte_at :: "u8 list \<Rightarrow> nat \<Rightarrow> u8 option" where
  "byte_at s pos = (if pos < length s then Some (s ! pos) else None)"

definition terminator_at :: "u8 list \<Rightarrow> nat \<Rightarrow> bool" where
  "terminator_at s pos =
     (case byte_at s pos of
        None \<Rightarrow> False
      | Some b \<Rightarrow>
          if b = 0x0A \<or> b = 0x0D then True
          else if b = 0xE2 then
            byte_at s (pos + 1) = Some 0x80 \<and>
            (byte_at s (pos + 2) = Some 0xA8 \<or> byte_at s (pos + 2) = Some 0xA9)
          else False)"

text \<open>\<open>pos\<close> is at most the length of the haystack, or the read of \<open>s[pos - 1]\<close> panics.\<close>

definition terminator_before :: "u8 list \<Rightarrow> nat \<Rightarrow> bool" where
  "terminator_before s pos =
     (if pos = 0 then False
      else
        (let b = s ! (pos - 1) in
         if b = 0x0A \<or> b = 0x0D then True
         else if b = 0xA8 \<or> b = 0xA9 then
           3 \<le> pos \<and> s ! (pos - 3) = 0xE2 \<and> s ! (pos - 2) = 0x80
         else False))"

section \<open>UTF-8\<close>

definition utf8_len_for :: "u8 \<Rightarrow> nat" where
  "utf8_len_for b =
     (if b AND 0x80 = 0x00 then 1
      else if b AND 0xE0 = 0xC0 then 2
      else if b AND 0xF0 = 0xE0 then 3
      else if b AND 0xF8 = 0xF0 then 4
      else 1)"

text \<open>The bytes written to the front of the buffer; the returned length is their number.\<close>

definition utf8_encode_cp :: "int \<Rightarrow> u8 list" where
  "utf8_encode_cp cp =
     (if \<not> (0 \<le> cp \<and> cp \<le> 0x10FFFF) then []
      else
        (let cp = (word_of_int cp :: u32) in
         if cp < 0x80 then [ucast cp]
         else if cp < 0x800 then
           [0xC0 OR ucast (drop_bit 6 cp), 0x80 OR ucast (cp AND 0x3F)]
         else if cp < 0x10000 then
           [0xE0 OR ucast (drop_bit 12 cp), 0x80 OR ucast (drop_bit 6 cp AND 0x3F),
            0x80 OR ucast (cp AND 0x3F)]
         else
           [0xF0 OR ucast (drop_bit 18 cp), 0x80 OR ucast (drop_bit 12 cp AND 0x3F),
            0x80 OR ucast (drop_bit 6 cp AND 0x3F), 0x80 OR ucast (cp AND 0x3F)]))"

definition utf8_decode_cp :: "u8 list \<Rightarrow> (int \<times> nat) option" where
  "utf8_decode_cp s = do {
     b \<leftarrow> rd s 0;
     if b AND 0x80 = 0 then Some (uint b, 1)
     else if b AND 0xE0 = 0xC0 then do {
       b1 \<leftarrow> rd s 1;
       Some (uint (push_bit 6 (ucast (b AND 0x1F)) OR (ucast (b1 AND 0x3F)) :: u32), 2)
     } else if b AND 0xF0 = 0xE0 then do {
       b1 \<leftarrow> rd s 1;
       b2 \<leftarrow> rd s 2;
       Some (uint (push_bit 12 (ucast (b AND 0x0F)) OR push_bit 6 (ucast (b1 AND 0x3F)) OR
                   ucast (b2 AND 0x3F) :: u32), 3)
     } else if b AND 0xF8 = 0xF0 then do {
       b1 \<leftarrow> rd s 1;
       b2 \<leftarrow> rd s 2;
       b3 \<leftarrow> rd s 3;
       Some (uint (push_bit 18 (ucast (b AND 0x07)) OR push_bit 12 (ucast (b1 AND 0x3F)) OR
                   push_bit 6 (ucast (b2 AND 0x3F)) OR ucast (b3 AND 0x3F) :: u32), 4)
     } else Some (uint b, 1)
   }"

fun back_over :: "u8 list \<Rightarrow> nat \<Rightarrow> nat \<Rightarrow> nat" where
  "back_over s start 0 = start"
| "back_over s start (Suc left) =
     (if start > 0 \<and> s ! start AND 0xC0 = 0x80 then back_over s (start - 1) left else start)"

text \<open>\<open>steps < 3\<close> bounds the scan: three steps are left at the start.\<close>

definition utf8_decode_cp_before :: "u8 list \<Rightarrow> nat \<Rightarrow> (int \<times> nat) option" where
  "utf8_decode_cp_before s pos = (if pos = 0 then None else do {
     last \<leftarrow> rd s (pos - 1);
     if last AND 0x80 = 0 then Some (uint last, 1)
     else do {
       let start = back_over s (pos - 1) 3;
       lead \<leftarrow> rd s start;
       if lead AND 0xC0 = 0x80 \<or> start + utf8_len_for lead \<noteq> pos then Some (uint last, 1)
       else utf8_decode_cp (drop start s)
     }
   })"

section \<open>Surrogate pairs\<close>

definition surrogate_at :: "u8 list \<Rightarrow> nat \<Rightarrow> nat \<Rightarrow> nat \<Rightarrow> nat option" where
  "surrogate_at s i lo hi =
     (if i + 3 > length s \<or> s ! i \<noteq> 0xED then None
      else
        (let cp = unat (push_bit 12 (ucast (s ! i AND 0x0F)) OR
                        push_bit 6 (ucast (s ! (i + 1) AND 0x3F)) OR
                        ucast (s ! (i + 2) AND 0x3F) :: u32)
         in if lo \<le> cp \<and> cp \<le> hi then Some cp else None))"

function merge_loop :: "u8 list \<Rightarrow> nat \<Rightarrow> u8 list" where
  "merge_loop s i =
     (if i < length s then
        (case surrogate_at s i 0xD800 0xDBFF of
           Some hi \<Rightarrow>
             (case surrogate_at s (i + 3) 0xDC00 0xDFFF of
                Some lo \<Rightarrow>
                  utf8_encode_cp (0x10000 + int ((hi - 0xD800) * 2 ^ 10) + int (lo - 0xDC00)) @
                  merge_loop s (i + 6)
              | None \<Rightarrow> s ! i # merge_loop s (i + 1))
         | None \<Rightarrow> s ! i # merge_loop s (i + 1))
      else [])"
  by pat_completeness auto
termination
  by (relation "measure (\<lambda>(s, i). length s - i)") auto

declare merge_loop.simps [simp del]

definition merge_surrogate_pairs :: "u8 list \<Rightarrow> u8 list" where
  "merge_surrogate_pairs s = (if 0xED \<notin> set s then s else merge_loop s 0)"

text \<open>
  A four-byte form is decoded, moved by \<open>0x10000\<close> and spelled as its two surrogates.
  The subtraction wraps as \<open>u32\<close> does.
\<close>

definition surrogate_units :: "int \<Rightarrow> u8 list" where
  "surrogate_units cp =
     (let off = (word_of_int cp :: u32) - 0x10000 in
      utf8_encode_cp (sint (0xD800 OR drop_bit 10 off)) @
      utf8_encode_cp (sint (0xDC00 OR (off AND 0x3FF))))"

lemma utf8_decode_len: "utf8_decode_cp s = Some (cp, n) \<Longrightarrow> 1 \<le> n \<and> n \<le> 4"
  by (auto simp: utf8_decode_cp_def split: if_splits bind_splits)

function split_loop :: "u8 list \<Rightarrow> nat \<Rightarrow> u8 list option" where
  "split_loop s i =
     (if i < length s then
        (if s ! i \<ge> 0xF0 \<and> i + 4 \<le> length s then
           (case utf8_decode_cp (drop i s) of
              None \<Rightarrow> None
            | Some (cp, n) \<Rightarrow> map_option (append (surrogate_units cp)) (split_loop s (i + n)))
         else map_option (Cons (s ! i)) (split_loop s (i + 1)))
      else Some [])"
  by pat_completeness auto
termination
  by (relation "measure (\<lambda>(s, i). length s - i)") (auto dest!: utf8_decode_len)

declare split_loop.simps [simp del]

definition split_surrogate_pairs :: "u8 list \<Rightarrow> u8 list option" where
  "split_surrogate_pairs s = (if \<not> list_ex (\<lambda>b. b \<ge> 0xF0) s then Some s else split_loop s 0)"

section \<open>Bytes as numbers\<close>

lemma unat_and_mask: "unat ((b :: 'a :: len word) AND mask k) = unat b mod 2 ^ k"
  unfolding take_bit_eq_mask [symmetric] unsigned_take_bit_eq by (rule take_bit_eq_mod)

lemma unat_or_disjoint:
  "(a :: 'a :: len word) AND b = 0 \<Longrightarrow> unat (a OR b) = unat a + unat b"
  by (metis disjunctive_add_eq_or unsigned_0 unsigned_and_eq unsigned_or_eq)

lemma unat_and_high: "unat ((b :: 'a :: len word) AND NOT (mask k)) = unat b div 2 ^ k * 2 ^ k"
proof -
  have "unat b = unat ((b AND NOT (mask k)) OR (b AND mask k))"
    by (rule arg_cong [of _ _ unat]) (auto simp: bit_eq_iff bit_simps)
  also have "\<dots> = unat (b AND NOT (mask k)) + unat (b AND mask k)"
    by (rule unat_or_disjoint) (auto simp: bit_eq_iff bit_simps)
  finally have "unat (b AND NOT (mask k)) = unat b - unat b mod 2 ^ k" by (simp add: unat_and_mask)
  then show ?thesis by (simp add: minus_mod_eq_div_mult)
qed

lemma and_high_eq:
  "(b :: 'a :: len word) AND NOT (mask k) = c \<longleftrightarrow> unat b div 2 ^ k * 2 ^ k = unat c"
  by (metis unat_and_high word_unat_eq_iff)

lemma unat_or_low:
  assumes "unat x < 2 ^ k"
  shows "unat ((c :: 'a :: len word) AND NOT (mask k) OR x) = unat c div 2 ^ k * 2 ^ k + unat x"
proof -
  have "x AND mask k = x" using assms by (simp add: word_unat_eq_iff unat_and_mask)
  then have x: "x = x AND mask k" by simp
  have "unat (c AND NOT (mask k) OR x) = unat (c AND NOT (mask k)) + unat x"
    by (rule unat_or_disjoint, subst x) (auto simp: bit_eq_iff bit_simps)
  then show ?thesis by (simp add: unat_and_high)
qed

lemma byte_masks:
  "(0x80 :: u8) = NOT (mask 7)" "(0xC0 :: u8) = NOT (mask 6)" "(0xE0 :: u8) = NOT (mask 5)"
  "(0xF0 :: u8) = NOT (mask 4)" "(0xF8 :: u8) = NOT (mask 3)"
  "(0x3F :: u8) = mask 6" "(0x1F :: u8) = mask 5" "(0x0F :: u8) = mask 4" "(0x07 :: u8) = mask 3"
  by (simp_all add: mask_eq_exp_minus_1)

lemma byte_and_80: "b AND 0x80 = 0 \<longleftrightarrow> unat (b :: u8) < 0x80"
  unfolding byte_masks(1) and_high_eq by (simp add: div_eq_0_iff)

lemma byte_lead:
  "b AND 0xE0 = 0xC0 \<longleftrightarrow> unat (b :: u8) div 0x20 = 6"
  "b AND 0xF0 = 0xE0 \<longleftrightarrow> unat b div 0x10 = 14"
  "b AND 0xF8 = 0xF0 \<longleftrightarrow> unat b div 8 = 30"
  "b AND 0xC0 = 0x80 \<longleftrightarrow> unat b div 0x40 = 2"
  using and_high_eq [of b 5 "0xC0", folded byte_masks] and_high_eq [of b 4 "0xE0", folded byte_masks]
    and_high_eq [of b 3 "0xF0", folded byte_masks] and_high_eq [of b 6 "0x80", folded byte_masks]
  by simp_all

lemma byte_low:
  "unat (b AND 0x3F) = unat (b :: u8) mod 0x40" "unat (b AND 0x1F) = unat b mod 0x20"
  "unat (b AND 0x0F) = unat b mod 0x10" "unat (b AND 0x07) = unat b mod 8"
  using unat_and_mask [of b 6, folded byte_masks] unat_and_mask [of b 5, folded byte_masks]
    unat_and_mask [of b 4, folded byte_masks] unat_and_mask [of b 3, folded byte_masks]
  by simp_all

lemma byte_or:
  "unat x < 0x80 \<Longrightarrow> unat (0x80 OR (x :: u8)) = 0x80 + unat x"
  "unat x < 0x40 \<Longrightarrow> unat (0xC0 OR (x :: u8)) = 0xC0 + unat x"
  "unat x < 0x20 \<Longrightarrow> unat (0xE0 OR (x :: u8)) = 0xE0 + unat x"
  "unat x < 0x10 \<Longrightarrow> unat (0xF0 OR (x :: u8)) = 0xF0 + unat x"
  using unat_or_low [of x 7 "0x80", folded byte_masks] unat_or_low [of x 6 "0xC0", folded byte_masks]
    unat_or_low [of x 5 "0xE0", folded byte_masks] unat_or_low [of x 4 "0xF0", folded byte_masks]
  by simp_all

lemma unat_join:
  assumes "unat y < 2 ^ k" "unat x * 2 ^ k + unat y < 2 ^ LENGTH('a)"
  shows "unat (push_bit k x OR y :: 'a :: len word) = unat x * 2 ^ k + unat y"
proof -
  have "y AND mask k = y" using assms by (simp add: word_unat_eq_iff unat_and_mask)
  then have y: "y = y AND mask k" by simp
  have "unat (push_bit k x OR y) = unat (push_bit k x) + unat y"
    by (rule unat_or_disjoint, subst y) (auto simp: bit_eq_iff bit_simps)
  moreover have "unat (push_bit k x) = unat x * 2 ^ k"
    using assms(2) unfolding unsigned_push_bit_eq
    unfolding push_bit_eq_mult by (intro take_bit_nat_eq_self) linarith
  ultimately show ?thesis by simp
qed

definition code_bytes :: "nat \<Rightarrow> nat list" where
  "code_bytes n =
     (if n < 0x80 then [n]
      else if n < 0x800 then [0xC0 + n div 0x40, 0x80 + n mod 0x40]
      else if n < 0x10000 then [0xE0 + n div 0x1000, 0x80 + n div 0x40 mod 0x40, 0x80 + n mod 0x40]
      else [0xF0 + n div 0x40000, 0x80 + n div 0x1000 mod 0x40, 0x80 + n div 0x40 mod 0x40, 0x80 + n mod 0x40])"

lemma unat_u8_drop: "unat (c :: u32) div 2 ^ k < 256 \<Longrightarrow> unat (ucast (drop_bit k c) :: u8) = unat c div 2 ^ k"
proof -
  assume *: "unat c div 2 ^ k < 256"
  have "unat (drop_bit k c) = unat c div 2 ^ k" unfolding unat_drop_bit_eq by (rule drop_bit_eq_div)
  with * show ?thesis unfolding unsigned_ucast_eq by (simp add: take_bit_nat_eq_self)
qed

lemma unat_u8_mask: "unat (ucast ((c :: u32) AND 0x3F) :: u8) = unat c mod 0x40"
proof -
  have "(0x3F :: u32) = mask 6" by (simp add: mask_eq_exp_minus_1)
  then have "unat (c AND 0x3F) = unat c mod 0x40" using unat_and_mask [of c 6] by simp
  moreover have "unat c mod 0x40 < 2 ^ 8" by (rule less_trans [of _ "0x40"]) simp_all
  ultimately show ?thesis by (simp add: unsigned_ucast_eq take_bit_nat_eq_self)
qed

lemma encode_bytes:
  assumes "n \<le> 0x10FFFF"
  shows "map unat (utf8_encode_cp (int n)) = code_bytes n"
proof -
  let ?c = "word_of_nat n :: u32"
  have u: "unat ?c = n"
    using assms by (simp add: unsigned_of_nat take_bit_nat_eq_self)
  have cmp: "?c < 0x80 \<longleftrightarrow> n < 0x80" "?c < 0x800 \<longleftrightarrow> n < 0x800" "?c < 0x10000 \<longleftrightarrow> n < 0x10000"
    unfolding word_less_nat_alt u by simp_all
  have d: "n div 0x40 mod 0x40 = unat (ucast (drop_bit 6 ?c AND 0x3F) :: u8)"
     "n div 0x1000 mod 0x40 = unat (ucast (drop_bit 12 ?c AND 0x3F) :: u8)"
    unfolding unat_u8_mask unat_drop_bit_eq u by (simp_all add: drop_bit_eq_div)
  have h: "n < 0x800 \<Longrightarrow> unat (ucast (drop_bit 6 ?c) :: u8) = n div 0x40"
    "n < 0x10000 \<Longrightarrow> unat (ucast (drop_bit 12 ?c) :: u8) = n div 0x1000"
    "unat (ucast (drop_bit 18 ?c) :: u8) = n div 0x40000"
    "n < 0x80 \<Longrightarrow> unat (ucast ?c :: u8) = n"
    using unat_u8_drop [of ?c 6] unat_u8_drop [of ?c 12] unat_u8_drop [of ?c 18] unat_u8_drop [of ?c 0] assms
    unfolding u by (simp_all add: div_less_iff_less_mult)
  show ?thesis
    using assms unfolding utf8_encode_cp_def Let_def of_int_of_nat_eq cmp code_bytes_def
    by (simp add: byte_or h d div_less_iff_less_mult unat_u8_mask u)
qed

lemma unat_ucast_32 [simp]: "unat (ucast (b :: u8) :: u32) = unat b"
proof -
  have "unat b < 2 ^ LENGTH(8)" by (rule unsigned_less)
  then show ?thesis by (simp add: unsigned_ucast_eq take_bit_nat_eq_self)
qed

lemma unat_join_cont:
  assumes "unat (h :: u32) < 0x8000"
  shows "unat (push_bit 6 h OR ucast (b AND 0x3F)) = unat h * 0x40 + unat (b :: u8) mod 0x40"
proof -
  have "unat h * 0x40 + unat b mod 0x40 < 0x8000 * 0x40 + 0x40"
    using assms by (intro add_less_mono mult_strict_right_mono) simp_all
  then have "unat h * 2 ^ 6 + unat (ucast (b AND 0x3F) :: u32) < 2 ^ LENGTH(32)"
    by (simp add: byte_low)
  then have "unat (push_bit 6 h OR ucast (b AND 0x3F)) = unat h * 2 ^ 6 + unat (ucast (b AND 0x3F) :: u32)"
    by (intro unat_join) (simp_all add: byte_low)
  then show ?thesis by (simp add: byte_low)
qed

lemma cont_less: "m < k \<Longrightarrow> m * 0x40 + unat (b :: u8) mod 0x40 < k * 0x40"
proof -
  assume "m < k"
  then have "Suc m * 0x40 \<le> k * 0x40" by (intro mult_le_mono1) simp
  moreover have "unat b mod 0x40 < 0x40" by simp
  ultimately show ?thesis by simp
qed

lemma join2:
  "unat (push_bit 6 (ucast (b AND 0x1F)) OR ucast (b1 AND 0x3F) :: u32) =
   unat (b :: u8) mod 0x20 * 0x40 + unat (b1 :: u8) mod 0x40"
proof -
  have "unat b mod 0x20 < 0x20" by simp
  then have "unat b mod 0x20 < 0x8000" by linarith
  then show ?thesis by (subst unat_join_cont) (simp_all add: byte_low)
qed

lemma join3:
  "unat (push_bit 12 (ucast (b AND 0x0F)) OR push_bit 6 (ucast (b1 AND 0x3F)) OR ucast (b2 AND 0x3F) :: u32) =
   (unat (b :: u8) mod 0x10 * 0x40 + unat (b1 :: u8) mod 0x40) * 0x40 + unat (b2 :: u8) mod 0x40"
proof -
  let ?h = "push_bit 6 (ucast (b AND 0x0F)) OR ucast (b1 AND 0x3F) :: u32"
  have e: "push_bit 12 (ucast (b AND 0x0F)) OR push_bit 6 (ucast (b1 AND 0x3F)) OR ucast (b2 AND 0x3F) =
      push_bit 6 ?h OR (ucast (b2 AND 0x3F) :: u32)"
    by (simp add: push_bit_or or.assoc)
  have m: "unat b mod 0x10 < 0x10" by simp
  then have "unat b mod 0x10 < 0x8000" by linarith
  then have h: "unat ?h = unat b mod 0x10 * 0x40 + unat b1 mod 0x40"
    by (subst unat_join_cont) (simp_all add: byte_low)
  have "unat ?h < 0x8000" unfolding h using cont_less [OF m, of b1] by linarith
  then have "unat (push_bit 6 ?h OR (ucast (b2 AND 0x3F))) = unat ?h * 0x40 + unat b2 mod 0x40"
    by (rule unat_join_cont)
  then show ?thesis unfolding e h .
qed

lemma join4:
  "unat (push_bit 18 (ucast (b AND 0x07)) OR push_bit 12 (ucast (b1 AND 0x3F)) OR
         push_bit 6 (ucast (b2 AND 0x3F)) OR ucast (b3 AND 0x3F) :: u32) =
   ((unat (b :: u8) mod 8 * 0x40 + unat (b1 :: u8) mod 0x40) * 0x40 + unat (b2 :: u8) mod 0x40) * 0x40 +
   unat (b3 :: u8) mod 0x40"
proof -
  let ?g = "push_bit 6 (ucast (b AND 0x07)) OR ucast (b1 AND 0x3F) :: u32"
  let ?h = "push_bit 6 ?g OR ucast (b2 AND 0x3F) :: u32"
  have e: "push_bit 18 (ucast (b AND 0x07)) OR push_bit 12 (ucast (b1 AND 0x3F)) OR
         push_bit 6 (ucast (b2 AND 0x3F)) OR ucast (b3 AND 0x3F) =
      push_bit 6 ?h OR (ucast (b3 AND 0x3F) :: u32)"
    by (simp add: push_bit_or or.assoc)
  have m: "unat b mod 8 < 8" by simp
  then have "unat b mod 8 < 0x8000" by linarith
  then have g: "unat ?g = unat b mod 8 * 0x40 + unat b1 mod 0x40"
    by (subst unat_join_cont) (simp_all add: byte_low)
  have g': "unat ?g < 8 * 0x40" unfolding g using cont_less [OF m] .
  then have "unat ?g < 0x8000" by linarith
  then have h: "unat ?h = unat ?g * 0x40 + unat b2 mod 0x40" by (rule unat_join_cont)
  have "unat ?h < 0x8000" unfolding h using cont_less [OF g', of b2] by linarith
  then have "unat (push_bit 6 ?h OR (ucast (b3 AND 0x3F))) = unat ?h * 0x40 + unat b3 mod 0x40"
    by (rule unat_join_cont)
  then show ?thesis unfolding e h g .
qed

lemma uint_unat: "uint w = int (unat w)" by simp

lemma base64_join:
  "n div 0x40 * 0x40 + n mod 0x40 = (n :: nat)"
  "(n div 0x1000 * 0x40 + n div 0x40 mod 0x40) * 0x40 + n mod 0x40 = n"
  "((n div 0x40000 * 0x40 + n div 0x1000 mod 0x40) * 0x40 + n div 0x40 mod 0x40) * 0x40 + n mod 0x40 = n"
proof -
  show 1: "m div 0x40 * 0x40 + m mod 0x40 = m" for m :: nat by (rule div_mult_mod_eq)
  have d: "m div 0x1000 = m div 0x40 div 0x40" "m div 0x40000 = m div 0x1000 div 0x40" for m :: nat
    by (simp_all flip: div_mult2_eq)
  show 2: "(n div 0x1000 * 0x40 + n div 0x40 mod 0x40) * 0x40 + n mod 0x40 = n" unfolding d(1) 1 ..
  show "((n div 0x40000 * 0x40 + n div 0x1000 mod 0x40) * 0x40 + n div 0x40 mod 0x40) * 0x40 + n mod 0x40 = n"
    unfolding d(2) 1 2 ..
qed

lemma lead_div:
  "x < 0x20 \<Longrightarrow> (0xC0 + x) div 0x20 = (6 :: nat)"
  "x < 0x10 \<Longrightarrow> (0xE0 + x) div 0x20 = (7 :: nat)" "x < 0x10 \<Longrightarrow> (0xE0 + x) div 0x10 = 14"
  "x < 8 \<Longrightarrow> (0xF0 + x) div 0x20 = (7 :: nat)"
  "x < 8 \<Longrightarrow> (0xF0 + x) div 0x10 = 15" "x < 8 \<Longrightarrow> (0xF0 + x) div 8 = 30"
  by simp_all

lemma lead_mod:
  "x < 0x20 \<Longrightarrow> (0xC0 + x) mod 0x20 = (x :: nat)" "x < 0x10 \<Longrightarrow> (0xE0 + x) mod 0x10 = x"
  "x < 8 \<Longrightarrow> (0xF0 + x) mod 8 = x" "(0x80 + y mod 0x40) mod 0x40 = (y :: nat) mod 0x40"
proof -
  show "x < 0x20 \<Longrightarrow> (0xC0 + x) mod 0x20 = x" using mod_mult_self4 [of "0x20" 6 x] by simp
  show "x < 0x10 \<Longrightarrow> (0xE0 + x) mod 0x10 = x" using mod_mult_self4 [of "0x10" 14 x] by simp
  show "x < 8 \<Longrightarrow> (0xF0 + x) mod 8 = x" using mod_mult_self4 [of 8 30 x] by simp
  show "(0x80 + y mod 0x40) mod 0x40 = y mod 0x40" using mod_mult_self4 [of "0x40" 2 "y mod 0x40"] by simp
qed

lemmas lead_arith = lead_div lead_mod

lemma decode_bytes:
  assumes "n \<le> 0x10FFFF" "map unat bs = code_bytes n"
  shows "utf8_decode_cp (bs @ rest) = Some (int n, length bs)"
proof -
  consider "n < 0x80" | "0x80 \<le> n" "n < 0x800" | "0x800 \<le> n" "n < 0x10000" | "0x10000 \<le> n" by linarith
  then show ?thesis
  proof cases
    case 1
    then obtain b where "bs = [b]" "unat b = n" using assms(2) by (auto simp: code_bytes_def)
    with 1 show ?thesis by (simp add: utf8_decode_cp_def rd_def byte_and_80 uint_unat)
  next
    case 2
    then obtain b b1 where b: "bs = [b, b1]" "unat b = 0xC0 + n div 0x40" "unat b1 = 0x80 + n mod 0x40"
      using assms(2) by (auto simp: code_bytes_def map_eq_Cons_conv)
    have "n div 0x40 < 0x20" using 2 by (simp add: div_less_iff_less_mult)
    then have m: "unat b div 0x20 = 6" "unat b mod 0x20 = n div 0x40" "unat b1 mod 0x40 = n mod 0x40"
      by (simp_all only: b lead_arith)
    have v: "unat (push_bit 6 (ucast (b AND 0x1F)) OR ucast (b1 AND 0x3F) :: u32) = n"
      unfolding join2 m by (rule base64_join)
    have "\<not> unat b < 0x80" by (simp add: b(2))
    moreover have "rd (bs @ rest) 0 = Some b" "rd (bs @ rest) 1 = Some b1" by (simp_all add: rd_def b(1))
    moreover have "length bs = 2" by (simp add: b(1))
    ultimately show ?thesis
      by (simp only: utf8_decode_cp_def byte_and_80 byte_lead m(1) Option.bind.bind_lunit uint_unat v if_True if_False simp_thms)
  next
    case 3
    then obtain b b1 b2 where b: "bs = [b, b1, b2]" "unat b = 0xE0 + n div 0x1000"
      "unat b1 = 0x80 + n div 0x40 mod 0x40" "unat b2 = 0x80 + n mod 0x40"
      using assms(2) by (auto simp: code_bytes_def map_eq_Cons_conv)
    have "n div 0x1000 < 0x10" using 3 by (simp add: div_less_iff_less_mult)
    then have m: "unat b div 0x20 = 7" "unat b div 0x10 = 14" "unat b mod 0x10 = n div 0x1000"
        "unat b1 mod 0x40 = n div 0x40 mod 0x40" "unat b2 mod 0x40 = n mod 0x40"
      by (simp_all only: b lead_arith)
    have v: "unat (push_bit 12 (ucast (b AND 0x0F)) OR push_bit 6 (ucast (b1 AND 0x3F)) OR
        ucast (b2 AND 0x3F) :: u32) = n"
      unfolding join3 m by (rule base64_join)
    have "\<not> unat b < 0x80" by (simp add: b(2))
    moreover have "rd (bs @ rest) 0 = Some b" "rd (bs @ rest) 1 = Some b1" "rd (bs @ rest) 2 = Some b2" by (simp_all add: rd_def b(1))
    moreover have "length bs = 3" by (simp add: b(1))
    ultimately show ?thesis
      by (simp only: utf8_decode_cp_def byte_and_80 byte_lead m(1-2) Option.bind.bind_lunit uint_unat v if_True if_False simp_thms) simp
  next
    case 4
    then obtain b b1 b2 b3 where b: "bs = [b, b1, b2, b3]" "unat b = 0xF0 + n div 0x40000"
      "unat b1 = 0x80 + n div 0x1000 mod 0x40" "unat b2 = 0x80 + n div 0x40 mod 0x40"
      "unat b3 = 0x80 + n mod 0x40"
      using assms(2) by (auto simp: code_bytes_def map_eq_Cons_conv)
    have "n div 0x40000 < 8" using assms(1) by (simp add: div_less_iff_less_mult)
    then have m: "unat b div 0x20 = 7" "unat b div 0x10 = 15" "unat b div 8 = 30" "unat b mod 8 = n div 0x40000"
        "unat b1 mod 0x40 = n div 0x1000 mod 0x40" "unat b2 mod 0x40 = n div 0x40 mod 0x40"
        "unat b3 mod 0x40 = n mod 0x40"
      by (simp_all only: b lead_arith)
    have v: "unat (push_bit 18 (ucast (b AND 0x07)) OR push_bit 12 (ucast (b1 AND 0x3F)) OR
        push_bit 6 (ucast (b2 AND 0x3F)) OR ucast (b3 AND 0x3F) :: u32) = n"
      unfolding join4 m by (rule base64_join)
    have "\<not> unat b < 0x80" by (simp add: b(2))
    moreover have "rd (bs @ rest) 0 = Some b" "rd (bs @ rest) 1 = Some b1" "rd (bs @ rest) 2 = Some b2" "rd (bs @ rest) 3 = Some b3" by (simp_all add: rd_def b(1))
    moreover have "length bs = 4" by (simp add: b(1))
    ultimately show ?thesis
      by (simp only: utf8_decode_cp_def byte_and_80 byte_lead m(1-3) Option.bind.bind_lunit uint_unat v if_True if_False simp_thms) simp
  qed
qed

lemma encode_length: "n \<le> 0x10FFFF \<Longrightarrow> length (utf8_encode_cp (int n)) = length (code_bytes n)"
  using encode_bytes [of n] by (metis length_map)

lemma decode_encode:
  assumes "0 \<le> cp" "cp \<le> 0x10FFFF"
  shows "utf8_decode_cp (utf8_encode_cp cp @ rest) = Some (cp, length (utf8_encode_cp cp))"
  using decode_bytes [OF _ encode_bytes, of "nat cp" rest] assms by simp

lemma len_for_unat:
  "utf8_len_for b =
     (if unat b < 0x80 then 1 else if unat b div 0x20 = 6 then 2 else if unat b div 0x10 = 14 then 3
      else if unat b div 8 = 30 then 4 else 1)"
  by (simp add: utf8_len_for_def byte_and_80 byte_lead)

lemma back_over_stop: "\<not> (s ! i AND 0xC0 = 0x80) \<Longrightarrow> back_over s i k = i"
  by (cases k) simp_all

lemma back_over_run:
  "(\<And>j. i - d < j \<Longrightarrow> j \<le> i \<Longrightarrow> s ! j AND 0xC0 = 0x80) \<Longrightarrow> d \<le> k \<Longrightarrow> d \<le> i \<Longrightarrow>
   \<not> (s ! (i - d) AND 0xC0 = 0x80) \<Longrightarrow> back_over s i k = i - d"
proof (induction d arbitrary: i k)
  case 0
  then show ?case by (simp add: back_over_stop)
next
  case (Suc d)
  then obtain k' where k: "k = Suc k'" by (cases k) auto
  have "back_over s (i - 1) k' = (i - 1) - d"
    using Suc.prems k by (intro Suc.IH) auto
  then show ?case using Suc.prems k by simp
qed

lemma cont_div: "(0x80 + x mod 0x40) div 0x40 = (2 :: nat)"
  by simp

lemma code_bytes_tail:
  assumes "0 < i" "i < length (code_bytes n)"
  shows "code_bytes n ! i div 0x40 = 2"
proof -
  have "list_all (\<lambda>x. x div 0x40 = 2) (tl (code_bytes n))"
    unfolding code_bytes_def
    by (simp only: if_distrib [of tl] list.sel list.pred_inject cont_div split: if_split) simp
  moreover have "code_bytes n ! i = tl (code_bytes n) ! (i - 1)" "i - 1 < length (tl (code_bytes n))"
    using assms by (simp_all add: nth_tl)
  ultimately show ?thesis by (simp add: list_all_length)
qed

lemma code_bytes_head:
  assumes "n \<le> 0x10FFFF"
  shows "code_bytes n ! 0 div 0x40 \<noteq> 2 \<and> 0 < length (code_bytes n) \<and> length (code_bytes n) \<le> 4"
    "unat b = code_bytes n ! 0 \<Longrightarrow> utf8_len_for b = length (code_bytes n)"
    "2 \<le> length (code_bytes n) \<longleftrightarrow> 0x80 \<le> n"
proof -
  have 1: "n < 0x800 \<Longrightarrow> n div 0x40 < 0x20" "n < 0x10000 \<Longrightarrow> n div 0x1000 < 0x10" "n div 0x40000 < 8"
    using assms by (simp_all add: div_less_iff_less_mult)
  have 2: "n < 0x800 \<Longrightarrow> (0xC0 + n div 0x40) div 0x20 = 6" "n < 0x10000 \<Longrightarrow> (0xE0 + n div 0x1000) div 0x10 = 14"
    "(0xF0 + n div 0x40000) div 8 = 30"
    using 1 by simp_all
  have 3: "n < 0x800 \<Longrightarrow> (0xC0 + n div 0x40) div 0x40 = 3" "n < 0x10000 \<Longrightarrow> (0xE0 + n div 0x1000) div 0x40 = 3"
    "(0xF0 + n div 0x40000) div 0x40 = 3"  "n < 0x10000 \<Longrightarrow> (0xE0 + n div 0x1000) div 0x20 = 7"
    "(0xF0 + n div 0x40000) div 0x20 = 7" "(0xF0 + n div 0x40000) div 0x10 = 15"
    using 1 by simp_all
  show "code_bytes n ! 0 div 0x40 \<noteq> 2 \<and> 0 < length (code_bytes n) \<and> length (code_bytes n) \<le> 4"
  proof -
    have "n < 0x80 \<Longrightarrow> n div 0x40 < 2" by (simp add: div_less_iff_less_mult)
    then have "n < 0x80 \<Longrightarrow> n div 0x40 \<noteq> 2" by (metis less_irrefl)
    with 3 have "code_bytes n ! 0 div 0x40 \<noteq> 2"
      unfolding code_bytes_def by (simp only: if_distrib [of "\<lambda>xs. xs ! 0"] nth_Cons_0 split: if_split) simp
    then show ?thesis by (simp add: code_bytes_def)
  qed
  consider "n < 0x80" | "0x80 \<le> n" "n < 0x800" | "0x800 \<le> n" "n < 0x10000" | "0x10000 \<le> n" by linarith
  then show "unat b = code_bytes n ! 0 \<Longrightarrow> utf8_len_for b = length (code_bytes n)"
    by cases (simp_all only: len_for_unat code_bytes_def nth_Cons_0 if_True if_False linorder_not_less, simp_all add: 2 3)
  show "2 \<le> length (code_bytes n) \<longleftrightarrow> 0x80 \<le> n" by (auto simp: code_bytes_def)
qed

lemma decode_before_encode:
  assumes "0 \<le> cp" "cp \<le> 0x10FFFF"
  shows "utf8_decode_cp_before (pre @ utf8_encode_cp cp @ post) (length pre + length (utf8_encode_cp cp)) =
         Some (cp, length (utf8_encode_cp cp))"
proof -
  define n where "n = nat cp"
  let ?bs = "utf8_encode_cp cp"
  have n: "n \<le> 0x10FFFF" "int n = cp" using assms by (simp_all add: n_def)
  then have bytes: "map unat ?bs = code_bytes n" using encode_bytes [of n] by simp
  let ?s = "pre @ ?bs @ post"
  have nb: "?s ! (length pre + i) = ?bs ! i" if "i < length ?bs" for i
    using that by (simp add: nth_append)
  have un: "unat (?bs ! i) = code_bytes n ! i" if "i < length ?bs" for i
    using that bytes by (metis nth_map)
  have len: "length ?bs = length (code_bytes n)" using bytes by (metis length_map)
  have l: "0 < length ?bs" "length ?bs \<le> 4" using code_bytes_head(1) [OF n(1)] len by simp_all
  let ?last = "length pre + (length ?bs - 1)"
  have last: "length pre + length ?bs - 1 = ?last" "?last < length ?s" 
    using l(1) by (auto simp del: length_greater_0_conv)
  have bk: "back_over ?s ?last 3 = length pre"
  proof -
    have cont: "?s ! j AND 0xC0 = 0x80" if "length pre < j" "j \<le> ?last" for j
    proof -
      have "?s ! j = ?bs ! (j - length pre)" "j - length pre < length ?bs" "0 < j - length pre"
        using that l nb [of "j - length pre"] by auto
      then show ?thesis using code_bytes_tail un len by (simp add: byte_lead)
    qed
    have "?s ! length pre = ?bs ! 0" using nb [of 0] l by simp
    then have "\<not> (?s ! length pre AND 0xC0 = 0x80)"
      using un [of 0] l code_bytes_head(1) [OF n(1)] by (simp only: byte_lead not_False_eq_True)
    then have "back_over ?s ?last 3 = ?last - (length ?bs - 1)"
      using l by (intro back_over_run cont) auto
    then show ?thesis by simp
  qed
  have dec: "utf8_decode_cp (?bs @ post) = Some (cp, length ?bs)" by (rule decode_encode [OF assms])
  show ?thesis
  proof (cases "n < 0x80")
    case True
    then obtain b where bs: "?bs = [b]" "unat b = n" using bytes by (auto simp: code_bytes_def)
    then show ?thesis using True n(2)
      by (simp add: utf8_decode_cp_before_def rd_def byte_and_80 uint_unat)
  next
    case False
    then have ge: "2 \<le> length ?bs" using code_bytes_head(3) [OF n(1)] len by simp
    have lead: "?s ! length pre = ?bs ! 0" using nb [of 0] l by simp
    have lf: "length pre + utf8_len_for (?bs ! 0) = length pre + length ?bs" "\<not> (?bs ! 0 AND 0xC0 = 0x80)"
      using code_bytes_head [OF n(1)] un [of 0] l len by (simp_all add: byte_lead)
    have lst: "\<not> (?s ! ?last AND 0x80 = 0)"
    proof -
      have "code_bytes n ! (length ?bs - 1) div 0x40 = 2" using code_bytes_tail [of "length ?bs - 1" n] ge len by simp
      then have "unat (?bs ! (length ?bs - 1)) div 0x40 = 2" using un [of "length ?bs - 1"] l by simp
      then have "\<not> unat (?bs ! (length ?bs - 1)) < 0x80" by linarith
      moreover have "?s ! ?last = ?bs ! (length ?bs - 1)" using l by (intro nb) auto
      ultimately show ?thesis by (simp only: byte_and_80 not_False_eq_True)
    qed
    show ?thesis
      using l lst last lead lf bk dec
      by (simp add: utf8_decode_cp_before_def rd_def Let_def)
  qed
qed

section \<open>Code units and code points\<close>

text \<open>The UTF-16 code units of a code point, and the bytes of a list of code points.\<close>

definition units_of :: "int \<Rightarrow> int list" where
  "units_of cp =
     (if cp < 0x10000 then [cp]
      else [0xD800 + (cp - 0x10000) div 0x400, 0xDC00 + (cp - 0x10000) mod 0x400])"

definition encode_all :: "int list \<Rightarrow> u8 list" where
  "encode_all cps = concat (map utf8_encode_cp cps)"

definition code_point :: "int \<Rightarrow> bool" where
  "code_point cp \<longleftrightarrow> 0 \<le> cp \<and> cp \<le> 0x10FFFF"

definition is_high :: "int \<Rightarrow> bool" where "is_high u \<longleftrightarrow> 0xD800 \<le> u \<and> u \<le> 0xDBFF"
definition is_low :: "int \<Rightarrow> bool" where "is_low u \<longleftrightarrow> 0xDC00 \<le> u \<and> u \<le> 0xDFFF"

text \<open>Generalized UTF-8 of a string: no surrogate pair is spelled as two code points.\<close>

fun paired_free :: "int list \<Rightarrow> bool" where
  "paired_free (u # v # cps) \<longleftrightarrow> \<not> (is_high u \<and> is_low v) \<and> paired_free (v # cps)"
| "paired_free _ \<longleftrightarrow> True"

lemma encode_all_simps [simp]:
  "encode_all [] = []" "encode_all (cp # cps) = utf8_encode_cp cp @ encode_all cps"
  "encode_all (xs @ ys) = encode_all xs @ encode_all ys"
  by (simp_all add: encode_all_def)

lemma encode_nat: "code_point cp \<Longrightarrow> map unat (utf8_encode_cp cp) = code_bytes (nat cp)"
  using encode_bytes [of "nat cp"] by (simp add: code_point_def nat_le_iff)

lemma encode_small_bytes:
  assumes "code_point cp" "cp < 0x10000" "b \<in> set (utf8_encode_cp cp)"
  shows "b < 0xF0"
proof -
  have n: "nat cp < 0x10000" using assms by (simp add: code_point_def)
  have "unat b \<in> set (code_bytes (nat cp))" using assms encode_nat by (metis imageI set_map)
  moreover have "nat cp div 0x1000 < 0x10" using n by (simp add: div_less_iff_less_mult)
  moreover have "nat cp < 0x800 \<Longrightarrow> nat cp div 0x40 < 0x20" by (simp add: div_less_iff_less_mult)
  moreover have "nat cp mod 0x40 < 0x40" "nat cp div 0x40 mod 0x40 < 0x40" by simp_all
  then have "nat cp mod 0x40 < 0x70" "nat cp div 0x40 mod 0x40 < 0x70" by linarith+
  ultimately have "unat b < 0xF0" using n unfolding code_bytes_def
    by (simp split: if_splits) (elim disjE; simp)+
  then show ?thesis by (simp add: word_less_nat_alt)
qed

lemma split_loop_push:
  "\<forall>b \<in> set bs. b < 0xF0 \<Longrightarrow>
   split_loop (pre @ bs @ post) (length pre) =
   map_option (append bs) (split_loop (pre @ bs @ post) (length pre + length bs))"
proof (induction bs arbitrary: pre)
  case Nil
  then show ?case by (simp add: option.map_id [unfolded id_def] map_option_cong)
next
  case (Cons b bs)
  have "split_loop (pre @ (b # bs) @ post) (length pre) =
    map_option (Cons b) (split_loop ((pre @ [b]) @ bs @ post) (length (pre @ [b])))"
    using Cons.prems by (subst split_loop.simps) (simp add: nth_append linorder_not_le [symmetric])
  also have "\<dots> = map_option (append (b # bs)) (split_loop (pre @ (b # bs) @ post) (length pre + length (b # bs)))"
    using Cons by (subst Cons.IH) (simp_all add: option.map_comp comp_def append_Cons [abs_def])
  finally show ?case .
qed

lemma surrogate_units_encode:
  assumes "0x10000 \<le> cp" "code_point cp"
  shows "surrogate_units cp = encode_all (units_of cp)"
proof -
  define m where "m = nat (cp - 0x10000)"
  have m: "m < 0x100000" "cp = 0x10000 + int m" using assms by (auto simp: m_def code_point_def)
  define off where "off = (word_of_int cp :: u32) - 0x10000"
  have off: "off = word_of_nat m" unfolding off_def m(2) by simp
  then have u: "unat off = m" using m by (simp add: unsigned_of_nat take_bit_nat_eq_self)
  have hi: "unat (0xD800 OR drop_bit 10 off) = 0xD800 + m div 0x400"
  proof -
    have "unat (drop_bit 10 off) = m div 0x400" unfolding unat_drop_bit_eq u by (simp add: drop_bit_eq_div)
    moreover have "m div 0x400 < 0x400" using m by (simp add: div_less_iff_less_mult)
    moreover have "(0xD800 :: u32) = 0xD800 AND NOT (mask 10)" by (simp add: mask_eq_exp_minus_1)
    ultimately show ?thesis using unat_or_low [of "drop_bit 10 off" 10 "0xD800"] by simp
  qed
  have lo: "unat (0xDC00 OR (off AND 0x3FF)) = 0xDC00 + m mod 0x400"
  proof -
    have "(0x3FF :: u32) = mask 10" by (simp add: mask_eq_exp_minus_1)
    then have "unat (off AND 0x3FF) = m mod 0x400" using unat_and_mask [of off 10] u by simp
    moreover have "(0xDC00 :: u32) = 0xDC00 AND NOT (mask 10)" by (simp add: mask_eq_exp_minus_1)
    ultimately show ?thesis using unat_or_low [of "off AND 0x3FF" 10 "0xDC00"] by simp
  qed
  have s: "sint w = int (unat w)" if "unat w < 2 ^ 31" for w :: u32
  proof -
    have "int (unat w) < int (2 ^ 31)" using that by (simp only: of_nat_less_iff)
    then have "uint w < 2 ^ 31" "0 \<le> uint w" by simp_all
    then have "signed_take_bit 31 (uint w) = uint w" by (intro signed_take_bit_int_eq_self) (auto intro: order_trans [of _ 0])
    then show ?thesis by (simp add: sint_uint)
  qed
  have d: "m div 0x400 < 0x400" "m mod 0x400 < 0x400" using m by (simp_all add: div_less_iff_less_mult)
  have "units_of cp = [0xD800 + int (m div 0x400), 0xDC00 + int (m mod 0x400)]"
    using assms m(2) by (simp add: units_of_def zdiv_int zmod_int)
  moreover have "sint (0xD800 OR drop_bit 10 off) = 0xD800 + int (m div 0x400)"
    using d by (subst s) (simp_all add: hi)
  moreover have "sint (0xDC00 OR (off AND 0x3FF)) = 0xDC00 + int (m mod 0x400)"
    using d by (subst s) (simp_all add: lo)
  ultimately show ?thesis
    by (simp only: surrogate_units_def Let_def off_def [symmetric] encode_all_simps append_Nil2)
qed

lemma split_loop_encode:
  "\<forall>cp \<in> set cps. code_point cp \<Longrightarrow>
   split_loop (pre @ encode_all cps) (length pre) = Some (encode_all (concat (map units_of cps)))"
proof (induction cps arbitrary: pre)
  case Nil
  then show ?case by (simp add: split_loop.simps)
next
  case (Cons cp cps)
  let ?bs = "utf8_encode_cp cp"
  have cp: "code_point cp" using Cons.prems by simp
  have IH: "split_loop ((pre @ ?bs) @ encode_all cps) (length (pre @ ?bs)) =
    Some (encode_all (concat (map units_of cps)))"
    using Cons.prems by (intro Cons.IH) simp
  show ?case
  proof (cases "cp < 0x10000")
    case True
    then have "\<forall>b \<in> set ?bs. b < 0xF0" using encode_small_bytes [OF cp] by blast
    from split_loop_push [OF this, of pre "encode_all cps"] IH True
    show ?thesis by (simp add: units_of_def [of cp])
  next
    case False
    then have nat: "0x10000 \<le> nat cp" "nat cp \<le> 0x10FFFF" using cp by (simp_all add: code_point_def nat_le_iff)
    have bytes: "map unat ?bs = code_bytes (nat cp)" by (rule encode_nat [OF cp])
    then obtain b0 b1 b2 b3 where bs: "?bs = [b0, b1, b2, b3]" "unat b0 = 0xF0 + nat cp div 0x40000"
      using nat by (auto simp: code_bytes_def)
    then have "0xF0 \<le> b0" by (simp add: word_le_nat_alt)
    moreover have "utf8_decode_cp (?bs @ encode_all cps) = Some (cp, 4)"
      using decode_encode [of cp "encode_all cps"] cp bs by (simp add: code_point_def)
    ultimately have "split_loop (pre @ encode_all (cp # cps)) (length pre) =
      map_option (append (surrogate_units cp)) (split_loop (pre @ encode_all (cp # cps)) (length pre + 4))"
      by (subst split_loop.simps) (simp add: bs)
    moreover have "pre @ encode_all (cp # cps) = (pre @ ?bs) @ encode_all cps" "length pre + 4 = length (pre @ ?bs)"
      by (simp_all add: bs)
    moreover have "surrogate_units cp = encode_all (units_of cp)" using surrogate_units_encode [OF _ cp] False by simp
    ultimately show ?thesis by (simp only: IH list.map concat.simps encode_all_simps option.map)
  qed
qed

lemma split_loop_plain: "\<forall>b \<in> set s. b < 0xF0 \<Longrightarrow> split_loop s 0 = Some s"
  using split_loop_push [of s "[]" "[]"] by (simp add: split_loop.simps)

lemma split_pairs_loop: "split_surrogate_pairs s = split_loop s 0"
  using split_loop_plain [of s] by (auto simp: split_surrogate_pairs_def list_ex_iff linorder_not_le)

lemma split_encode:
  "\<forall>cp \<in> set cps. code_point cp \<Longrightarrow>
   split_surrogate_pairs (encode_all cps) = Some (encode_all (concat (map units_of cps)))"
  using split_loop_encode [of cps "[]"] by (simp add: split_pairs_loop)

section \<open>Merging\<close>

lemma surrogate_at_short: "length s < i + 3 \<Longrightarrow> surrogate_at s i lo hi = None"
  by (simp add: surrogate_at_def)

lemma surrogate_at_cont:
  "\<not> s ! i = 0xED \<Longrightarrow> surrogate_at s i lo hi = None"
  by (simp add: surrogate_at_def)

lemma surrogate_at_encode:
  assumes "code_point u" "0x800 \<le> lo"  "hi < 0x10000"
  shows "surrogate_at (pre @ utf8_encode_cp u @ post) (length pre) lo hi =
    (if int lo \<le> u \<and> u \<le> int hi \<and> 0xD000 \<le> u \<and> u < 0xE000 then Some (nat u) else None)"
proof -
  let ?n = "nat u" and ?bs = "utf8_encode_cp u" and ?s = "pre @ utf8_encode_cp u @ post"
  have bytes: "map unat ?bs = code_bytes ?n" by (rule encode_nat [OF assms(1)])
  have n: "?n \<le> 0x10FFFF" "0 \<le> u" "int ?n = u" using assms(1) by (simp_all add: code_point_def nat_le_iff)
  have ed: "b = 0xED \<longleftrightarrow> unat b = 0xED" for b :: u8 by (simp add: word_unat_eq_iff)
  have mid: "0x800 \<le> ?n \<Longrightarrow> ?n < 0x10000 \<Longrightarrow> 0xE0 + ?n div 0x1000 = 0xED \<longleftrightarrow> 0xD000 \<le> ?n \<and> ?n < 0xE000"
    by linarith
  consider "?n < 0x800" | "0x800 \<le> ?n" "?n < 0x10000" | "0x10000 \<le> ?n" by linarith
  then show ?thesis
  proof cases
    case 1
    then have "?s ! length pre \<noteq> 0xED" using bytes by (auto simp: ed code_bytes_def nth_append map_eq_Cons_conv split: if_splits)
    then have "surrogate_at ?s (length pre) lo hi = None" by (rule surrogate_at_cont)
    moreover have "\<not> 0xD000 \<le> u" using 1 n by linarith
    ultimately show ?thesis by simp
  next
    case 2
    then obtain b b1 b2 where b: "?bs = [b, b1, b2]" "unat b = 0xE0 + ?n div 0x1000"
      "unat b1 = 0x80 + ?n div 0x40 mod 0x40" "unat b2 = 0x80 + ?n mod 0x40"
      using bytes by (auto simp: code_bytes_def map_eq_Cons_conv)
    have "?n div 0x1000 < 0x10" using 2 by (simp add: div_less_iff_less_mult)
    then have m: "unat b mod 0x10 = ?n div 0x1000" "unat b1 mod 0x40 = ?n div 0x40 mod 0x40" "unat b2 mod 0x40 = ?n mod 0x40"
      by (simp_all only: b lead_arith)
    have v: "unat (push_bit 12 (ucast (b AND 0x0F)) OR push_bit 6 (ucast (b1 AND 0x3F)) OR
        ucast (b2 AND 0x3F) :: u32) = ?n"
      unfolding join3 m by (rule base64_join)
    have r: "?s ! length pre = b" "?s ! (length pre + 1) = b1" "?s ! (length pre + 2) = b2" "\<not> length pre + 3 > length ?s"
      by (simp_all add: b(1) nth_append)
    have "b = 0xED \<longleftrightarrow> 0xD000 \<le> ?n \<and> ?n < 0xE000" unfolding ed b(2) using mid 2 by simp
    then show ?thesis
      unfolding surrogate_at_def r(1-3) v Let_def using n r(4) by auto
  next
    case 3
    then have "?s ! length pre \<noteq> 0xED" using bytes by (auto simp: ed code_bytes_def nth_append map_eq_Cons_conv split: if_splits)
    then have "surrogate_at ?s (length pre) lo hi = None" by (rule surrogate_at_cont)
    moreover have "\<not> u < 0xE000" using 3 n by linarith
    ultimately show ?thesis by simp
  qed
qed

lemma merge_loop_push:
  "\<forall>b \<in> set bs. b \<noteq> 0xED \<Longrightarrow>
   merge_loop (pre @ bs @ post) (length pre) = bs @ merge_loop (pre @ bs @ post) (length pre + length bs)"
proof (induction bs arbitrary: pre)
  case (Cons b bs)
  have "merge_loop (pre @ (b # bs) @ post) (length pre) = b # merge_loop ((pre @ [b]) @ bs @ post) (length (pre @ [b]))"
    using Cons.prems by (subst merge_loop.simps) (simp add: surrogate_at_cont)
  also have "\<dots> = b # bs @ merge_loop (pre @ (b # bs) @ post) (length pre + length (b # bs))"
    using Cons by (subst Cons.IH) simp_all
  finally show ?case by simp
qed simp

lemma merge_unit:
  assumes "code_point u" "\<not> (is_high u \<and> (\<exists>v us. rest = v # us \<and> is_low v \<and> code_point v))" "\<forall>v \<in> set rest. code_point v"
  shows "merge_loop (pre @ encode_all (u # rest)) (length pre) =
    utf8_encode_cp u @ merge_loop (pre @ encode_all (u # rest)) (length pre + length (utf8_encode_cp u))"
proof -
  let ?bs = "utf8_encode_cp u" and ?s = "pre @ encode_all (u # rest)"
  have bytes: "map unat ?bs = code_bytes (nat u)" by (rule encode_nat [OF assms(1)])
  have ne: "?bs \<noteq> []" using bytes by (auto simp: code_bytes_def split: if_splits)
  then obtain b bs where b: "?bs = b # bs" by (cases ?bs) auto
  have tl: "\<forall>c \<in> set bs. c \<noteq> 0xED"
  proof
    fix c assume "c \<in> set bs"
    then obtain i where i: "i < length bs" "c = bs ! i" by (auto simp: in_set_conv_nth)
    then have "code_bytes (nat u) ! Suc i = unat c" "Suc i < length (code_bytes (nat u))"
      unfolding bytes [symmetric] by (simp_all add: b)
    then have "unat c div 0x40 = 2" using code_bytes_tail [of "Suc i" "nat u"] by simp
    then show "c \<noteq> 0xED" by auto
  qed
  have first: "surrogate_at ?s (length pre) 0xD800 0xDBFF = None \<or>
    surrogate_at ?s (length pre + 3) 0xDC00 0xDFFF = None"
  proof (cases "is_high u")
    case False
    then show ?thesis using surrogate_at_encode [OF assms(1), of "0xD800" "0xDBFF" pre "encode_all rest"]
      by (auto simp: is_high_def)
  next
    case True
    then have "length ?bs = 3" using bytes by (auto simp: is_high_def code_bytes_def dest!: arg_cong [of _ _ length] split: if_splits)
    then have s: "?s = (pre @ ?bs) @ encode_all rest" "length pre + 3 = length (pre @ ?bs)" by simp_all
    have "surrogate_at ?s (length pre + 3) 0xDC00 0xDFFF = None"
    proof (cases rest)
      case Nil
      then show ?thesis unfolding s(2) by (intro surrogate_at_short) simp
    next
      case (Cons v us)
      then have "\<not> is_low v" "code_point v" using assms True by auto
      then show ?thesis
        using surrogate_at_encode [of v "0xDC00" "0xDFFF" "pre @ ?bs" "encode_all us"]
        unfolding s by (simp add: Cons is_low_def)
    qed
    then show ?thesis ..
  qed
  have "merge_loop ?s (length pre) = b # merge_loop ?s (length pre + 1)"
    using first by (subst merge_loop.simps) (auto simp: b nth_append split: option.splits)
  also have "merge_loop ?s (length pre + 1) = bs @ merge_loop ?s (length pre + 1 + length bs)"
    using merge_loop_push [OF tl, of "pre @ [b]" "encode_all rest"] by (simp add: b)
  finally show ?thesis by (simp add: b)
qed

lemma merge_pair:
  assumes "0x10000 \<le> cp" "code_point cp" 
  shows "merge_loop (pre @ encode_all (units_of cp @ rest)) (length pre) =
    utf8_encode_cp cp @ merge_loop (pre @ encode_all (units_of cp @ rest)) (length pre + length (encode_all (units_of cp)))"
proof -
  define h where "h = 0xD800 + (cp - 0x10000) div 0x400"
  define l where "l = 0xDC00 + (cp - 0x10000) mod 0x400"
  have u: "units_of cp = [h, l]" using assms by (simp add: units_of_def h_def l_def)
  have cp: "cp = 0x10000 + (h - 0xD800) * 0x400 + (l - 0xDC00)"
    using div_mult_mod_eq [of "cp - 0x10000" "0x400"] by (simp add: h_def l_def)
  have r: "is_high h" "is_low l" using assms by (auto simp: is_high_def is_low_def h_def l_def code_point_def)
  then have c: "code_point h" "code_point l" by (simp_all add: code_point_def is_high_def is_low_def)
  have len: "length (utf8_encode_cp h) = 3" "length (utf8_encode_cp l) = 3"
    using encode_length [of "nat h"] encode_length [of "nat l"] r by (simp_all add: code_bytes_def is_high_def is_low_def nat_le_iff nat_less_iff)
  let ?s = "pre @ encode_all (units_of cp @ rest)"
  have s: "?s = pre @ utf8_encode_cp h @ encode_all (l # rest)"
    "?s = (pre @ utf8_encode_cp h) @ utf8_encode_cp l @ encode_all rest" "length pre + 3 = length (pre @ utf8_encode_cp h)"
    by (simp_all add: u len)
  have "surrogate_at ?s (length pre) 0xD800 0xDBFF = Some (nat h)"
    unfolding s(1) using r by (subst surrogate_at_encode [OF c(1)]) (simp_all add: is_high_def)
  moreover have "surrogate_at ?s (length pre + 3) 0xDC00 0xDFFF = Some (nat l)"
    unfolding s(2,3) using r by (subst surrogate_at_encode [OF c(2)]) (simp_all add: is_low_def)
  moreover have "0x10000 + int ((nat h - 0xD800) * 2 ^ 10) + int (nat l - 0xDC00) = cp"
  proof -
    have "int (nat h - 0xD800) = h - 0xD800" "int (nat l - 0xDC00) = l - 0xDC00"
      using r unfolding is_high_def is_low_def by linarith+
    then show ?thesis unfolding cp by simp
  qed
  moreover have "length pre < length ?s" by (simp add: u len)
  ultimately show ?thesis by (subst merge_loop.simps) (simp add: u len)
qed

lemma merge_loop_encode:
  "\<forall>cp \<in> set cps. code_point cp \<Longrightarrow> paired_free cps \<Longrightarrow>
   merge_loop (pre @ encode_all (concat (map units_of cps))) (length pre) = encode_all cps"
proof (induction cps arbitrary: pre)
  case Nil
  then show ?case by (simp add: merge_loop.simps)
next
  case (Cons cp cps)
  let ?rest = "concat (map units_of cps)"
  have cp: "code_point cp" using Cons.prems by simp
  have free: "paired_free cps" using Cons.prems by (cases cps) auto
  have IH: "merge_loop ((pre @ encode_all (units_of cp)) @ encode_all ?rest) (length (pre @ encode_all (units_of cp))) = encode_all cps"
    using Cons.prems free by (intro Cons.IH) auto
  show ?case
  proof (cases "cp < 0x10000")
    case True
    then have u: "units_of cp = [cp]" by (simp add: units_of_def)
    have sc: "\<forall>v \<in> set ?rest. code_point v"
      using Cons.prems by (auto simp: units_of_def code_point_def) 
    have nl: "\<not> (is_high cp \<and> (\<exists>v us. ?rest = v # us \<and> is_low v \<and> code_point v))"
    proof (cases cps)
      case (Cons c cs)
      then have "paired_free (cp # c # cs)" "code_point c" using Cons.prems by simp_all
      then show ?thesis using Cons by (auto simp: units_of_def is_low_def code_point_def)
    qed simp
    show ?thesis using merge_unit [OF cp nl sc, of pre] IH by (simp add: u)
  next
    case False
    then show ?thesis using merge_pair [OF _ cp, of pre ?rest] IH by simp
  qed
qed

lemma merge_pairs_loop: "merge_surrogate_pairs s = merge_loop s 0"
proof (cases "0xED \<in> set s")
  case False
  then have "\<forall>b \<in> set s. b \<noteq> 0xED" by auto
  from merge_loop_push [OF this, of "[]" "[]"] False show ?thesis
    by (simp add: merge_surrogate_pairs_def merge_loop.simps [of _ "length s"])
qed (simp add: merge_surrogate_pairs_def)

lemma merge_split_encode:
  assumes "\<forall>cp \<in> set cps. code_point cp" "paired_free cps"
  shows "merge_surrogate_pairs (encode_all (concat (map units_of cps))) = encode_all cps"
  using merge_loop_encode [OF assms, of "[]"] by (simp add: merge_pairs_loop)

section \<open>Properties\<close>

text \<open>C32: every code point up to \<open>0x10FFFF\<close>, a surrogate included, is read back from its
  encoding, forward from its first byte and backward from its end, with its length, whatever
  bytes are around it.\<close>

theorem utf8_roundtrip:
  assumes "0 \<le> cp" "cp \<le> 0x10FFFF"
  shows "utf8_decode_cp (utf8_encode_cp cp @ post) = Some (cp, length (utf8_encode_cp cp)) \<and>
    utf8_decode_cp_before (pre @ utf8_encode_cp cp @ post) (length pre + length (utf8_encode_cp cp)) =
      Some (cp, length (utf8_encode_cp cp))"
  using decode_encode [OF assms] decode_before_encode [OF assms] by simp

lemma utf8_roundtrip_witness:
  "utf8_decode_cp (utf8_encode_cp 0x20AC @ [0x41]) = Some (0x20AC, length (utf8_encode_cp 0x20AC))"
  using utf8_roundtrip [of "0x20AC" "[0x41]" "[]"] by simp

text \<open>splitting spells every code point by its UTF-16 code units, and merging is its inverse on
  every text in which no surrogate pair is already spelled as two code points.\<close>

theorem surrogate_roundtrip:
  assumes "\<forall>cp \<in> set cps. code_point cp" "paired_free cps"
  shows "split_surrogate_pairs (encode_all cps) = Some (encode_all (concat (map units_of cps))) \<and>
    merge_surrogate_pairs (encode_all (concat (map units_of cps))) = encode_all cps"
  using split_encode [OF assms(1)] merge_split_encode [OF assms] by simp

lemma surrogate_roundtrip_witness:
  "split_surrogate_pairs (encode_all [0x61, 0x1F600, 0xD83D]) =
     Some (encode_all [0x61, 0xD83D, 0xDE00, 0xD83D]) \<and>
   merge_surrogate_pairs (encode_all [0x61, 0xD83D, 0xDE00, 0xD83D]) = encode_all [0x61, 0x1F600, 0xD83D]"
  using surrogate_roundtrip [of "[0x61, 0x1F600, 0xD83D]"]
  by (simp add: code_point_def is_high_def is_low_def units_of_def)

end
