(* ===== verification/Regex_Class.thy ===== *)
theory Regex_Class
  imports Regex_Utf8
begin

text \<open>
  \<open>charclass.rs\<close>: a character class is a 256-bit bitmap, property tables and owned
  ranges for the code points past it, and a negation bit. The binary search of
  \<open>ucd.rs\<close> reads the tables. \<open>[u8; 32]\<close> is a list that \<open>wf_class\<close> keeps at 32 bytes.
\<close>

record uprop_range =
  lo :: int
  hi :: int

record char_class =
  bits :: "u8 list"
  negate :: bool
  u_prop_tables :: "uprop_range list list"
  owned_ranges :: "uprop_range list"
  byte_only :: bool

definition class_new :: char_class where
  "class_new = \<lparr>bits = replicate 32 0, negate = False, u_prop_tables = [], owned_ranges = [],
     byte_only = False\<rparr>"

definition class_add :: "char_class \<Rightarrow> u8 \<Rightarrow> char_class" where
  "class_add cc ch =
     (let i = unat (drop_bit 3 ch) in
      cc\<lparr>bits := (bits cc)[i := bits cc ! i OR push_bit (unat (ch AND 7)) 1]\<rparr>)"

text \<open>\<open>for c in lo..=hi\<close>, with the bounds swapped when they are inverted\<close>

function add_upto :: "char_class \<Rightarrow> nat \<Rightarrow> nat \<Rightarrow> char_class" where
  "add_upto cc c h = (if c \<le> h then add_upto (class_add cc (word_of_nat c)) (Suc c) h else cc)"
  by pat_completeness auto
termination
  by (relation "measure (\<lambda>(_, c, h). Suc h - c)") auto

declare add_upto.simps [simp del]

definition class_add_range :: "char_class \<Rightarrow> u8 \<Rightarrow> u8 \<Rightarrow> char_class" where
  "class_add_range cc l h =
     (let (l, h) = (if l > h then (h, l) else (l, h)) in add_upto cc (unat l) (unat h))"

definition raw_test :: "char_class \<Rightarrow> u8 \<Rightarrow> bool" where
  "raw_test cc ch \<longleftrightarrow> drop_bit (unat (ch AND 7)) (bits cc ! unat (drop_bit 3 ch)) AND 1 \<noteq> 0"

definition class_test :: "char_class \<Rightarrow> u8 \<Rightarrow> bool" where
  "class_test cc ch = (let in_set = raw_test cc ch in if negate cc then \<not> in_set else in_set)"

definition ascii_case_pair :: "u8 \<Rightarrow> u8 option" where
  "ascii_case_pair ch =
     (if 0x41 \<le> ch \<and> ch \<le> 0x5A then Some (ch OR 0x20)
      else if 0x61 \<le> ch \<and> ch \<le> 0x7A then Some (ch AND NOT 0x20)
      else None)"

definition class_test_fold :: "char_class \<Rightarrow> u8 \<Rightarrow> bool \<Rightarrow> bool" where
  "class_test_fold cc ch ci =
     (let in_raw = raw_test cc ch;
          in_raw = (if \<not> in_raw \<and> ci then
                      (case ascii_case_pair ch of Some p \<Rightarrow> raw_test cc p | None \<Rightarrow> in_raw)
                    else in_raw)
      in if negate cc then \<not> in_raw else in_raw)"

text \<open>\<open>hi\<close> is an \<open>isize\<close> that starts at -1 for an empty table.\<close>

function search_ranges :: "uprop_range list \<Rightarrow> int \<Rightarrow> int \<Rightarrow> int \<Rightarrow> bool" where
  "search_ranges t cp l h =
     (if l \<le> h then
        (let mid = (l + h) div 2 in
         if cp < lo (t ! nat mid) then search_ranges t cp l (mid - 1)
         else if cp > hi (t ! nat mid) then search_ranges t cp (mid + 1) h
         else True)
      else False)"
  by pat_completeness auto
termination
  by (relation "measure (\<lambda>(t, cp, l, h). nat (h + 1 - l))") auto

declare search_ranges.simps [simp del]

definition uprop_range_contains :: "uprop_range list \<Rightarrow> int \<Rightarrow> bool" where
  "uprop_range_contains t cp = search_ranges t cp 0 (int (length t) - 1)"

definition raw_test_cp :: "char_class \<Rightarrow> int \<Rightarrow> bool" where
  "raw_test_cp cc cp =
     (let in_set = (if 0 \<le> cp \<and> cp < 256 then
          drop_bit (nat (cp mod 8)) (bits cc ! nat (cp div 8)) AND 1 \<noteq> 0 else False)
      in if \<not> in_set \<and> cp \<ge> 0x80 then
           list_ex (\<lambda>t. uprop_range_contains t cp) (u_prop_tables cc) \<or>
           uprop_range_contains (owned_ranges cc) cp
         else in_set)"

definition class_test_cp :: "char_class \<Rightarrow> int \<Rightarrow> bool" where
  "class_test_cp cc cp = (let in_set = raw_test_cp cc cp in if negate cc then \<not> in_set else in_set)"

definition class_test_cp_fold :: "char_class \<Rightarrow> int \<Rightarrow> bool \<Rightarrow> bool" where
  "class_test_cp_fold cc cp ci =
     (let in_raw = raw_test_cp cc cp;
          in_raw = (if \<not> in_raw \<and> ci \<and> 0 \<le> cp \<and> cp < 128 then
                      (case ascii_case_pair (word_of_int cp) of Some p \<Rightarrow> raw_test cc p | None \<Rightarrow> in_raw)
                    else in_raw)
      in if negate cc then \<not> in_raw else in_raw)"

definition is_uflag_property_only :: "char_class \<Rightarrow> bool" where
  "is_uflag_property_only cc \<longleftrightarrow>
     (u_prop_tables cc \<noteq> [] \<or> owned_ranges cc \<noteq> []) \<and> \<not> negate cc \<and>
     list_all (\<lambda>b. b = 0) (drop 16 (bits cc))"

definition add_digit :: "char_class \<Rightarrow> char_class" where
  "add_digit cc = class_add_range cc 0x30 0x39"

definition add_word :: "char_class \<Rightarrow> char_class" where
  "add_word cc =
     (let cc = class_add_range cc 0x30 0x39;
          cc = class_add_range cc 0x41 0x5A;
          cc = class_add_range cc 0x61 0x7A
      in class_add cc 0x5F)"

definition add_space :: "char_class \<Rightarrow> char_class" where
  "add_space cc = fold (\<lambda>c cc. class_add cc c) [0x20, 0x09, 0x0A, 0x0B, 0x0C, 0x0D] cc"

text \<open>\<open>for cp in r.lo..=r.hi.min(0x7F)\<close>: the part of a property table below 0x80 goes to the bitmap.\<close>

definition add_table_range :: "uprop_range \<Rightarrow> char_class \<times> bool \<Rightarrow> char_class \<times> bool" where
  "add_table_range r = (\<lambda>(cc, reaches_high).
     (if lo r \<le> 0x7F then
        fold (\<lambda>cp cc. class_add cc (word_of_int cp)) [lo r .. min (hi r) 0x7F] cc
      else cc,
      reaches_high \<or> hi r > 0x7F))"

definition add_property_table :: "char_class \<Rightarrow> uprop_range list \<Rightarrow> char_class" where
  "add_property_table cc table =
     (let (cc, reaches_high) = fold add_table_range table (cc, False) in
      if reaches_high then cc\<lparr>u_prop_tables := u_prop_tables cc @ [table]\<rparr> else cc)"

section \<open>Sets of bytes\<close>

text \<open>What the class builders rely on: adding a byte adds that byte and keeps the representation.\<close>

locale byte_set =
  fixes add :: "'s \<Rightarrow> u8 \<Rightarrow> 's"
    and mem :: "'s \<Rightarrow> u8 \<Rightarrow> bool"
    and ok :: "'s \<Rightarrow> bool"
  assumes ok_add: "ok s \<Longrightarrow> ok (add s c)"
    and mem_add: "ok s \<Longrightarrow> mem (add s c) x \<longleftrightarrow> x = c \<or> mem s x"
begin

lemma ok_fold: "ok s \<Longrightarrow> ok (fold (\<lambda>c s. add s (f c)) cs s)"
  by (induction cs arbitrary: s) (simp_all add: ok_add)

lemma mem_fold: "ok s \<Longrightarrow> mem (fold (\<lambda>c s. add s (f c)) cs s) x \<longleftrightarrow> x \<in> f ` set cs \<or> mem s x"
  by (induction cs arbitrary: s) (auto simp: ok_add mem_add)

lemma mem_fold_bytes:
  assumes "ok s" "m \<le> n" "n \<le> 256"
  shows "mem (fold (\<lambda>c s. add s (word_of_nat c)) [m..<n] s) x \<longleftrightarrow> m \<le> unat x \<and> unat x < n \<or> mem s x"
proof -
  have "x \<in> word_of_nat ` {m..<n} \<longleftrightarrow> m \<le> unat x \<and> unat x < n"
  proof
    assume "x \<in> word_of_nat ` {m..<n}"
    then obtain k where "x = word_of_nat k" "m \<le> k" "k < n" by auto
    with assms show "m \<le> unat x \<and> unat x < n" by (simp add: unsigned_of_nat take_bit_nat_eq_self)
  next
    assume "m \<le> unat x \<and> unat x < n"
    then show "x \<in> word_of_nat ` {m..<n}" by (intro image_eqI [of _ _ "unat x"]) auto
  qed
  then show ?thesis using mem_fold [OF assms(1), of word_of_nat] by simp
qed

end

definition wf_class :: "char_class \<Rightarrow> bool" where
  "wf_class cc \<longleftrightarrow> length (bits cc) = 32"

lemma test_bit: "drop_bit k (w :: 'a :: len word) AND 1 \<noteq> 0 \<longleftrightarrow> bit w k"
  by (simp add: bit_iff_odd_drop_bit and_one_eq odd_iff_mod_2_eq_one)

lemma byte_index: "unat (drop_bit 3 (ch :: u8)) = unat ch div 8" "unat (ch AND 7) = unat ch mod 8"
  using byte_low(4) [of ch] unfolding unat_drop_bit_eq by (simp_all add: drop_bit_eq_div)

lemma byte_less: "unat (ch :: u8) < 256" "unat (ch :: u8) div 8 < 32"
proof -
  have "unat ch < 2 ^ LENGTH(8)" by (rule unsigned_less)
  then show "unat ch < 256" "unat ch div 8 < 32" by simp_all
qed

lemma raw_test_bit: "raw_test cc ch \<longleftrightarrow> bit (bits cc ! (unat ch div 8)) (unat ch mod 8)"
  unfolding raw_test_def byte_index test_bit ..

lemma class_add_raw:
  assumes "wf_class cc"
  shows "raw_test (class_add cc c) x \<longleftrightarrow> x = c \<or> raw_test cc x"
proof -
  have eq: "x = c \<longleftrightarrow> unat x div 8 = unat c div 8 \<and> unat x mod 8 = unat c mod 8"
    by (metis div_mult_mod_eq word_unat_eq_iff)
  show ?thesis
    using assms byte_less [of x] byte_less [of c]
    by (auto simp: raw_test_bit class_add_def Let_def byte_index eq wf_class_def nth_list_update bit_simps)
qed

lemma class_add_wf [simp]: "wf_class (class_add cc c) = wf_class cc"
  by (simp add: class_add_def wf_class_def Let_def)

interpretation bm: byte_set class_add raw_test wf_class
  by unfold_locales (simp_all add: class_add_raw)

lemma add_upto_fold: "add_upto cc c h = fold (\<lambda>c cc. class_add cc (word_of_nat c)) [c..<Suc h] cc"
proof (induction cc c h rule: add_upto.induct)
  case (1 cc c h)
  then show ?case by (subst add_upto.simps) (simp add: upt_conv_Cons del: upt_Suc)
qed

lemma add_range_raw:
  assumes "wf_class cc" "l \<le> h"
  shows "raw_test (class_add_range cc l h) x \<longleftrightarrow> l \<le> x \<and> x \<le> h \<or> raw_test cc x"
proof -
  have "unat l \<le> Suc (unat h)" "Suc (unat h) \<le> 256"
    using assms(2) byte_less [of h] by (simp_all add: word_le_nat_alt)
  moreover have "\<not> h < l" using assms(2) by simp
  ultimately show ?thesis using bm.mem_fold_bytes [OF assms(1), of "unat l" "Suc (unat h)"]
    by (simp add: class_add_range_def add_upto_fold word_le_nat_alt word_less_nat_alt less_Suc_eq_le del: upt_Suc)
qed

lemma add_range_wf [simp]: "wf_class cc \<Longrightarrow> wf_class (class_add_range cc l h)"
  by (simp add: class_add_range_def add_upto_fold bm.ok_fold split: prod.split del: upt_Suc)

lemma add_fields [simp]:
  "negate (class_add cc c) = negate cc" "u_prop_tables (class_add cc c) = u_prop_tables cc"
  "owned_ranges (class_add cc c) = owned_ranges cc" "byte_only (class_add cc c) = byte_only cc"
  by (simp_all add: class_add_def Let_def)

lemma fold_add_fields [simp]:
  "negate (fold (\<lambda>c cc. class_add cc (f c)) cs cc) = negate cc"
  "u_prop_tables (fold (\<lambda>c cc. class_add cc (f c)) cs cc) = u_prop_tables cc"
  "owned_ranges (fold (\<lambda>c cc. class_add cc (f c)) cs cc) = owned_ranges cc"
  "byte_only (fold (\<lambda>c cc. class_add cc (f c)) cs cc) = byte_only cc"
  by (induction cs arbitrary: cc) simp_all

lemma add_range_fields [simp]:
  "negate (class_add_range cc l h) = negate cc" "u_prop_tables (class_add_range cc l h) = u_prop_tables cc"
  "owned_ranges (class_add_range cc l h) = owned_ranges cc" "byte_only (class_add_range cc l h) = byte_only cc"
  by (simp_all add: class_add_range_def add_upto_fold split: prod.split del: upt_Suc)

lemma class_new_raw [simp]: "\<not> raw_test class_new ch" "wf_class class_new"
  using byte_less [of ch] by (simp_all add: raw_test_bit class_new_def wf_class_def)

section \<open>The property tables\<close>

definition sorted_table :: "uprop_range list \<Rightarrow> bool" where
  "sorted_table t \<longleftrightarrow> sorted_wrt (\<lambda>r r'. hi r < lo r') t \<and> (\<forall>r \<in> set t. lo r \<le> hi r)"

definition in_table :: "uprop_range list \<Rightarrow> int \<Rightarrow> bool" where
  "in_table t cp \<longleftrightarrow> (\<exists>r \<in> set t. lo r \<le> cp \<and> cp \<le> hi r)"

lemma table_order:
  assumes "sorted_table t" "i < j" "j < length t"
  shows "hi (t ! i) < lo (t ! j)" "lo (t ! i) \<le> hi (t ! i)" "lo (t ! j) \<le> hi (t ! j)"
  using assms by (auto simp: sorted_table_def sorted_wrt_iff_nth_less)

lemma diff_le_self_int: "k - 1 \<le> (k :: int)" and le_add_one_int: "k \<le> (k :: int) + 1"
  by simp_all

lemma search_ranges_iff:
  assumes "sorted_table t" "0 \<le> l" "h < int (length t)"
  shows "search_ranges t cp l h \<longleftrightarrow> (\<exists>i. l \<le> int i \<and> int i \<le> h \<and> lo (t ! i) \<le> cp \<and> cp \<le> hi (t ! i))"
  using assms
proof (induction t cp l h rule: search_ranges.induct)
  case (1 t cp l h)
  let ?m = "(l + h) div 2"
  show ?case
  proof (cases "l \<le> h")
    case False
    then show ?thesis by (subst search_ranges.simps) auto
  next
    case True
    have m: "l \<le> ?m" "?m \<le> h" "nat ?m < length t" "0 \<le> ?m" using True "1.prems" by auto
    consider "cp < lo (t ! nat ?m)" | "lo (t ! nat ?m) \<le> cp" "cp > hi (t ! nat ?m)"
      | "lo (t ! nat ?m) \<le> cp" "cp \<le> hi (t ! nat ?m)" by linarith
    then show ?thesis
    proof cases
      case 1
      have "int i \<le> ?m - 1" if "int i \<le> h" "lo (t ! i) \<le> cp" "cp \<le> hi (t ! i)" for i
      proof (rule ccontr)
        assume "\<not> int i \<le> ?m - 1"
        then consider "i = nat ?m" | "nat ?m < i" using m by linarith
        moreover have "i < length t" using that(1) "1.prems" by linarith
        moreover have "lo (t ! nat ?m) \<le> lo (t ! i)" if "nat ?m < i" "i < length t"
          using table_order(1) [OF "1.prems"(1) that] table_order(2) [OF "1.prems"(1) that] by linarith
        ultimately show False using 1 that by cases fastforce+
      qed
      then have "(\<exists>i. l \<le> int i \<and> int i \<le> ?m - 1 \<and> lo (t ! i) \<le> cp \<and> cp \<le> hi (t ! i)) \<longleftrightarrow>
          (\<exists>i. l \<le> int i \<and> int i \<le> h \<and> lo (t ! i) \<le> cp \<and> cp \<le> hi (t ! i))"
        using m(2) by (meson diff_le_self_int order_trans)
      moreover have "search_ranges t cp l h = search_ranges t cp l (?m - 1)"
        using 1 True by (subst search_ranges.simps) (simp add: Let_def)
      ultimately show ?thesis using "1.IH"(1) [OF True refl 1 "1.prems"(1)] "1.prems" m by simp
    next
      case 2
      have "?m + 1 \<le> int i" if "l \<le> int i" "lo (t ! i) \<le> cp" "cp \<le> hi (t ! i)" for i
      proof (rule ccontr)
        assume "\<not> ?m + 1 \<le> int i"
        then consider "i = nat ?m" | "i < nat ?m" using m by linarith
        then show False using 2 that table_order [OF "1.prems"(1), of i "nat ?m"] m by cases auto
      qed
      then have "(\<exists>i. ?m + 1 \<le> int i \<and> int i \<le> h \<and> lo (t ! i) \<le> cp \<and> cp \<le> hi (t ! i)) \<longleftrightarrow>
          (\<exists>i. l \<le> int i \<and> int i \<le> h \<and> lo (t ! i) \<le> cp \<and> cp \<le> hi (t ! i))"
        using m(1) by (meson le_add_one_int order_trans)
      moreover have "search_ranges t cp l h = search_ranges t cp (?m + 1) h"
        using 2 True by (subst search_ranges.simps) (simp add: Let_def)
      ultimately show ?thesis using "1.IH"(2) [OF True refl _ _ "1.prems"(1)] 2 "1.prems" m by simp
    next
      case 3
      with True m show ?thesis
        by (subst search_ranges.simps) (auto simp: Let_def intro!: exI [of _ "nat ?m"])
    qed
  qed
qed

lemma uprop_range_contains_iff:
  assumes "sorted_table t"
  shows "uprop_range_contains t cp \<longleftrightarrow> in_table t cp"
  unfolding uprop_range_contains_def in_table_def
  by (subst search_ranges_iff [OF assms]) (auto simp: in_set_conv_nth Bex_def)


section \<open>Membership\<close>

text \<open>The code points a class lists, before negation.\<close>

definition class_lists :: "char_class \<Rightarrow> int \<Rightarrow> bool" where
  "class_lists cc cp \<longleftrightarrow>
     0 \<le> cp \<and> cp < 256 \<and> raw_test cc (word_of_int cp) \<or>
     0x80 \<le> cp \<and> ((\<exists>t \<in> set (u_prop_tables cc). in_table t cp) \<or> in_table (owned_ranges cc) cp)"

definition wf_tables :: "char_class \<Rightarrow> bool" where
  "wf_tables cc \<longleftrightarrow> wf_class cc \<and> (\<forall>t \<in> set (u_prop_tables cc). sorted_table t) \<and> sorted_table (owned_ranges cc)"

lemma raw_test_cp_bits:
  assumes "0 \<le> cp" "cp < 256"
  shows "drop_bit (nat (cp mod 8)) (bits cc ! nat (cp div 8)) AND 1 \<noteq> 0 \<longleftrightarrow> raw_test cc (word_of_int cp)"
proof -
  have "unat (word_of_int cp :: u8) = nat cp"
    using assms by (simp add: unsigned_of_int take_bit_int_eq_self nat_eq_iff)
  then show ?thesis using assms by (simp add: raw_test_bit test_bit nat_div_distrib nat_mod_distrib)
qed

lemma raw_test_cp_lists: "wf_tables cc \<Longrightarrow> raw_test_cp cc cp \<longleftrightarrow> class_lists cc cp"
  unfolding raw_test_cp_def class_lists_def Let_def wf_tables_def
  by (auto simp: raw_test_cp_bits uprop_range_contains_iff list_ex_iff)

text \<open>Case folding adds the other letter of an ASCII pair, below the negation.\<close>

definition case_variants :: "int \<Rightarrow> bool \<Rightarrow> int set" where
  "case_variants cp ci =
     insert cp (if ci \<and> 0x41 \<le> cp \<and> cp \<le> 0x5A then {cp + 0x20}
                else if ci \<and> 0x61 \<le> cp \<and> cp \<le> 0x7A then {cp - 0x20} else {})"

lemma ascii_case_pair_cp:
  assumes "0 \<le> cp" "cp < 128"
  shows "ascii_case_pair (word_of_int cp) =
    (if 0x41 \<le> cp \<and> cp \<le> 0x5A then Some (word_of_int (cp + 0x20))
     else if 0x61 \<le> cp \<and> cp \<le> 0x7A then Some (word_of_int (cp - 0x20)) else None)"
proof -
  have "list_all (\<lambda>c. word_of_int c OR 0x20 = (word_of_int (c + 0x20) :: u8)) [0x41..0x5A]"
    "list_all (\<lambda>c. word_of_int c AND NOT 0x20 = (word_of_int (c - 0x20) :: u8)) [0x61..0x7A]"
    by code_simp+
  then have "0x41 \<le> cp \<Longrightarrow> cp \<le> 0x5A \<Longrightarrow> word_of_int cp OR 0x20 = (word_of_int (cp + 0x20) :: u8)"
    "0x61 \<le> cp \<Longrightarrow> cp \<le> 0x7A \<Longrightarrow> word_of_int cp AND NOT 0x20 = (word_of_int (cp - 0x20) :: u8)"
    unfolding list_all_iff set_upto Ball_def atLeastAtMost_iff by blast+
  moreover have "unat (word_of_int cp :: u8) = nat cp"
    using assms by (simp add: unsigned_of_int take_bit_int_eq_self nat_eq_iff)
  ultimately show ?thesis using assms
    by (simp add: ascii_case_pair_def word_le_nat_alt nat_le_iff le_nat_iff)
qed

lemma class_test_cp_fold_iff:
  assumes "wf_tables cc"
  shows "class_test_cp_fold cc cp ci \<longleftrightarrow> (negate cc \<noteq> (\<exists>x \<in> case_variants cp ci. class_lists cc x))"
proof -
  have small: "class_lists cc x \<longleftrightarrow> raw_test cc (word_of_int x)" if "0 \<le> x" "x < 128" for x
    using that by (simp add: class_lists_def)
  show ?thesis
    unfolding class_test_cp_fold_def Let_def raw_test_cp_lists [OF assms]
    by (auto simp: ascii_case_pair_cp case_variants_def small)
qed

section \<open>Property tables\<close>

lemma add_table_range_step:
  assumes "wf_class cc" "0 \<le> lo r"
  shows "wf_class (fst (add_table_range r (cc, high)))"
    "raw_test (fst (add_table_range r (cc, high))) x \<longleftrightarrow>
       lo r \<le> uint x \<and> uint x \<le> min (hi r) 0x7F \<or> raw_test cc x"
    "snd (add_table_range r (cc, high)) \<longleftrightarrow> high \<or> hi r > 0x7F"
    "u_prop_tables (fst (add_table_range r (cc, high))) = u_prop_tables cc"
    "owned_ranges (fst (add_table_range r (cc, high))) = owned_ranges cc"
    "negate (fst (add_table_range r (cc, high))) = negate cc"
proof -
  have "x \<in> word_of_int ` {lo r .. min (hi r) 0x7F} \<longleftrightarrow> lo r \<le> uint x \<and> uint x \<le> min (hi r) 0x7F"
  proof
    assume "x \<in> word_of_int ` {lo r .. min (hi r) 0x7F}"
    then obtain k where "x = word_of_int k" "lo r \<le> k" "k \<le> min (hi r) 0x7F" by auto
    with assms show "lo r \<le> uint x \<and> uint x \<le> min (hi r) 0x7F"
      by (simp add: unsigned_of_int take_bit_int_eq_self)
  next
    assume "lo r \<le> uint x \<and> uint x \<le> min (hi r) 0x7F"
    then show "x \<in> word_of_int ` {lo r .. min (hi r) 0x7F}" by (intro image_eqI [of _ _ "uint x"]) auto
  qed
  then show "wf_class (fst (add_table_range r (cc, high)))"
    "raw_test (fst (add_table_range r (cc, high))) x \<longleftrightarrow>
       lo r \<le> uint x \<and> uint x \<le> min (hi r) 0x7F \<or> raw_test cc x"
    using assms by (auto simp: add_table_range_def bm.ok_fold bm.mem_fold)
qed (simp_all add: add_table_range_def)

lemma fold_add_table_range:
  assumes "wf_class cc" "\<forall>r \<in> set t. 0 \<le> lo r" "fold add_table_range t (cc, high) = (cc', high')"
  shows "wf_class cc' \<and> (raw_test cc' x \<longleftrightarrow> (uint x \<le> 0x7F \<and> in_table t (uint x)) \<or> raw_test cc x) \<and>
    (high' \<longleftrightarrow> high \<or> (\<exists>r \<in> set t. hi r > 0x7F)) \<and> u_prop_tables cc' = u_prop_tables cc \<and>
    owned_ranges cc' = owned_ranges cc \<and> negate cc' = negate cc"
  using assms
proof (induction t arbitrary: cc high)
  case Nil
  then show ?case by (simp add: in_table_def)
next
  case (Cons r t)
  obtain cc1 high1 where one: "add_table_range r (cc, high) = (cc1, high1)" by fastforce
  note step = add_table_range_step [of cc r high, unfolded one fst_conv snd_conv]
  have r: "wf_class cc" "0 \<le> lo r" using Cons.prems by simp_all
  have "wf_class cc' \<and> (raw_test cc' x \<longleftrightarrow> (uint x \<le> 0x7F \<and> in_table t (uint x)) \<or> raw_test cc1 x) \<and>
    (high' \<longleftrightarrow> high1 \<or> (\<exists>r \<in> set t. hi r > 0x7F)) \<and> u_prop_tables cc' = u_prop_tables cc1 \<and>
    owned_ranges cc' = owned_ranges cc1 \<and> negate cc' = negate cc1"
    using Cons.prems one step(1) [OF r] by (intro Cons.IH) auto
  then show ?case using step(2-) [OF r] by (auto simp: in_table_def)
qed

lemma add_property_table_lists:
  assumes "wf_tables cc" "sorted_table t" "\<forall>r \<in> set t. 0 \<le> lo r"
  shows "wf_tables (add_property_table cc t)"
    "class_lists (add_property_table cc t) cp \<longleftrightarrow> class_lists cc cp \<or> in_table t cp"
    "negate (add_property_table cc t) = negate cc"
proof -
  have wf: "wf_class cc" using assms(1) by (simp add: wf_tables_def)
  obtain cc' high where f: "fold add_table_range t (cc, False) = (cc', high)" by fastforce
  note F = fold_add_table_range [OF wf assms(3) f]
  show "wf_tables (add_property_table cc t)" "negate (add_property_table cc t) = negate cc"
    using F assms by (auto simp: add_property_table_def f wf_tables_def wf_class_def)
  have raw: "raw_test cc' x \<longleftrightarrow> (uint x \<le> 0x7F \<and> in_table t (uint x)) \<or> raw_test cc x" for x
    using F by blast
  have u: "uint (word_of_int cp :: u8) = cp" if "0 \<le> cp" "cp < 256"
    using that by (simp add: unsigned_of_int take_bit_int_eq_self)
  have pos: "in_table t cp \<Longrightarrow> 0 \<le> cp" using assms(3) by (auto simp: in_table_def)
  have low: "in_table t cp \<Longrightarrow> \<not> high \<Longrightarrow> cp \<le> 0x7F" using F by (fastforce simp: in_table_def)
  have upd: "raw_test (cc'\<lparr>u_prop_tables := ts\<rparr>) x = raw_test cc' x" for ts x by (simp add: raw_test_def)
  show "class_lists (add_property_table cc t) cp \<longleftrightarrow> class_lists cc cp \<or> in_table t cp"
    using F pos low by (auto simp: add_property_table_def f class_lists_def upd raw u)
qed

section \<open>Properties\<close>

text \<open>C31: adding a property table to a class is the union with the table, and the folded
  membership test looks up the code point and, under \<open>i\<close>, its ASCII case pair in the union of
  bitmap, tables and owned ranges, found by binary search, before the negation is applied.\<close>

theorem property_class_correct:
  assumes "wf_tables cc" "sorted_table t" "\<forall>r \<in> set t. 0 \<le> lo r"
  shows "class_test_cp_fold (add_property_table cc t) cp ci \<longleftrightarrow>
    (negate cc \<noteq> (\<exists>x \<in> case_variants cp ci. class_lists cc x \<or> in_table t x))"
  using class_test_cp_fold_iff [OF add_property_table_lists(1) [OF assms]]
    add_property_table_lists(2,3) [OF assms] by simp

lemma property_class_correct_witness:
  "class_test_cp_fold (add_property_table class_new
     [\<lparr>lo = 0x41, hi = 0x5A\<rparr>, \<lparr>lo = 0xC0, hi = 0xD6\<rparr>]) 0x61 True"
proof -
  let ?t = "[\<lparr>lo = 0x41, hi = 0x5A\<rparr>, \<lparr>lo = 0xC0, hi = 0xD6\<rparr>]"
  have "in_table ?t (0x61 - 0x20)" by (simp add: in_table_def)
  moreover have "0x61 - 0x20 \<in> case_variants 0x61 True" by (simp add: case_variants_def)
  ultimately have "\<exists>x \<in> case_variants 0x61 True. class_lists class_new x \<or> in_table ?t x" by blast
  moreover have "wf_tables class_new" "sorted_table ?t" "\<forall>r \<in> set ?t. 0 \<le> lo r" "\<not> negate class_new"
    by (simp_all add: wf_tables_def sorted_table_def) (simp_all add: class_new_def)
  ultimately show ?thesis using property_class_correct [of class_new ?t "0x61" True] by simp
qed

end
