(* ===== verification/Regex_Program.thy ===== *)
theory Regex_Program
  imports Regex_Class
begin

text \<open>
  The tree of \<open>node.rs\<close> and the bytecode of \<open>program.rs\<close>. Both are recursive
  structs and become single-constructor datatypes with one selector per field. The
  \<open>i32\<close> jump targets and slots are integers; a program holds fewer than \<open>2 ^ 31\<close>
  instructions. The lazily filled DFA slot of \<open>Program\<close> is a cache and has no field here.
\<close>

section \<open>The tree\<close>

datatype node_kind =
    NK_Char | NK_Any | NK_Class | NK_AnchorBeg | NK_AnchorEnd | NK_WBound | NK_NWBound
  | NK_Concat | NK_Alt | NK_StringSet | NK_Repeat | NK_Group
  | NK_Lookahead | NK_NegLookahead | NK_Lookbehind | NK_NegLookbehind | NK_Backref

datatype node =
  Node (n_kind: node_kind) (n_ch: u32) (n_cc: char_class) (n_kids: "node list")
    (n_min: int) (n_max: int) (n_lazy: bool) (n_child: "node option") (n_capture_idx: int)
    (n_backref_name: "u8 list") (n_eff_ims: u8)

definition node_new :: "node_kind \<Rightarrow> node" where
  "node_new k = Node k 0 class_new [] 0 (- 1) False None (- 1) [] 0"

definition push_kid :: "node \<Rightarrow> node \<Rightarrow> node" where
  "push_kid n kid =
     Node (n_kind n) (n_ch n) (n_cc n) (n_kids n @ [kid]) (n_min n) (n_max n) (n_lazy n)
       (n_child n) (n_capture_idx n) (n_backref_name n) (n_eff_ims n)"

definition with_class :: "node \<Rightarrow> char_class \<Rightarrow> node" where
  "with_class n cc =
     Node (n_kind n) (n_ch n) cc (n_kids n) (n_min n) (n_max n) (n_lazy n)
       (n_child n) (n_capture_idx n) (n_backref_name n) (n_eff_ims n)"

section \<open>Instructions\<close>

datatype op =
    OP_CHAR | OP_ANY_CHAR | OP_CLASS | OP_ANCHOR_B | OP_ANCHOR_E | OP_WBOUND | OP_NWBOUND
  | OP_JMP | OP_SPLIT | OP_MATCH | OP_SAVE
  | OP_LOOKAHEAD | OP_NEG_LOOKAHEAD | OP_LOOKBEHIND | OP_NEG_LOOKBEHIND | OP_BACKREF
  | OP_SAVE_RESET | OP_ITER_START | OP_ITER_CHECK

fun op_code :: "op \<Rightarrow> u8" where
  "op_code OP_CHAR = 1" | "op_code OP_ANY_CHAR = 2" | "op_code OP_CLASS = 3"
| "op_code OP_ANCHOR_B = 4" | "op_code OP_ANCHOR_E = 5" | "op_code OP_WBOUND = 6"
| "op_code OP_NWBOUND = 7" | "op_code OP_JMP = 8" | "op_code OP_SPLIT = 9"
| "op_code OP_MATCH = 10" | "op_code OP_SAVE = 11" | "op_code OP_LOOKAHEAD = 12"
| "op_code OP_NEG_LOOKAHEAD = 13" | "op_code OP_LOOKBEHIND = 14" | "op_code OP_NEG_LOOKBEHIND = 15"
| "op_code OP_BACKREF = 16" | "op_code OP_SAVE_RESET = 17" | "op_code OP_ITER_START = 18"
| "op_code OP_ITER_CHECK = 19"

definition op_from_u8 :: "u8 \<Rightarrow> op option" where
  "op_from_u8 b =
     (if b = 1 then Some OP_CHAR else if b = 2 then Some OP_ANY_CHAR else if b = 3 then Some OP_CLASS
      else if b = 4 then Some OP_ANCHOR_B else if b = 5 then Some OP_ANCHOR_E
      else if b = 6 then Some OP_WBOUND else if b = 7 then Some OP_NWBOUND
      else if b = 8 then Some OP_JMP else if b = 9 then Some OP_SPLIT
      else if b = 10 then Some OP_MATCH else if b = 11 then Some OP_SAVE
      else if b = 12 then Some OP_LOOKAHEAD else if b = 13 then Some OP_NEG_LOOKAHEAD
      else if b = 14 then Some OP_LOOKBEHIND else if b = 15 then Some OP_NEG_LOOKBEHIND
      else if b = 16 then Some OP_BACKREF else if b = 17 then Some OP_SAVE_RESET
      else if b = 18 then Some OP_ITER_START else if b = 19 then Some OP_ITER_CHECK
      else None)"

lemma op_from_code: "op_from_u8 (op_code p) = Some p"
  by (cases p) (simp_all add: op_from_u8_def)

text \<open>
  The opcode byte of an instruction is written from an \<open>Op\<close> by every constructor of
  \<open>Inst\<close>; the model keeps the \<open>Op\<close>.
\<close>

record inst =
  i_op :: op
  i_pad :: u16
  i_a :: int
  i_b :: int

definition inst_simple :: "op \<Rightarrow> inst" where
  "inst_simple p = \<lparr>i_op = p, i_pad = 0, i_a = 0, i_b = 0\<rparr>"

text \<open>A literal is below \<open>2 ^ 31\<close>, so its \<open>i32\<close> is the same number.\<close>

definition char_lit :: "u32 \<Rightarrow> inst" where
  "char_lit lit = \<lparr>i_op = OP_CHAR, i_pad = 0, i_a = sint lit, i_b = 0\<rparr>"

definition inst_byte :: "inst \<Rightarrow> u8" where
  "inst_byte i = word_of_int (i_a i)"

definition class_ref :: "int \<Rightarrow> inst" where
  "class_ref i = \<lparr>i_op = OP_CLASS, i_pad = 0, i_a = i, i_b = 0\<rparr>"

definition inst_jmp :: "int \<Rightarrow> inst" where
  "inst_jmp t = \<lparr>i_op = OP_JMP, i_pad = 0, i_a = t, i_b = 0\<rparr>"

definition inst_split :: "int \<Rightarrow> int \<Rightarrow> inst" where
  "inst_split x y = \<lparr>i_op = OP_SPLIT, i_pad = 0, i_a = x, i_b = y\<rparr>"

definition inst_save :: "int \<Rightarrow> inst" where
  "inst_save slot = \<lparr>i_op = OP_SAVE, i_pad = 0, i_a = slot, i_b = 0\<rparr>"

definition inst_save_reset :: "int \<Rightarrow> int \<Rightarrow> inst" where
  "inst_save_reset first end = \<lparr>i_op = OP_SAVE_RESET, i_pad = 0, i_a = first, i_b = end\<rparr>"

definition inst_iter_check :: "int \<Rightarrow> inst" where
  "inst_iter_check start = \<lparr>i_op = OP_ITER_CHECK, i_pad = 0, i_a = start, i_b = 0\<rparr>"

definition match_accept :: inst where
  "match_accept = inst_simple OP_MATCH"

definition inst_backref :: "int \<Rightarrow> inst" where
  "inst_backref cap = \<lparr>i_op = OP_BACKREF, i_pad = 0, i_a = cap, i_b = 0\<rparr>"

definition inst_lookaround :: "op \<Rightarrow> int \<Rightarrow> inst" where
  "inst_lookaround p sub = \<lparr>i_op = p, i_pad = 0, i_a = sub, i_b = 0\<rparr>"

section \<open>Programs\<close>

datatype program =
  Program (p_insts: "inst list") (p_classes: "char_class list") (p_sub_progs: "program list")
    (p_prefix_byte: "u8 option") (p_literal: "u8 list option") (p_can_dfa: bool)
    (p_has_save: bool) (p_has_ml_anchor_b: bool) (p_backref_caps: "int list") (p_raw_classes: bool)

definition program_new :: program where
  "program_new = Program [] [] [] None None False False False [] False"

definition with_insts :: "program \<Rightarrow> inst list \<Rightarrow> program" where
  "with_insts p is = Program is (p_classes p) (p_sub_progs p) (p_prefix_byte p) (p_literal p)
     (p_can_dfa p) (p_has_save p) (p_has_ml_anchor_b p) (p_backref_caps p) (p_raw_classes p)"

definition with_classes :: "program \<Rightarrow> char_class list \<Rightarrow> program" where
  "with_classes p cs = Program (p_insts p) cs (p_sub_progs p) (p_prefix_byte p) (p_literal p)
     (p_can_dfa p) (p_has_save p) (p_has_ml_anchor_b p) (p_backref_caps p) (p_raw_classes p)"

definition with_sub_progs :: "program \<Rightarrow> program list \<Rightarrow> program" where
  "with_sub_progs p ss = Program (p_insts p) (p_classes p) ss (p_prefix_byte p) (p_literal p)
     (p_can_dfa p) (p_has_save p) (p_has_ml_anchor_b p) (p_backref_caps p) (p_raw_classes p)"

text \<open>The index that \<open>emit\<close> returns is the \<open>next_idx\<close> of the program before it.\<close>

definition emit :: "program \<Rightarrow> inst \<Rightarrow> program" where
  "emit p i = with_insts p (p_insts p @ [i])"

definition next_idx :: "program \<Rightarrow> int" where
  "next_idx p = int (length (p_insts p))"

definition intern_class :: "program \<Rightarrow> char_class \<Rightarrow> program \<times> int" where
  "intern_class p cc = (with_classes p (p_classes p @ [cc]), int (length (p_classes p)))"

definition add_sub :: "program \<Rightarrow> program \<Rightarrow> program \<times> int" where
  "add_sub p sub = (with_sub_progs p (p_sub_progs p @ [sub]), int (length (p_sub_progs p)))"

fun any_save :: "program \<Rightarrow> bool" where
  "any_save (Program is cs subs pb li dfa hs ml bc raw) \<longleftrightarrow>
     list_ex (\<lambda>i. i_op i = OP_SAVE) is \<or> list_ex any_save subs"

fun finalize_backref_caps :: "program \<Rightarrow> program" where
  "finalize_backref_caps (Program is cs subs pb li dfa hs ml bc raw) =
     Program is cs (map finalize_backref_caps subs) pb li dfa hs ml
       (remdups_adj (sort (map i_a (filter (\<lambda>i. i_op i = OP_BACKREF) is)))) raw"

text \<open>Backpatching of one field of an emitted instruction.\<close>

definition patch_a :: "program \<Rightarrow> int \<Rightarrow> int \<Rightarrow> program" where
  "patch_a p i t = with_insts p ((p_insts p)[nat i := (p_insts p ! nat i)\<lparr>i_a := t\<rparr>])"

definition patch_b :: "program \<Rightarrow> int \<Rightarrow> int \<Rightarrow> program" where
  "patch_b p i t = with_insts p ((p_insts p)[nat i := (p_insts p ! nat i)\<lparr>i_b := t\<rparr>])"

end
