(* ===== verification/Regex_Expand.thy ===== *)
theory Regex_Expand
  imports Regex_Program
begin

text \<open>
  \<open>utf8_class_expand.rs\<close>: a class that the matcher cannot step one byte at a time is
  rewritten into an alternation of byte-range sequences. The specification is the set
  of encodings of the code points of the class; \<open>expand_exact\<close> shows that the
  sequences accept exactly these.
\<close>

section \<open>The code point ranges of a class\<close>

definition CP_MAX :: nat where "CP_MAX = 0x10FFFF"

text \<open>\<open>start\<close> is the first code point of the open range, if one is open.\<close>

function ranges_loop :: "(nat \<Rightarrow> bool) \<Rightarrow> nat \<Rightarrow> nat \<Rightarrow> nat option \<Rightarrow> (nat \<times> nat) list" where
  "ranges_loop member limit cp start =
     (if cp \<le> limit then
        (if member cp then
           ranges_loop member limit (cp + 1) (case start of None \<Rightarrow> Some cp | Some s \<Rightarrow> Some s)
         else
           (case start of
              Some s \<Rightarrow> (s, cp - 1) # ranges_loop member limit (cp + 1) None
            | None \<Rightarrow> ranges_loop member limit (cp + 1) None))
      else (case start of Some s \<Rightarrow> [(s, limit)] | None \<Rightarrow> []))"
  by pat_completeness auto
termination
  by (relation "measure (\<lambda>(_, limit, cp, _). Suc limit - cp)") auto

declare ranges_loop.simps [simp del]

definition cp_ranges_of :: "char_class \<Rightarrow> bool \<Rightarrow> (nat \<times> nat) list" where
  "cp_ranges_of cc ci = ranges_loop (\<lambda>cp. class_test_cp_fold cc (int cp) ci) CP_MAX 0 None"

definition LEN_BOUNDS :: "(nat \<times> nat) list" where
  "LEN_BOUNDS = [(0x000000, 0x00007F), (0x000080, 0x0007FF), (0x000800, 0x00FFFF), (0x010000, 0x10FFFF)]"

definition ranges_in_len :: "(nat \<times> nat) list \<Rightarrow> nat \<Rightarrow> (nat \<times> nat) list" where
  "ranges_in_len ranges len =
     (let (wlo, whi) = LEN_BOUNDS ! (len - 1) in
      concat (map (\<lambda>(l, h).
        (let l = max l wlo; h = min h whi in if l > h then [] else [(l, h)])) ranges))"

section \<open>Byte sequences\<close>

text \<open>The two bounds have the same length; the sequences are returned in the order of \<open>out\<close>.\<close>

fun emit_byte_recurse :: "u8 list \<Rightarrow> u8 list \<Rightarrow> u8 list \<Rightarrow> (u8 \<times> u8) list list" where
  "emit_byte_recurse [] hs prefix = [map (\<lambda>b. (b, b)) prefix]"
| "emit_byte_recurse (l # ls) (h # hs) prefix =
     (if l = h then emit_byte_recurse ls hs (prefix @ [l])
      else
        emit_byte_recurse ls (replicate (length ls) 0xBF) (prefix @ [l]) @
        (if h > l + 1 then
           [map (\<lambda>b. (b, b)) prefix @ [(l + 1, h - 1)] @ replicate (length ls) (0x80, 0xBF)]
         else []) @
        emit_byte_recurse (replicate (length ls) 0x80) hs (prefix @ [h]))"
| "emit_byte_recurse (l # ls) [] prefix = []"

section \<open>The expansion\<close>

definition empty_class_node :: node where
  "empty_class_node = with_class (node_new NK_Class) (class_new\<lparr>byte_only := True\<rparr>)"

definition class_node_for_range :: "u8 \<Rightarrow> u8 \<Rightarrow> node" where
  "class_node_for_range l h =
     with_class (node_new NK_Class) (class_add_range (class_new\<lparr>byte_only := True\<rparr>) l h)"

definition concat_to_node :: "(u8 \<times> u8) list \<Rightarrow> node" where
  "concat_to_node c =
     (if length c = 1 then class_node_for_range (fst (c ! 0)) (snd (c ! 0))
      else fold (\<lambda>(l, h) n. push_kid n (class_node_for_range l h)) c (node_new NK_Concat))"

definition concats_to_node :: "(u8 \<times> u8) list list \<Rightarrow> node" where
  "concats_to_node cs =
     (if length cs = 1 then concat_to_node (cs ! 0)
      else fold (\<lambda>c n. push_kid n (concat_to_node c)) cs (node_new NK_Alt))"

definition byte_steppable :: "char_class \<Rightarrow> bool \<Rightarrow> bool" where
  "byte_steppable cc uflag =
     (if negate cc \<or> u_prop_tables cc \<noteq> [] then False
      else if list_ex (\<lambda>b. b \<noteq> 0) (drop 16 (bits cc)) then False
      else uflag \<or> owned_ranges cc = [])"

definition class_concats :: "(nat \<times> nat) list \<Rightarrow> (u8 \<times> u8) list list" where
  "class_concats ranges =
     concat (map (\<lambda>len.
       concat (map (\<lambda>(l, h).
         emit_byte_recurse (utf8_encode_cp (int l)) (utf8_encode_cp (int h)) [])
         (ranges_in_len ranges len))) [1, 2, 3, 4])"

definition expand_unsafe_class :: "char_class \<Rightarrow> bool \<Rightarrow> bool \<Rightarrow> node option" where
  "expand_unsafe_class cc uflag ci =
     (if byte_only cc then None
      else if u_prop_tables cc \<noteq> [] then None
      else if byte_steppable cc uflag then None
      else
        (let ranges = cp_ranges_of cc ci in
         if ranges = [] then Some empty_class_node
         else
           (let concats = class_concats ranges in
            if concats = [] then Some empty_class_node
            else Some (concats_to_node concats))))"

section \<open>The ranges are the class\<close>

definition in_ranges :: "(nat \<times> nat) list \<Rightarrow> nat \<Rightarrow> bool" where
  "in_ranges rs n \<longleftrightarrow> (\<exists>(l, h) \<in> set rs. l \<le> n \<and> n \<le> h)"

lemma in_ranges_simps [simp]:
  "\<not> in_ranges [] n" "in_ranges ((l, h) # rs) n \<longleftrightarrow> l \<le> n \<and> n \<le> h \<or> in_ranges rs n"
  by (auto simp: in_ranges_def)

lemma ranges_loop_iff:
  assumes "case start of None \<Rightarrow> True | Some s \<Rightarrow> s < cp \<and> (\<forall>k. s \<le> k \<and> k < cp \<longrightarrow> member k)"
    "cp \<le> Suc limit"
  shows "in_ranges (ranges_loop member limit cp start) n \<longleftrightarrow>
    n \<le> limit \<and> ((case start of None \<Rightarrow> False | Some s \<Rightarrow> s \<le> n \<and> n < cp) \<or> cp \<le> n \<and> member n)"
  using assms
proof (induction member limit cp start rule: ranges_loop.induct)
  case (1 member limit cp start)
  show ?case
  proof (cases "cp \<le> limit")
    case False
    with "1.prems" show ?thesis by (subst ranges_loop.simps) (auto split: option.splits)
  next
    case True
    show ?thesis
    proof (cases "member cp")
      case m: True
      let ?s = "case start of None \<Rightarrow> Some cp | Some s \<Rightarrow> Some s"
      have "in_ranges (ranges_loop member limit (cp + 1) ?s) n \<longleftrightarrow>
        n \<le> limit \<and> ((case ?s of None \<Rightarrow> False | Some s \<Rightarrow> s \<le> n \<and> n < cp + 1) \<or> cp + 1 \<le> n \<and> member n)"
        using "1.prems" True m by (intro "1.IH"(1)) (auto split: option.splits simp: less_Suc_eq)
      then show ?thesis using True m "1.prems"
        by (subst ranges_loop.simps) (auto split: option.splits simp: less_Suc_eq not_le)
    next
      case m: False
      have IH: "in_ranges (ranges_loop member limit (cp + 1) None) n \<longleftrightarrow>
        n \<le> limit \<and> (cp + 1 \<le> n \<and> member n)"
      proof (cases start)
        case None
        then show ?thesis using "1.IH"(2) [OF True m None] True by simp
      next
        case (Some s)
        then show ?thesis using "1.IH"(3) [OF True m Some] True by simp
      qed
      show ?thesis
        using True m "1.prems" IH
        by (subst ranges_loop.simps) (auto split: option.splits simp: Suc_le_eq le_less)
    qed
  qed
qed

lemma cp_ranges_iff:
  "in_ranges (cp_ranges_of cc ci) n \<longleftrightarrow> n \<le> CP_MAX \<and> class_test_cp_fold cc (int n) ci"
  unfolding cp_ranges_of_def by (subst ranges_loop_iff) auto

definition window :: "nat \<Rightarrow> nat \<Rightarrow> bool" where
  "window len n \<longleftrightarrow> fst (LEN_BOUNDS ! (len - 1)) \<le> n \<and> n \<le> snd (LEN_BOUNDS ! (len - 1))"

lemma ranges_in_len_iff:
  "in_ranges (ranges_in_len rs len) n \<longleftrightarrow> in_ranges rs n \<and> window len n"
proof -
  obtain wlo whi where w: "LEN_BOUNDS ! (len - Suc 0) = (wlo, whi)" by fastforce
  show ?thesis
  proof
    show "in_ranges (ranges_in_len rs len) n \<Longrightarrow> in_ranges rs n \<and> window len n"
      by (fastforce simp: in_ranges_def ranges_in_len_def window_def w Let_def split: if_splits)
  next
    assume "in_ranges rs n \<and> window len n"
    then obtain l h where "(l, h) \<in> set rs" "l \<le> n" "n \<le> h" "wlo \<le> n" "n \<le> whi"
      by (auto simp: in_ranges_def window_def w)
    then have m: "max l wlo \<le> n" "n \<le> min h whi" by simp_all
    then have "\<not> min h whi < max l wlo" by linarith
    with \<open>(l, h) \<in> set rs\<close> have "(max l wlo, min h whi) \<in> set (ranges_in_len rs len)"
      unfolding ranges_in_len_def One_nat_def w Let_def prod.case set_concat set_map
      by (intro UnionI [of "{(max l wlo, min h whi)}"] image_eqI [of _ _ "[(max l wlo, min h whi)]"]
          image_eqI [of _ _ "(l, h)"]) auto
    with m show "in_ranges (ranges_in_len rs len) n" unfolding in_ranges_def by blast
  qed
qed

lemma ranges_in_len_window:
  assumes "(l, h) \<in> set (ranges_in_len rs len)"
  shows "l \<le> h \<and> window len l \<and> window len h"
proof -
  obtain wlo whi where w: "LEN_BOUNDS ! (len - Suc 0) = (wlo, whi)" by fastforce
  show ?thesis using assms
    by (auto simp: ranges_in_len_def window_def w Let_def split: if_splits)
qed

lemma some_window: "n \<le> CP_MAX \<Longrightarrow> \<exists>len \<in> {1, 2, 3, 4}. window len n"
  by (auto simp: window_def LEN_BOUNDS_def CP_MAX_def)

section \<open>Encodings in lexicographic order\<close>

fun lex_le :: "nat list \<Rightarrow> nat list \<Rightarrow> bool" where
  "lex_le (x # xs) (y # ys) \<longleftrightarrow> x < y \<or> x = y \<and> lex_le xs ys"
| "lex_le _ _ \<longleftrightarrow> True"

lemma lex_le_snoc:
  "length xs = length ys \<Longrightarrow>
   lex_le (xs @ [x]) (ys @ [y]) \<longleftrightarrow> (xs \<noteq> ys \<and> lex_le xs ys) \<or> (xs = ys \<and> x \<le> y)"
  by (induction xs ys rule: list_induct2) auto

text \<open>A lead of base \<open>c\<close> followed by \<open>k\<close> continuation bytes.\<close>

primrec enc64 :: "nat \<Rightarrow> nat \<Rightarrow> nat \<Rightarrow> nat list" where
  "enc64 c 0 v = [c + v]"
| "enc64 c (Suc k) v = enc64 c k (v div 0x40) @ [0x80 + v mod 0x40]"

lemma length_enc64 [simp]: "length (enc64 c k v) = Suc k"
  by (induction k arbitrary: v) simp_all

lemma enc64_inj: "enc64 c k v = enc64 c k w \<longleftrightarrow> v = w"
proof (induction k arbitrary: v w)
  case (Suc k)
  have "v = w \<longleftrightarrow> v div 0x40 = w div 0x40 \<and> v mod 0x40 = w mod 0x40" by (metis div_mult_mod_eq)
  with Suc show ?case by simp
qed simp

lemma enc64_lex: "lex_le (enc64 c k v) (enc64 c k w) \<longleftrightarrow> v \<le> w"
proof (induction k arbitrary: v w)
  case (Suc k)
  have "v \<le> w \<longleftrightarrow> v div 0x40 < w div 0x40 \<or> v div 0x40 = w div 0x40 \<and> v mod 0x40 \<le> w mod 0x40"
  proof -
    have "v = v div 0x40 * 0x40 + v mod 0x40" "w = w div 0x40 * 0x40 + w mod 0x40" by simp_all
    moreover have "v mod 0x40 < 0x40" "w mod 0x40 < 0x40" by simp_all
    ultimately show ?thesis by linarith
  qed
  with Suc show ?case by (auto simp: lex_le_snoc enc64_inj)
qed auto

definition cont :: "nat \<Rightarrow> bool" where
  "cont x \<longleftrightarrow> 0x80 \<le> x \<and> x \<le> 0xBF"

lemma enc64_tail: "list_all cont (tl (enc64 c k v))"
proof (induction k arbitrary: v)
  case (Suc k)
  have "v mod 0x40 < 0x40" by simp
  then have "cont (0x80 + v mod 0x40)" unfolding cont_def by linarith
  moreover have "enc64 c k (v div 0x40) \<noteq> []" using length_enc64 [of c k "v div 0x40"] by (metis Zero_not_Suc list.size(3))
  ultimately show ?case using Suc.IH [of "v div 0x40"] by simp
qed simp

lemma enc64_surj:
  assumes "length bs = Suc k" "list_all cont (tl bs)" "c \<le> hd bs"
  shows "\<exists>v. bs = enc64 c k v"
  using assms
proof (induction k arbitrary: bs)
  case 0
  then show ?case by (cases bs) (auto intro!: exI [of _ "hd bs - c"])
next
  case (Suc k)
  then obtain bs' b where bs: "bs = bs' @ [b]" "length bs' = Suc k" by (metis length_Suc_conv_rev)
  then have "bs' \<noteq> []" by auto
  then have "list_all cont (tl bs')" "cont b" "c \<le> hd bs'" using Suc.prems bs by (auto simp: tl_append split: list.splits)
  with Suc.IH bs obtain v where v: "bs' = enc64 c k v" by blast
  have "b - 0x80 < 0x40" using \<open>cont b\<close> unfolding cont_def by linarith
  then have "(v * 0x40 + (b - 0x80)) div 0x40 = v" "(v * 0x40 + (b - 0x80)) mod 0x40 = b - 0x80"
    by (metis add.right_neutral div_less div_mult_self3 zero_neq_numeral) (metis mod_less mod_mult_self3 \<open>b - 0x80 < 0x40\<close>)
  moreover have "0x80 + (b - 0x80) = b" using \<open>cont b\<close> by (simp add: cont_def)
  ultimately have "bs = enc64 c (Suc k) (v * 0x40 + (b - 0x80))" using v bs by (simp only: enc64.simps)
  then show ?case by blast
qed

definition lead_base :: "nat \<Rightarrow> nat" where
  "lead_base len = (if len = 1 then 0 else if len = 2 then 0xC0 else if len = 3 then 0xE0 else 0xF0)"

lemma code_bytes_enc64:
  assumes "len \<in> {1, 2, 3, 4}" "window len n"
  shows "code_bytes n = enc64 (lead_base len) (len - 1) n"
proof -
  have d: "n div 0x40 div 0x40 = n div 0x1000" "n div 0x1000 div 0x40 = n div 0x40000"
    by (simp_all flip: div_mult2_eq)
  have "len = 1 \<or> len = 2 \<or> len = 3 \<or> len = 4" using assms(1) by auto
  then show ?thesis
  proof (elim disjE)
    assume "len = 1" then show ?thesis using assms(2) by (simp add: window_def LEN_BOUNDS_def code_bytes_def lead_base_def)
  next
    assume "len = 2" then show ?thesis using assms(2) by (simp add: window_def LEN_BOUNDS_def code_bytes_def lead_base_def)
  next
    assume "len = 3"
    then have n: "0x800 \<le> n" "n < 0x10000" "len - 1 = Suc (Suc 0)" using assms(2) by (simp_all add: window_def LEN_BOUNDS_def)
    show ?thesis unfolding n(3) enc64.simps d using n \<open>len = 3\<close> by (simp add: code_bytes_def lead_base_def)
  next
    assume "len = 4"
    then have n: "0x10000 \<le> n" "len - 1 = Suc (Suc (Suc 0))" using assms(2) by (simp_all add: window_def LEN_BOUNDS_def)
    show ?thesis unfolding n(2) enc64.simps d using n \<open>len = 4\<close> by (simp add: code_bytes_def lead_base_def)
  qed
qed

lemma window_range: "window len l \<Longrightarrow> window len h \<Longrightarrow> l \<le> n \<Longrightarrow> n \<le> h \<Longrightarrow> window len n"
  by (auto simp: window_def)

lemma enc64_nonempty [simp]: "enc64 c k v \<noteq> []"
  using length_enc64 [of c k v] by (metis Zero_not_Suc list.size(3))

lemma hd_enc64: "c \<le> hd (enc64 c k v)"
  by (induction k arbitrary: v) simp_all

lemma lex_le_hd: "lex_le xs ys \<Longrightarrow> xs \<noteq> [] \<Longrightarrow> ys \<noteq> [] \<Longrightarrow> hd xs \<le> hd ys"
  by (cases xs; cases ys) auto

lemma between_encodings:
  assumes "len \<in> {1, 2, 3, 4}" "window len l" "window len h"
  shows "length xs = len \<and> list_all cont (tl xs) \<and> lex_le (code_bytes l) xs \<and> lex_le xs (code_bytes h) \<longleftrightarrow>
    (\<exists>n. l \<le> n \<and> n \<le> h \<and> xs = code_bytes n)" (is "?L \<longleftrightarrow> ?R")
proof -
  let ?e = "enc64 (lead_base len) (len - 1)"
  have e: "code_bytes l = ?e l" "code_bytes h = ?e h" using assms by (simp_all add: code_bytes_enc64)
  have len: "Suc (len - 1) = len" using assms(1) by auto
  show ?thesis
  proof
    assume L: ?L
    then have "xs \<noteq> []" using assms(1) by auto
    then have "lead_base len \<le> hd xs"
      using L lex_le_hd [of "?e l" xs] hd_enc64 [of "lead_base len" "len - 1" l] by (auto simp: e)
    then obtain n where n: "xs = ?e n" using L len enc64_surj [of xs "len - 1" "lead_base len"] by auto
    then have "l \<le> n" "n \<le> h" using L by (simp_all add: e enc64_lex)
    moreover have "xs = code_bytes n"
      using n code_bytes_enc64 [OF assms(1) window_range [OF assms(2,3) \<open>l \<le> n\<close> \<open>n \<le> h\<close>]] by simp
    ultimately show ?R by blast
  next
    assume ?R
    then obtain n where n: "l \<le> n" "n \<le> h" "xs = code_bytes n" by blast
    then have x: "xs = ?e n" using code_bytes_enc64 [OF assms(1) window_range [OF assms(2,3)]] by simp
    show ?L unfolding e x using n len by (simp add: enc64_lex enc64_tail)
  qed
qed

section \<open>The byte sequences cover an interval\<close>

definition seq_accepts :: "(u8 \<times> u8) list \<Rightarrow> u8 list \<Rightarrow> bool" where
  "seq_accepts c bs \<longleftrightarrow> list_all2 (\<lambda>(l, h) b. l \<le> b \<and> b \<le> h) c bs"

abbreviation some_accepts :: "(u8 \<times> u8) list list \<Rightarrow> u8 list \<Rightarrow> bool" where
  "some_accepts cs bs \<equiv> \<exists>c \<in> set cs. seq_accepts c bs"

abbreviation bcont :: "u8 \<Rightarrow> bool" where
  "bcont b \<equiv> cont (unat b)"

abbreviation blex :: "u8 list \<Rightarrow> u8 list \<Rightarrow> bool" where
  "blex xs ys \<equiv> lex_le (map unat xs) (map unat ys)"

lemma seq_accepts_Nil [simp]: "seq_accepts [] bs \<longleftrightarrow> bs = []"
  by (simp add: seq_accepts_def)

lemma seq_accepts_Cons [simp]:
  "seq_accepts ((l, h) # c) bs \<longleftrightarrow> (\<exists>b bs'. bs = b # bs' \<and> l \<le> b \<and> b \<le> h \<and> seq_accepts c bs')"
  by (auto simp: seq_accepts_def list_all2_Cons1)

lemma seq_accepts_prefix:
  "seq_accepts (map (\<lambda>b. (b, b)) prefix @ c) bs \<longleftrightarrow> (\<exists>t. bs = prefix @ t \<and> seq_accepts c t)"
  by (induction prefix arbitrary: bs) (auto simp: seq_accepts_def list_all2_Cons1)

lemma seq_accepts_conts: "seq_accepts (replicate n (0x80, 0xBF)) t \<longleftrightarrow> length t = n \<and> list_all bcont t"
proof (induction n arbitrary: t)
  case (Suc n)
  have "0x80 \<le> b \<and> b \<le> 0xBF \<longleftrightarrow> bcont b" for b :: u8 by (simp add: cont_def word_le_nat_alt)
  then show ?case by (cases t) (simp_all add: Suc.IH conj_ac)
qed auto

lemma lex_min: "list_all bcont t \<Longrightarrow> length t = n \<Longrightarrow> blex (replicate n 0x80) t"
  by (induction n arbitrary: t) (auto simp: length_Suc_conv cont_def)

lemma lex_max: "list_all bcont t \<Longrightarrow> length t = n \<Longrightarrow> blex t (replicate n 0xBF)"
  by (induction n arbitrary: t) (auto simp: length_Suc_conv cont_def)

lemma list_all_tl: "list_all P xs \<Longrightarrow> list_all P (tl xs)"
  by (cases xs) simp_all

lemma lex_cont_head:
  "list_all bcont ls \<Longrightarrow> list_all bcont hs \<Longrightarrow> length ls = length t \<Longrightarrow> length hs = length t \<Longrightarrow>
   list_all bcont (tl t) \<Longrightarrow> blex ls t \<Longrightarrow> blex t hs \<Longrightarrow> list_all bcont t"
  by (cases ls; cases hs; cases t) (simp_all add: cont_def, linarith?)

lemma unat_succ_below: "l < h \<Longrightarrow> unat (l + 1) = Suc (unat l)" for l h :: u8
proof -
  assume "l < h"
  then have "l \<noteq> - 1" using word_n1_ge [of h] by (auto simp: linorder_not_le [symmetric])
  then have "1 + l \<noteq> 0" by (metis add.commute add_eq_0_iff add.inverse_inverse)
  then show ?thesis using unatSuc [of l] by (simp add: add.commute)
qed

lemma strictly_between: "l < h \<Longrightarrow> l + 1 \<le> b \<and> b \<le> h - 1 \<longleftrightarrow> l < b \<and> b < h" for l h b :: u8
proof -
  assume lh: "l < h"
  then have "h \<noteq> 0" by auto
  then have "unat (h - 1) = unat h - 1" "0 < unat h" by (simp_all add: unat_minus_one unat_gt_0)
  with unat_succ_below [OF lh] show ?thesis unfolding word_le_nat_alt word_less_nat_alt by linarith
qed

lemma strictly_between_room: "l < b \<Longrightarrow> b < h \<Longrightarrow> l + 1 < h" for l h b :: u8
  using unat_succ_below [of l b] unfolding word_less_nat_alt by linarith

lemma ex_Cons_suffix:
  "(\<exists>t. bs = p @ t \<and> length t = Suc n \<and> P t) \<longleftrightarrow> (\<exists>b t. bs = p @ b # t \<and> length t = n \<and> P (b # t))"
  by (auto simp: length_Suc_conv)

lemma emit_byte_recurse_iff:
  assumes "length ls = length hs" "list_all bcont (tl ls)" "list_all bcont (tl hs)" "blex ls hs"
  shows "some_accepts (emit_byte_recurse ls hs prefix) bs \<longleftrightarrow>
    (\<exists>t. bs = prefix @ t \<and> length t = length ls \<and> list_all bcont (tl t) \<and> blex ls t \<and> blex t hs)"
  using assms
proof (induction ls hs prefix arbitrary: bs rule: emit_byte_recurse.induct)
  case (1 hs prefix)
  then show ?case using seq_accepts_prefix [of prefix "[]" bs] by simp
next
  case (2 l ls h hs prefix)
  have len: "length ls = length hs" and c: "list_all bcont ls" "list_all bcont hs" using "2.prems" by simp_all
  let ?n = "length ls"
  show ?case
  proof (cases "l = h")
    case True
    have keep: "length t = ?n \<and> list_all bcont (tl t) \<and> blex ls t \<and> blex t hs \<longleftrightarrow>
      length t = ?n \<and> list_all bcont t \<and> blex ls t \<and> blex t hs" for t
      using lex_cont_head [OF c, of t] len list_all_tl [of bcont t] by metis
    have pinned: "blex (l # ls) (b # t) \<and> blex (b # t) (l # hs) \<longleftrightarrow> b = l \<and> blex ls t \<and> blex t hs" for b t
      by (auto simp: word_unat_eq_iff)
    from True have "some_accepts (emit_byte_recurse ls hs (prefix @ [l])) bs \<longleftrightarrow>
      (\<exists>t. bs = (prefix @ [l]) @ t \<and> length t = ?n \<and> list_all bcont (tl t) \<and> blex ls t \<and> blex t hs)"
      using "2.prems" c by (intro "2.IH"(1)) (auto simp: list_all_tl)
    also have "\<dots> \<longleftrightarrow> (\<exists>t. bs = prefix @ l # t \<and> length t = ?n \<and> list_all bcont t \<and> blex ls t \<and> blex t hs)"
      using keep by (simp only: append_assoc append_Cons append_Nil)
    also have "\<dots> \<longleftrightarrow> (\<exists>t. bs = prefix @ t \<and> length t = length (l # ls) \<and> list_all bcont (tl t) \<and>
        blex (l # ls) t \<and> blex t (h # hs))"
      unfolding list.size(4) add_0_right add_Suc_right One_nat_def ex_Cons_suffix list.sel pinned True [symmetric]
      by blast
    finally show ?thesis using True by simp
  next
    case False
    then have lh: "l < h" using "2.prems"(4) by (auto simp: word_unat_eq_iff word_less_nat_alt)
    let ?lo = "replicate ?n (0x80 :: u8)" and ?hi = "replicate ?n (0xBF :: u8)"
    have cr: "list_all bcont (replicate k 0x80)" "list_all bcont (replicate k 0xBF)" for k by (simp_all add: cont_def list_all_length)
    have A: "some_accepts (emit_byte_recurse ls ?hi (prefix @ [l])) bs \<longleftrightarrow>
      (\<exists>t. bs = prefix @ l # t \<and> length t = ?n \<and> list_all bcont t \<and> blex ls t)"
      (is "_ \<longleftrightarrow> ?A")
    proof -
      have "some_accepts (emit_byte_recurse ls ?hi (prefix @ [l])) bs \<longleftrightarrow>
        (\<exists>t. bs = (prefix @ [l]) @ t \<and> length t = ?n \<and> list_all bcont (tl t) \<and> blex ls t \<and> blex t ?hi)"
        using False c cr lex_max [OF c(1) refl] by (intro "2.IH"(2)) (simp_all add: list_all_tl)
      moreover have "length t = ?n \<and> list_all bcont (tl t) \<and> blex ls t \<and> blex t ?hi \<longleftrightarrow>
        length t = ?n \<and> list_all bcont t \<and> blex ls t" for t
        using lex_cont_head [OF c(1) cr(2), of t ?n] lex_max [of t ?n] list_all_tl [of bcont t] by (metis length_replicate)
      ultimately show ?thesis by (simp only: append_assoc append_Cons append_Nil)
    qed
    have C: "some_accepts (emit_byte_recurse ?lo hs (prefix @ [h])) bs \<longleftrightarrow>
      (\<exists>t. bs = prefix @ h # t \<and> length t = ?n \<and> list_all bcont t \<and> blex t hs)"
      (is "_ \<longleftrightarrow> ?C")
    proof -
      have "some_accepts (emit_byte_recurse ?lo hs (prefix @ [h])) bs \<longleftrightarrow>
        (\<exists>t. bs = (prefix @ [h]) @ t \<and> length t = length ?lo \<and> list_all bcont (tl t) \<and> blex ?lo t \<and> blex t hs)"
        using False c cr len lex_min [OF c(2)] by (intro "2.IH"(3)) (simp_all add: list_all_tl)
      moreover have "length t = length ?lo \<and> list_all bcont (tl t) \<and> blex ?lo t \<and> blex t hs \<longleftrightarrow>
        length t = ?n \<and> list_all bcont t \<and> blex t hs" for t
        using lex_cont_head [OF cr(1) c(2), of ?n t] lex_min [of t ?n] list_all_tl [of bcont t] len by (metis length_replicate)
      ultimately show ?thesis by (simp only: append_assoc append_Cons append_Nil)
    qed
    let ?m = "map (\<lambda>b. (b, b)) prefix @ [(l + 1, h - 1)] @ replicate ?n (0x80, 0xBF)"
    have B: "some_accepts (if h > l + 1 then [?m] else []) bs \<longleftrightarrow>
      (\<exists>b t. bs = prefix @ b # t \<and> l < b \<and> b < h \<and> length t = ?n \<and> list_all bcont t)"
      (is "_ \<longleftrightarrow> ?B")
    proof -
      note r = strictly_between [OF lh]
      have e: "l + 1 < h" if "l < b" "b < h" for b using strictly_between_room [OF that] .
      show ?thesis
        using e r by (auto simp: seq_accepts_prefix seq_accepts_conts)
    qed
    have three: "(l < b \<or> l = b \<and> X) \<and> (b < h \<or> b = h \<and> Y) \<longleftrightarrow> b = l \<and> X \<or> l < b \<and> b < h \<or> b = h \<and> Y" for b X Y
      using lh by (cases "b = l"; cases "b = h") auto
    have "some_accepts (emit_byte_recurse (l # ls) (h # hs) prefix) bs \<longleftrightarrow> ?A \<or> ?B \<or> ?C"
      unfolding A [symmetric] B [symmetric] C [symmetric] using False by (auto simp: bex_Un)
    also have "\<dots> \<longleftrightarrow> (\<exists>t. bs = prefix @ t \<and> length t = length (l # ls) \<and> list_all bcont (tl t) \<and>
        blex (l # ls) t \<and> blex t (h # hs))"
      unfolding list.size(4) add_0_right add_Suc_right One_nat_def ex_Cons_suffix list.map lex_le.simps list.sel
      unfolding word_unat_eq_iff [symmetric] word_less_nat_alt [symmetric] three by blast
    finally show ?thesis .
  qed
qed simp

lemma emitted_ordered:
  assumes "c \<in> set (emit_byte_recurse ls hs prefix)"
  shows "list_all (\<lambda>(l, h). l \<le> h) c"
  using assms
proof (induction ls hs prefix rule: emit_byte_recurse.induct)
  case (2 l ls h hs prefix)
  have e: "l + 1 \<le> h - 1" if "l + 1 < h" proof -
    have "h \<noteq> 0" using that by auto
    then have "unat (h - 1) = unat h - 1" by (simp add: unat_minus_one)
    then show ?thesis using that unfolding word_le_nat_alt word_less_nat_alt by linarith
  qed
  have "list_all (\<lambda>(l, h). l \<le> h) (map (\<lambda>b. (b, b)) prefix @ [(l + 1, h - 1)] @ replicate (length ls) (0x80, 0xBF :: u8))"
    if "l + 1 < h"
    using e [OF that] by (auto simp: list_all_iff)
  then show ?case using 2 by (auto split: if_splits)
qed (simp_all add: list_all_iff)

section \<open>The language of an expansion\<close>

definition byte_variants :: "u8 \<Rightarrow> bool \<Rightarrow> u8 set" where
  "byte_variants b ci = insert b (if ci then set_option (ascii_case_pair b) else {})"

definition class_accepts :: "bool \<Rightarrow> node \<Rightarrow> u8 \<Rightarrow> bool" where
  "class_accepts ci n b \<longleftrightarrow> n_kind n = NK_Class \<and> class_test_fold (n_cc n) b ci"

definition concat_accepts :: "bool \<Rightarrow> node \<Rightarrow> u8 list \<Rightarrow> bool" where
  "concat_accepts ci n bs \<longleftrightarrow>
     (if n_kind n = NK_Concat then list_all2 (class_accepts ci) (n_kids n) bs
      else \<exists>b. bs = [b] \<and> class_accepts ci n b)"

definition expansion_accepts :: "bool \<Rightarrow> node \<Rightarrow> u8 list \<Rightarrow> bool" where
  "expansion_accepts ci n bs \<longleftrightarrow>
     (if n_kind n = NK_Alt then \<exists>k \<in> set (n_kids n). concat_accepts ci k bs else concat_accepts ci n bs)"

lemma node_new_sel [simp]:
  "n_kind (node_new k) = k" "n_kids (node_new k) = []" "n_child (node_new k) = None"
  "n_kind (with_class n cc) = n_kind n" "n_cc (with_class n cc) = cc"
  "n_kids (with_class n cc) = n_kids n" "n_child (with_class n cc) = n_child n"
  "n_kind (push_kid n k') = n_kind n" "n_kids (push_kid n k') = n_kids n @ [k']"
  "n_child (push_kid n k') = n_child n"
  by (simp_all add: node_new_def with_class_def push_kid_def)

lemma fold_push_kid [simp]:
  "n_kind (fold (\<lambda>x n. push_kid n (f x)) xs n) = n_kind n"
  "n_kids (fold (\<lambda>x n. push_kid n (f x)) xs n) = n_kids n @ map f xs"
  "n_child (fold (\<lambda>x n. push_kid n (f x)) xs n) = n_child n"
  by (induction xs arbitrary: n) simp_all

lemma class_test_fold_variants:
  "\<not> negate cc \<Longrightarrow> class_test_fold cc b ci \<longleftrightarrow> (\<exists>b' \<in> byte_variants b ci. raw_test cc b')"
  by (auto simp: class_test_fold_def byte_variants_def Let_def split: option.splits)

lemma raw_test_byte_only [simp]: "raw_test (cc\<lparr>byte_only := x\<rparr>) b = raw_test cc b"
  by (simp add: raw_test_def)

lemma class_new_fields [simp]:
  "\<not> negate class_new" "u_prop_tables class_new = []" "owned_ranges class_new = []" "\<not> byte_only class_new"
  by (simp_all add: class_new_def)

lemma wf_class_byte_only [simp]: "wf_class (cc\<lparr>byte_only := x\<rparr>) = wf_class cc"
  by (simp add: wf_class_def)

lemma range_node_accepts:
  "l \<le> h \<Longrightarrow> class_accepts ci (class_node_for_range l h) b \<longleftrightarrow> (\<exists>b' \<in> byte_variants b ci. l \<le> b' \<and> b' \<le> h)"
  by (simp add: class_accepts_def class_node_for_range_def class_test_fold_variants add_range_raw)

lemma range_node_kind [simp]: "n_kind (class_node_for_range l h) = NK_Class"
  by (simp add: class_node_for_range_def)

lemma concat_node_kind: "n_kind (concat_to_node c) \<noteq> NK_Alt"
  by (simp add: concat_to_node_def case_prod_unfold)

lemma concat_node_accepts:
  assumes "list_all (\<lambda>(l, h). l \<le> h) c"
  shows "concat_accepts ci (concat_to_node c) bs \<longleftrightarrow>
    (\<exists>bs'. seq_accepts c bs' \<and> list_all2 (\<lambda>b b'. b' \<in> byte_variants b ci) bs bs')"
proof -
  let ?R = "\<lambda>(l, h) b. \<exists>b' \<in> byte_variants b ci. l \<le> b' \<and> b' \<le> h"
  have kids: "list_all2 (class_accepts ci) (map (\<lambda>(l, h). class_node_for_range l h) c) bs \<longleftrightarrow> list_all2 ?R c bs"
    using assms by (induction c arbitrary: bs) (auto simp: list_all2_Cons1 range_node_accepts)
  have "concat_accepts ci (concat_to_node c) bs \<longleftrightarrow> list_all2 ?R c bs"
  proof (cases "length c = 1")
    case True
    then obtain l h where "c = [(l, h)]" by (cases c) auto
    then show ?thesis using assms
      by (auto simp: concat_accepts_def concat_to_node_def range_node_accepts list_all2_Cons1)
  next
    case False
    then show ?thesis using kids by (simp add: concat_accepts_def concat_to_node_def case_prod_unfold)
  qed
  also have "\<dots> \<longleftrightarrow> (\<exists>bs'. seq_accepts c bs' \<and> list_all2 (\<lambda>b b'. b' \<in> byte_variants b ci) bs bs')"
  proof (induction c arbitrary: bs)
    case (Cons r c)
    obtain l h where r: "r = (l, h)" by fastforce
    show ?case unfolding r list_all2_Cons1 Cons.IH by (auto simp: list_all2_Cons2) (metis list_all2_Cons)+
  qed simp
  finally show ?thesis .
qed

lemma concats_node_accepts:
  assumes "\<forall>c \<in> set cs. list_all (\<lambda>(l, h). l \<le> h) c"
  shows "expansion_accepts ci (concats_to_node cs) bs \<longleftrightarrow>
    (\<exists>bs'. some_accepts cs bs' \<and> list_all2 (\<lambda>b b'. b' \<in> byte_variants b ci) bs bs')"
proof (cases "length cs = 1")
  case True
  then obtain c where "cs = [c]" by (cases cs) auto
  then show ?thesis using assms concat_node_accepts [of c ci bs] concat_node_kind [of c]
    by (simp add: expansion_accepts_def concats_to_node_def)
next
  case False
  then show ?thesis using assms concat_node_accepts [of _ ci bs]
    by (auto simp: expansion_accepts_def concats_to_node_def)
qed

lemma range_accepts:
  assumes "len \<in> {1, 2, 3, 4}" "(l, h) \<in> set (ranges_in_len rs len)"
  shows "some_accepts (emit_byte_recurse (utf8_encode_cp (int l)) (utf8_encode_cp (int h)) []) xs \<longleftrightarrow>
    (\<exists>n. l \<le> n \<and> n \<le> h \<and> xs = utf8_encode_cp (int n))"
proof -
  have lh: "l \<le> h" "window len l" "window len h" using ranges_in_len_window [OF assms(2)] by simp_all
  have max: "n \<le> 0x10FFFF" if "window len n" for n using assms(1) that by (auto simp: window_def LEN_BOUNDS_def)
  have enc: "map unat (utf8_encode_cp (int n)) = enc64 (lead_base len) (len - 1) n" if "window len n" for n
    using encode_bytes [OF max [OF that]] code_bytes_enc64 [OF assms(1) that] by simp
  have len: "length (utf8_encode_cp (int n)) = len" if "window len n" for n
    using arg_cong [OF enc [OF that], of length] assms(1) by auto
  have tl: "list_all bcont (tl (utf8_encode_cp (int n)))" if "window len n" for n
    using enc64_tail [of "lead_base len" "len - 1" n] unfolding enc [OF that, symmetric] map_tl [symmetric]
    by (simp add: list.pred_map comp_def)
  have "some_accepts (emit_byte_recurse (utf8_encode_cp (int l)) (utf8_encode_cp (int h)) []) xs \<longleftrightarrow>
    length xs = len \<and> list_all bcont (tl xs) \<and>
      lex_le (map unat (utf8_encode_cp (int l))) (map unat xs) \<and> lex_le (map unat xs) (map unat (utf8_encode_cp (int h)))"
    using emit_byte_recurse_iff [of "utf8_encode_cp (int l)" "utf8_encode_cp (int h)" "[]" xs] lh len tl
    by (simp add: enc enc64_lex)
  also have "\<dots> \<longleftrightarrow> length (map unat xs) = len \<and> list_all cont (tl (map unat xs)) \<and>
      lex_le (code_bytes l) (map unat xs) \<and> lex_le (map unat xs) (code_bytes h)"
    using lh by (simp add: encode_bytes max list.pred_map comp_def flip: map_tl)
  also have "\<dots> \<longleftrightarrow> (\<exists>n. l \<le> n \<and> n \<le> h \<and> map unat xs = code_bytes n)"
    by (rule between_encodings [OF assms(1) lh(2,3)])
  also have "\<dots> \<longleftrightarrow> (\<exists>n. l \<le> n \<and> n \<le> h \<and> xs = utf8_encode_cp (int n))"
  proof -
    have "map unat xs = code_bytes n \<longleftrightarrow> xs = utf8_encode_cp (int n)" if "l \<le> n" "n \<le> h" for n
    proof -
      have "map unat (utf8_encode_cp (int n)) = code_bytes n"
        using that encode_bytes max [OF lh(3)] by simp
      moreover have "inj (unat :: u8 \<Rightarrow> nat)" by (simp add: inj_def word_unat_eq_iff)
      ultimately show ?thesis by (metis inj_map_eq_map)
    qed
    then show ?thesis by blast
  qed
  finally show ?thesis .
qed

lemma class_concats_iff:
  "some_accepts (class_concats rs) xs \<longleftrightarrow> (\<exists>n. in_ranges rs n \<and> n \<le> CP_MAX \<and> xs = utf8_encode_cp (int n))"
proof -
  have "some_accepts (class_concats rs) xs \<longleftrightarrow>
    (\<exists>len \<in> {1, 2, 3, 4}. \<exists>(l, h) \<in> set (ranges_in_len rs len).
       some_accepts (emit_byte_recurse (utf8_encode_cp (int l)) (utf8_encode_cp (int h)) []) xs)"
    unfolding class_concats_def by (simp add: bex_Un split_beta)
  also have "\<dots> \<longleftrightarrow> (\<exists>len \<in> {1, 2, 3, 4}. \<exists>(l, h) \<in> set (ranges_in_len rs len).
       \<exists>n. l \<le> n \<and> n \<le> h \<and> xs = utf8_encode_cp (int n))"
  proof (intro bex_cong refl)
    fix len r assume len: "len \<in> {1, 2, 3, 4}" and r: "r \<in> set (ranges_in_len rs len)"
    show "(case r of (l, h) \<Rightarrow> some_accepts (emit_byte_recurse (utf8_encode_cp (int l)) (utf8_encode_cp (int h)) []) xs)
      \<longleftrightarrow> (case r of (l, h) \<Rightarrow> \<exists>n. l \<le> n \<and> n \<le> h \<and> xs = utf8_encode_cp (int n))"
      using range_accepts [OF len, of "fst r" "snd r"] r by (simp add: split_beta)
  qed
  also have "\<dots> \<longleftrightarrow> (\<exists>len \<in> {1, 2, 3, 4}. \<exists>n. in_ranges (ranges_in_len rs len) n \<and> xs = utf8_encode_cp (int n))"
    unfolding in_ranges_def by blast
  also have "\<dots> \<longleftrightarrow> (\<exists>n. in_ranges rs n \<and> n \<le> CP_MAX \<and> xs = utf8_encode_cp (int n))"
  proof -
    have "window len n \<Longrightarrow> n \<le> CP_MAX" if "len \<in> {1, 2, 3, 4}" for len n
      using that by (auto simp: window_def LEN_BOUNDS_def CP_MAX_def)
    then show ?thesis using some_window unfolding ranges_in_len_iff by blast
  qed
  finally show ?thesis .
qed

lemma class_concats_ordered: "c \<in> set (class_concats rs) \<Longrightarrow> list_all (\<lambda>(l, h). l \<le> h) c"
  unfolding class_concats_def by (auto dest: emitted_ordered)

text \<open>Folding the leaves again changes nothing: a class is closed under the case pair.\<close>

lemma byte_variants_cp:
  assumes "uint b < 128"
  shows "uint ` byte_variants b ci = case_variants (uint b) ci"
proof -
  have u: "uint (word_of_int k :: u8) = k" if "0 \<le> k" "k < 256" for k
    using that by (simp add: unsigned_of_int take_bit_int_eq_self)
  have up: "uint (b + 0x20) = uint b + 0x20" if "uint b \<le> 0x5A" using u [of "uint b + 0x20"] that by simp
  have down: "uint (b - 0x20) = uint b - 0x20" if "0x61 \<le> uint b" using u [of "uint b - 0x20"] that assms by simp
  have "ascii_case_pair b = (if 0x41 \<le> uint b \<and> uint b \<le> 0x5A then Some (word_of_int (uint b + 0x20))
     else if 0x61 \<le> uint b \<and> uint b \<le> 0x7A then Some (word_of_int (uint b - 0x20)) else None)"
    using ascii_case_pair_cp [of "uint b"] assms by simp
  then show ?thesis by (auto simp: byte_variants_def case_variants_def up down)
qed

lemma byte_variants_high: "128 \<le> uint b \<Longrightarrow> byte_variants b ci = {b}"
  by (auto simp: byte_variants_def ascii_case_pair_def word_le_def)

lemma byte_variants_cases:
  assumes "b' \<in> byte_variants b ci"
  shows "b' = b \<or> uint b < 128 \<and> uint b' < 128"
proof (cases "uint b < 128")
  case True
  then have "uint b' \<in> case_variants (uint b) ci" using assms byte_variants_cp by blast
  then show ?thesis using True by (auto simp: case_variants_def split: if_splits)
next
  case False
  then show ?thesis using assms by (simp add: byte_variants_high)
qed

lemma class_closed_fold:
  assumes "wf_tables cc" "x \<in> case_variants cp ci"
  shows "class_test_cp_fold cc x ci \<longleftrightarrow> class_test_cp_fold cc cp ci"
proof -
  have "case_variants x ci = case_variants cp ci" using assms(2) by (auto simp: case_variants_def split: if_splits)
  then show ?thesis by (simp add: class_test_cp_fold_iff [OF assms(1)])
qed

lemma encode_ascii: "uint b < 128 \<Longrightarrow> utf8_encode_cp (uint b) = [b]"
proof -
  assume *: "uint b < 128"
  then have "unat b < 128" using uint_nat [of b] by linarith
  then have "map unat (utf8_encode_cp (int (unat b))) = [unat b]"
    using encode_bytes [of "unat b"] by (simp add: code_bytes_def)
  then have "map unat (utf8_encode_cp (uint b)) = map unat [b]" by (simp only: uint_nat list.map)
  moreover have "inj (unat :: u8 \<Rightarrow> nat)" by (simp add: inj_def word_unat_eq_iff)
  ultimately show ?thesis by (metis inj_map_eq_map)
qed

lemma encode_wide: "128 \<le> n \<Longrightarrow> n \<le> 0x10FFFF \<Longrightarrow> b \<in> set (utf8_encode_cp (int n)) \<Longrightarrow> 128 \<le> uint b"
proof -
  assume n: "128 \<le> n" "n \<le> 0x10FFFF" and b: "b \<in> set (utf8_encode_cp (int n))"
  then have "unat b \<in> set (code_bytes n)" unfolding encode_bytes [OF n(2), symmetric] by simp
  then have "128 \<le> unat b" using n by (auto simp: code_bytes_def split: if_splits)
  then show ?thesis using uint_nat [of b] by linarith
qed

lemma fold_leaves:
  assumes wf: "wf_tables cc" and n: "n \<le> CP_MAX" "class_test_cp_fold cc (int n) ci"
    and v: "list_all2 (\<lambda>b b'. b' \<in> byte_variants b ci) bs (utf8_encode_cp (int n))"
  shows "\<exists>m \<le> CP_MAX. class_test_cp_fold cc (int m) ci \<and> bs = utf8_encode_cp (int m)"
proof (cases "n < 128")
  case True
  let ?b = "word_of_nat n :: u8"
  have b': "uint ?b = int n" using True by (simp add: unsigned_of_nat take_bit_nat_eq_self)
  then have "utf8_encode_cp (int n) = [?b]" using encode_ascii [of ?b] True by simp
  then obtain b where b: "bs = [b]" "?b \<in> byte_variants b ci" using v by (auto simp: list_all2_Cons2)
  then have "uint b < 128" using byte_variants_cases [OF b(2)] b' True by auto
  then have "int n \<in> case_variants (uint b) ci" using b(2) b' byte_variants_cp by (metis imageI)
  then have "class_test_cp_fold cc (uint b) ci" using class_closed_fold [OF wf] n(2) by blast
  moreover have "unat b \<le> CP_MAX" using \<open>uint b < 128\<close> uint_nat [of b] unfolding CP_MAX_def by linarith
  ultimately show ?thesis using \<open>uint b < 128\<close> encode_ascii [of b] b(1)
      \<open>unat b \<le> CP_MAX\<close> by (intro exI [of _ "unat b"] conjI) simp_all
next
  case False
  have "b = b'" if "b' \<in> byte_variants b ci" "b' \<in> set (utf8_encode_cp (int n))" for b b'
    using byte_variants_cases [OF that(1)] encode_wide [OF _ _ that(2)] False n(1) by (auto simp: CP_MAX_def)
  then have "bs = utf8_encode_cp (int n)"
    using v by (auto simp: list_all2_conv_all_nth intro!: nth_equalityI)
  then show ?thesis using n by blast
qed

lemma byte_variants_refl: "list_all2 (\<lambda>b b'. b' \<in> byte_variants b ci) bs bs"
  by (induction bs) (simp_all add: byte_variants_def)

lemma empty_node_accepts: "\<not> expansion_accepts ci empty_class_node bs"
  by (auto simp: expansion_accepts_def concat_accepts_def class_accepts_def empty_class_node_def
      class_test_fold_variants)

lemma expansion_language:
  assumes "wf_tables cc" "expand_unsafe_class cc uflag ci = Some e"
  shows "expansion_accepts ci e bs \<longleftrightarrow> (\<exists>n \<le> CP_MAX. class_test_cp_fold cc (int n) ci \<and> bs = utf8_encode_cp (int n))"
proof -
  let ?rs = "cp_ranges_of cc ci" and ?cs = "class_concats (cp_ranges_of cc ci)"
  have cs: "some_accepts ?cs xs \<longleftrightarrow> (\<exists>n \<le> CP_MAX. class_test_cp_fold cc (int n) ci \<and> xs = utf8_encode_cp (int n))" for xs
    unfolding class_concats_iff cp_ranges_iff by auto
  have "expansion_accepts ci e bs \<longleftrightarrow> (\<exists>xs. some_accepts ?cs xs \<and> list_all2 (\<lambda>b b'. b' \<in> byte_variants b ci) bs xs)"
  proof (cases "?rs = [] \<or> ?cs = []")
    case True
    moreover have "class_concats [] = []" by (simp add: class_concats_def ranges_in_len_def split_beta)
    ultimately have "?cs = []" by auto
    moreover have "e = empty_class_node"
      using assms(2) \<open>?cs = []\<close> unfolding expand_unsafe_class_def Let_def by (simp split: if_splits)
    ultimately show ?thesis by (simp add: empty_node_accepts)
  next
    case False
    then have "e = concats_to_node ?cs" using assms(2) by (auto simp: expand_unsafe_class_def Let_def split: if_splits)
    then show ?thesis using concats_node_accepts class_concats_ordered by simp
  qed
  also have "\<dots> \<longleftrightarrow> (\<exists>n \<le> CP_MAX. class_test_cp_fold cc (int n) ci \<and> bs = utf8_encode_cp (int n))"
    unfolding cs using fold_leaves [OF assms(1)] byte_variants_refl by blast
  finally show ?thesis .
qed

section \<open>Properties\<close>

text \<open>C8: the byte tree a class is expanded into accepts exactly the UTF-8 (WTF-8)
  encodings of the code points the folded membership test accepts, lone surrogates
  included, although every leaf is folded once more when it is matched.\<close>

theorem expand_exact:
  assumes "wf_tables cc" "expand_unsafe_class cc uflag ci = Some e"
  shows "expansion_accepts ci e bs \<longleftrightarrow>
    (\<exists>cp \<in> {0 .. 0x10FFFF}. class_test_cp_fold cc cp ci \<and> bs = utf8_encode_cp cp)"
proof -
  have "(\<exists>n \<le> CP_MAX. class_test_cp_fold cc (int n) ci \<and> bs = utf8_encode_cp (int n)) \<longleftrightarrow>
    (\<exists>cp \<in> {0 .. 0x10FFFF}. class_test_cp_fold cc cp ci \<and> bs = utf8_encode_cp cp)"
  proof
    assume "\<exists>cp \<in> {0 .. 0x10FFFF}. class_test_cp_fold cc cp ci \<and> bs = utf8_encode_cp cp"
    then obtain cp where "0 \<le> cp" "cp \<le> 0x10FFFF" "class_test_cp_fold cc cp ci" "bs = utf8_encode_cp cp" by auto
    then show "\<exists>n \<le> CP_MAX. class_test_cp_fold cc (int n) ci \<and> bs = utf8_encode_cp (int n)"
      by (intro exI [of _ "nat cp"]) (simp add: CP_MAX_def nat_le_iff)
  qed (auto simp: CP_MAX_def)
  then show ?thesis using expansion_language [OF assms] by simp
qed

text \<open>\<open>/[^a]/\<close> accepts a lone surrogate and no \<open>a\<close>.\<close>

lemma expand_exact_witness:
  "\<exists>e. expand_unsafe_class ((class_add class_new 0x61)\<lparr>negate := True\<rparr>) False False = Some e \<and>
     expansion_accepts False e (utf8_encode_cp 0xD83D)"
proof -
  let ?cc = "(class_add class_new 0x61)\<lparr>negate := True\<rparr>"
  have wf: "wf_tables ?cc" by (simp add: wf_tables_def wf_class_def sorted_table_def) (simp add: class_add_def class_new_def)
  obtain e where e: "expand_unsafe_class ?cc False False = Some e"
    by (cases "expand_unsafe_class ?cc False False") (auto simp: expand_unsafe_class_def byte_steppable_def Let_def split: if_splits)
  have "class_test_cp_fold ?cc 0xD83D False"
    by (simp add: class_test_cp_fold_iff [OF wf] case_variants_def class_lists_def in_table_def)
  then have "expansion_accepts False e (utf8_encode_cp 0xD83D)"
    using expand_exact [OF wf e] by force
  with e show ?thesis by blast
qed

end
