(* ===== verification/Regex_Compiler.thy ===== *)
theory Regex_Compiler
  imports Regex_Expand
begin

text \<open>
  \<open>compiler.rs\<close> and \<open>string_trie.rs\<close>: the tree is lowered to bytecode, forwards or
  backwards (\<open>rv\<close>). A definition takes the program and returns it with the code
  appended; a jump target that is not known yet is patched afterwards, as in the
  source. A recursive call on a subtree is an argument of the definition that lowers
  its parent.
\<close>

section \<open>Single instructions\<close>

definition emit_with_ims :: "node \<Rightarrow> inst \<Rightarrow> program \<Rightarrow> program" where
  "emit_with_ims n ins p = emit p (ins\<lparr>i_pad := ucast (n_eff_ims n)\<rparr>)"

definition compile_char :: "bool \<Rightarrow> node \<Rightarrow> program \<Rightarrow> program" where
  "compile_char rv n p =
     (if p_raw_classes p \<or> n_ch n < 0x80 then emit_with_ims n (char_lit (n_ch n)) p
      else
        (let buf = utf8_encode_cp (sint (n_ch n)) in
         fold (\<lambda>b. emit_with_ims n (char_lit (ucast b))) (if rv then rev buf else buf) p))"

definition compile_class_ref :: "node \<Rightarrow> program \<Rightarrow> program" where
  "compile_class_ref n p = (let (p, cidx) = intern_class p (n_cc n) in emit_with_ims n (class_ref cidx) p)"

fun stamp_eff_ims :: "u8 \<Rightarrow> node \<Rightarrow> node" where
  "stamp_eff_ims eff (Node k ch cc kids mn mx lz child ci bn ims) =
     Node k ch cc (map (stamp_eff_ims eff) kids) mn mx lz (map_option (stamp_eff_ims eff) child) ci bn eff"

section \<open>The trie of a string set\<close>

text \<open>A \<open>BTreeMap\<close> is its list of entries in key order.\<close>

datatype trie = Trie (t_accept: bool) (t_kids: "(u32 \<times> trie) list")

definition trie_empty :: trie where
  "trie_empty = Trie False []"

fun entry_update :: "u32 \<Rightarrow> (trie \<Rightarrow> trie) \<Rightarrow> (u32 \<times> trie) list \<Rightarrow> (u32 \<times> trie) list" where
  "entry_update u f [] = [(u, f trie_empty)]"
| "entry_update u f ((v, t) # kids) =
     (if u = v then (v, f t) # kids
      else if u < v then (u, f trie_empty) # (v, t) # kids
      else (v, t) # entry_update u f kids)"

primrec trie_insert :: "u32 list \<Rightarrow> trie \<Rightarrow> trie" where
  "trie_insert [] t = Trie True (t_kids t)"
| "trie_insert (u # us) t = Trie (t_accept t) (entry_update u (trie_insert us) (t_kids t))"

text \<open>
  \<open>trie_emit_kids\<close> is the loop over the entries from index \<open>i\<close>; it returns the program
  and the jumps still to be patched.
\<close>

fun trie_emit :: "u16 \<Rightarrow> trie \<Rightarrow> program \<Rightarrow> program"
  and trie_emit_kids :: "u16 \<Rightarrow> nat \<Rightarrow> nat \<Rightarrow> nat \<Rightarrow> (u32 \<times> trie) list \<Rightarrow> program \<Rightarrow> int list \<Rightarrow> program \<times> int list"
where
  "trie_emit pad (Trie accept kids) p =
     (let n_branches = length kids + (if accept then 1 else 0);
          (p, jmps) = trie_emit_kids pad n_branches (length kids) 0 kids p [];
          end = next_idx p
      in fold (\<lambda>j p. patch_a p j end) jmps p)"
| "trie_emit_kids pad n_branches n_entries i [] p jmps = (p, jmps)"
| "trie_emit_kids pad n_branches n_entries i ((unit, sub) # kids) p jmps =
     (let split = (if i + 1 < n_branches then Some (next_idx p) else None);
          p = (case split of Some _ \<Rightarrow> emit p (inst_split 0 0) | None \<Rightarrow> p);
          p = emit p ((char_lit unit)\<lparr>i_pad := pad\<rparr>);
          p = trie_emit pad sub p;
          (p, jmps) =
            (case split of
               None \<Rightarrow> (p, jmps)
             | Some sidx \<Rightarrow>
                 (let (p, jmps) = (if i + 1 < n_entries then (emit p (inst_jmp 0), jmps @ [next_idx p]) else (p, jmps));
                      p = patch_a p sidx (sidx + 1);
                      p = patch_b p sidx (next_idx p)
                  in (p, jmps)))
      in trie_emit_kids pad n_branches n_entries (i + 1) kids p jmps)"

definition string_units :: "bool \<Rightarrow> node \<Rightarrow> u32 list" where
  "string_units raw s =
     concat (map (\<lambda>ch. if raw then [n_ch ch] else map ucast (utf8_encode_cp (sint (n_ch ch)))) (n_kids s))"

definition compile_string_set :: "node \<Rightarrow> bool \<Rightarrow> program \<Rightarrow> program" where
  "compile_string_set n rv p =
     (let trie = fold (\<lambda>s. let units = string_units (p_raw_classes p) s in
                          trie_insert (if rv then rev units else units)) (n_kids n) trie_empty
      in trie_emit (ucast (n_eff_ims n)) trie p)"

section \<open>Alternation\<close>

definition alt_branch :: "(program \<Rightarrow> program) \<Rightarrow> program \<times> int list \<Rightarrow> program \<times> int list" where
  "alt_branch kid = (\<lambda>(p, jmps).
     (let sidx = next_idx p;
          p = emit p (inst_split 0 0);
          branch_start = next_idx p;
          p = kid p;
          jmp_idx = next_idx p;
          p = emit p (inst_jmp 0);
          next = next_idx p;
          p = patch_a p sidx branch_start;
          p = patch_b p sidx next
      in (p, jmps @ [jmp_idx])))"

definition compile_alt :: "(program \<Rightarrow> program) list \<Rightarrow> program \<Rightarrow> program" where
  "compile_alt kids p =
     (if kids = [] then p
      else
        (let (p, jmps) = fold alt_branch (butlast kids) (p, []);
             p = last kids p;
             end = next_idx p
         in fold (\<lambda>j p. patch_a p j end) jmps p))"

section \<open>Repetition\<close>

fun can_match_empty :: "node \<Rightarrow> bool" where
  "can_match_empty (Node k ch cc kids mn mx lz child ci bn ims) =
     (case k of
        NK_Char \<Rightarrow> False
      | NK_Any \<Rightarrow> False
      | NK_Class \<Rightarrow> False
      | NK_Concat \<Rightarrow> list_all can_match_empty kids
      | NK_Alt \<Rightarrow> kids = [] \<or> list_ex can_match_empty kids
      | NK_StringSet \<Rightarrow> kids = [] \<or> list_ex can_match_empty kids
      | NK_Repeat \<Rightarrow> mn = 0 \<or> (case child of None \<Rightarrow> True | Some c \<Rightarrow> can_match_empty c)
      | NK_Group \<Rightarrow> (case child of None \<Rightarrow> True | Some c \<Rightarrow> can_match_empty c)
      | _ \<Rightarrow> True)"

fun capture_walk :: "node \<Rightarrow> (int \<times> int) option \<Rightarrow> (int \<times> int) option" where
  "capture_walk (Node k ch cc kids mn mx lz child ci bn ims) span =
     (let span =
            (if k = NK_Group \<and> ci > 0 then
               (let (l, h) = (2 * ci, 2 * ci + 2) in
                Some (case span of None \<Rightarrow> (l, h) | Some (a, b) \<Rightarrow> (min a l, max b h)))
             else span);
          span = (case child of None \<Rightarrow> span | Some c \<Rightarrow> capture_walk c span)
      in fold capture_walk kids span)"

definition capture_slots :: "node \<Rightarrow> (int \<times> int) option" where
  "capture_slots n = capture_walk n None"

record iteration =
  it_reset :: "(int \<times> int) option"
  it_check :: bool

definition compile_iteration :: "(program \<Rightarrow> program) \<Rightarrow> iteration \<Rightarrow> program \<Rightarrow> program" where
  "compile_iteration child iter p =
     (let (p, start) = (if it_check iter then (emit p (inst_simple OP_ITER_START), Some (next_idx p)) else (p, None));
          p = (case it_reset iter of Some (first, end) \<Rightarrow> emit p (inst_save_reset first end) | None \<Rightarrow> p);
          p = child p
      in case start of Some start \<Rightarrow> emit p (inst_iter_check start) | None \<Rightarrow> p)"

definition compile_kleene_tail :: "(program \<Rightarrow> program) \<Rightarrow> bool \<Rightarrow> iteration \<Rightarrow> program \<Rightarrow> program" where
  "compile_kleene_tail child lazy iter p =
     (let split_idx = next_idx p;
          p = emit p (inst_split 0 0);
          body_start = next_idx p;
          p = compile_iteration child iter p;
          p = emit p (inst_jmp split_idx);
          after = next_idx p
      in if lazy then patch_b (patch_a p split_idx after) split_idx body_start
         else patch_b (patch_a p split_idx body_start) split_idx after)"

definition extra_copy :: "(program \<Rightarrow> program) \<Rightarrow> bool \<Rightarrow> iteration \<Rightarrow> iteration \<Rightarrow> nat \<Rightarrow>
    program \<times> int list \<Rightarrow> program \<times> int list" where
  "extra_copy child lazy first rest k = (\<lambda>(p, splits).
     (let sidx = next_idx p;
          p = emit p (inst_split 0 0);
          body_start = next_idx p;
          p = compile_iteration child (if k > 0 then rest else first) p
      in (if lazy then patch_b (patch_a p sidx (- 1)) sidx body_start
          else patch_b (patch_a p sidx body_start) sidx (- 1),
          splits @ [sidx])))"

definition patch_skip :: "int \<Rightarrow> int \<Rightarrow> program \<Rightarrow> program" where
  "patch_skip after sidx p =
     (let p = (if i_a (p_insts p ! nat sidx) = - 1 then patch_a p sidx after else p)
      in if i_b (p_insts p ! nat sidx) = - 1 then patch_b p sidx after else p)"

definition compile_bounded_extras :: "(program \<Rightarrow> program) \<Rightarrow> int \<Rightarrow> bool \<Rightarrow> iteration \<Rightarrow> iteration \<Rightarrow>
    program \<Rightarrow> program" where
  "compile_bounded_extras child extra lazy first rest p =
     (if extra \<le> 0 then p
      else
        (let (p, splits) = fold (extra_copy child lazy first rest) [0..<nat extra] (p, []);
             after = next_idx p
         in fold (patch_skip after) splits p))"

definition compile_repeat :: "node \<Rightarrow> node \<Rightarrow> (program \<Rightarrow> program) \<Rightarrow> program \<Rightarrow> program" where
  "compile_repeat n child compile_child p =
     (let reset = capture_slots child;
          p = fold (\<lambda>k. compile_iteration compile_child
                      \<lparr>it_reset = (if k > 0 then reset else None), it_check = False\<rparr>) [0..<nat (n_min n)] p;
          iter = \<lparr>it_reset = reset, it_check = can_match_empty child\<rparr>
      in if n_max n = - 1 then compile_kleene_tail compile_child (n_lazy n) iter p
         else
           (let extra = n_max n - n_min n;
                first = iter\<lparr>it_reset := (if n_min n > 0 then reset else None)\<rparr>
            in compile_bounded_extras compile_child extra (n_lazy n) first iter p))"

section \<open>Groups and lookarounds\<close>

definition compile_group :: "node \<Rightarrow> (program \<Rightarrow> program) \<Rightarrow> bool \<Rightarrow> program \<Rightarrow> program" where
  "compile_group n compile_child rv p =
     (if n_capture_idx n > 0 then
        (let (enter, exit) = (if rv then (2 * n_capture_idx n + 1, 2 * n_capture_idx n)
                              else (2 * n_capture_idx n, 2 * n_capture_idx n + 1));
             p = emit p (inst_save enter);
             p = compile_child p
         in emit p (inst_save exit))
      else compile_child p)"

text \<open>\<open>compile_body\<close> lowers the body, if there is one, in its own direction.\<close>

definition compile_lookaround :: "node \<Rightarrow> (program \<Rightarrow> program) \<Rightarrow> program \<Rightarrow> program" where
  "compile_lookaround n compile_body p =
     (let sub = emit (compile_body program_new) match_accept;
          (p, sub_idx) = add_sub p sub;
          op = (case n_kind n of
                  NK_Lookahead \<Rightarrow> OP_LOOKAHEAD
                | NK_NegLookahead \<Rightarrow> OP_NEG_LOOKAHEAD
                | NK_Lookbehind \<Rightarrow> OP_LOOKBEHIND
                | _ \<Rightarrow> OP_NEG_LOOKBEHIND)
      in emit p (inst_lookaround op sub_idx))"

section \<open>The lowering\<close>

text \<open>
  A class that is expanded is replaced by a tree whose classes are bytes already, so
  the expansion is not expanded again.
\<close>

fun byte_tree :: "node \<Rightarrow> bool" where
  "byte_tree (Node k ch cc kids mn mx lz child ci bn ims) \<longleftrightarrow>
     (k = NK_Class \<longrightarrow> byte_only cc) \<and> list_all byte_tree kids \<and>
     (case child of None \<Rightarrow> True | Some c \<Rightarrow> byte_tree c)"

lemma byte_tree_sel:
  "byte_tree n \<longleftrightarrow> (n_kind n = NK_Class \<longrightarrow> byte_only (n_cc n)) \<and> list_all byte_tree (n_kids n) \<and>
     (case n_child n of None \<Rightarrow> True | Some c \<Rightarrow> byte_tree c)"
  by (cases n) simp

lemma byte_tree_kids: "byte_tree n \<Longrightarrow> k \<in> set (n_kids n) \<Longrightarrow> byte_tree k"
  by (auto simp: byte_tree_sel [of n] list_all_iff)

lemma byte_tree_child: "byte_tree n \<Longrightarrow> n_child n = Some c \<Longrightarrow> byte_tree c"
  by (auto simp: byte_tree_sel [of n])

lemma byte_tree_stamp [simp]: "byte_tree (stamp_eff_ims eff n) = byte_tree n"
proof (induction eff n rule: stamp_eff_ims.induct)
  case (1 eff k ch cc kids mn mx lz child ci bn ims)
  then show ?case by (cases child) (auto simp: list_all_iff)
qed

lemma byte_tree_range: "byte_tree (class_node_for_range l h)" "byte_tree empty_class_node"
  by (simp_all add: byte_tree_sel class_node_for_range_def empty_class_node_def)

lemma byte_tree_concat: "byte_tree (concat_to_node c)"
proof (cases "length c = 1")
  case False
  then show ?thesis
    by (subst byte_tree_sel) (auto simp: concat_to_node_def list_all_iff case_prod_unfold byte_tree_range)
qed (simp add: concat_to_node_def byte_tree_range)

lemma byte_tree_concats: "byte_tree (concats_to_node cs)"
proof (cases "length cs = 1")
  case False
  then show ?thesis
    by (subst byte_tree_sel) (auto simp: concats_to_node_def byte_tree_concat list_all_iff)
qed (simp add: concats_to_node_def byte_tree_concat)

lemma expand_byte_tree:
  assumes "expand_unsafe_class cc uflag ci = Some e"
  shows "\<not> byte_only cc" "byte_tree e"
  using assms byte_tree_range(2) byte_tree_concats
  by (auto simp: expand_unsafe_class_def Let_def split: if_splits)

lemma expanded_node:
  "n_kind n = NK_Class \<Longrightarrow> expand_unsafe_class (n_cc n) uflag ci = Some e \<Longrightarrow> \<not> byte_tree n \<and> byte_tree e"
  using expand_byte_tree by (auto simp: byte_tree_sel [of n])

lemma size_kid: "k \<in> set (n_kids n) \<Longrightarrow> size k < size n"
  using size_list_estimation' [of k "n_kids n" "size k" size] by (cases n) auto

lemma size_child: "n_child n = Some c \<Longrightarrow> size c < size n"
  by (cases n) auto

function compile_dir :: "u8 \<Rightarrow> bool \<Rightarrow> node \<Rightarrow> program \<Rightarrow> program" where
  "compile_dir flags rv n =
     (case n_kind n of
        NK_Char \<Rightarrow> compile_char rv n
      | NK_Any \<Rightarrow> emit_with_ims n (inst_simple OP_ANY_CHAR)
      | NK_Class \<Rightarrow>
          (\<lambda>p. if unicode_mode flags \<and> is_uflag_property_only (n_cc n) then compile_class_ref n p
               else if p_raw_classes p then compile_class_ref n p
               else
                 (case expand_unsafe_class (n_cc n) (unicode_mode flags) (n_eff_ims n AND RE_FLAG_I \<noteq> 0) of
                    Some e \<Rightarrow> compile_dir flags rv (stamp_eff_ims (n_eff_ims n) e) p
                  | None \<Rightarrow> compile_class_ref n p))
      | NK_AnchorBeg \<Rightarrow> emit_with_ims n (inst_simple OP_ANCHOR_B)
      | NK_AnchorEnd \<Rightarrow> emit_with_ims n (inst_simple OP_ANCHOR_E)
      | NK_WBound \<Rightarrow> emit_with_ims n (inst_simple OP_WBOUND)
      | NK_NWBound \<Rightarrow> emit_with_ims n (inst_simple OP_NWBOUND)
      | NK_Concat \<Rightarrow>
          (let kids = map (\<lambda>k. compile_dir flags rv k) (n_kids n) in
           fold (\<lambda>kid p. kid p) (if rv then rev kids else kids))
      | NK_Alt \<Rightarrow> compile_alt (map (\<lambda>k. compile_dir flags rv k) (n_kids n))
      | NK_StringSet \<Rightarrow> compile_string_set n rv
      | NK_Repeat \<Rightarrow>
          (case n_child n of
             None \<Rightarrow> (\<lambda>p. p)
           | Some c \<Rightarrow> compile_repeat n c (compile_dir flags rv c))
      | NK_Group \<Rightarrow>
          (case n_child n of
             None \<Rightarrow> (\<lambda>p. p)
           | Some c \<Rightarrow> compile_group n (compile_dir flags rv c) rv)
      | NK_Backref \<Rightarrow> emit_with_ims n (inst_backref (n_capture_idx n))
      | _ \<Rightarrow>
          (let body_rev = (n_kind n = NK_Lookbehind \<or> n_kind n = NK_NegLookbehind) in
           compile_lookaround n
             (case n_child n of None \<Rightarrow> (\<lambda>p. p) | Some c \<Rightarrow> compile_dir flags body_rev c)))"
  by pat_completeness auto
termination
  by (relation "measures [\<lambda>(_, _, n). if byte_tree n then 0 else 1, \<lambda>(_, _, n). size n]")
    (auto simp: size_kid size_child dest: expanded_node byte_tree_kids byte_tree_child)

declare compile_dir.simps [simp del]

definition compile :: "program \<Rightarrow> node \<Rightarrow> u8 \<Rightarrow> program" where
  "compile p n flags = compile_dir flags False n p"

definition compile_rev :: "program \<Rightarrow> node \<Rightarrow> u8 \<Rightarrow> program" where
  "compile_rev p n flags = compile_dir flags True n p"

end
