(* ===== verification/Regex_Backtrack.thy ===== *)
theory Regex_Backtrack
  imports Regex_Compiler
begin

text \<open>
  The bounded backtracker of \<open>vm/backtrack.rs\<close>: a depth-first walk of a program over a
  window of the haystack, with one row of capture slots changed in place, a stack of
  jobs and a bitset of visited pairs of instruction and position. A read outside a
  vector panics and is the value \<open>None\<close>.
\<close>

section \<open>State\<close>

datatype job =
    Step (j_pc: nat) (j_off: nat)
  | Restore (j_slot: nat) (j_old: int)
  | RestoreIter (j_pc: nat) (j_old: int)

datatype outcome = Matched | NoMatch | WideStep

text \<open>The stack is the list of its jobs, the top first.\<close>

record backtrack =
  bt_eligible :: bool
  bt_stack :: "job list"
  bt_visited :: "u64 list"
  bt_iter_pos :: "int list"

record walker =
  w_prog :: program
  w_s :: "u8 list"
  w_st :: int
  w_end :: int
  w_width :: nat
  w_unicode :: bool

definition as_usize :: "int \<Rightarrow> nat" where
  "as_usize a = nat (a mod 2 ^ 64)"

definition as_u32 :: "int \<Rightarrow> nat" where
  "as_u32 a = nat (a mod 2 ^ 32)"

definition VISITED_BITS_MAX :: nat where
  "VISITED_BITS_MAX = 8 * 256 * 1024"

section \<open>Eligibility\<close>

definition can_backtrack :: "program \<Rightarrow> bool" where
  "can_backtrack p =
     (let n = length (p_insts p);
          in_range = (\<lambda>t. t \<ge> 0 \<and> nat t < n);
          falls_through = (\<lambda>i. i + 1 < n)
      in list_all (\<lambda>(i, ins).
           (case i_op ins of
              OP_CHAR \<Rightarrow> falls_through i
            | OP_ANY_CHAR \<Rightarrow> falls_through i
            | OP_ANCHOR_B \<Rightarrow> falls_through i
            | OP_ANCHOR_E \<Rightarrow> falls_through i
            | OP_WBOUND \<Rightarrow> falls_through i
            | OP_NWBOUND \<Rightarrow> falls_through i
            | OP_CLASS \<Rightarrow> falls_through i \<and> i_a ins \<ge> 0 \<and> nat (i_a ins) < length (p_classes p)
            | OP_SAVE \<Rightarrow> falls_through i \<and> i_a ins \<ge> 0
            | OP_SAVE_RESET \<Rightarrow> falls_through i \<and> i_a ins \<ge> 0 \<and> i_a ins \<le> i_b ins
            | OP_ITER_START \<Rightarrow> falls_through i
            | OP_ITER_CHECK \<Rightarrow>
                falls_through i \<and> in_range (i_a ins) \<and> i_op (p_insts p ! nat (i_a ins)) = OP_ITER_START
            | OP_JMP \<Rightarrow> in_range (i_a ins)
            | OP_SPLIT \<Rightarrow> in_range (i_a ins) \<and> in_range (i_b ins)
            | OP_MATCH \<Rightarrow> True
            | _ \<Rightarrow> False)) (enumerate 0 (p_insts p)))"

definition for_program :: "program \<Rightarrow> backtrack" where
  "for_program p =
     (let loops = list_ex (\<lambda>i. i_op i = OP_ITER_START) (p_insts p) in
      \<lparr>bt_eligible = can_backtrack p, bt_stack = [], bt_visited = [],
       bt_iter_pos = replicate (if loops then length (p_insts p) else 0) (- 1)\<rparr>)"

definition fits :: "program \<Rightarrow> int \<Rightarrow> int \<Rightarrow> bool" where
  "fits p st end \<longleftrightarrow> length (p_insts p) * (as_usize (end - st) + 1) \<le> VISITED_BITS_MAX"

section \<open>Consuming and asserting\<close>

text \<open>\<open>Some None\<close>: the instruction does not match.\<close>

definition consume :: "walker \<Rightarrow> inst \<Rightarrow> int \<Rightarrow> int option option" where
  "consume w ins pos =
     (if pos \<ge> w_end w then Some None
      else do {
        let slen = int (length (w_s w));
        b \<leftarrow> rd (w_s w) (as_usize pos);
        let ul = int (utf8_len_for b);
        let whole_char = (ul \<ge> 1 \<and> pos + ul \<le> slen);
        case i_op ins of
          OP_CHAR \<Rightarrow> Some (if char_eq (inst_byte ins) b (ucast (i_pad ins)) then Some 1 else None)
        | OP_ANY_CHAR \<Rightarrow>
            Some (if (ucast (i_pad ins) :: u8) AND RE_FLAG_S = 0 \<and> terminator_at (w_s w) (as_usize pos) then None
                  else Some (if whole_char then ul else 1))
        | _ \<Rightarrow> do {
            cc \<leftarrow> rd (p_classes (w_prog w)) (as_usize (i_a ins));
            let ci = ((ucast (i_pad ins) :: u8) AND RE_FLAG_I \<noteq> 0);
            if \<not> byte_only cc \<and> w_unicode w \<and> whole_char then do {
              (cp, dec_len) \<leftarrow> utf8_decode_cp (drop (as_usize pos) (w_s w));
              let adv = (if dec_len > 0 then int dec_len else ul);
              Some (if class_test_cp_fold cc cp ci then Some adv else None)
            } else Some (if class_test_fold cc b ci then Some 1 else None)
          }
      })"

definition assertion_holds :: "walker \<Rightarrow> inst \<Rightarrow> int \<Rightarrow> bool option" where
  "assertion_holds w ins pos =
     (let s = w_s w;
          slen = int (length s);
          ml = ((ucast (i_pad ins) :: u8) AND RE_FLAG_M \<noteq> 0)
      in if pos < 0 \<or> pos > slen then None
         else
           (case i_op ins of
              OP_ANCHOR_B \<Rightarrow> Some (pos = 0 \<or> ml \<and> terminator_before s (nat pos))
            | OP_ANCHOR_E \<Rightarrow> Some (pos = slen \<or> ml \<and> terminator_at s (nat pos))
            | op \<Rightarrow>
                (let left = (pos > 0 \<and> is_word_byte (s ! nat (pos - 1)));
                     right = (pos < slen \<and> is_word_byte (s ! nat pos))
                 in Some ((left \<noteq> right) = (op = OP_WBOUND)))))"

section \<open>The walk\<close>

definition push_job :: "job \<Rightarrow> backtrack \<Rightarrow> backtrack" where
  "push_job j bt = bt\<lparr>bt_stack := j # bt_stack bt\<rparr>"

definition reset_slot :: "nat \<Rightarrow> backtrack \<times> int list \<Rightarrow> backtrack \<times> int list" where
  "reset_slot slot = (\<lambda>(bt, row).
     (if row ! slot \<ge> 0 then (push_job (Restore slot (row ! slot)) bt, row[slot := - 1]) else (bt, row)))"

text \<open>Where one instruction leads: the path ends with an outcome, or goes on.\<close>

type_synonym walk_result = "((outcome + nat \<times> int) \<times> backtrack \<times> int list) option"

definition walk_inst :: "walker \<Rightarrow> inst \<Rightarrow> nat \<Rightarrow> int \<Rightarrow> backtrack \<Rightarrow> int list \<Rightarrow> walk_result" where
  "walk_inst w ins pc pos bt row =
     (case i_op ins of
        OP_JMP \<Rightarrow> Some (Inr (as_usize (i_a ins), pos), bt, row)
      | OP_SPLIT \<Rightarrow>
          Some (Inr (as_usize (i_a ins), pos), push_job (Step (as_u32 (i_b ins)) (as_u32 (pos - w_st w))) bt, row)
      | OP_SAVE \<Rightarrow> do {
          let slot = as_usize (i_a ins);
          old \<leftarrow> rd row slot;
          Some (Inr (pc + 1, pos), push_job (Restore slot old) bt, row[slot := pos])
        }
      | OP_SAVE_RESET \<Rightarrow>
          (let end = min (as_usize (i_b ins)) (length row);
               start = min (as_usize (i_a ins)) end;
               (bt, row) = fold reset_slot [start..<end] (bt, row)
           in Some (Inr (pc + 1, pos), bt, row))
      | OP_ITER_START \<Rightarrow> do {
          old \<leftarrow> rd (bt_iter_pos bt) pc;
          Some (Inr (pc + 1, pos),
                (push_job (RestoreIter pc old) bt)\<lparr>bt_iter_pos := (bt_iter_pos bt)[pc := pos]\<rparr>, row)
        }
      | OP_ITER_CHECK \<Rightarrow> do {
          began \<leftarrow> rd (bt_iter_pos bt) (as_usize (i_a ins));
          Some (if began = pos then Inl NoMatch else Inr (pc + 1, pos), bt, row)
        }
      | OP_MATCH \<Rightarrow> Some (Inl (if pos = w_end w then Matched else NoMatch), bt, row)
      | op \<Rightarrow>
          (if op = OP_CHAR \<or> op = OP_ANY_CHAR \<or> op = OP_CLASS then do {
             adv \<leftarrow> consume w ins pos;
             Some (case adv of
                     Some a \<Rightarrow> if a = 1 then Inr (pc + 1, pos + 1) else Inl WideStep
                   | None \<Rightarrow> Inl NoMatch, bt, row)
           } else do {
             holds \<leftarrow> assertion_holds w ins pos;
             Some (if holds then Inr (pc + 1, pos) else Inl NoMatch, bt, row)
           }))"

definition walk_step :: "walker \<Rightarrow> nat \<Rightarrow> int \<Rightarrow> backtrack \<Rightarrow> int list \<Rightarrow> walk_result" where
  "walk_step w pc pos bt row = do {
     let bit_no = pc * w_width w + as_usize (pos - w_st w);
     let mask = push_bit (bit_no mod 64) 1;
     word \<leftarrow> rd (bt_visited bt) (bit_no div 64);
     if word AND mask \<noteq> 0 then Some (Inl NoMatch, bt, row)
     else do {
       let bt = bt\<lparr>bt_visited := (bt_visited bt)[bit_no div 64 := word OR mask]\<rparr>;
       ins \<leftarrow> rd (p_insts (w_prog w)) pc;
       walk_inst w ins pc pos bt row
     }
   }"

section \<open>Every step marks a new bit\<close>

definition is_marked :: "u64 list \<Rightarrow> nat \<Rightarrow> bool" where
  "is_marked vs k \<longleftrightarrow> bit (vs ! (k div 64)) (k mod 64)"

definition unmarked :: "u64 list \<Rightarrow> nat set" where
  "unmarked vs = {k. k < 64 * length vs \<and> \<not> is_marked vs k}"

lemma finite_unmarked [simp]: "finite (unmarked vs)"
  by (simp add: unmarked_def)

lemma word_mask_test: "(word :: u64) AND push_bit (k mod 64) 1 \<noteq> 0 \<longleftrightarrow> bit word (k mod 64)"
  by (simp add: push_bit_eq_mult and_exp_eq_0_iff_not_bit)

lemma is_marked_update:
  assumes "k div 64 < length vs"
  shows "is_marked (vs[k div 64 := vs ! (k div 64) OR push_bit (k mod 64) 1]) j \<longleftrightarrow> j = k \<or> is_marked vs j"
proof -
  have eq: "j = k \<longleftrightarrow> j div 64 = k div 64 \<and> j mod 64 = k mod 64" by (metis div_mult_mod_eq)
  show ?thesis using assms
    by (auto simp: is_marked_def eq nth_list_update bit_simps)
qed

lemma unmarked_update:
  assumes "k div 64 < length vs" "\<not> is_marked vs k"
  shows "unmarked (vs[k div 64 := vs ! (k div 64) OR push_bit (k mod 64) 1]) = unmarked vs - {k}"
    "k \<in> unmarked vs"
  using assms is_marked_update [OF assms(1)] by (auto simp: unmarked_def)

definition room :: "backtrack \<Rightarrow> nat" where
  "room bt = card (unmarked (bt_visited bt))"

lemma push_job_sel [simp]:
  "bt_visited (push_job j bt) = bt_visited bt" "bt_iter_pos (push_job j bt) = bt_iter_pos bt"
  "bt_eligible (push_job j bt) = bt_eligible bt" "bt_stack (push_job j bt) = j # bt_stack bt"
  by (simp_all add: push_job_def)

lemma fold_reset_visited [simp]:
  "bt_visited (fst (fold reset_slot slots (bt, row))) = bt_visited bt"
  "bt_iter_pos (fst (fold reset_slot slots (bt, row))) = bt_iter_pos bt"
  "length (snd (fold reset_slot slots (bt, row))) = length row"
  by (induction slots arbitrary: bt row) (simp_all add: reset_slot_def)

lemma walk_inst_visited:
  assumes "walk_inst w ins pc pos bt row = Some (r, bt', row')"
  shows "bt_visited bt' = bt_visited bt"
proof -
  have "bt_visited bt1 = bt_visited bt" if "fold reset_slot slots (bt, row) = (bt1, row1)" for slots bt1 row1
    using fold_reset_visited(1) [of slots bt row] that by simp
  with assms show ?thesis
    by (cases "i_op ins") (auto simp: walk_inst_def Let_def split: bind_splits prod.splits)
qed

definition bit_no :: "walker \<Rightarrow> nat \<Rightarrow> int \<Rightarrow> nat" where
  "bit_no w pc pos = pc * w_width w + as_usize (pos - w_st w)"

definition mark :: "nat \<Rightarrow> backtrack \<Rightarrow> backtrack" where
  "mark k bt = bt\<lparr>bt_visited := (bt_visited bt)[k div 64 := bt_visited bt ! (k div 64) OR push_bit (k mod 64) 1]\<rparr>"

lemma mark_sel [simp]:
  "bt_iter_pos (mark k bt) = bt_iter_pos bt" "bt_stack (mark k bt) = bt_stack bt"
  "length (bt_visited (mark k bt)) = length (bt_visited bt)"
  by (simp_all add: mark_def)

lemma walk_step_mark:
  "walk_step w pc pos bt row =
     (let k = bit_no w pc pos in
      if k div 64 < length (bt_visited bt) then
        if is_marked (bt_visited bt) k then Some (Inl NoMatch, bt, row)
        else Option.bind (rd (p_insts (w_prog w)) pc) (\<lambda>ins. walk_inst w ins pc pos (mark k bt) row)
      else None)"
  by (simp add: walk_step_def Let_def rd_def bit_no_def mark_def is_marked_def word_mask_test
      del: push_bit_of_1)

lemma walk_step_room:
  assumes "walk_step w pc pos bt row = Some (r, bt', row')"
  shows "(r = Inl NoMatch \<and> bt' = bt \<and> row' = row) \<or> room bt' < room bt"
proof (cases "is_marked (bt_visited bt) (bit_no w pc pos)")
  case True
  then show ?thesis using assms by (auto simp: walk_step_mark Let_def split: if_splits)
next
  case False
  let ?k = "bit_no w pc pos"
  have k: "?k div 64 < length (bt_visited bt)" using assms by (auto simp: walk_step_mark Let_def split: if_splits)
  obtain ins where "walk_inst w ins pc pos (mark ?k bt) row = Some (r, bt', row')"
    using assms False by (auto simp: walk_step_mark Let_def split: if_splits bind_splits)
  then have "unmarked (bt_visited bt') = unmarked (bt_visited bt) - {?k}"
    using unmarked_update(1) [OF k False] walk_inst_visited by (simp add: mark_def)
  then have "room bt' < room bt"
    using unmarked_update(2) [OF k False] unfolding room_def by (metis card_Diff1_less finite_unmarked)
  then show ?thesis ..
qed

function walk :: "walker \<Rightarrow> nat \<Rightarrow> int \<Rightarrow> backtrack \<Rightarrow> int list \<Rightarrow> (outcome \<times> backtrack \<times> int list) option" where
  "walk w pc pos bt row =
     (case walk_step w pc pos bt row of
        None \<Rightarrow> None
      | Some (Inl out, bt, row) \<Rightarrow> Some (out, bt, row)
      | Some (Inr (pc, pos), bt, row) \<Rightarrow> walk w pc pos bt row)"
  by pat_completeness auto
termination
  by (relation "measure (\<lambda>(_, _, _, bt, _). room bt)") (auto dest!: walk_step_room)

declare walk.simps [simp del]

lemma walk_room:
  "walk w pc pos bt row = Some (out, bt', row') \<Longrightarrow> (out = NoMatch \<and> bt' = bt \<and> row' = row) \<or> room bt' < room bt"
proof (induction w pc pos bt row rule: walk.induct)
  case (1 w pc pos bt row)
  note eq = "1.prems" [unfolded walk.simps [of w pc]]
  show ?case
  proof (cases "walk_step w pc pos bt row")
    case None
    then show ?thesis using eq by simp
  next
    case (Some res)
    obtain r bt1 row1 where res: "res = (r, bt1, row1)" by (cases res)
    note step = walk_step_room [OF Some [unfolded res]]
    show ?thesis
    proof (cases r)
      case (Inl out1)
      then show ?thesis using eq Some res step by auto
    next
      case (Inr c)
      obtain pc1 pos1 where c: "c = (pc1, pos1)" by (cases c)
      have "walk w pc1 pos1 bt1 row1 = Some (out, bt', row')" using eq Some res Inr c by simp
      with "1.IH" [OF Some res [symmetric] Inr c [symmetric] refl] Inr step show ?thesis by fastforce
    qed
  qed
qed

section \<open>The job loop\<close>

lemma room_sel [simp]: "room (bt\<lparr>bt_stack := st\<rparr>) = room bt" "room (bt\<lparr>bt_iter_pos := its\<rparr>) = room bt"
  by (simp_all add: room_def)

lemma drain_decreases:
  assumes "walk w pc pos (bt\<lparr>bt_stack := rest\<rparr>) row = Some (NoMatch, bt', row')" "bt_stack bt = job # rest"
    "\<not> room bt' < room bt"
  shows "room bt' = room bt \<and> length (bt_stack bt') < Suc (length rest)"
  using walk_room [OF assms(1)] assms(2,3) by auto

function drain :: "walker \<Rightarrow> backtrack \<Rightarrow> int list \<Rightarrow> (outcome \<times> backtrack \<times> int list) option" where
  "drain w bt row =
     (case bt_stack bt of
        [] \<Rightarrow> Some (NoMatch, bt, row)
      | job # rest \<Rightarrow>
          (let bt = bt\<lparr>bt_stack := rest\<rparr> in
           case job of
             Restore slot old \<Rightarrow>
               (case wr row slot old of None \<Rightarrow> None | Some row \<Rightarrow> drain w bt row)
           | RestoreIter pc old \<Rightarrow>
               (case wr (bt_iter_pos bt) pc old of
                  None \<Rightarrow> None
                | Some its \<Rightarrow> drain w (bt\<lparr>bt_iter_pos := its\<rparr>) row)
           | Step pc off \<Rightarrow>
               (case walk w pc (w_st w + int off) bt row of
                  None \<Rightarrow> None
                | Some (out, bt, row) \<Rightarrow>
                    if out = NoMatch then drain w bt row else Some (out, bt, row))))"
  by pat_completeness auto
termination
  by (relation "measures [\<lambda>(_, bt, _). room bt, \<lambda>(_, bt, _). length (bt_stack bt)]")
    (auto simp: room_sel dest: drain_decreases)

declare drain.simps [simp del]

definition walker_for :: "program \<Rightarrow> u8 list \<Rightarrow> int \<Rightarrow> int \<Rightarrow> u8 \<Rightarrow> walker" where
  "walker_for p s st end flags =
     \<lparr>w_prog = p, w_s = s, w_st = st, w_end = end, w_width = as_usize (end - st) + 1,
      w_unicode = unicode_mode flags\<rparr>"

definition clear_visited :: "nat \<Rightarrow> u64 list \<Rightarrow> u64 list" where
  "clear_visited n_words visited =
     (let visited = (if length visited < n_words then visited @ replicate (n_words - length visited) 0 else visited)
      in replicate n_words 0 @ drop n_words visited)"

definition captures_at :: "program \<Rightarrow> u8 list \<Rightarrow> int \<Rightarrow> int \<Rightarrow> u8 \<Rightarrow> backtrack \<Rightarrow> int list \<Rightarrow>
    (outcome \<times> backtrack \<times> int list) option" where
  "captures_at p s st end flags bt row =
     (let width = as_usize (end - st) + 1;
          n_words = (length (p_insts p) * width + 63) div 64
      in drain (walker_for p s st end flags)
           (bt\<lparr>bt_visited := clear_visited n_words (bt_visited bt), bt_stack := [Step 0 0]\<rparr>) row)"

end
