(* ===== verification/Regex_Walk.thy ===== *)
theory Regex_Walk
  imports Regex_Backtrack
begin

text \<open>
  What the backtracker of \<open>Regex_Backtrack\<close> computes. A program is a nondeterministic
  machine whose configurations are an instruction, a position, a row of capture slots
  and the starts of the open iterations; \<open>runs\<close> lists the rows of its accepting paths
  in priority order. The walker returns the first of them.
\<close>

section \<open>The machine of a program\<close>

type_synonym config = "nat \<times> int \<times> int list \<times> int list"

definition clear_slots :: "nat \<Rightarrow> nat \<Rightarrow> int list \<Rightarrow> int list" where
  "clear_slots a b row = map (\<lambda>(i, v). if a \<le> i \<and> i < b \<and> v \<ge> 0 then - 1 else v) (enumerate 0 row)"

text \<open>An accepting instruction answers whether it accepts; any other lists the successors.\<close>

definition exec_inst :: "walker \<Rightarrow> inst \<Rightarrow> config \<Rightarrow> (bool + config list) option" where
  "exec_inst w ins c =
     (case c of (pc, pos, row, its) \<Rightarrow>
     (case i_op ins of
        OP_JMP \<Rightarrow> Some (Inr [(nat (i_a ins), pos, row, its)])
      | OP_SPLIT \<Rightarrow> Some (Inr [(nat (i_a ins), pos, row, its), (nat (i_b ins), pos, row, its)])
      | OP_SAVE \<Rightarrow> Some (Inr [(pc + 1, pos, row[nat (i_a ins) := pos], its)])
      | OP_SAVE_RESET \<Rightarrow> Some (Inr [(pc + 1, pos, clear_slots (nat (i_a ins)) (nat (i_b ins)) row, its)])
      | OP_ITER_START \<Rightarrow> Some (Inr [(pc + 1, pos, row, its[pc := pos])])
      | OP_ITER_CHECK \<Rightarrow>
          Some (Inr (if its ! nat (i_a ins) = pos then [] else [(pc + 1, pos, row, its)]))
      | OP_MATCH \<Rightarrow> Some (Inl (pos = w_end w))
      | op \<Rightarrow>
          (if op = OP_CHAR \<or> op = OP_ANY_CHAR \<or> op = OP_CLASS then
             map_option (\<lambda>adv. Inr (case adv of None \<Rightarrow> [] | Some a \<Rightarrow> [(pc + 1, pos + a, row, its)]))
               (consume w ins pos)
           else
             map_option (\<lambda>holds. Inr (if holds then [(pc + 1, pos, row, its)] else []))
               (assertion_holds w ins pos))))"

definition exec :: "walker \<Rightarrow> config \<Rightarrow> (bool + config list) option" where
  "exec w c = Option.bind (rd (p_insts (w_prog w)) (fst c)) (\<lambda>ins. exec_inst w ins c)"

text \<open>\<open>runs w c n rs\<close>: the tree of \<open>c\<close> is finite, \<open>n\<close> measures it, \<open>rs\<close> are its accepting rows.\<close>

inductive runs :: "walker \<Rightarrow> config \<Rightarrow> nat \<Rightarrow> int list list \<Rightarrow> bool" for w where
  accept: "exec w (pc, pos, row, its) = Some (Inl b) \<Longrightarrow> runs w (pc, pos, row, its) 0 (if b then [row] else [])"
| stop: "exec w c = Some (Inr []) \<Longrightarrow> runs w c 0 []"
| one: "exec w c = Some (Inr [c1]) \<Longrightarrow> runs w c1 n rs \<Longrightarrow> runs w c (Suc n) rs"
| two: "exec w c = Some (Inr [c1, c2]) \<Longrightarrow> runs w c1 n1 rs1 \<Longrightarrow> runs w c2 n2 rs2 \<Longrightarrow>
    runs w c (Suc (n1 + n2)) (rs1 @ rs2)"

inductive_cases runsE: "runs w c n rs"

section \<open>Windows\<close>

definition i32 :: "int \<Rightarrow> bool" where
  "i32 a \<longleftrightarrow> - (2 ^ 31) \<le> a \<and> a < 2 ^ 31"

definition legal :: "walker \<Rightarrow> bool" where
  "legal w \<longleftrightarrow> can_backtrack (w_prog w) \<and> 0 \<le> w_st w \<and> w_st w \<le> w_end w \<and>
     w_end w \<le> int (length (w_s w)) \<and> length (w_s w) < 2 ^ 63 \<and> w_width w = nat (w_end w - w_st w) + 1 \<and>
     length (p_insts (w_prog w)) * w_width w \<le> VISITED_BITS_MAX \<and>
     (\<forall>ins \<in> set (p_insts (w_prog w)). i32 (i_a ins) \<and> i32 (i_b ins))"

definition in_window :: "walker \<Rightarrow> nat \<Rightarrow> int \<Rightarrow> bool" where
  "in_window w pc pos \<longleftrightarrow> pc < length (p_insts (w_prog w)) \<and> w_st w \<le> pos \<and> pos \<le> w_end w"

text \<open>The buffers are as long as the program and the window need.\<close>

definition buffers_ok :: "walker \<Rightarrow> backtrack \<Rightarrow> int list \<Rightarrow> bool" where
  "buffers_ok w bt row \<longleftrightarrow>
     length (p_insts (w_prog w)) * w_width w \<le> 64 * length (bt_visited bt) \<and>
     (\<forall>ins \<in> set (p_insts (w_prog w)). i_op ins = OP_SAVE \<longrightarrow> nat (i_a ins) < length row) \<and>
     ((\<exists>ins \<in> set (p_insts (w_prog w)). i_op ins = OP_ITER_START) \<longrightarrow>
        length (bt_iter_pos bt) = length (p_insts (w_prog w)))"

lemma as_usize_id: "0 \<le> a \<Longrightarrow> a < 2 ^ 64 \<Longrightarrow> as_usize a = nat a"
  by (simp add: as_usize_def)

lemma as_u32_id: "0 \<le> a \<Longrightarrow> a < 2 ^ 32 \<Longrightarrow> as_u32 a = nat a"
  by (simp add: as_u32_def)

lemma legal_small:
  assumes "legal w" "in_window w pc pos"
  shows "length (p_insts (w_prog w)) \<le> VISITED_BITS_MAX" "w_width w \<le> VISITED_BITS_MAX"
    "as_usize (pos - w_st w) = nat (pos - w_st w)" "as_u32 (pos - w_st w) = nat (pos - w_st w)"
    "as_usize pos = nat pos" "0 \<le> pos" "pos \<le> int (length (w_s w))"
proof -
  let ?n = "length (p_insts (w_prog w))"
  have b: "?n * w_width w \<le> VISITED_BITS_MAX" and wd: "w_width w = nat (w_end w - w_st w) + 1"
    and s: "0 \<le> w_st w" "w_end w \<le> int (length (w_s w))" "length (w_s w) < 2 ^ 63"
    using assms(1) unfolding legal_def by blast+
  have "0 < ?n" "0 < w_width w" "w_st w \<le> pos" "pos \<le> w_end w" using assms(2) wd by (auto simp: in_window_def)
  then show n: "?n \<le> VISITED_BITS_MAX" "w_width w \<le> VISITED_BITS_MAX"
    using b mult_le_mono2 [of 1 "w_width w" ?n] mult_le_mono1 [of 1 ?n "w_width w"] by linarith+
  have "pos - w_st w < 2 ^ 32" using n(2) wd \<open>pos \<le> w_end w\<close> unfolding VISITED_BITS_MAX_def by auto
  then show "as_usize (pos - w_st w) = nat (pos - w_st w)" "as_u32 (pos - w_st w) = nat (pos - w_st w)"
    using \<open>w_st w \<le> pos\<close> by (simp_all add: as_usize_id as_u32_id)
  show "0 \<le> pos" "pos \<le> int (length (w_s w))" using s \<open>w_st w \<le> pos\<close> \<open>pos \<le> w_end w\<close> by linarith+
  then show "as_usize pos = nat pos" using s(3) by (intro as_usize_id) auto
qed

lemma bit_no_window:
  assumes "legal w" "in_window w pc pos"
  shows "bit_no w pc pos = pc * w_width w + nat (pos - w_st w)" "nat (pos - w_st w) < w_width w"
    "bit_no w pc pos < length (p_insts (w_prog w)) * w_width w"
proof -
  show 1: "bit_no w pc pos = pc * w_width w + nat (pos - w_st w)"
    by (simp add: bit_no_def legal_small [OF assms])
  show 2: "nat (pos - w_st w) < w_width w" using assms by (auto simp: legal_def in_window_def)
  have "Suc pc * w_width w \<le> length (p_insts (w_prog w)) * w_width w"
    using assms(2) by (intro mult_le_mono1) (simp add: in_window_def)
  then show "bit_no w pc pos < length (p_insts (w_prog w)) * w_width w" using 1 2 by simp
qed

lemma bit_no_inj:
  assumes "legal w" "in_window w pc pos" "in_window w pc' pos'" "bit_no w pc pos = bit_no w pc' pos'"
  shows "pc = pc' \<and> pos = pos'"
proof -
  note a = bit_no_window [OF assms(1,2)] and b = bit_no_window [OF assms(1,3)]
  have "pc = bit_no w pc pos div w_width w" "nat (pos - w_st w) = bit_no w pc pos mod w_width w"
    "pc' = bit_no w pc' pos' div w_width w" "nat (pos' - w_st w) = bit_no w pc' pos' mod w_width w"
    unfolding a(1) b(1) using a(2) b(2) by simp_all
  then have "pc = pc'" "nat (pos - w_st w) = nat (pos' - w_st w)" using assms(4) by simp_all
  then show ?thesis using assms(2,3) by (auto simp: in_window_def)
qed

definition seen :: "walker \<Rightarrow> backtrack \<Rightarrow> nat \<Rightarrow> int \<Rightarrow> bool" where
  "seen w bt pc pos \<longleftrightarrow> is_marked (bt_visited bt) (bit_no w pc pos)"

lemma bit_word_in_range:
  "legal w \<Longrightarrow> in_window w pc pos \<Longrightarrow> buffers_ok w bt row \<Longrightarrow> bit_no w pc pos div 64 < length (bt_visited bt)"
  using bit_no_window(3) [of w pc pos] by (simp add: buffers_ok_def less_mult_imp_div_less mult.commute)

lemma seen_mark:
  assumes "legal w" "buffers_ok w bt row" "in_window w pc pos" "in_window w pc' pos'"
  shows "seen w (mark (bit_no w pc pos) bt) pc' pos' \<longleftrightarrow> pc' = pc \<and> pos' = pos \<or> seen w bt pc' pos'"
  using is_marked_update [OF bit_word_in_range [OF assms(1,3,2)]] bit_no_inj [OF assms(1,4,3)]
  by (auto simp: seen_def mark_def)

lemma walk_step_seen:
  assumes "legal w" "buffers_ok w bt row" "in_window w pc pos"
  shows "walk_step w pc pos bt row =
    (if seen w bt pc pos then Some (Inl NoMatch, bt, row)
     else walk_inst w (p_insts (w_prog w) ! pc) pc pos (mark (bit_no w pc pos) bt) row)"
  using bit_word_in_range [OF assms(1,3,2)] assms(3)
  by (simp add: walk_step_mark Let_def seen_def rd_def in_window_def)

section \<open>Eligible instructions\<close>

lemma eligible_inst:
  assumes "can_backtrack p" "pc < length (p_insts p)"
  defines "ins \<equiv> p_insts p ! pc"
  shows "case i_op ins of
      OP_JMP \<Rightarrow> 0 \<le> i_a ins \<and> nat (i_a ins) < length (p_insts p)
    | OP_SPLIT \<Rightarrow> 0 \<le> i_a ins \<and> nat (i_a ins) < length (p_insts p) \<and> 0 \<le> i_b ins \<and> nat (i_b ins) < length (p_insts p)
    | OP_MATCH \<Rightarrow> True
    | OP_CLASS \<Rightarrow> pc + 1 < length (p_insts p) \<and> 0 \<le> i_a ins \<and> nat (i_a ins) < length (p_classes p)
    | OP_SAVE \<Rightarrow> pc + 1 < length (p_insts p) \<and> 0 \<le> i_a ins
    | OP_SAVE_RESET \<Rightarrow> pc + 1 < length (p_insts p) \<and> 0 \<le> i_a ins \<and> i_a ins \<le> i_b ins
    | OP_ITER_CHECK \<Rightarrow> pc + 1 < length (p_insts p) \<and> 0 \<le> i_a ins \<and> nat (i_a ins) < length (p_insts p) \<and>
        i_op (p_insts p ! nat (i_a ins)) = OP_ITER_START
    | _ \<Rightarrow> pc + 1 < length (p_insts p) \<and>
        i_op ins \<in> {OP_CHAR, OP_ANY_CHAR, OP_ANCHOR_B, OP_ANCHOR_E, OP_WBOUND, OP_NWBOUND, OP_ITER_START}"
proof -
  have "(pc, ins) \<in> set (enumerate 0 (p_insts p))"
    using assms(2) by (simp add: ins_def in_set_enumerate_eq)
  with assms(1) show ?thesis unfolding can_backtrack_def Let_def list_all_iff
    by (cases "i_op ins") (force dest: bspec)+
qed

lemma eligible_ids:
  assumes "legal w" "pc < length (p_insts (w_prog w))"
  defines "ins \<equiv> p_insts (w_prog w) ! pc"
  shows "0 \<le> i_a ins \<Longrightarrow> as_usize (i_a ins) = nat (i_a ins)" "0 \<le> i_b ins \<Longrightarrow> as_usize (i_b ins) = nat (i_b ins)"
    "0 \<le> i_b ins \<Longrightarrow> as_u32 (i_b ins) = nat (i_b ins)"
proof -
  have "i32 (i_a ins)" "i32 (i_b ins)" using assms by (auto simp: legal_def)
  then show "0 \<le> i_a ins \<Longrightarrow> as_usize (i_a ins) = nat (i_a ins)" "0 \<le> i_b ins \<Longrightarrow> as_usize (i_b ins) = nat (i_b ins)"
    "0 \<le> i_b ins \<Longrightarrow> as_u32 (i_b ins) = nat (i_b ins)"
    by (simp_all add: i32_def as_usize_id as_u32_id)
qed

section \<open>Undoing\<close>

lemma drain_pop:
  "drain w (bt\<lparr>bt_stack := Restore slot old # rest\<rparr>) row =
     (case wr row slot old of None \<Rightarrow> None | Some row \<Rightarrow> drain w (bt\<lparr>bt_stack := rest\<rparr>) row)"
  "drain w (bt\<lparr>bt_stack := RestoreIter pc old # rest\<rparr>) row =
     (case wr (bt_iter_pos bt) pc old of None \<Rightarrow> None
      | Some its \<Rightarrow> drain w (bt\<lparr>bt_stack := rest, bt_iter_pos := its\<rparr>) row)"
  by (subst drain.simps, simp add: Let_def split: option.splits)+

lemma fold_reset_nth:
  assumes "\<forall>x \<in> set slots. x < length row" "i < length row"
  shows "snd (fold reset_slot slots (bt, row)) ! i = (if i \<in> set slots \<and> row ! i \<ge> 0 then - 1 else row ! i)"
  using assms
proof (induction slots arbitrary: bt row)
  case (Cons x slots)
  then show ?case by (auto simp: reset_slot_def nth_list_update)
qed simp

lemma length_clear_slots [simp]: "length (clear_slots a b row) = length row"
  by (simp add: clear_slots_def)

lemma clear_slots_nth:
  "i < length row \<Longrightarrow> clear_slots a b row ! i = (if a \<le> i \<and> i < b \<and> row ! i \<ge> 0 then - 1 else row ! i)"
  by (simp add: clear_slots_def nth_enumerate_eq)

lemma fold_reset_clear:
  "snd (fold reset_slot [min a (min b (length row))..<min b (length row)] (bt, row)) = clear_slots a b row"
  by (rule nth_equalityI) (auto simp: fold_reset_nth clear_slots_nth)

lemma drain_undo_reset:
  assumes "\<forall>x \<in> set slots. x < length row" "fold reset_slot slots (bt, row) = (bt1, row1)"
  shows "drain w (bt'\<lparr>bt_stack := bt_stack bt1\<rparr>) row1 = drain w (bt'\<lparr>bt_stack := bt_stack bt\<rparr>) row"
  using assms
proof (induction slots arbitrary: bt row)
  case (Cons x slots)
  obtain btx rowx where x: "reset_slot x (bt, row) = (btx, rowx)" by fastforce
  have "drain w (bt'\<lparr>bt_stack := bt_stack bt1\<rparr>) row1 = drain w (bt'\<lparr>bt_stack := bt_stack btx\<rparr>) rowx"
    using Cons.prems x by (intro Cons.IH) (auto simp: reset_slot_def split: if_splits)
  also have "\<dots> = drain w (bt'\<lparr>bt_stack := bt_stack bt\<rparr>) row"
    using x Cons.prems(1) by (auto simp: reset_slot_def drain_pop wr_def split: if_splits)
  finally show ?case .
qed simp

text \<open>
  One step of the walker against one step of the machine. After a step the stack holds,
  above the old one, jobs that undo its writes.
\<close>

definition goes_on :: "walker \<Rightarrow> backtrack \<Rightarrow> int list \<Rightarrow> nat \<times> int \<Rightarrow> backtrack \<Rightarrow> int list \<Rightarrow> bool" where
  "goes_on w bt row c bt1 row1 \<longleftrightarrow>
     in_window w (fst c) (snd c) \<and> bt_visited bt1 = bt_visited bt \<and> length row1 = length row \<and>
     length (bt_iter_pos bt1) = length (bt_iter_pos bt) \<and>
     (\<forall>bt'. bt_stack bt' = bt_stack bt1 \<longrightarrow> bt_iter_pos bt' = bt_iter_pos bt1 \<longrightarrow>
        drain w bt' row1 = drain w (bt'\<lparr>bt_stack := bt_stack bt, bt_iter_pos := bt_iter_pos bt\<rparr>) row)"

lemma goes_onI:
  assumes "in_window w pc pos" "bt_visited bt1 = bt_visited bt" "length row1 = length row"
    "length (bt_iter_pos bt1) = length (bt_iter_pos bt)"
    "\<And>bt'. bt_stack bt' = bt_stack bt1 \<Longrightarrow> bt_iter_pos bt' = bt_iter_pos bt1 \<Longrightarrow>
       drain w bt' row1 = drain w (bt'\<lparr>bt_stack := bt_stack bt, bt_iter_pos := bt_iter_pos bt\<rparr>) row"
  shows "goes_on w bt row (pc, pos) bt1 row1"
  unfolding goes_on_def fst_conv snd_conv using assms by blast

lemma goes_on_same:
  "in_window w pc pos \<Longrightarrow> goes_on w bt row (pc, pos) bt row"
proof -
  assume iw: "in_window w pc pos"
  have "drain w bt' row = drain w (bt'\<lparr>bt_stack := bt_stack bt, bt_iter_pos := bt_iter_pos bt\<rparr>) row"
    if "bt_stack bt' = bt_stack bt" "bt_iter_pos bt' = bt_iter_pos bt" for bt'
    by (simp flip: that)
  then show ?thesis by (rule goes_onI [OF iw refl refl refl])
qed

lemma restore_jobs:
  assumes "bt_stack bt' = j # bt_stack bt"
  shows "bt' = bt'\<lparr>bt_stack := j # bt_stack bt\<rparr>"
  using assms by (cases bt') simp

lemma goes_on_save:
  assumes "in_window w pc pos" "slot < length row"
  shows "goes_on w bt row (pc, pos) (push_job (Restore slot (row ! slot)) bt) (row[slot := v])"
proof -
  have "drain w bt' (row[slot := v]) = drain w (bt'\<lparr>bt_stack := bt_stack bt, bt_iter_pos := bt_iter_pos bt\<rparr>) row"
    if e: "bt_stack bt' = Restore slot (row ! slot) # bt_stack bt" "bt_iter_pos bt' = bt_iter_pos bt" for bt'
    using assms(2) by (subst restore_jobs [OF e(1)]) (simp add: drain_pop wr_def flip: e(2))
  then show ?thesis using assms(1) by (intro goes_onI) simp_all
qed

lemma goes_on_iter:
  assumes "in_window w pc' pos'" "pc < length (bt_iter_pos bt)"
  shows "goes_on w bt row (pc', pos')
    ((push_job (RestoreIter pc (bt_iter_pos bt ! pc)) bt)\<lparr>bt_iter_pos := (bt_iter_pos bt)[pc := v]\<rparr>) row"
proof -
  have "drain w bt' row = drain w (bt'\<lparr>bt_stack := bt_stack bt, bt_iter_pos := bt_iter_pos bt\<rparr>) row"
    if e: "bt_stack bt' = RestoreIter pc (bt_iter_pos bt ! pc) # bt_stack bt"
      "bt_iter_pos bt' = (bt_iter_pos bt)[pc := v]" for bt'
    using assms(2) by (subst restore_jobs [OF e(1)]) (simp add: drain_pop wr_def e(2))
  then show ?thesis using assms(1) by (intro goes_onI) simp_all
qed

lemma goes_on_reset:
  assumes "in_window w pc pos" "\<forall>x \<in> set slots. x < length row" "fold reset_slot slots (bt, row) = (bt1, row1)"
  shows "goes_on w bt row (pc, pos) bt1 row1"
proof -
  have sel: "bt_visited bt1 = bt_visited bt" "bt_iter_pos bt1 = bt_iter_pos bt" "length row1 = length row"
    using fold_reset_visited [of slots bt row] assms(3) by simp_all
  have "drain w bt' row1 = drain w (bt'\<lparr>bt_stack := bt_stack bt, bt_iter_pos := bt_iter_pos bt\<rparr>) row"
    if e: "bt_stack bt' = bt_stack bt1" "bt_iter_pos bt' = bt_iter_pos bt" for bt'
    using drain_undo_reset [OF assms(2,3), of w bt'] by (simp flip: e)
  then show ?thesis using assms(1) sel by (intro goes_onI) simp_all
qed

text \<open>The three ways one walked instruction can relate to the machine.\<close>

definition follows :: "walker \<Rightarrow> backtrack \<Rightarrow> int list \<Rightarrow> walk_result \<Rightarrow> bool + config list \<Rightarrow> bool" where
  "follows w bt row res e =
     (case e of
        Inl b \<Rightarrow> res = Some (Inl (if b then Matched else NoMatch), bt, row)
      | Inr [] \<Rightarrow> res = Some (Inl NoMatch, bt, row)
      | Inr [(pc1, pos1, row1, its1)] \<Rightarrow>
          res = Some (Inl WideStep, bt, row) \<or>
          (\<exists>bt1. res = Some (Inr (pc1, pos1), bt1, row1) \<and> bt_iter_pos bt1 = its1 \<and>
             goes_on w bt row (pc1, pos1) bt1 row1)
      | Inr [(pc1, pos1, row1, its1), (pc2, pos2, row2, its2)] \<Rightarrow>
          in_window w pc1 pos1 \<and> in_window w pc2 pos2 \<and> row1 = row \<and> row2 = row \<and>
          its1 = bt_iter_pos bt \<and> its2 = bt_iter_pos bt \<and>
          res = Some (Inr (pc1, pos1), push_job (Step pc2 (nat (pos2 - w_st w))) bt, row)
      | _ \<Rightarrow> False)"

lemma consume_bounds:
  assumes "consume w ins pos = Some (Some a)" shows "pos < w_end w"
  using assms by (auto simp: consume_def split: if_splits)

lemma walk_inst_follows:
  assumes lw: "legal w" and iw: "in_window w pc pos" and ok: "buffers_ok w bt row"
    and e: "exec_inst w (p_insts (w_prog w) ! pc) (pc, pos, row, bt_iter_pos bt) = Some e"
  shows "follows w bt row (walk_inst w (p_insts (w_prog w) ! pc) pc pos bt row) e"
proof -
  let ?ins = "p_insts (w_prog w) ! pc"
  let ?n = "length (p_insts (w_prog w))"
  have pc: "pc < ?n" "?ins \<in> set (p_insts (w_prog w))" using iw by (simp_all add: in_window_def)
  have el: "can_backtrack (w_prog w)" using lw by (simp add: legal_def)
  note inst = eligible_inst [OF el pc(1)] and ids = eligible_ids [OF lw pc(1)]
  have win: "in_window w pc' pos" if "pc' < ?n" for pc' using iw that by (simp add: in_window_def)
  have consuming: ?thesis if op: "i_op ?ins = OP_CHAR \<or> i_op ?ins = OP_ANY_CHAR \<or> i_op ?ins = OP_CLASS"
    and nxt: "pc + 1 < ?n"
  proof -
    have e': "map_option (\<lambda>adv. Inr (case adv of None \<Rightarrow> [] | Some a \<Rightarrow> [(pc + 1, pos + a, row, bt_iter_pos bt)]))
      (consume w ?ins pos) = Some e" using op e by (auto simp: exec_inst_def)
    then obtain adv where adv: "consume w ?ins pos = Some adv" by (cases "consume w ?ins pos") simp_all
    have res: "walk_inst w ?ins pc pos bt row =
      Some (case adv of Some a \<Rightarrow> if a = 1 then Inr (pc + 1, pos + 1) else Inl WideStep | None \<Rightarrow> Inl NoMatch, bt, row)"
      using op adv by (auto simp: walk_inst_def)
    have "in_window w (pc + 1) (pos + 1)" if "adv = Some a" for a
      using consume_bounds [of w ?ins pos a] adv that iw nxt by (simp add: in_window_def)
    then have go: "adv = Some a \<Longrightarrow> goes_on w bt row (pc + 1, pos + 1) bt row" for a by (rule goes_on_same)
    show ?thesis
    proof (cases adv)
      case None
      then have "e = Inr []" using e' adv by simp
      then show ?thesis unfolding res by (simp add: follows_def None)
    next
      case (Some a)
      then have "e = Inr [(pc + 1, pos + a, row, bt_iter_pos bt)]" using e' adv by simp
      then show ?thesis unfolding res using go [OF Some] by (auto simp: follows_def Some)
    qed
  qed
  have asserting: ?thesis
    if op: "i_op ?ins = OP_ANCHOR_B \<or> i_op ?ins = OP_ANCHOR_E \<or> i_op ?ins = OP_WBOUND \<or> i_op ?ins = OP_NWBOUND"
    and nxt: "pc + 1 < ?n"
  proof -
    have e': "map_option (\<lambda>holds. Inr (if holds then [(pc + 1, pos, row, bt_iter_pos bt)] else []))
      (assertion_holds w ?ins pos) = Some e"
      using op e unfolding exec_inst_def prod.case by (elim disjE) (simp_all only: op.case op.distinct simp_thms if_True if_False)
    then obtain h where h: "assertion_holds w ?ins pos = Some h" by (cases "assertion_holds w ?ins pos") simp_all
    have res: "walk_inst w ?ins pc pos bt row = Some (if h then Inr (pc + 1, pos) else Inl NoMatch, bt, row)"
      using op h by (auto simp: walk_inst_def)
    have e: "e = Inr (if h then [(pc + 1, pos, row, bt_iter_pos bt)] else [])" using e' h by simp
    show ?thesis unfolding res e using goes_on_same [OF win [OF nxt]] by (cases h) (auto simp: follows_def)
  qed
  show ?thesis
  proof (cases "i_op ?ins")
    case OP_SAVE
    then have "pc + 1 < ?n" "as_usize (i_a ?ins) = nat (i_a ?ins)" "nat (i_a ?ins) < length row"
      using inst ids ok pc by (auto simp: buffers_ok_def)
    then show ?thesis using OP_SAVE e goes_on_save [OF win]
      by (auto simp: exec_inst_def walk_inst_def follows_def rd_def Let_def)
  next
    case OP_SAVE_RESET
    let ?r = "min (as_usize (i_b ?ins)) (length row)"
    obtain bt1 row1 where f: "fold reset_slot [min (as_usize (i_a ?ins)) ?r..<?r] (bt, row) = (bt1, row1)" by fastforce
    have "pc + 1 < ?n" "as_usize (i_a ?ins) = nat (i_a ?ins)" "as_usize (i_b ?ins) = nat (i_b ?ins)"
      using OP_SAVE_RESET inst ids by auto
    moreover have "row1 = clear_slots (as_usize (i_a ?ins)) (as_usize (i_b ?ins)) row"
      using fold_reset_clear [of "as_usize (i_a ?ins)" "as_usize (i_b ?ins)" row bt] f by simp
    moreover have "bt_iter_pos bt1 = bt_iter_pos bt"
      using fold_reset_visited(2) [of "[min (as_usize (i_a ?ins)) ?r..<?r]" bt row] f by simp
    moreover have "goes_on w bt row (pc + 1, pos) bt1 row1"
      using f \<open>pc + 1 < ?n\<close> by (intro goes_on_reset [OF win _ f]) auto
    ultimately show ?thesis using OP_SAVE_RESET e f
      by (auto simp: exec_inst_def walk_inst_def follows_def Let_def)
  next
    case OP_ITER_START
    then have "pc + 1 < ?n" "pc < length (bt_iter_pos bt)" using inst ok pc by (auto simp: buffers_ok_def)
    then show ?thesis using OP_ITER_START e goes_on_iter [OF win]
      by (auto simp: exec_inst_def walk_inst_def follows_def rd_def)
  next
    case OP_ITER_CHECK
    then have c: "pc + 1 < ?n" "as_usize (i_a ?ins) = nat (i_a ?ins)" "nat (i_a ?ins) < ?n"
      "i_op (p_insts (w_prog w) ! nat (i_a ?ins)) = OP_ITER_START" using inst ids by auto
    then have "length (bt_iter_pos bt) = ?n" using ok nth_mem unfolding buffers_ok_def by blast
    then show ?thesis using OP_ITER_CHECK e c goes_on_same [OF win]
      by (auto simp: exec_inst_def walk_inst_def follows_def rd_def)
  next
    case OP_JMP
    then show ?thesis using inst ids e goes_on_same [OF win]
      by (auto simp: exec_inst_def walk_inst_def follows_def)
  next
    case OP_SPLIT
    then show ?thesis using inst ids e win legal_small [OF lw iw]
      by (auto simp: exec_inst_def walk_inst_def follows_def)
  next
    case OP_MATCH
    then show ?thesis using e by (auto simp: exec_inst_def walk_inst_def follows_def)
  next
    case OP_CHAR
    then show ?thesis using e inst by (intro consuming) auto
  next
    case OP_ANY_CHAR
    then show ?thesis using e inst by (intro consuming) auto
  next
    case OP_CLASS
    then show ?thesis using e inst by (intro consuming) auto
  next
    case OP_ANCHOR_B
    then show ?thesis using e inst by (intro asserting) auto
  next
    case OP_ANCHOR_E
    then show ?thesis using e inst by (intro asserting) auto
  next
    case OP_WBOUND
    then show ?thesis using e inst by (intro asserting) auto
  next
    case OP_NWBOUND
    then show ?thesis using e inst by (intro asserting) auto
  qed (use inst in simp_all)
qed

section \<open>Without iteration checks the row does not steer the machine\<close>

definition no_iter_check :: "walker \<Rightarrow> bool" where
  "no_iter_check w \<longleftrightarrow> (\<forall>ins \<in> set (p_insts (w_prog w)). i_op ins \<noteq> OP_ITER_CHECK)"

definition same_ctrl :: "config \<Rightarrow> config \<Rightarrow> bool" where
  "same_ctrl c c' \<longleftrightarrow> fst c = fst c' \<and> fst (snd c) = fst (snd c')"

lemma exec_ctrl:
  assumes "no_iter_check w" "same_ctrl c c'"
  shows "rel_option (rel_sum (=) (list_all2 same_ctrl)) (exec w c) (exec w c')"
proof (cases "rd (p_insts (w_prog w)) (fst c)")
  case (Some ins)
  then have "ins \<in> set (p_insts (w_prog w))" by (auto simp: rd_def split: if_splits)
  then have op: "i_op ins \<noteq> OP_ITER_CHECK" using assms(1) by (simp add: no_iter_check_def)
  obtain pc pos row its row' its' where c: "c = (pc, pos, row, its)" "c' = (pc, pos, row', its')"
    using assms(2) by (cases c; cases c') (auto simp: same_ctrl_def)
  have "rel_option (rel_sum (=) (list_all2 same_ctrl)) (exec_inst w ins c) (exec_inst w ins c')"
    using op unfolding c by (cases "i_op ins")
      (simp_all add: exec_inst_def same_ctrl_def option.rel_map option.rel_refl split: option.split)
  then show ?thesis using Some assms(2) by (simp add: exec_def same_ctrl_def)
next
  case None
  then show ?thesis using assms(2) by (simp add: exec_def same_ctrl_def)
qed

lemma runs_indep:
  assumes "runs w c n rs" "no_iter_check w"
  shows "runs w c' n' rs' \<Longrightarrow> same_ctrl c c' \<Longrightarrow> n = n' \<and> (rs = [] \<longleftrightarrow> rs' = [])"
  using assms(1)
proof (induction arbitrary: c' n' rs')
  case (accept pc pos row its b)
  then have "exec w c' = Some (Inl b)"
    using exec_ctrl [OF assms(2) accept.prems(2)] by (simp add: option_rel_Some1 rel_sum.simps)
  then show ?case using accept.prems(1) by (cases rule: runsE) (auto split: if_splits)
next
  case (stop c)
  then have "exec w c' = Some (Inr [])"
    using exec_ctrl [OF assms(2) stop.prems(2)] by (simp add: option_rel_Some1 rel_sum.simps)
  then show ?case using stop.prems(1) by (cases rule: runsE) auto
next
  case (one c c1 n rs)
  then obtain c1' where c1': "exec w c' = Some (Inr [c1'])" "same_ctrl c1 c1'"
    using exec_ctrl [OF assms(2) one.prems(2)] by (auto simp: list_all2_Cons1 option_rel_Some1 rel_sum.simps)
  then obtain m where "runs w c1' m rs'" "n' = Suc m" using one.prems(1) by (auto elim: runsE)
  then show ?case using one.IH c1' by blast
next
  case (two c c1 c2 n1 rs1 n2 rs2)
  then obtain c1' c2' where c': "exec w c' = Some (Inr [c1', c2'])" "same_ctrl c1 c1'" "same_ctrl c2 c2'"
    using exec_ctrl [OF assms(2) two.prems(2)] by (auto simp: list_all2_Cons1 option_rel_Some1 rel_sum.simps)
  then obtain m1 m2 r1 r2 where "runs w c1' m1 r1" "runs w c2' m2 r2" "n' = Suc (m1 + m2)" "rs' = r1 @ r2"
    using two.prems(1) by (auto elim: runsE)
  moreover from this have "n1 = m1 \<and> (rs1 = [] \<longleftrightarrow> r1 = [])" "n2 = m2 \<and> (rs2 = [] \<longleftrightarrow> r2 = [])"
    using two.IH(1) [OF _ c'(2)] two.IH(2) [OF _ c'(3)] by blast+
  ultimately show ?case by simp
qed

text \<open>No accepting path leaves the pair; its tree is larger than \<open>n\<close>.\<close>

definition dead :: "walker \<Rightarrow> nat \<Rightarrow> int \<Rightarrow> bool" where
  "dead w pc pos \<longleftrightarrow> (\<exists>row its n. runs w (pc, pos, row, its) n [])"

definition above :: "walker \<Rightarrow> nat \<Rightarrow> nat \<Rightarrow> int \<Rightarrow> bool" where
  "above w n pc pos \<longleftrightarrow> (\<exists>row its m rs. runs w (pc, pos, row, its) m rs \<and> n < m)"

lemma runs_dead: "no_iter_check w \<Longrightarrow> dead w pc pos \<Longrightarrow> runs w (pc, pos, row, its) n rs \<Longrightarrow> rs = []"
  using runs_indep [of w _ _ "[]" "(pc, pos, row, its)"] unfolding dead_def same_ctrl_def by fastforce

lemma runs_not_above: "no_iter_check w \<Longrightarrow> above w n pc pos \<Longrightarrow> runs w (pc, pos, row, its) n rs \<Longrightarrow> False"
proof -
  assume w: "no_iter_check w" and r: "runs w (pc, pos, row, its) n rs" and "above w n pc pos"
  then obtain row' its' m rs' where "runs w (pc, pos, row', its') m rs'" "n < m" by (auto simp: above_def)
  then show False using runs_indep [OF r w, of "(pc, pos, row', its')"] by (auto simp: same_ctrl_def)
qed

lemma above_mono: "above w n pc pos \<Longrightarrow> n' \<le> n \<Longrightarrow> above w n' pc pos"
  unfolding above_def by (meson order_le_less_trans)

section \<open>The walker and its stack\<close>

definition resume :: "walker \<Rightarrow> nat \<Rightarrow> int \<Rightarrow> backtrack \<Rightarrow> int list \<Rightarrow> (outcome \<times> backtrack \<times> int list) option" where
  "resume w pc pos bt row =
     (case walk w pc pos bt row of
        None \<Rightarrow> None
      | Some (out, bt, row) \<Rightarrow> if out = NoMatch then drain w bt row else Some (out, bt, row))"

lemma resume_step:
  "walk_step w pc pos bt row = Some (Inl NoMatch, bt1, row1) \<Longrightarrow> resume w pc pos bt row = drain w bt1 row1"
  "walk_step w pc pos bt row = Some (Inl Matched, bt1, row1) \<Longrightarrow> resume w pc pos bt row = Some (Matched, bt1, row1)"
  "walk_step w pc pos bt row = Some (Inl WideStep, bt1, row1) \<Longrightarrow> resume w pc pos bt row = Some (WideStep, bt1, row1)"
  "walk_step w pc pos bt row = Some (Inr (pc', pos'), bt1, row1) \<Longrightarrow> resume w pc pos bt row = resume w pc' pos' bt1 row1"
  by (simp_all add: resume_def walk.simps [of w pc])

lemma drain_step:
  "drain w (bt\<lparr>bt_stack := Step pc off # rest\<rparr>) row = resume w pc (w_st w + int off) (bt\<lparr>bt_stack := rest\<rparr>) row"
  by (subst drain.simps) (simp add: Let_def resume_def split: option.splits)

definition known :: "walker \<Rightarrow> nat \<Rightarrow> backtrack \<Rightarrow> bool" where
  "known w n bt \<longleftrightarrow> (\<forall>pc pos. in_window w pc pos \<longrightarrow> seen w bt pc pos \<longrightarrow> dead w pc pos \<or> above w n pc pos)"

text \<open>What a search leaves behind when it fails: the old buffers with more dead pairs marked.\<close>

definition failed_to :: "walker \<Rightarrow> backtrack \<Rightarrow> backtrack \<Rightarrow> bool" where
  "failed_to w bt bt' \<longleftrightarrow>
     bt_stack bt' = bt_stack bt \<and> bt_iter_pos bt' = bt_iter_pos bt \<and>
     length (bt_visited bt') = length (bt_visited bt) \<and>
     (\<forall>pc pos. in_window w pc pos \<longrightarrow> seen w bt' pc pos \<longrightarrow> seen w bt pc pos \<or> dead w pc pos)"

definition search_result :: "walker \<Rightarrow> backtrack \<Rightarrow> int list \<Rightarrow> int list list \<Rightarrow>
    (outcome \<times> backtrack \<times> int list) option \<Rightarrow> bool" where
  "search_result w bt row rs res \<longleftrightarrow>
     (\<exists>bt' row'. res = Some (WideStep, bt', row')) \<or>
     (\<exists>bt'. rs \<noteq> [] \<and> res = Some (Matched, bt', hd rs)) \<or>
     (\<exists>bt'. rs = [] \<and> failed_to w bt bt' \<and> res = drain w bt' row)"

lemma search_result_wide: "search_result w bt row rs (Some (WideStep, bt', row'))"
  by (simp add: search_result_def)

lemma search_result_match: "rs \<noteq> [] \<Longrightarrow> search_result w bt row rs (Some (Matched, bt', hd rs))"
  by (simp add: search_result_def)

lemma search_result_fail: "failed_to w bt bt' \<Longrightarrow> search_result w bt row [] (drain w bt' row)"
  by (auto simp: search_result_def)

lemma search_result_cases:
  assumes "search_result w bt row rs res"
  obtains (wide) bt' row' where "res = Some (WideStep, bt', row')"
    | (matched) bt' where "rs \<noteq> []" "res = Some (Matched, bt', hd rs)"
    | (fail) bt' where "rs = []" "failed_to w bt bt'" "res = drain w bt' row"
  using assms unfolding search_result_def by blast

lemma buffers_ok_cong:
  "buffers_ok w bt row \<Longrightarrow> length (bt_visited bt') = length (bt_visited bt) \<Longrightarrow> length row' = length row \<Longrightarrow>
   length (bt_iter_pos bt') = length (bt_iter_pos bt) \<Longrightarrow> buffers_ok w bt' row'"
  by (simp add: buffers_ok_def)

lemma seen_cong: "bt_visited bt' = bt_visited bt \<Longrightarrow> seen w bt' pc pos = seen w bt pc pos"
  by (simp add: seen_def)

lemma failed_to_mark:
  assumes "legal w" "buffers_ok w bt row" "in_window w pc pos" "dead w pc pos"
    "failed_to w (mark (bit_no w pc pos) bt) bt'"
  shows "failed_to w bt bt'"
  using assms(4,5) seen_mark [OF assms(1-3)] by (auto simp: failed_to_def)

lemma failed_to_refl: "failed_to w bt bt"
  by (simp add: failed_to_def)

lemma known_mark:
  assumes "legal w" "buffers_ok w bt row" "in_window w pc pos" "known w n bt" "above w m pc pos" "m \<le> n"
    "bt_visited bt' = bt_visited (mark (bit_no w pc pos) bt)"
  shows "known w m bt'"
  using assms(4,5) seen_mark [OF assms(1-3)] above_mono [OF _ assms(6)] unfolding known_def seen_cong [OF assms(7)]
  by blast

lemma memo_seen:
  assumes "legal w" "no_iter_check w" "in_window w pc pos" "buffers_ok w bt row" "known w n bt"
    "seen w bt pc pos" "runs w (pc, pos, row, its) n rs"
  shows "search_result w bt row rs (resume w pc pos bt row)"
proof -
  have "dead w pc pos" using assms(3,5,6) runs_not_above [OF assms(2) _ assms(7)] by (auto simp: known_def)
  then have "rs = []" using runs_dead [OF assms(2) _ assms(7)] by blast
  moreover have "resume w pc pos bt row = drain w bt row"
    using walk_step_seen [OF assms(1,4,3)] assms(6) by (intro resume_step(1)) simp
  ultimately show ?thesis using search_result_fail [OF failed_to_refl] by simp
qed

lemma exec_in_window: "in_window w pc pos \<Longrightarrow> exec w (pc, c) = exec_inst w (p_insts (w_prog w) ! pc) (pc, c)"
  by (simp add: exec_def rd_def in_window_def)

lemma memo_new:
  assumes "legal w" "in_window w pc pos" "buffers_ok w bt row" "\<not> seen w bt pc pos"
    "exec w (pc, pos, row, bt_iter_pos bt) = Some e"
  defines "bt0 \<equiv> mark (bit_no w pc pos) bt"
  obtains res where "walk_step w pc pos bt row = res" "follows w bt0 row res e"
proof -
  have ok: "buffers_ok w bt0 row" using assms(3) by (rule buffers_ok_cong) (simp_all add: bt0_def)
  have "exec_inst w (p_insts (w_prog w) ! pc) (pc, pos, row, bt_iter_pos bt0) = Some e"
    using assms(5) exec_in_window [OF assms(2)] by (simp add: bt0_def)
  from walk_inst_follows [OF assms(1,2) ok this] show ?thesis
    using that walk_step_seen [OF assms(1,3,2)] assms(4) by (simp add: bt0_def)
qed

lemma memo_fail:
  assumes "legal w" "in_window w pc pos" "buffers_ok w bt row"
    "walk_step w pc pos bt row = Some (Inl NoMatch, mark (bit_no w pc pos) bt, row)" "dead w pc pos"
  shows "search_result w bt row [] (resume w pc pos bt row)"
  unfolding resume_step(1) [OF assms(4)]
  by (rule search_result_fail [OF failed_to_mark [OF assms(1,3,2,5) failed_to_refl]])

lemma memo:
  assumes "runs w c n rs" and lw: "legal w" and nic: "no_iter_check w"
  shows "c = (pc, pos, row, bt_iter_pos bt) \<Longrightarrow> in_window w pc pos \<Longrightarrow> buffers_ok w bt row \<Longrightarrow> known w n bt \<Longrightarrow>
    search_result w bt row rs (resume w pc pos bt row)"
  using assms(1)
proof (induction arbitrary: pc pos row bt)
  case (accept pc' pos' row' its' b)
  note c = accept.prems(1) and iw = accept.prems(2) and ok = accept.prems(3)
  have r: "runs w (pc, pos, row, bt_iter_pos bt) 0 (if b then [row] else [])"
    using runs.accept [OF accept.hyps] c by (cases b) simp_all
  show ?case
  proof (cases "seen w bt pc pos")
    case True
    then show ?thesis using memo_seen [OF lw nic iw ok accept.prems(4) True r] c by (cases b) simp_all
  next
    case False
    obtain res where res: "walk_step w pc pos bt row = res" "follows w (mark (bit_no w pc pos) bt) row res (Inl b)"
      using memo_new [OF lw iw ok False] accept.hyps c by auto
    show ?thesis
    proof (cases b)
      case True
      then show ?thesis using res resume_step(2) [of w pc pos bt row] search_result_match [of "[row]"] c
        by (simp add: follows_def)
    next
      case False
      then have "dead w pc pos" using r by (auto simp: dead_def)
      then show ?thesis using memo_fail [OF lw iw ok] res False by (simp add: follows_def)
    qed
  qed
next
  case (stop c)
  note iw = stop.prems(2) and ok = stop.prems(3)
  have r: "runs w (pc, pos, row, bt_iter_pos bt) 0 []" using stop.hyps stop.prems(1) by (auto intro: runs.stop)
  then have "dead w pc pos" by (auto simp: dead_def)
  show ?case
  proof (cases "seen w bt pc pos")
    case True
    then show ?thesis using memo_seen [OF lw nic iw ok stop.prems(4) True r] by simp
  next
    case False
    obtain res where "walk_step w pc pos bt row = res" "follows w (mark (bit_no w pc pos) bt) row res (Inr [])"
      using memo_new [OF lw iw ok False] stop.hyps stop.prems(1) by auto
    then show ?thesis using memo_fail [OF lw iw ok] \<open>dead w pc pos\<close> by (simp add: follows_def)
  qed
next
  case (one c c1 n rs)
  note c = one.prems(1) and iw = one.prems(2) and ok = one.prems(3)
  have r: "runs w (pc, pos, row, bt_iter_pos bt) (Suc n) rs"
    using runs.one [OF one.hyps(1,2)] c by simp
  then have ab: "above w n pc pos" unfolding above_def by blast
  let ?bt0 = "mark (bit_no w pc pos) bt"
  show ?case
  proof (cases "seen w bt pc pos")
    case True
    then show ?thesis using memo_seen [OF lw nic iw ok one.prems(4) True r] by simp
  next
    case False
    obtain pc1 pos1 row1 its1 where c1: "c1 = (pc1, pos1, row1, its1)" by (cases c1)
    obtain res where res: "walk_step w pc pos bt row = res" "follows w ?bt0 row res (Inr [(pc1, pos1, row1, its1)])"
      using memo_new [OF lw iw ok False] one.hyps(1) c c1 by auto
    show ?thesis
    proof (cases "res = Some (Inl WideStep, ?bt0, row)")
      case True
      then show ?thesis using res resume_step(3) search_result_wide by metis
    next
      case False
      then obtain bt1 where bt1: "res = Some (Inr (pc1, pos1), bt1, row1)" "bt_iter_pos bt1 = its1"
        and go: "goes_on w ?bt0 row (pc1, pos1) bt1 row1"
        using res(2) by (auto simp: follows_def)
      have ok1: "buffers_ok w bt1 row1" using go by (intro buffers_ok_cong [OF ok]) (simp_all add: goes_on_def)
      have kn: "known w n bt1"
        using go by (intro known_mark [OF lw ok iw one.prems(4) ab]) (simp_all add: goes_on_def)
      have eq: "resume w pc pos bt row = resume w pc1 pos1 bt1 row1"
        using res(1) bt1(1) by (intro resume_step(4)) simp
      have "search_result w bt1 row1 rs (resume w pc1 pos1 bt1 row1)"
        using go c1 bt1(2) ok1 kn by (intro one.IH) (simp_all add: goes_on_def)
      then show ?thesis unfolding eq
      proof (cases rule: search_result_cases)
        case (fail bt')
        let ?b = "bt'\<lparr>bt_stack := bt_stack ?bt0, bt_iter_pos := bt_iter_pos ?bt0\<rparr>"
        have st: "bt_stack bt' = bt_stack bt1" "bt_iter_pos bt' = bt_iter_pos bt1"
          using fail(2) by (simp_all add: failed_to_def)
        have "resume w pc1 pos1 bt1 row1 = drain w ?b row" using go st fail(3) by (simp add: goes_on_def)
        moreover have "failed_to w ?bt0 ?b"
          using fail(2) go by (auto simp: failed_to_def goes_on_def seen_def)
        moreover have "dead w pc pos" using r fail(1) by (auto simp: dead_def)
        ultimately show "search_result w bt row rs (resume w pc1 pos1 bt1 row1)"
          using failed_to_mark [OF lw ok iw] search_result_fail fail(1) by simp
      qed (auto intro: search_result_wide search_result_match)
    qed
  qed
next
  case (two c c1 c2 n1 rs1 n2 rs2)
  note c = two.prems(1) and iw = two.prems(2) and ok = two.prems(3)
  have r: "runs w (pc, pos, row, bt_iter_pos bt) (Suc (n1 + n2)) (rs1 @ rs2)"
    using runs.two [OF two.hyps(1-3)] c by simp
  then have ab: "above w n1 pc pos" "above w n2 pc pos" unfolding above_def by (meson less_add_Suc1 less_add_Suc2)+
  let ?bt0 = "mark (bit_no w pc pos) bt"
  show ?case
  proof (cases "seen w bt pc pos")
    case True
    then show ?thesis using memo_seen [OF lw nic iw ok two.prems(4) True r] by simp
  next
    case False
    obtain pc1 pos1 row1 its1 where c1: "c1 = (pc1, pos1, row1, its1)" by (cases c1)
    obtain pc2 pos2 row2 its2 where c2: "c2 = (pc2, pos2, row2, its2)" by (cases c2)
    obtain res where res: "walk_step w pc pos bt row = res"
      "follows w ?bt0 row res (Inr [(pc1, pos1, row1, its1), (pc2, pos2, row2, its2)])"
      using memo_new [OF lw iw ok False] two.hyps(1) c c1 c2 by auto
    let ?bt1 = "push_job (Step pc2 (nat (pos2 - w_st w))) ?bt0"
    have f: "in_window w pc1 pos1" "in_window w pc2 pos2" "row1 = row" "row2 = row"
      "its1 = bt_iter_pos bt" "its2 = bt_iter_pos bt" "res = Some (Inr (pc1, pos1), ?bt1, row)"
      using res(2) by (simp_all add: follows_def)
    have eq: "resume w pc pos bt row = resume w pc1 pos1 ?bt1 row"
      using res(1) f(7) by (intro resume_step(4)) simp
    have ok1: "buffers_ok w ?bt1 row" by (rule buffers_ok_cong [OF ok]) simp_all
    have "search_result w ?bt1 row rs1 (resume w pc1 pos1 ?bt1 row)"
      using f c1 ok1 known_mark [OF lw ok iw two.prems(4) ab(1)] by (intro two.IH(1)) simp_all
    then show ?thesis unfolding eq
    proof (cases rule: search_result_cases)
      case (matched bt')
      then show "search_result w bt row (rs1 @ rs2) (resume w pc1 pos1 ?bt1 row)"
        using search_result_match [of "rs1 @ rs2"] by simp
    next
      case (fail bt')
      let ?b = "bt'\<lparr>bt_stack := bt_stack bt\<rparr>"
      have st: "bt_stack bt' = Step pc2 (nat (pos2 - w_st w)) # bt_stack bt" "bt_iter_pos bt' = bt_iter_pos bt"
        "length (bt_visited bt') = length (bt_visited bt)"
        using fail(2) by (simp_all add: failed_to_def)
      have "bt' = bt'\<lparr>bt_stack := Step pc2 (nat (pos2 - w_st w)) # bt_stack bt\<rparr>" by (rule restore_jobs [OF st(1)])
      moreover have "w_st w + int (nat (pos2 - w_st w)) = pos2" using f(2) by (simp add: in_window_def)
      ultimately have eq2: "drain w bt' row = resume w pc2 pos2 ?b row" using drain_step by metis
      have ok2: "buffers_ok w ?b row" using st by (intro buffers_ok_cong [OF ok]) simp_all
      have seen2: "seen w ?b p q \<Longrightarrow> in_window w p q \<Longrightarrow> p = pc \<and> q = pos \<or> seen w bt p q \<or> dead w p q" for p q
        using fail(2) seen_mark [OF lw ok iw] by (auto simp: failed_to_def seen_def)
      have "known w n2 ?b"
        unfolding known_def using seen2 two.prems(4) ab(2) above_mono by (metis known_def le_add2 le_SucI)
      then have "search_result w ?b row rs2 (resume w pc2 pos2 ?b row)"
        using f c2 st ok2 by (intro two.IH(2)) simp_all
      then show "search_result w bt row (rs1 @ rs2) (resume w pc1 pos1 ?bt1 row)" unfolding fail(3) eq2
      proof (cases rule: search_result_cases)
        case (fail bt2)
        have "dead w pc pos" using r \<open>rs1 = []\<close> fail(1) by (auto simp: dead_def)
        then have "failed_to w bt bt2" using fail(2) seen2 st by (auto simp: failed_to_def)
        then show "search_result w bt row (rs1 @ rs2) (resume w pc2 pos2 ?b row)"
          using \<open>rs1 = []\<close> fail search_result_fail by simp
      qed (use \<open>rs1 = []\<close> in \<open>auto intro: search_result_wide search_result_match\<close>)
    qed (auto intro: search_result_wide)
  qed
qed

section \<open>No panic\<close>

lemma decode_whole:
  assumes "s \<noteq> []" "utf8_len_for (hd s) \<le> length s"
  shows "utf8_decode_cp s \<noteq> None"
proof -
  obtain b s' where s: "s = b # s'" using assms(1) by (cases s) auto
  show ?thesis using assms(2)
    by (auto simp: utf8_decode_cp_def utf8_len_for_def s rd_def split: if_splits)
qed

lemma consume_total:
  assumes lw: "legal w" and iw: "in_window w pc pos"
  defines "ins \<equiv> p_insts (w_prog w) ! pc"
  assumes op: "i_op ins = OP_CHAR \<or> i_op ins = OP_ANY_CHAR \<or> i_op ins = OP_CLASS"
  shows "consume w ins pos \<noteq> None"
proof (cases "pos \<ge> w_end w")
  case False
  note small = legal_small [OF lw iw]
  have pos: "nat pos < length (w_s w)" using False lw small by (auto simp: legal_def)
  let ?b = "w_s w ! nat pos"
  have rd: "rd (w_s w) (as_usize pos) = Some ?b" using pos small by (simp add: rd_def)
  have pc: "pc < length (p_insts (w_prog w))" using iw by (simp add: in_window_def)
  have dec: "utf8_decode_cp (drop (nat pos) (w_s w)) \<noteq> None" if "pos + int (utf8_len_for ?b) \<le> int (length (w_s w))"
    using that pos small by (intro decode_whole) (auto simp: hd_drop_conv_nth)
  show ?thesis
  proof (cases "i_op ins = OP_CLASS")
    case True
    then have "0 \<le> i_a ins" "nat (i_a ins) < length (p_classes (w_prog w))"
      using eligible_inst [of "w_prog w" pc] lw pc by (auto simp: legal_def ins_def)
    then have "rd (p_classes (w_prog w)) (as_usize (i_a ins)) = Some (p_classes (w_prog w) ! nat (i_a ins))"
      using eligible_ids(1) [OF lw pc] by (simp add: ins_def rd_def)
    then show ?thesis using False rd dec True small(5)
      by (auto simp: consume_def Let_def split: bind_splits)
  next
    case not_class: False
    then show ?thesis using False rd op by (auto simp: consume_def Let_def)
  qed
qed (simp add: consume_def)

lemma exec_total:
  assumes lw: "legal w" and iw: "in_window w pc pos"
  shows "exec w (pc, pos, row, its) \<noteq> None"
proof -
  let ?ins = "p_insts (w_prog w) ! pc"
  have el: "can_backtrack (w_prog w)" "pc < length (p_insts (w_prog w))"
    using lw iw by (simp_all add: legal_def in_window_def)
  have as: "assertion_holds w ?ins pos \<noteq> None"
    using legal_small [OF lw iw] by (auto simp: assertion_holds_def Let_def split: op.splits)
  show ?thesis unfolding exec_in_window [OF iw]
    using eligible_inst [OF el] consume_total [OF lw iw] as
    by (cases "i_op ?ins") (simp_all add: exec_inst_def)
qed

section \<open>Every program: the walker follows paths and undoes them\<close>

inductive reaches :: "walker \<Rightarrow> config \<Rightarrow> config \<Rightarrow> bool" for w c where
  here: "reaches w c c"
| follow: "reaches w c c1 \<Longrightarrow> exec w c1 = Some (Inr cs) \<Longrightarrow> c2 \<in> set cs \<Longrightarrow> reaches w c c2"

text \<open>
  Popping the jobs one by one undoes the writes, so that every parked step finds a row it
  can be reached with, and the bottom of the stack the row and starts of the entry.
\<close>

primrec stack_ok :: "walker \<Rightarrow> config \<Rightarrow> job list \<Rightarrow> int list \<Rightarrow> int list \<Rightarrow> bool" where
  "stack_ok w c0 [] row its \<longleftrightarrow> snd (snd c0) = (row, its)"
| "stack_ok w c0 (j # js) row its \<longleftrightarrow>
     (case j of
        Step pc off \<Rightarrow>
          in_window w pc (w_st w + int off) \<and> reaches w c0 (pc, w_st w + int off, row, its) \<and> stack_ok w c0 js row its
      | Restore slot old \<Rightarrow> slot < length row \<and> stack_ok w c0 js (row[slot := old]) its
      | RestoreIter pc old \<Rightarrow> pc < length its \<and> stack_ok w c0 js row (its[pc := old]))"

lemma stack_ok_reset:
  assumes "\<forall>x \<in> set slots. x < length row" "fold reset_slot slots (bt, row) = (bt1, row1)"
    "stack_ok w c0 (bt_stack bt) row its"
  shows "stack_ok w c0 (bt_stack bt1) row1 its"
  using assms
proof (induction slots arbitrary: bt row)
  case (Cons x slots)
  obtain btx rowx where x: "reset_slot x (bt, row) = (btx, rowx)" by fastforce
  have "stack_ok w c0 (bt_stack btx) rowx its" "length rowx = length row"
    using x Cons.prems by (auto simp: reset_slot_def split: if_splits)
  then show ?case using Cons.prems x by (intro Cons.IH [of rowx btx]) auto
qed simp

lemma walk_inst_stack:
  assumes lw: "legal w" and iw: "in_window w pc pos" and ok: "buffers_ok w bt row"
    and res: "walk_inst w (p_insts (w_prog w) ! pc) pc pos bt row = Some (r, bt1, row1)"
    and reach: "reaches w c0 (pc, pos, row, bt_iter_pos bt)"
    and st: "stack_ok w c0 (bt_stack bt) row (bt_iter_pos bt)"
  shows "stack_ok w c0 (bt_stack bt1) row1 (bt_iter_pos bt1)"
proof -
  let ?ins = "p_insts (w_prog w) ! pc"
  have pc: "pc < length (p_insts (w_prog w))" "?ins \<in> set (p_insts (w_prog w))" using iw by (simp_all add: in_window_def)
  have el: "can_backtrack (w_prog w)" using lw by (simp add: legal_def)
  note inst = eligible_inst [OF el pc(1)] and ids = eligible_ids [OF lw pc(1)]
  show ?thesis
  proof (cases "i_op ?ins")
    case OP_SAVE
    then show ?thesis using res st by (auto simp: walk_inst_def Let_def rd_def split: if_splits)
  next
    case OP_SAVE_RESET
    let ?r = "min (as_usize (i_b ?ins)) (length row)"
    have f: "fold reset_slot [min (as_usize (i_a ?ins)) ?r..<?r] (bt, row) = (bt1, row1)"
      using OP_SAVE_RESET res by (auto simp: walk_inst_def Let_def split: prod.splits)
    then have "bt_iter_pos bt1 = bt_iter_pos bt"
      using fold_reset_visited(2) [of "[min (as_usize (i_a ?ins)) ?r..<?r]" bt row] by simp
    then show ?thesis using stack_ok_reset [OF _ f st] by simp
  next
    case OP_ITER_START
    then show ?thesis using res st by (auto simp: walk_inst_def Let_def rd_def split: if_splits)
  next
    case OP_SPLIT
    then have "0 \<le> i_b ?ins" "nat (i_b ?ins) < length (p_insts (w_prog w))" using inst by auto
    moreover have "reaches w c0 (nat (i_b ?ins), pos, row, bt_iter_pos bt)"
      by (rule reaches.follow [OF reach, of "[(nat (i_a ?ins), pos, row, bt_iter_pos bt), (nat (i_b ?ins), pos, row, bt_iter_pos bt)]"])
        (simp_all add: exec_in_window [OF iw] exec_inst_def OP_SPLIT)
    ultimately show ?thesis using OP_SPLIT res st ids iw legal_small(4) [OF lw iw]
      by (auto simp: walk_inst_def in_window_def)
  qed (use res st in \<open>auto simp: walk_inst_def split: bind_splits\<close>)
qed

text \<open>What a walk or the job loop returns, from the entry configuration \<open>c0\<close>.\<close>

definition sound_result :: "walker \<Rightarrow> config \<Rightarrow> outcome \<Rightarrow> backtrack \<Rightarrow> int list \<Rightarrow> bool" where
  "sound_result w c0 out bt row \<longleftrightarrow>
     (out = Matched \<longrightarrow>
        (\<exists>pc pos its. reaches w c0 (pc, pos, row, its) \<and> exec w (pc, pos, row, its) = Some (Inl True)))"

lemma buffers_ok_walk:
  assumes "buffers_ok w bt row" "goes_on w (mark k bt) row c bt1 row1"
  shows "buffers_ok w bt1 row1"
  using assms(2) by (intro buffers_ok_cong [OF assms(1)]) (simp_all add: goes_on_def)

lemma follows_shape:
  assumes "follows w bt row res (Inr cs)"
  shows "cs = [] \<or> (\<exists>c1. cs = [c1]) \<or> (\<exists>c1 c2. cs = [c1, c2])"
proof (cases cs)
  case (Cons c1 cs1)
  show ?thesis
  proof (cases cs1)
    case (Cons c2 cs2)
    then show ?thesis using assms \<open>cs = c1 # cs1\<close>
      by (cases c1; cases c2; cases cs2) (simp_all add: follows_def)
  qed (use Cons in blast)
qed simp

lemma walk_sound:
  assumes "legal w" "in_window w pc pos" "buffers_ok w bt row"
    "reaches w c0 (pc, pos, row, bt_iter_pos bt)" "stack_ok w c0 (bt_stack bt) row (bt_iter_pos bt)"
  shows "wp (walk w pc pos bt row) (\<lambda>(out, bt', row').
    sound_result w c0 out bt' row' \<and> buffers_ok w bt' row' \<and> stack_ok w c0 (bt_stack bt') row' (bt_iter_pos bt'))"
  using assms
proof (induction w pc pos bt row rule: walk.induct)
  case (1 w pc pos bt row)
  note lw = "1.prems"(1) and iw = "1.prems"(2) and ok = "1.prems"(3) and reach = "1.prems"(4) and st = "1.prems"(5)
  let ?bt0 = "mark (bit_no w pc pos) bt"
  let ?ins = "p_insts (w_prog w) ! pc"
  show ?case
  proof (cases "seen w bt pc pos")
    case True
    then show ?thesis using walk_step_seen [OF lw ok iw] ok st
      by (subst walk.simps) (simp add: sound_result_def)
  next
    case False
    obtain e where e: "exec w (pc, pos, row, bt_iter_pos bt) = Some e"
      using exec_total [OF lw iw, of row "bt_iter_pos bt"] by auto
    have ws: "walk_step w pc pos bt row = walk_inst w ?ins pc pos ?bt0 row"
      using walk_step_seen [OF lw ok iw] False by simp
    have ok0: "buffers_ok w ?bt0 row" by (rule buffers_ok_cong [OF ok]) simp_all
    note stack = walk_inst_stack [OF lw iw ok0 _ , of _ _ _ c0, simplified, OF _ reach st]
    have fol: "follows w ?bt0 row (walk_step w pc pos bt row) e"
      using memo_new [OF lw iw ok False e] by auto
    have stop: ?thesis if "walk_step w pc pos bt row = Some (Inl out, ?bt0, row)" "out = Matched \<Longrightarrow> e = Inl True" for out
      using that ok0 st reach e by (subst walk.simps) (auto simp: sound_result_def)
    have go: ?thesis if s: "walk_step w pc pos bt row = Some (Inr (pc1, pos1), bt1, row1)"
      and g: "in_window w pc1 pos1" "buffers_ok w bt1 row1" "reaches w c0 (pc1, pos1, row1, bt_iter_pos bt1)"
      for pc1 pos1 bt1 row1
      using "1.IH" [OF s refl refl refl refl lw g stack [OF s [unfolded ws]]] s by (subst walk.simps) simp
    show ?thesis
    proof (cases e)
      case (Inl b)
      then show ?thesis using fol
        by (intro stop [of "if b then Matched else NoMatch"]; cases b) (simp_all add: follows_def)
    next
      case (Inr cs)
      have r: "c \<in> set cs \<Longrightarrow> reaches w c0 c" for c using reaches.follow [OF reach] e Inr by blast
      consider "cs = []" | pc1 pos1 row1 its1 where "cs = [(pc1, pos1, row1, its1)]"
        | pc1 pos1 row1 its1 c2 where "cs = [(pc1, pos1, row1, its1), c2]"
        using follows_shape fol Inr by (metis prod_cases4)
      then show ?thesis
      proof cases
        case 1
        then show ?thesis using fol Inr by (intro stop [of NoMatch]) (auto simp: follows_def)
      next
        case (2 pc1 pos1 row1 its1)
        show ?thesis
        proof (cases "walk_step w pc pos bt row = Some (Inl WideStep, ?bt0, row)")
          case False
          then obtain bt1 where bt1: "walk_step w pc pos bt row = Some (Inr (pc1, pos1), bt1, row1)"
            "bt_iter_pos bt1 = its1" "goes_on w ?bt0 row (pc1, pos1) bt1 row1"
            using fol Inr 2 by (auto simp: follows_def)
          then show ?thesis using r 2 buffers_ok_walk [OF ok bt1(3)] by (intro go) (auto simp: goes_on_def)
        qed (rule stop [of WideStep], auto)
      next
        case (3 pc1 pos1 row1 its1 c2)
        obtain pc2 pos2 row2 its2 where c2: "c2 = (pc2, pos2, row2, its2)" by (cases c2)
        show ?thesis using fol Inr 3 r c2 ok0
          by (intro go [of pc1 pos1 "push_job (Step pc2 (nat (pos2 - w_st w))) ?bt0" row1])
            (auto simp: follows_def intro: buffers_ok_cong)
      qed
    qed
  qed
qed

lemma drain_sound:
  assumes "legal w" "buffers_ok w bt row" "stack_ok w c0 (bt_stack bt) row (bt_iter_pos bt)"
  shows "wp (drain w bt row) (\<lambda>(out, bt', row'). sound_result w c0 out bt' row' \<and> buffers_ok w bt' row' \<and>
    (out = NoMatch \<longrightarrow> snd (snd c0) = (row', bt_iter_pos bt')))"
  using assms
proof (induction w bt row rule: drain.induct)
  case (1 w bt row)
  show ?case
  proof (cases "bt_stack bt")
    case Nil
    then show ?thesis using "1.prems" by (subst drain.simps) (simp add: sound_result_def)
  next
    case (Cons j js)
    let ?bt = "bt\<lparr>bt_stack := js\<rparr>"
    have ok: "buffers_ok w ?bt row" by (rule buffers_ok_cong [OF "1.prems"(2)]) simp_all
    show ?thesis
    proof (cases j)
      case (Restore slot old)
      then have s: "slot < length row" "stack_ok w c0 js (row[slot := old]) (bt_iter_pos bt)"
        using "1.prems"(3) Cons by simp_all
      have "buffers_ok w ?bt (row[slot := old])" by (rule buffers_ok_cong [OF "1.prems"(2)]) simp_all
      then show ?thesis using "1.IH"(2) [OF Cons refl Restore] s "1.prems"(1) Cons Restore
        by (subst drain.simps) (simp add: wr_def)
    next
      case (RestoreIter pc old)
      then have s: "pc < length (bt_iter_pos bt)" "stack_ok w c0 js row ((bt_iter_pos bt)[pc := old])"
        using "1.prems"(3) Cons by simp_all
      have "buffers_ok w (?bt\<lparr>bt_iter_pos := (bt_iter_pos bt)[pc := old]\<rparr>) row"
        by (rule buffers_ok_cong [OF "1.prems"(2)]) simp_all
      then show ?thesis using "1.IH"(3) [OF Cons refl RestoreIter] s "1.prems"(1) Cons RestoreIter
        by (subst drain.simps) (simp add: wr_def)
    next
      case (Step pc off)
      then have s: "in_window w pc (w_st w + int off)" "reaches w c0 (pc, w_st w + int off, row, bt_iter_pos ?bt)"
        "stack_ok w c0 (bt_stack ?bt) row (bt_iter_pos ?bt)"
        using "1.prems"(3) Cons by simp_all
      obtain out bt1 row1 where wk: "walk w pc (w_st w + int off) ?bt row = Some (out, bt1, row1)"
        and res: "sound_result w c0 out bt1 row1" "buffers_ok w bt1 row1" "stack_ok w c0 (bt_stack bt1) row1 (bt_iter_pos bt1)"
        using walk_sound [OF "1.prems"(1) s(1) ok s(2,3)] by (auto simp: wp_iff)
      show ?thesis
      proof (cases "out = NoMatch")
        case True
        then show ?thesis using "1.IH"(1) [OF Cons refl Step wk refl refl True "1.prems"(1) res(2,3)] Cons Step wk
          by (subst drain.simps) simp
      next
        case False
        then show ?thesis using res Cons Step wk by (subst drain.simps) simp
      qed
    qed
  qed
qed

section \<open>Windows of a program\<close>

text \<open>What the callers of \<open>captures_at\<close> guarantee.\<close>

definition ready :: "program \<Rightarrow> u8 list \<Rightarrow> int \<Rightarrow> int \<Rightarrow> backtrack \<Rightarrow> int list \<Rightarrow> bool" where
  "ready p s st end bt row \<longleftrightarrow>
     p_insts p \<noteq> [] \<and> can_backtrack p \<and> fits p st end \<and>
     0 \<le> st \<and> st \<le> end \<and> end \<le> int (length s) \<and> length s < 2 ^ 63 \<and>
     (\<forall>ins \<in> set (p_insts p). i32 (i_a ins) \<and> i32 (i_b ins) \<and> (i_op ins = OP_SAVE \<longrightarrow> nat (i_a ins) < length row)) \<and>
     ((\<exists>ins \<in> set (p_insts p). i_op ins = OP_ITER_START) \<longrightarrow> length (bt_iter_pos bt) = length (p_insts p))"

lemma walker_for_sel [simp]:
  "w_prog (walker_for p s st end flags) = p" "w_s (walker_for p s st end flags) = s"
  "w_st (walker_for p s st end flags) = st" "w_end (walker_for p s st end flags) = end"
  "w_width (walker_for p s st end flags) = as_usize (end - st) + 1"
  "w_unicode (walker_for p s st end flags) = unicode_mode flags"
  by (simp_all add: walker_for_def)

lemma ready_legal: "ready p s st end bt row \<Longrightarrow> legal (walker_for p s st end flags)"
proof -
  assume r: "ready p s st end bt row"
  then have "0 \<le> end - st" "end - st < 2 ^ 63" unfolding ready_def by auto
  then have "as_usize (end - st) = nat (end - st)" by (intro as_usize_id) simp_all
  then show ?thesis using r by (simp add: legal_def ready_def fits_def)
qed

definition opened :: "program \<Rightarrow> int \<Rightarrow> int \<Rightarrow> backtrack \<Rightarrow> backtrack" where
  "opened p st end bt =
     bt\<lparr>bt_visited := clear_visited ((length (p_insts p) * (as_usize (end - st) + 1) + 63) div 64) (bt_visited bt),
        bt_stack := []\<rparr>"

lemma opened_sel [simp]:
  "bt_stack (opened p st end bt) = []" "bt_iter_pos (opened p st end bt) = bt_iter_pos bt"
  by (simp_all add: opened_def)

lemma captures_at_opened:
  "captures_at p s st end flags bt row =
     drain (walker_for p s st end flags) ((opened p st end bt)\<lparr>bt_stack := [Step 0 0]\<rparr>) row"
  "captures_at p s st end flags bt row = resume (walker_for p s st end flags) 0 st (opened p st end bt) row"
proof -
  show d: "captures_at p s st end flags bt row =
     drain (walker_for p s st end flags) ((opened p st end bt)\<lparr>bt_stack := [Step 0 0]\<rparr>) row"
    by (simp add: captures_at_def opened_def Let_def)
  have e: "(opened p st end bt)\<lparr>bt_stack := []\<rparr> = opened p st end bt" by (simp add: opened_def)
  then show "captures_at p s st end flags bt row = resume (walker_for p s st end flags) 0 st (opened p st end bt) row"
    unfolding d drain_step e by simp
qed

lemma opened_ok:
  assumes "ready p s st end bt row"
  shows "buffers_ok (walker_for p s st end flags) (opened p st end bt) row"
    "in_window (walker_for p s st end flags) pc pos \<Longrightarrow> \<not> seen (walker_for p s st end flags) (opened p st end bt) pc pos"
    "in_window (walker_for p s st end flags) 0 st"
proof -
  let ?m = "length (p_insts p) * (as_usize (end - st) + 1)"
  let ?k = "(?m + 63) div 64"
  have len: "?k \<le> length (clear_visited ?k v)" for v by (simp add: clear_visited_def Let_def)
  have "?m \<le> 64 * ?k" using div_mult_mod_eq [of "?m + 63" 64] mod_less_divisor [of 64 "?m + 63"] by linarith
  then show "buffers_ok (walker_for p s st end flags) (opened p st end bt) row"
    using assms len [of "bt_visited bt"] by (auto simp: buffers_ok_def ready_def opened_def)
  show "in_window (walker_for p s st end flags) 0 st" using assms by (simp add: in_window_def ready_def)
  assume "in_window (walker_for p s st end flags) pc pos"
  then have "bit_no (walker_for p s st end flags) pc pos < ?m"
    using bit_no_window(3) [OF ready_legal [OF assms]] by simp
  then have "bit_no (walker_for p s st end flags) pc pos div 64 < ?k" by linarith
  then show "\<not> seen (walker_for p s st end flags) (opened p st end bt) pc pos"
    by (simp add: seen_def is_marked_def opened_def clear_visited_def Let_def nth_append)
qed

lemma drain_empty: "bt_stack bt = [] \<Longrightarrow> drain w bt row = Some (NoMatch, bt, row)"
  by (subst drain.simps) simp

section \<open>The capture pass\<close>

lemma captures_sound:
  assumes "ready p s st end bt row"
  shows "wp (captures_at p s st end flags bt row) (\<lambda>(out, bt', row').
    (out = Matched \<longrightarrow> (\<exists>pc its. reaches (walker_for p s st end flags) (0, st, row, bt_iter_pos bt) (pc, end, row', its) \<and>
       pc < length (p_insts p) \<and> i_op (p_insts p ! pc) = OP_MATCH)) \<and>
    (out = NoMatch \<longrightarrow> row' = row \<and> bt_iter_pos bt' = bt_iter_pos bt))"
proof -
  let ?w = "walker_for p s st end flags"
  let ?bt = "(opened p st end bt)\<lparr>bt_stack := [Step 0 0]\<rparr>"
  have "buffers_ok ?w ?bt row"
    by (rule buffers_ok_cong [OF opened_ok(1) [OF assms(1)]]) simp_all
  moreover have "stack_ok ?w (0, st, row, bt_iter_pos bt) (bt_stack ?bt) row (bt_iter_pos ?bt)"
    using opened_ok(3) [OF assms(1)] by (simp add: reaches.here)
  ultimately have "wp (captures_at p s st end flags bt row) (\<lambda>(out, bt', row').
      sound_result ?w (0, st, row, bt_iter_pos bt) out bt' row' \<and> buffers_ok ?w bt' row' \<and>
      (out = NoMatch \<longrightarrow> (row, bt_iter_pos bt) = (row', bt_iter_pos bt')))"
    unfolding captures_at_opened(1)
    using drain_sound [of ?w ?bt row "(0, st, row, bt_iter_pos bt)"] ready_legal [OF assms(1), of flags]
    unfolding snd_conv by blast
  then show ?thesis
  proof (rule wp_mono, clarify)
    fix out bt' row'
    assume s: "sound_result ?w (0, st, row, bt_iter_pos bt) out bt' row'"
      and n: "out = NoMatch \<longrightarrow> (row, bt_iter_pos bt) = (row', bt_iter_pos bt')"
    have acc: "pc < length (p_insts p) \<and> i_op (p_insts p ! pc) = OP_MATCH \<and> pos = end"
      if "exec ?w (pc, pos, row', its) = Some (Inl True)" for pc pos its
      using that by (auto simp: exec_def exec_inst_def rd_def split: if_splits op.splits bind_splits)
    show "(out = Matched \<longrightarrow> (\<exists>pc its. reaches (walker_for p s st end flags) (0, st, row, bt_iter_pos bt) (pc, end, row', its) \<and>
       pc < length (p_insts p) \<and> i_op (p_insts p ! pc) = OP_MATCH)) \<and>
      (out = NoMatch \<longrightarrow> row' = row \<and> bt_iter_pos bt' = bt_iter_pos bt)"
      using s n acc unfolding sound_result_def by force
  qed
qed

lemma captures_first:
  assumes "ready p s st end bt row" "\<forall>ins \<in> set (p_insts p). i_op ins \<noteq> OP_ITER_CHECK"
    "runs (walker_for p s st end flags) (0, st, row, bt_iter_pos bt) n rows"
  shows "wp (captures_at p s st end flags bt row) (\<lambda>(out, bt', row').
    case out of Matched \<Rightarrow> rows \<noteq> [] \<and> row' = hd rows | NoMatch \<Rightarrow> rows = [] \<and> row' = row | WideStep \<Rightarrow> True)"
proof -
  let ?w = "walker_for p s st end flags" and ?bt = "opened p st end bt"
  have "no_iter_check ?w" using assms(2) by (simp add: no_iter_check_def)
  moreover have "known ?w n ?bt" using opened_ok(2) [OF assms(1)] by (simp add: known_def)
  ultimately have "search_result ?w ?bt row rows (captures_at p s st end flags bt row)"
    unfolding captures_at_opened(2) using opened_ok(1,3) [OF assms(1)] ready_legal [OF assms(1)] assms(3)
    by (intro memo) simp_all
  then show ?thesis
  proof (cases rule: search_result_cases)
    case (fail bt')
    then have "bt_stack bt' = []" by (simp add: failed_to_def)
    with fail show ?thesis by (simp add: drain_empty)
  qed simp_all
qed

section \<open>Properties\<close>

lemma can_backtrack_example:
  "can_backtrack (with_insts program_new [inst_save 2, char_lit 0x61, inst_save 3, match_accept])"
  by code_simp

lemmas ready_example = ready_def fits_def VISITED_BITS_MAX_def as_usize_def with_insts_def program_new_def
  inst_save_def char_lit_def match_accept_def inst_simple_def i32_def for_program_def

text \<open>C30: on every program that passes \<open>can_backtrack\<close> and every window that fits the
  budget, the capture pass returns without a panic; a match is the row of an accepting
  path of the program that ends at \<open>end\<close>, and a failed pass leaves the row and the
  iteration starts as it found them.\<close>

theorem backtrack_sound:
  assumes "ready p s st end bt row"
  shows "wp (captures_at p s st end flags bt row) (\<lambda>(out, bt', row').
    (out = Matched \<longrightarrow> (\<exists>pc its. reaches (walker_for p s st end flags) (0, st, row, bt_iter_pos bt) (pc, end, row', its) \<and>
       pc < length (p_insts p) \<and> i_op (p_insts p ! pc) = OP_MATCH)) \<and>
    (out = NoMatch \<longrightarrow> row' = row \<and> bt_iter_pos bt' = bt_iter_pos bt))"
  by (rule captures_sound [OF assms])

lemma backtrack_sound_witness:
  "let p = with_insts program_new [inst_save 2, char_lit 0x61, inst_save 3, match_accept] in
   wp (captures_at p [0x61] 0 1 0 (for_program p) [- 1, - 1, - 1, - 1]) (\<lambda>(out, bt', row').
     out = NoMatch \<longrightarrow> row' = [- 1, - 1, - 1, - 1])"
proof -
  let ?p = "with_insts program_new [inst_save 2, char_lit 0x61, inst_save 3, match_accept]"
  have "ready ?p [0x61] 0 1 (for_program ?p) [- 1, - 1, - 1, - 1]"
    using can_backtrack_example by (simp add: ready_example)
  from backtrack_sound [OF this, of 0] show ?thesis unfolding Let_def by (rule wp_mono) auto
qed

text \<open>C29: when no iteration can be empty, the memoised walk answers the first accepting
  path of the whole search tree in priority order, or that there is none, unless it gives
  the window up at a wide character.\<close>

theorem backtrack_first:
  assumes "ready p s st end bt row" "\<forall>ins \<in> set (p_insts p). i_op ins \<noteq> OP_ITER_CHECK"
    "runs (walker_for p s st end flags) (0, st, row, bt_iter_pos bt) n rows"
  shows "wp (captures_at p s st end flags bt row) (\<lambda>(out, bt', row').
    case out of Matched \<Rightarrow> rows \<noteq> [] \<and> row' = hd rows | NoMatch \<Rightarrow> rows = [] \<and> row' = row | WideStep \<Rightarrow> True)"
  by (rule captures_first [OF assms])

lemma backtrack_first_witness:
  "let p = with_insts program_new [inst_save 2, char_lit 0x61, inst_save 3, match_accept] in
   wp (captures_at p [0x61] 0 1 0 (for_program p) [- 1, - 1, - 1, - 1]) (\<lambda>(out, bt', row').
     out \<noteq> NoMatch \<and> (out = Matched \<longrightarrow> row' = [- 1, - 1, 0, 1]))"
proof -
  let ?p = "with_insts program_new [inst_save 2, char_lit 0x61, inst_save 3, match_accept]"
  let ?w = "walker_for ?p [0x61] 0 1 0"
  have r: "ready ?p [0x61] 0 1 (for_program ?p) [- 1, - 1, - 1, - 1]"
    using can_backtrack_example by (simp add: ready_example)
  have i: "bt_iter_pos (for_program ?p) = []" by code_simp
  have "exec ?w (0, 0, [- 1, - 1, - 1, - 1], []) = Some (Inr [(1, 0, [- 1, - 1, 0, - 1], [])])"
    "exec ?w (1, 0, [- 1, - 1, 0, - 1], []) = Some (Inr [(2, 1, [- 1, - 1, 0, - 1], [])])"
    "exec ?w (2, 1, [- 1, - 1, 0, - 1], []) = Some (Inr [(3, 1, [- 1, - 1, 0, 1], [])])"
    "exec ?w (3, 1, [- 1, - 1, 0, 1], []) = Some (Inl True)"
    by code_simp+
  then have "runs ?w (0, 0, [- 1, - 1, - 1, - 1], []) (Suc (Suc (Suc 0))) (if True then [[- 1, - 1, 0, 1]] else [])"
    by (blast intro: runs.one runs.accept)
  then have runs: "runs ?w (0, 0, [- 1, - 1, - 1, - 1], []) 3 [[- 1, - 1, 0, 1]]" by (simp add: numeral_3_eq_3)
  have nic: "\<forall>ins \<in> set (p_insts ?p). i_op ins \<noteq> OP_ITER_CHECK" by code_simp
  have "wp (captures_at ?p [0x61] 0 1 0 (for_program ?p) [- 1, - 1, - 1, - 1]) (\<lambda>(out, bt', row').
    case out of Matched \<Rightarrow> [[- 1, - 1, 0, 1 :: int]] \<noteq> [] \<and> row' = hd [[- 1, - 1, 0, 1]]
    | NoMatch \<Rightarrow> [[- 1, - 1, 0, 1 :: int]] = [] \<and> row' = [- 1, - 1, - 1, - 1] | WideStep \<Rightarrow> True)"
    by (rule backtrack_first [OF r nic, of 0, unfolded i, OF runs])
  then show ?thesis unfolding Let_def by (rule wp_mono) (auto split: outcome.splits)
qed

end
