(* ===== verification/Regex_Spec.thy ===== *)
theory Regex_Spec
  imports Regex_Walk
begin

text \<open>
  What a pattern means. A pattern is a tree over atoms, which consume one character or
  assert something of a position; \<open>es\<close> is the backtracking matcher of ECMAScript
  (22.2.2) as a function that lists all outcomes of a match in priority order. An
  outcome is the end position and the row of capture slots. The trees without
  backreferences, lookarounds and string sets are read into patterns over the characters
  of the text. Positions are byte offsets.
\<close>

section \<open>Patterns\<close>

datatype 'a re =
    RAtom 'a
  | RSeq "'a re list"
  | RAlt "'a re list"
  | RRep nat "nat option" bool bool "'a re"
  | RGroup nat "'a re"

lemma re_induct [case_names atom nil cons alt rep group]:
  assumes "\<And>a. P (RAtom a)" "P (RSeq [])" "\<And>r rs. P r \<Longrightarrow> P (RSeq rs) \<Longrightarrow> P (RSeq (r # rs))"
    "\<And>rs. (\<And>r. r \<in> set rs \<Longrightarrow> P r) \<Longrightarrow> P (RAlt rs)"
    "\<And>mn ex lz chk r. P r \<Longrightarrow> P (RRep mn ex lz chk r)" "\<And>k r. P r \<Longrightarrow> P (RGroup k r)"
  shows "P r"
proof (induction r)
  case (RSeq rs)
  then show ?case by (induction rs) (simp_all add: assms)
qed (simp_all add: assms)

text \<open>The groups of a pattern, in the order of their opening parentheses.\<close>

fun rgroups :: "'a re \<Rightarrow> nat list" where
  "rgroups (RAtom a) = []"
| "rgroups (RSeq rs) = concat (map rgroups rs)"
| "rgroups (RAlt rs) = concat (map rgroups rs)"
| "rgroups (RRep mn ex lz chk r) = rgroups r"
| "rgroups (RGroup k r) = k # rgroups r"

text \<open>The replacement of the atoms by patterns over other atoms.\<close>

fun subst_re :: "('a \<Rightarrow> 'b re) \<Rightarrow> 'a re \<Rightarrow> 'b re" where
  "subst_re f (RAtom a) = f a"
| "subst_re f (RSeq rs) = RSeq (map (subst_re f) rs)"
| "subst_re f (RAlt rs) = RAlt (map (subst_re f) rs)"
| "subst_re f (RRep mn ex lz chk r) = RRep mn ex lz chk (subst_re f r)"
| "subst_re f (RGroup k r) = RGroup k (subst_re f r)"

lemma rgroups_subst: "(\<And>a. rgroups (f a) = []) \<Longrightarrow> rgroups (subst_re f r) = rgroups r"
  by (induction f r rule: subst_re.induct) (simp_all cong: map_cong)

section \<open>Outcomes\<close>

type_synonym state = "int \<times> int list"

text \<open>A slot is unset when it is negative.\<close>

definition unset_groups :: "nat list \<Rightarrow> int list \<Rightarrow> int list" where
  "unset_groups gs row = map (\<lambda>(i, v). if i div 2 \<in> set gs \<and> v \<ge> 0 then - 1 else v) (enumerate 0 row)"

text \<open>
  RepeatMatcher: every iteration unsets the groups of the atom; past the minimum an
  iteration that consumes nothing fails. \<open>ex\<close> is how many iterations may follow the
  minimum. Positions stay at most \<open>ub\<close>.
\<close>

function es_rep :: "(state \<Rightarrow> state list) \<Rightarrow> (int list \<Rightarrow> int list) \<Rightarrow> bool \<Rightarrow> int \<Rightarrow> nat \<Rightarrow> nat option \<Rightarrow>
    state \<Rightarrow> state list" where
  "es_rep m unset lz ub mn ex c =
     (if mn > 0 then
        concat (map (\<lambda>d. es_rep m unset lz ub (mn - 1) ex d) (m (fst c, unset (snd c))))
      else if ex = Some 0 then [c]
      else
        (let more = concat (map (\<lambda>d. es_rep m unset lz ub 0 (map_option (\<lambda>k. k - 1) ex) d)
               (filter (\<lambda>d. fst c < fst d \<and> fst d \<le> ub) (m (fst c, unset (snd c)))))
         in if lz then c # more else more @ [c]))"
  by pat_completeness auto
termination
  by (relation "measures [\<lambda>(_, _, _, _, mn, _, _). mn, \<lambda>(_, _, _, ub, _, _, c). nat (ub - fst c)]") auto

declare es_rep.simps [simp del]

text \<open>\<open>at a pos\<close> is where the atom \<open>a\<close> leads from \<open>pos\<close>.\<close>

fun es :: "('a \<Rightarrow> int \<Rightarrow> int option) \<Rightarrow> int \<Rightarrow> 'a re \<Rightarrow> state \<Rightarrow> state list" where
  "es at ub (RAtom a) c = (case at a (fst c) of None \<Rightarrow> [] | Some q \<Rightarrow> [(q, snd c)])"
| "es at ub (RSeq []) c = [c]"
| "es at ub (RSeq (r # rs)) c = concat (map (\<lambda>d. es at ub (RSeq rs) d) (es at ub r c))"
| "es at ub (RAlt rs) c = concat (map (\<lambda>r. es at ub r c) rs)"
| "es at ub (RRep mn ex lz chk r) c = es_rep (\<lambda>d. es at ub r d) (unset_groups (rgroups r)) lz ub mn ex c"
| "es at ub (RGroup k r) c =
     map (\<lambda>d. (fst d, (snd d)[2 * k + 1 := fst d])) (es at ub r (fst c, (snd c)[2 * k := fst c]))"

section \<open>What every outcome keeps\<close>

text \<open>The position moves forwards and keeps \<open>ok\<close>; only the slots of \<open>gs\<close> are written.\<close>

definition keeps :: "(int \<Rightarrow> bool) \<Rightarrow> nat set \<Rightarrow> state \<Rightarrow> state \<Rightarrow> bool" where
  "keeps ok gs c d \<longleftrightarrow>
     fst c \<le> fst d \<and> ok (fst d) \<and> length (snd d) = length (snd c) \<and>
     (\<forall>k < length (snd c). k div 2 \<notin> gs \<longrightarrow> snd d ! k = snd c ! k)"

lemma keeps_refl: "ok (fst c) \<Longrightarrow> keeps ok gs c c"
  by (simp add: keeps_def)

lemma keeps_trans: "keeps ok gs c d \<Longrightarrow> keeps ok gs' d e \<Longrightarrow> keeps ok (gs \<union> gs') c e"
  by (auto simp: keeps_def)

lemma keeps_trans_same: "keeps ok gs c d \<Longrightarrow> keeps ok gs d e \<Longrightarrow> keeps ok gs c e"
  using keeps_trans [of ok gs c d gs e] by simp

lemma keeps_mono: "keeps ok gs c d \<Longrightarrow> gs \<subseteq> gs' \<Longrightarrow> keeps ok gs' c d"
  by (auto simp: keeps_def)

lemma length_unset_groups [simp]: "length (unset_groups gs row) = length row"
  by (simp add: unset_groups_def)

lemma unset_groups_nth:
  "k < length row \<Longrightarrow> unset_groups gs row ! k = (if k div 2 \<in> set gs \<and> row ! k \<ge> 0 then - 1 else row ! k)"
  by (simp add: unset_groups_def nth_enumerate_eq)

lemma unset_groups_Nil [simp]: "unset_groups [] row = row"
  by (rule nth_equalityI) (simp_all add: unset_groups_nth)

lemma keeps_unset: "keeps ok (set gs) (fst c, unset_groups gs (snd c)) d \<Longrightarrow> keeps ok (set gs) c d"
  by (auto simp: keeps_def unset_groups_nth)

lemma es_rep_induct [case_names rec]:
  fixes m :: "state \<Rightarrow> state list" and unset :: "int list \<Rightarrow> int list" and ub :: int
    and P :: "nat \<Rightarrow> nat option \<Rightarrow> state \<Rightarrow> bool"
  assumes "\<And>mn ex c.
      (\<And>d. 0 < mn \<Longrightarrow> d \<in> set (m (fst c, unset (snd c))) \<Longrightarrow> P (mn - 1) ex d) \<Longrightarrow>
      (\<And>d. mn = 0 \<Longrightarrow> ex \<noteq> Some 0 \<Longrightarrow> d \<in> set (m (fst c, unset (snd c))) \<Longrightarrow> fst c < fst d \<Longrightarrow> fst d \<le> ub \<Longrightarrow>
         P 0 (map_option (\<lambda>k. k - 1) ex) d) \<Longrightarrow>
      P mn ex c"
  shows "P mn ex c"
proof -
  have "m' = m \<Longrightarrow> u' = unset \<Longrightarrow> ub' = ub \<Longrightarrow> P mn ex c" for m' u' ub'
  proof (induction m' u' False ub' mn ex c rule: es_rep.induct)
    case (1 m' u' ub' mn ex c)
    note IH = 1(1) [OF _ _ 1(3-5), unfolded 1(3-5)] 1(2) [OF _ _ _ 1(3-5), unfolded 1(3-5)]
    show ?case
    proof (rule assms)
      show "P (mn - 1) ex d" if "0 < mn" "d \<in> set (m (fst c, unset (snd c)))" for d
        using that by (rule IH(1))
      show "P 0 (map_option (\<lambda>k. k - 1) ex) d" if "mn = 0" "ex \<noteq> Some 0" "d \<in> set (m (fst c, unset (snd c)))"
        "fst c < fst d" "fst d \<le> ub" for d
        using that by (intro IH(2)) simp_all
    qed
  qed
  then show ?thesis by simp
qed

lemma es_rep_keeps:
  assumes m: "\<And>c d. ok (fst c) \<Longrightarrow> d \<in> set (m c) \<Longrightarrow> keeps ok (set gs) c d"
  shows "ok (fst c) \<Longrightarrow> d \<in> set (es_rep m (unset_groups gs) lz ub mn ex c) \<Longrightarrow> keeps ok (set gs) c d"
proof (induction mn ex c arbitrary: d rule: es_rep_induct [where m = m and unset = "unset_groups gs" and ub = ub])
  case (rec mn ex c)
  let ?c = "(fst c, unset_groups gs (snd c))"
  have step: "keeps ok (set gs) c e" if "e \<in> set (m ?c)" for e
    using rec.prems(1) m [of ?c e] that keeps_unset by simp
  then have ok: "ok (fst e)" if "e \<in> set (m ?c)" for e
    using that by (simp add: keeps_def)
  consider "d = c" | e where "e \<in> set (m ?c)" "0 < mn" "d \<in> set (es_rep m (unset_groups gs) lz ub (mn - 1) ex e)"
    | e where "e \<in> set (m ?c)" "mn = 0" "ex \<noteq> Some 0" "fst c < fst e" "fst e \<le> ub"
        "d \<in> set (es_rep m (unset_groups gs) lz ub 0 (map_option (\<lambda>k. k - 1) ex) e)"
    using rec.prems(2) by (subst (asm) es_rep.simps) (auto simp: Let_def split: if_splits)
  then show ?case
  proof cases
    case 1
    then show ?thesis using rec.prems(1) by (simp add: keeps_refl)
  next
    case 2
    then show ?thesis using rec.IH(1) ok step keeps_trans_same by blast
  next
    case 3
    then show ?thesis using rec.IH(2) ok step keeps_trans_same by blast
  qed
qed

text \<open>Atoms move forwards and keep \<open>ok\<close>.\<close>

definition atoms_ok :: "('a \<Rightarrow> int \<Rightarrow> int option) \<Rightarrow> (int \<Rightarrow> bool) \<Rightarrow> bool" where
  "atoms_ok at ok \<longleftrightarrow> (\<forall>a pos q. ok pos \<longrightarrow> at a pos = Some q \<longrightarrow> pos \<le> q \<and> ok q)"

lemma es_keeps:
  assumes "atoms_ok at ok"
  shows "ok (fst c) \<Longrightarrow> d \<in> set (es at ub r c) \<Longrightarrow> keeps ok (set (rgroups r)) c d"
proof (induction r arbitrary: c d rule: re_induct)
  case (atom a)
  then show ?case using assms by (auto simp: keeps_def atoms_ok_def split: option.splits)
next
  case nil
  then show ?case by (simp add: keeps_refl)
next
  case (cons r rs)
  then obtain e where e: "e \<in> set (es at ub r c)" "d \<in> set (es at ub (RSeq rs) e)" by auto
  then have "keeps ok (set (rgroups r)) c e" using cons by blast
  moreover from this have "keeps ok (set (rgroups (RSeq rs))) e d"
    by (intro cons.IH(2) e) (simp add: keeps_def)
  ultimately show ?case using keeps_trans [of ok "set (rgroups r)" c e] by simp
next
  case (alt rs)
  then obtain r where r: "r \<in> set rs" "d \<in> set (es at ub r c)" by auto
  then have "keeps ok (set (rgroups r)) c d" using alt by blast
  then show ?case by (rule keeps_mono) (use r(1) in auto)
next
  case (rep mn ex lz chk r)
  then show ?case using es_rep_keeps [of ok "es at ub r" "rgroups r" c d lz ub mn ex] by simp
next
  case (group k r)
  let ?c = "(fst c, (snd c)[2 * k := fst c])"
  obtain e where "e \<in> set (es at ub r ?c)" "d = (fst e, (snd e)[2 * k + 1 := fst e])"
    using group.prems(2) by auto
  moreover from this have "keeps ok (set (rgroups r)) ?c e" using group by simp
  ultimately show ?case by (auto simp: keeps_def nth_list_update)
qed

section \<open>Patterns that consume\<close>

fun nullable :: "('a \<Rightarrow> bool) \<Rightarrow> 'a re \<Rightarrow> bool" where
  "nullable nul (RAtom a) \<longleftrightarrow> nul a"
| "nullable nul (RSeq rs) \<longleftrightarrow> list_all (nullable nul) rs"
| "nullable nul (RAlt rs) \<longleftrightarrow> list_ex (nullable nul) rs"
| "nullable nul (RRep mn ex lz chk r) \<longleftrightarrow> mn = 0 \<or> nullable nul r"
| "nullable nul (RGroup k r) \<longleftrightarrow> nullable nul r"

definition atoms_grow :: "('a \<Rightarrow> int \<Rightarrow> int option) \<Rightarrow> (int \<Rightarrow> bool) \<Rightarrow> ('a \<Rightarrow> bool) \<Rightarrow> bool" where
  "atoms_grow at ok nul \<longleftrightarrow> (\<forall>a pos q. ok pos \<longrightarrow> at a pos = Some q \<longrightarrow> \<not> nul a \<longrightarrow> pos < q)"

lemma es_rep_grows:
  assumes m: "\<And>c d. ok (fst c) \<Longrightarrow> d \<in> set (m c) \<Longrightarrow> keeps ok (set gs) c d"
    and g: "\<And>c d. ok (fst c) \<Longrightarrow> d \<in> set (m c) \<Longrightarrow> fst c < fst d"
  assumes "ok (fst c)" "0 < mn" "d \<in> set (es_rep m (unset_groups gs) lz ub mn ex c)"
  shows "fst c < fst d"
proof -
  let ?c = "(fst c, unset_groups gs (snd c))"
  obtain e where e: "e \<in> set (m ?c)" "d \<in> set (es_rep m (unset_groups gs) lz ub (mn - 1) ex e)"
    using assms(4,5) by (subst (asm) es_rep.simps) auto
  then have "ok (fst e)" using m [of ?c e] assms(3) by (simp add: keeps_def)
  then have "fst e \<le> fst d" using es_rep_keeps [OF m _ e(2)] by (simp add: keeps_def)
  then show ?thesis using g [of ?c e] e assms(3) by simp
qed

lemma es_grows:
  assumes "atoms_ok at ok" "atoms_grow at ok nul"
  shows "\<not> nullable nul r \<Longrightarrow> ok (fst c) \<Longrightarrow> d \<in> set (es at ub r c) \<Longrightarrow> fst c < fst d"
proof (induction r arbitrary: c d rule: re_induct)
  case (atom a)
  then show ?case using assms(2) by (auto simp: atoms_grow_def split: option.splits)
next
  case (cons r rs)
  then obtain e where e: "e \<in> set (es at ub r c)" "d \<in> set (es at ub (RSeq rs) e)" by auto
  have k: "fst c \<le> fst e" "ok (fst e)"
    using es_keeps [OF assms(1) cons.prems(2) e(1)] by (simp_all add: keeps_def)
  moreover have "fst e \<le> fst d" using es_keeps [OF assms(1) k(2) e(2)] by (simp add: keeps_def)
  moreover have "fst c < fst e \<or> fst e < fst d"
    using cons.IH(1) [OF _ cons.prems(2) e(1)] cons.IH(2) [OF _ k(2) e(2)] cons.prems(1) by auto
  ultimately show ?case by linarith
next
  case (alt rs)
  then obtain r where r: "r \<in> set rs" "d \<in> set (es at ub r c)" by auto
  then have "\<not> nullable nul r" using alt.prems(1) by (auto simp: list_ex_iff)
  then show ?case using alt r by blast
next
  case (rep mn ex lz chk r)
  then show ?case using es_rep_grows [of ok "es at ub r" "rgroups r" c mn d lz ub ex] es_keeps [OF assms(1)] by simp
next
  case (group k r)
  then show ?case by fastforce
qed simp

end
