(* ===== verification/Regex_Codes.thy ===== *)
theory Regex_Codes
  imports Regex_Spec
begin

text \<open>
  What the compiler of \<open>Regex_Compiler\<close> emits: for every kind of subtree the shape of
  its code, and that the compiler appends code of that shape. A fragment is the list of
  the instructions appended; jump targets are absolute, so that a shape depends on the
  index its fragment starts at.
\<close>

section \<open>Atoms over bytes\<close>

datatype byte_atom =
    BLit u8 u8
  | BAny u8
  | BClass char_class u8
  | BAssert op u8

definition atom_ins :: "char_class list \<Rightarrow> inst \<Rightarrow> byte_atom \<Rightarrow> bool" where
  "atom_ins cs ins a =
     (case a of
        BLit b ims \<Rightarrow> i_op ins = OP_CHAR \<and> inst_byte ins = b \<and> ucast (i_pad ins) = ims
      | BAny ims \<Rightarrow> i_op ins = OP_ANY_CHAR \<and> ucast (i_pad ins) = ims
      | BClass cc ims \<Rightarrow>
          i_op ins = OP_CLASS \<and> 0 \<le> i_a ins \<and> nat (i_a ins) < length cs \<and> cs ! nat (i_a ins) = cc \<and>
          ucast (i_pad ins) = ims
      | BAssert k ims \<Rightarrow>
          k \<in> {OP_ANCHOR_B, OP_ANCHOR_E, OP_WBOUND, OP_NWBOUND} \<and> i_op ins = k \<and> ucast (i_pad ins) = ims)"

section \<open>Shapes\<close>

type_synonym shape = "char_class list \<Rightarrow> nat \<Rightarrow> inst list \<Rightarrow> bool"

definition atom_shape :: "byte_atom \<Rightarrow> shape" where
  "atom_shape a cs off frag \<longleftrightarrow> (\<exists>ins. frag = [ins] \<and> atom_ins cs ins a)"

fun seq_shape :: "shape list \<Rightarrow> shape" where
  "seq_shape [] cs off frag \<longleftrightarrow> frag = []"
| "seq_shape (B # Bs) cs off frag \<longleftrightarrow>
     (\<exists>f g. frag = f @ g \<and> B cs off f \<and> seq_shape Bs cs (off + length f) g)"

text \<open>The jump that ends every branch but the last goes to \<open>after\<close>.\<close>

fun alts_shape :: "int \<Rightarrow> shape list \<Rightarrow> shape" where
  "alts_shape after [] cs off frag \<longleftrightarrow> False"
| "alts_shape after [B] cs off frag \<longleftrightarrow> B cs off frag"
| "alts_shape after (B # Bs) cs off frag \<longleftrightarrow>
     (\<exists>f g. frag = inst_split (int (off + 1)) (int (off + 2 + length f)) # f @ inst_jmp after # g \<and>
        B cs (off + 1) f \<and> alts_shape after Bs cs (off + 2 + length f) g)"

definition alt_shape :: "shape list \<Rightarrow> shape" where
  "alt_shape Bs cs off frag \<longleftrightarrow> alts_shape (int (off + length frag)) Bs cs off frag"

definition iter_head :: "(int \<times> int) option \<Rightarrow> bool \<Rightarrow> inst list" where
  "iter_head rst chk =
     (if chk then [inst_simple OP_ITER_START] else []) @
     (case rst of Some (a, b) \<Rightarrow> [inst_save_reset a b] | None \<Rightarrow> [])"

definition iter_shape :: "shape \<Rightarrow> (int \<times> int) option \<Rightarrow> bool \<Rightarrow> shape" where
  "iter_shape B rst chk cs off frag \<longleftrightarrow>
     (\<exists>f. frag = iter_head rst chk @ f @ (if chk then [inst_iter_check (int off)] else []) \<and>
        B cs (off + length (iter_head rst chk)) f)"

fun copies_shape :: "shape \<Rightarrow> (int \<times> int) option \<Rightarrow> (int \<times> int) option \<Rightarrow> nat \<Rightarrow> shape" where
  "copies_shape B rst1 rst 0 cs off frag \<longleftrightarrow> frag = []"
| "copies_shape B rst1 rst (Suc n) cs off frag \<longleftrightarrow>
     (\<exists>f g. frag = f @ g \<and> iter_shape B rst1 False cs off f \<and> copies_shape B rst rst n cs (off + length f) g)"

definition fork :: "bool \<Rightarrow> int \<Rightarrow> int \<Rightarrow> inst" where
  "fork lazy body after = (if lazy then inst_split after body else inst_split body after)"

definition star_shape :: "shape \<Rightarrow> (int \<times> int) option \<Rightarrow> bool \<Rightarrow> bool \<Rightarrow> shape" where
  "star_shape B rst lazy chk cs off frag \<longleftrightarrow>
     (\<exists>f. frag = fork lazy (int (off + 1)) (int (off + length frag)) # f @ [inst_jmp (int off)] \<and>
        iter_shape B rst chk cs (off + 1) f)"

fun extras_shape :: "int \<Rightarrow> shape \<Rightarrow> (int \<times> int) option \<Rightarrow> (int \<times> int) option \<Rightarrow> bool \<Rightarrow> bool \<Rightarrow> nat \<Rightarrow> shape" where
  "extras_shape after B rst1 rst lazy chk 0 cs off frag \<longleftrightarrow> frag = []"
| "extras_shape after B rst1 rst lazy chk (Suc n) cs off frag \<longleftrightarrow>
     (\<exists>f g. frag = fork lazy (int (off + 1)) after # f @ g \<and> iter_shape B rst1 chk cs (off + 1) f \<and>
        extras_shape after B rst rst lazy chk n cs (off + 1 + length f) g)"

definition rep_shape :: "shape \<Rightarrow> (int \<times> int) option \<Rightarrow> nat \<Rightarrow> nat option \<Rightarrow> bool \<Rightarrow> bool \<Rightarrow> shape" where
  "rep_shape B rst mn ex lazy chk cs off frag \<longleftrightarrow>
     (\<exists>f g. frag = f @ g \<and> copies_shape B None rst mn cs off f \<and>
        (case ex of
           None \<Rightarrow> star_shape B rst lazy chk cs (off + length f) g
         | Some n \<Rightarrow>
             extras_shape (int (off + length frag)) B (if mn > 0 then rst else None) rst lazy chk n cs (off + length f) g))"

definition group_shape :: "nat \<Rightarrow> shape \<Rightarrow> shape" where
  "group_shape k B cs off frag \<longleftrightarrow>
     (\<exists>f. frag = inst_save (2 * int k) # f @ [inst_save (2 * int k + 1)] \<and> B cs (off + 1) f)"

definition slots_of :: "nat list \<Rightarrow> (int \<times> int) option" where
  "slots_of gs = (if gs = [] then None else Some (2 * int (hd gs), 2 * int (last gs) + 2))"

fun codes :: "byte_atom re \<Rightarrow> shape" where
  "codes (RAtom a) = atom_shape a"
| "codes (RSeq rs) = seq_shape (map codes rs)"
| "codes (RAlt rs) = alt_shape (map codes rs)"
| "codes (RRep mn ex lz chk r) = rep_shape (codes r) (slots_of (rgroups r)) mn ex lz chk"
| "codes (RGroup k r) = group_shape k (codes r)"

section \<open>Appending code\<close>

definition ext :: "program \<Rightarrow> inst list \<Rightarrow> char_class list \<Rightarrow> program" where
  "ext p frag cs = with_classes (with_insts p (p_insts p @ frag)) (p_classes p @ cs)"

lemma ext_sel [simp]:
  "p_insts (ext p frag cs) = p_insts p @ frag" "p_classes (ext p frag cs) = p_classes p @ cs"
  "p_raw_classes (ext p frag cs) = p_raw_classes p" "p_sub_progs (ext p frag cs) = p_sub_progs p"
  by (simp_all add: ext_def with_classes_def with_insts_def)

lemma ext_ext [simp]: "ext (ext p f c) g d = ext p (f @ g) (c @ d)"
  by (simp add: ext_def with_classes_def with_insts_def)

lemma ext_Nil [simp]: "ext p [] [] = p"
  by (cases p) (simp add: ext_def with_classes_def with_insts_def)

lemma emit_ext: "emit p i = ext p [i] []"
  by (cases p) (simp add: emit_def ext_def with_classes_def with_insts_def)

lemma intern_ext: "intern_class p cc = (ext p [] [cc], int (length (p_classes p)))"
  by (cases p) (simp add: intern_class_def ext_def with_classes_def with_insts_def)

lemma next_idx_ext [simp]: "next_idx (ext p frag cs) = int (length (p_insts p) + length frag)"
  by (simp add: next_idx_def)

lemma patch_ext:
  "k < length frag \<Longrightarrow>
     patch_a (ext p frag cs) (int (length (p_insts p) + k)) t = ext p (frag[k := (frag ! k)\<lparr>i_a := t\<rparr>]) cs"
  "k < length frag \<Longrightarrow>
     patch_b (ext p frag cs) (int (length (p_insts p) + k)) t = ext p (frag[k := (frag ! k)\<lparr>i_b := t\<rparr>]) cs"
  by (simp_all add: patch_a_def patch_b_def ext_def with_insts_def with_classes_def nth_append
      list_update_append nat_add_distrib)

definition emits :: "(program \<Rightarrow> program) \<Rightarrow> shape \<Rightarrow> bool" where
  "emits f B \<longleftrightarrow> (\<forall>p. \<not> p_raw_classes p \<longrightarrow>
     (\<exists>frag cs. f p = ext p frag cs \<and> (\<forall>ds. B (p_classes p @ cs @ ds) (length (p_insts p)) frag)))"

lemma emitsI:
  assumes "\<And>p. \<not> p_raw_classes p \<Longrightarrow>
    \<exists>frag cs. f p = ext p frag cs \<and> (\<forall>ds. B (p_classes p @ cs @ ds) (length (p_insts p)) frag)"
  shows "emits f B"
  using assms by (simp add: emits_def)

lemma emitsE:
  assumes "emits f B" "\<not> p_raw_classes p"
  obtains frag cs where "f p = ext p frag cs" "\<And>ds. B (p_classes p @ cs @ ds) (length (p_insts p)) frag"
  using assms unfolding emits_def by blast

lemma emits_atom:
  assumes "\<And>cs. atom_ins cs ins a"
  shows "emits (\<lambda>p. emit p ins) (atom_shape a)"
  by (rule emitsI) (use assms in \<open>force simp: emit_ext atom_shape_def\<close>)

lemma emits_seq:
  "list_all2 emits fs Bs \<Longrightarrow> emits (fold (\<lambda>kid p. kid p) fs) (seq_shape Bs)"
proof (induction rule: list_all2_induct)
  case Nil
  show ?case by (rule emitsI) (force intro: exI [of _ "[]"])
next
  case (Cons f fs B Bs)
  show ?case
  proof (rule emitsI)
    fix p assume p: "\<not> p_raw_classes p"
    obtain x cs where x: "f p = ext p x cs" "\<And>ds. B (p_classes p @ cs @ ds) (length (p_insts p)) x"
      by (rule emitsE [OF Cons.hyps(1) p]) (rule that)
    obtain y ds where y: "fold (\<lambda>kid p. kid p) fs (ext p x cs) = ext (ext p x cs) y ds"
      "\<And>es. seq_shape Bs (p_classes p @ cs @ ds @ es) (length (p_insts p) + length x) y"
      by (rule emitsE [OF Cons.IH, of "ext p x cs"]) (use p that in \<open>auto simp: append_assoc\<close>)
    show "\<exists>frag cs. fold (\<lambda>kid p. kid p) (f # fs) p = ext p frag cs \<and>
        (\<forall>ds. seq_shape (B # Bs) (p_classes p @ cs @ ds) (length (p_insts p)) frag)"
      using x(1) y x(2) [of "ds @ _"] by (intro exI [of _ "x @ y"] exI [of _ "cs @ ds"]) auto
  qed
qed

text \<open>Instructions that are patched when the code after them is there.\<close>

definition upd :: "(inst \<Rightarrow> inst) \<Rightarrow> nat \<Rightarrow> inst list \<Rightarrow> inst list" where
  "upd g k frag = frag[k := g (frag ! k)]"

lemma length_upd [simp]: "length (upd g k frag) = length frag" "length (fold (upd g) ks frag) = length frag"
  by (induction ks arbitrary: frag) (simp_all add: upd_def)

lemma upd_append [simp]:
  "fold (upd g) (map ((+) (length pre)) ks) (pre @ frag) = pre @ fold (upd g) ks frag"
  by (induction ks arbitrary: frag) (simp_all add: upd_def list_update_append)

lemma upd_prefix:
  "\<forall>k \<in> set ks. k < length frag \<Longrightarrow> fold (upd g) ks (frag @ ys) = fold (upd g) ks frag @ ys"
  by (induction ks arbitrary: frag) (simp_all add: upd_def list_update_append nth_append)

lemma patch_all:
  assumes "\<And>k frag. k < length frag \<Longrightarrow> patch (int (length (p_insts p) + k)) (ext p frag cs) = ext p (upd g k frag) cs"
  shows "\<forall>k \<in> set ks. k < length frag \<Longrightarrow>
     fold patch (map (\<lambda>k. int (length (p_insts p) + k)) ks) (ext p frag cs) = ext p (fold (upd g) ks frag) cs"
  by (induction ks arbitrary: frag) (simp_all add: assms del: of_nat_add)

abbreviation jump_to :: "int \<Rightarrow> inst \<Rightarrow> inst" where
  "jump_to after i \<equiv> i\<lparr>i_a := after\<rparr>"

definition skip_to :: "int \<Rightarrow> inst \<Rightarrow> inst" where
  "skip_to after i =
     (let i = (if i_a i = - 1 then i\<lparr>i_a := after\<rparr> else i) in if i_b i = - 1 then i\<lparr>i_b := after\<rparr> else i)"

lemma patch_jump:
  "k < length frag \<Longrightarrow>
     patch_a (ext p frag cs) (int (length (p_insts p) + k)) after = ext p (upd (jump_to after) k frag) cs"
  using patch_ext(1) [of k frag p cs after] by (simp add: upd_def)

lemma patch_skip_ext:
  assumes "k < length frag"
  shows "patch_skip after (int (length (p_insts p) + k)) (ext p frag cs) = ext p (upd (skip_to after) k frag) cs"
proof -
  have "p_insts (ext p frag cs) ! nat (int (length (p_insts p) + k)) = frag ! k" for frag
    by (simp add: nth_append del: of_nat_add)
  then show ?thesis using assms patch_ext [of k]
    by (simp add: patch_skip_def upd_def skip_to_def Let_def del: of_nat_add ext_sel)
qed

lemma skip_fork: "body \<ge> 0 \<Longrightarrow> skip_to after (fork lazy body (- 1)) = fork lazy body after"
  by (simp add: skip_to_def fork_def inst_split_def)

lemma alts_shape_Cons:
  "Bs \<noteq> [] \<Longrightarrow> alts_shape after (B # Bs) cs off frag \<longleftrightarrow>
     (\<exists>f g. frag = inst_split (int (off + 1)) (int (off + 2 + length f)) # f @ inst_jmp after # g \<and>
        B cs (off + 1) f \<and> alts_shape after Bs cs (off + 2 + length f) g)"
  by (cases Bs) simp_all

lemma alt_branch_ext:
  assumes "kid (ext p [inst_split 0 0] []) = ext p (inst_split 0 0 # x) cs"
  shows "alt_branch kid (p, js) =
    (ext p (inst_split (int (length (p_insts p) + 1)) (int (length (p_insts p) + 2 + length x)) # x @ [inst_jmp 0]) cs,
     js @ [int (length (p_insts p) + (1 + length x))])"
  using assms patch_ext [of 0 _ p]
  by (simp add: alt_branch_def emit_ext inst_split_def next_idx_def Let_def)

definition branches :: "shape list \<Rightarrow> nat \<Rightarrow> inst list \<Rightarrow> char_class list \<Rightarrow> nat list \<Rightarrow> bool" where
  "branches Bs off frag cs js \<longleftrightarrow> (\<forall>k \<in> set js. k < length frag) \<and>
     (\<forall>after B g ds. B (cs @ ds) (off + length frag) g \<longrightarrow>
        alts_shape after (Bs @ [B]) (cs @ ds) off (fold (upd (jump_to after)) js frag @ g))"

lemma emits_branches:
  "list_all2 emits fs Bs \<Longrightarrow> \<not> p_raw_classes p \<Longrightarrow>
   \<exists>frag cs js. fold alt_branch fs (p, js0) = (ext p frag cs, js0 @ map (\<lambda>k. int (length (p_insts p) + k)) js) \<and>
     branches Bs (length (p_insts p)) frag (p_classes p @ cs) js"
proof (induction arbitrary: p js0 rule: list_all2_induct)
  case Nil
  show ?case by (intro exI [of _ "[]"]) (simp add: branches_def)
next
  case (Cons f fs B Bs)
  let ?n = "length (p_insts p)"
  obtain x cs where x: "f (ext p [inst_split 0 0] []) = ext p (inst_split 0 0 # x) cs"
    "\<And>ds. B (p_classes p @ cs @ ds) (?n + 1) x"
    by (rule emitsE [OF Cons.hyps(1), of "ext p [inst_split 0 0] []"]) (use Cons.prems that in auto)
  define h where "h = inst_split (int (?n + 1)) (int (?n + 2 + length x)) # x @ [inst_jmp 0]"
  have len: "length h = 2 + length x" by (simp add: h_def)
  obtain y ds js where y: "fold alt_branch fs (ext p h cs, js0 @ [int (?n + (1 + length x))]) =
      (ext (ext p h cs) y ds, (js0 @ [int (?n + (1 + length x))]) @ map (\<lambda>k. int (?n + length h + k)) js)"
    "branches Bs (?n + length h) y (p_classes p @ cs @ ds) js"
    using Cons.IH [of "ext p h cs" "js0 @ [int (?n + (1 + length x))]"] Cons.prems
    unfolding ext_sel append_assoc length_append by blast
  let ?js = "(1 + length x) # map ((+) (length h)) js"
  have "fold alt_branch (f # fs) (p, js0) = (ext p (h @ y) (cs @ ds), js0 @ map (\<lambda>k. int (?n + k)) ?js)"
    using alt_branch_ext [of f p x cs js0, OF x(1), folded h_def] y(1) by (simp add: comp_def ac_simps)
  moreover have "branches (B # Bs) ?n (h @ y) (p_classes p @ cs @ ds) ?js"
    unfolding branches_def
  proof (intro conjI allI impI)
    show "\<forall>k \<in> set ?js. k < length (h @ y)" using y(2) by (auto simp: branches_def len)
    fix after :: int and A :: shape and g es
    assume A: "A ((p_classes p @ cs @ ds) @ es) (?n + length (h @ y)) g"
    define h' where "h' = inst_split (int (?n + 1)) (int (?n + 2 + length x)) # x @ [inst_jmp after]"
    have "h[1 + length x := (h ! (1 + length x))\<lparr>i_a := after\<rparr>] = h'" "length h' = length h"
      by (simp_all add: h_def h'_def list_update_append inst_jmp_def)
    then have "fold (upd (jump_to after)) ?js (h @ y) = h' @ fold (upd (jump_to after)) js y"
      using upd_append [of "jump_to after" h' js y] by (simp add: upd_def list_update_append nth_append len)
    moreover have "alts_shape after (Bs @ [A]) ((p_classes p @ cs @ ds) @ es) (?n + length h) (fold (upd (jump_to after)) js y @ g)"
      using y(2) A by (simp add: branches_def add.assoc)
    ultimately show "alts_shape after ((B # Bs) @ [A]) ((p_classes p @ cs @ ds) @ es) ?n
        (fold (upd (jump_to after)) ?js (h @ y) @ g)"
      using x(2) [of "ds @ es"] by (auto simp: alts_shape_Cons h'_def len)
  qed
  ultimately show ?case by blast
qed

lemma emits_alt:
  assumes "list_all2 emits fs Bs" "fs \<noteq> []"
  shows "emits (compile_alt fs) (alt_shape Bs)"
proof (rule emitsI)
  fix p assume p: "\<not> p_raw_classes p"
  let ?n = "length (p_insts p)"
  have Bs: "Bs \<noteq> []" using assms by auto
  then have l: "list_all2 emits (butlast fs) (butlast Bs)" "emits (last fs) (last Bs)"
    using assms by (auto simp: list_all2_conv_all_nth nth_butlast last_conv_nth)
  obtain x cs js where x: "fold alt_branch (butlast fs) (p, []) = (ext p x cs, map (\<lambda>k. int (?n + k)) js)"
    "branches (butlast Bs) ?n x (p_classes p @ cs) js"
    using emits_branches [OF l(1) p, of "[]"] by auto
  obtain y ds where y: "last fs (ext p x cs) = ext p (x @ y) (cs @ ds)"
    "\<And>es. last Bs (p_classes p @ cs @ ds @ es) (?n + length x) y"
    by (rule emitsE [OF l(2), of "ext p x cs"]) (use p that in auto)
  let ?after = "int (?n + length (x @ y))"
  let ?x = "fold (upd (jump_to ?after)) js x"
  have js: "\<forall>k \<in> set js. k < length x" using x(2) by (simp add: branches_def)
  have "compile_alt fs p = ext p (?x @ y) (cs @ ds)"
    using assms(2) x(1) y(1) patch_all [of "\<lambda>j p. patch_a p j ?after" p "cs @ ds" "jump_to ?after", OF patch_jump, of js "x @ y"] js
    by (simp add: compile_alt_def Let_def upd_prefix trans_less_add1)
  moreover have "alt_shape Bs (p_classes p @ (cs @ ds) @ es) ?n (?x @ y)" for es
  proof -
    have "alts_shape ?after (butlast Bs @ [last Bs]) ((p_classes p @ cs) @ ds @ es) ?n (?x @ y)"
      using x(2) y(2) unfolding branches_def by simp
    then show ?thesis using Bs by (simp add: alt_shape_def)
  qed
  ultimately show "\<exists>frag cs. compile_alt fs p = ext p frag cs \<and>
      (\<forall>ds. alt_shape Bs (p_classes p @ cs @ ds) ?n frag)"
    by blast
qed

lemma emits_iter:
  assumes "emits child B"
  shows "emits (compile_iteration child iter) (iter_shape B (it_reset iter) (it_check iter))"
proof (rule emitsI)
  fix p assume p: "\<not> p_raw_classes p"
  let ?n = "length (p_insts p)" and ?h = "iter_head (it_reset iter) (it_check iter)"
  obtain x cs where x: "child (ext p ?h []) = ext p (?h @ x) cs"
    "\<And>ds. B (p_classes p @ cs @ ds) (?n + length ?h) x"
    by (rule emitsE [OF assms, of "ext p ?h []"]) (use p that in auto)
  have "compile_iteration child iter p =
      ext p (?h @ x @ (if it_check iter then [inst_iter_check (int ?n)] else [])) cs"
    using x(1) by (cases "it_reset iter") (auto simp: compile_iteration_def iter_head_def emit_ext next_idx_def Let_def)
  then show "\<exists>frag cs. compile_iteration child iter p = ext p frag cs \<and>
      (\<forall>ds. iter_shape B (it_reset iter) (it_check iter) (p_classes p @ cs @ ds) ?n frag)"
    using x(2) unfolding iter_shape_def by blast
qed

lemma emits_copies:
  assumes "\<And>k. emits (f k) (if k = 0 then iter_shape B rst1 False else iter_shape B rst False)"
  shows "emits (fold f [0..<n]) (copies_shape B rst1 rst n)"
proof -
  have "emits (fold f [m..<m + n]) (copies_shape B (if m = 0 then rst1 else rst) rst n)" for m
  proof (induction n arbitrary: m)
    case 0
    show ?case by (rule emitsI) (force intro: exI [of _ "[]"])
  next
    case (Suc n)
    show ?case
    proof (rule emitsI)
      fix p assume p: "\<not> p_raw_classes p"
      let ?r = "if m = 0 then rst1 else rst"
      obtain x cs where x: "f m p = ext p x cs" "\<And>ds. iter_shape B ?r False (p_classes p @ cs @ ds) (length (p_insts p)) x"
      proof (rule emitsE [OF assms p, of m])
        fix x cs
        assume "f m p = ext p x cs"
          "\<And>ds. (if m = 0 then iter_shape B rst1 False else iter_shape B rst False) (p_classes p @ cs @ ds) (length (p_insts p)) x"
        then show thesis by (intro that [of x cs]) (cases "m = 0"; simp)+
      qed
      obtain y ds where y: "fold f [Suc m..<Suc m + n] (ext p x cs) = ext p (x @ y) (cs @ ds)"
        "\<And>es. copies_shape B rst rst n (p_classes p @ cs @ ds @ es) (length (p_insts p) + length x) y"
        by (rule emitsE [OF Suc, of "ext p x cs" "Suc m"]) (use p that in auto)
      have "fold f [m..<m + Suc n] p = ext p (x @ y) (cs @ ds)"
        using x(1) y(1) upt_conv_Cons [of m "m + Suc n"] by (simp only: add_Suc_shift fold.simps comp_apply)
      moreover have "copies_shape B ?r rst (Suc n) (p_classes p @ (cs @ ds) @ es) (length (p_insts p)) (x @ y)" for es
        unfolding copies_shape.simps using x(2) [of "ds @ es"] y(2) by (intro exI [of _ x] exI [of _ y]) simp
      ultimately show "\<exists>frag cs. fold f [m..<m + Suc n] p = ext p frag cs \<and>
          (\<forall>ds. copies_shape B ?r rst (Suc n) (p_classes p @ cs @ ds) (length (p_insts p)) frag)"
        by blast
    qed
  qed
  from this [of 0] show ?thesis by simp
qed

lemma emits_star:
  assumes "emits child B"
  shows "emits (compile_kleene_tail child lazy iter) (star_shape B (it_reset iter) lazy (it_check iter))"
proof (rule emitsI)
  fix p assume p: "\<not> p_raw_classes p"
  let ?n = "length (p_insts p)"
  obtain x cs where x: "compile_iteration child iter (ext p [inst_split 0 0] []) = ext p (inst_split 0 0 # x) cs"
    "\<And>ds. iter_shape B (it_reset iter) (it_check iter) (p_classes p @ cs @ ds) (?n + 1) x"
    by (rule emitsE [OF emits_iter [OF assms], of "ext p [inst_split 0 0] []" iter]) (use p that in auto)
  let ?frag = "fork lazy (int (?n + 1)) (int (?n + (2 + length x))) # x @ [inst_jmp (int ?n)]"
  have "compile_kleene_tail child lazy iter p = ext p ?frag cs"
    using x(1) patch_ext [of 0 _ p]
    by (simp add: compile_kleene_tail_def emit_ext next_idx_def Let_def fork_def inst_split_def add.assoc)
  moreover have "star_shape B (it_reset iter) lazy (it_check iter) (p_classes p @ cs @ ds) ?n ?frag" for ds
    using x(2) by (simp add: star_shape_def)
  ultimately show "\<exists>frag cs. compile_kleene_tail child lazy iter p = ext p frag cs \<and>
      (\<forall>ds. star_shape B (it_reset iter) lazy (it_check iter) (p_classes p @ cs @ ds) ?n frag)"
    by blast
qed

lemma emits_extras_loop:
  assumes "emits child B"
  shows "\<not> p_raw_classes p \<Longrightarrow>
    \<exists>frag cs js. fold (extra_copy child lazy \<lparr>it_reset = rst1, it_check = chk\<rparr> \<lparr>it_reset = rst, it_check = chk\<rparr>)
        [m..<m + n] (p, js0) = (ext p frag cs, js0 @ map (\<lambda>k. int (length (p_insts p) + k)) js) \<and>
      (\<forall>k \<in> set js. k < length frag) \<and>
      (\<forall>after ds. extras_shape after B (if m = 0 then rst1 else rst) rst lazy chk n
         (p_classes p @ cs @ ds) (length (p_insts p)) (fold (upd (skip_to after)) js frag))"
proof (induction n arbitrary: m p js0)
  case 0
  show ?case by (intro exI [of _ "[]"]) simp
next
  case (Suc n)
  let ?n = "length (p_insts p)" and ?r = "if m = 0 then rst1 else rst"
  let ?extra = "extra_copy child lazy \<lparr>it_reset = rst1, it_check = chk\<rparr> \<lparr>it_reset = rst, it_check = chk\<rparr>"
  have r: "(if m > 0 then \<lparr>it_reset = rst, it_check = chk\<rparr> else \<lparr>it_reset = rst1, it_check = chk\<rparr>) =
    \<lparr>it_reset = ?r, it_check = chk\<rparr>" by simp
  obtain x cs where x: "compile_iteration child \<lparr>it_reset = ?r, it_check = chk\<rparr> (ext p [inst_split 0 0] []) =
      ext p (inst_split 0 0 # x) cs" "\<And>ds. iter_shape B ?r chk (p_classes p @ cs @ ds) (?n + 1) x"
    by (rule emitsE [OF emits_iter [OF assms], of "ext p [inst_split 0 0] []" "\<lparr>it_reset = ?r, it_check = chk\<rparr>"])
      (use Suc.prems that in auto)
  define h where "h = fork lazy (int (?n + 1)) (- 1) # x"
  obtain y ds js where y: "fold ?extra [Suc m..<Suc m + n] (ext p h cs, js0 @ [int ?n]) =
      (ext (ext p h cs) y ds, (js0 @ [int ?n]) @ map (\<lambda>k. int (?n + length h + k)) js)"
    "\<forall>k \<in> set js. k < length y"
    "\<And>after es. extras_shape after B rst rst lazy chk n (p_classes p @ cs @ ds @ es) (?n + length h)
      (fold (upd (skip_to after)) js y)"
  proof -
    have raw: "\<not> p_raw_classes (ext p h cs)" using Suc.prems by simp
    obtain y ds js where y: "fold ?extra [Suc m..<Suc m + n] (ext p h cs, js0 @ [int ?n]) =
        (ext (ext p h cs) y ds, (js0 @ [int ?n]) @ map (\<lambda>k. int (length (p_insts (ext p h cs)) + k)) js)"
      "\<forall>k \<in> set js. k < length y"
      "\<And>after es. extras_shape after B (if Suc m = 0 then rst1 else rst) rst lazy chk n
        (p_classes (ext p h cs) @ ds @ es) (length (p_insts (ext p h cs))) (fold (upd (skip_to after)) js y)"
      using Suc.IH [OF raw, of "Suc m" "js0 @ [int ?n]"] by blast
    show ?thesis by (rule that [of y ds js]) (use y in auto)
  qed
  have "?extra m (p, js0) = (ext p h cs, js0 @ [int ?n])"
    using x(1) patch_ext [of 0 _ p] unfolding h_def extra_copy_def r
    by (simp add: emit_ext next_idx_def fork_def inst_split_def Let_def)
  then have "fold ?extra [m..<m + Suc n] (p, js0) =
      (ext p (h @ y) (cs @ ds), js0 @ map (\<lambda>k. int (?n + k)) (0 # map ((+) (length h)) js))"
    using y(1) upt_conv_Cons [of m "m + Suc n"] by (simp add: comp_def add.assoc)
  moreover have "extras_shape after B ?r rst lazy chk (Suc n) (p_classes p @ (cs @ ds) @ es) ?n
      (fold (upd (skip_to after)) (0 # map ((+) (length h)) js) (h @ y))" for after es
  proof -
    have "fold (upd (skip_to after)) (0 # map ((+) (length h)) js) (h @ y) =
        fork lazy (int (?n + 1)) after # x @ fold (upd (skip_to after)) js y"
      using upd_append [of "skip_to after" "fork lazy (int (?n + 1)) after # x" js y]
      by (simp add: h_def upd_def skip_fork)
    then show ?thesis unfolding extras_shape.simps
      using x(2) [of "ds @ es"] y(3) [of after es] by (intro exI [of _ x] exI) (auto simp: h_def)
  qed
  ultimately show ?case using y(2) by (intro exI conjI allI) (assumption | force simp: h_def)+
qed

lemma emits_extras:
  assumes "emits child B" "\<not> p_raw_classes p" "0 \<le> extra"
  shows "\<exists>frag cs. compile_bounded_extras child extra lazy \<lparr>it_reset = rst1, it_check = chk\<rparr>
      \<lparr>it_reset = rst, it_check = chk\<rparr> p = ext p frag cs \<and>
    (\<forall>ds. extras_shape (int (length (p_insts p) + length frag)) B rst1 rst lazy chk (nat extra)
      (p_classes p @ cs @ ds) (length (p_insts p)) frag)"
proof (cases "extra = 0")
  case True
  then show ?thesis by (intro exI [of _ "[]"]) (simp add: compile_bounded_extras_def)
next
  case False
  let ?extra = "extra_copy child lazy \<lparr>it_reset = rst1, it_check = chk\<rparr> \<lparr>it_reset = rst, it_check = chk\<rparr>"
  obtain x cs js where x: "fold ?extra [0..<nat extra] (p, []) =
      (ext p x cs, map (\<lambda>k. int (length (p_insts p) + k)) js)" "\<forall>k \<in> set js. k < length x"
    "\<And>after ds. extras_shape after B rst1 rst lazy chk (nat extra) (p_classes p @ cs @ ds)
      (length (p_insts p)) (fold (upd (skip_to after)) js x)"
    using emits_extras_loop [OF assms(1,2), of lazy rst1 chk rst 0 "nat extra" "[]"] by auto
  let ?after = "int (length (p_insts p) + length x)"
  have "compile_bounded_extras child extra lazy \<lparr>it_reset = rst1, it_check = chk\<rparr>
      \<lparr>it_reset = rst, it_check = chk\<rparr> p = ext p (fold (upd (skip_to ?after)) js x) cs"
    using False assms(3) x(1) patch_all [of "patch_skip ?after" p cs "skip_to ?after", OF patch_skip_ext x(2)]
    by (simp add: compile_bounded_extras_def Let_def)
  then show ?thesis using x(3) [of ?after]
    by (intro exI [of _ "fold (upd (skip_to ?after)) js x"] exI [of _ cs]) simp
qed

lemma emits_rep:
  assumes "emits child B" "0 \<le> n_min n" "n_max n = - 1 \<or> n_min n \<le> n_max n"
  shows "emits (compile_repeat n c child)
    (rep_shape B (capture_slots c) (nat (n_min n)) (if n_max n = - 1 then None else Some (nat (n_max n - n_min n)))
      (n_lazy n) (can_match_empty c))"
proof (rule emitsI)
  fix p assume p: "\<not> p_raw_classes p"
  let ?n = "length (p_insts p)" and ?rst = "capture_slots c" and ?chk = "can_match_empty c"
  let ?copy = "\<lambda>k. compile_iteration child \<lparr>it_reset = (if 0 < k then ?rst else None), it_check = False\<rparr>"
  have "emits (?copy k) (if k = 0 then iter_shape B None False else iter_shape B ?rst False)" for k :: nat
    using emits_iter [OF assms(1), of "\<lparr>it_reset = (if 0 < k then ?rst else None), it_check = False\<rparr>"]
    by (cases "k = 0") simp_all
  then have copies: "emits (fold ?copy [0..<nat (n_min n)]) (copies_shape B None ?rst (nat (n_min n)))"
    by (rule emits_copies)
  obtain x cs where x: "fold ?copy [0..<nat (n_min n)] p = ext p x cs"
    "\<And>ds. copies_shape B None ?rst (nat (n_min n)) (p_classes p @ cs @ ds) ?n x"
    by (rule emitsE [OF copies p]) (rule that)
  have raw: "\<not> p_raw_classes (ext p x cs)" using p by simp
  show "\<exists>frag cs. compile_repeat n c child p = ext p frag cs \<and>
      (\<forall>ds. rep_shape B ?rst (nat (n_min n)) (if n_max n = - 1 then None else Some (nat (n_max n - n_min n)))
        (n_lazy n) ?chk (p_classes p @ cs @ ds) ?n frag)"
  proof (cases "n_max n = - 1")
    case True
    obtain y ds where y: "compile_kleene_tail child (n_lazy n) \<lparr>it_reset = ?rst, it_check = ?chk\<rparr> (ext p x cs) = ext p (x @ y) (cs @ ds)"
      "\<And>es. star_shape B ?rst (n_lazy n) ?chk (p_classes p @ cs @ ds @ es) (?n + length x) y"
      by (rule emitsE [OF emits_star [OF assms(1)] raw, of "n_lazy n" "\<lparr>it_reset = ?rst, it_check = ?chk\<rparr>"]) (use that in auto)
    have "compile_repeat n c child p = ext p (x @ y) (cs @ ds)"
      using True x(1) y(1) by (simp add: compile_repeat_def Let_def)
    moreover have "rep_shape B ?rst (nat (n_min n)) None (n_lazy n) ?chk (p_classes p @ (cs @ ds) @ es) ?n (x @ y)" for es
      unfolding rep_shape_def using x(2) [of "ds @ es"] y(2) by (intro exI [of _ x] exI [of _ y]) simp
    ultimately show ?thesis using True by (intro exI [of _ "x @ y"] exI [of _ "cs @ ds"]) simp
  next
    case False
    then have ex: "0 \<le> n_max n - n_min n" using assms(3) by simp
    let ?r1 = "if 0 < n_min n then ?rst else None"
    obtain y ds where y: "compile_bounded_extras child (n_max n - n_min n) (n_lazy n) \<lparr>it_reset = ?r1, it_check = ?chk\<rparr>
        \<lparr>it_reset = ?rst, it_check = ?chk\<rparr> (ext p x cs) = ext p (x @ y) (cs @ ds)"
      "\<And>es. extras_shape (int (?n + length x + length y)) B ?r1 ?rst (n_lazy n) ?chk (nat (n_max n - n_min n))
         (p_classes p @ cs @ ds @ es) (?n + length x) y"
      using emits_extras [OF assms(1) raw ex, of "n_lazy n" ?r1 ?chk ?rst] by auto
    have "compile_repeat n c child p = ext p (x @ y) (cs @ ds)"
      using False x(1) y(1) by (simp add: compile_repeat_def Let_def)
    moreover have "rep_shape B ?rst (nat (n_min n)) (Some (nat (n_max n - n_min n))) (n_lazy n) ?chk
        (p_classes p @ (cs @ ds) @ es) ?n (x @ y)" for es
      unfolding rep_shape_def using x(2) [of "ds @ es"] y(2) [of es] by (intro exI [of _ x] exI [of _ y]) (simp add: add.assoc)
    ultimately show ?thesis using False by (intro exI [of _ "x @ y"] exI [of _ "cs @ ds"]) simp
  qed
qed

lemma emits_group:
  assumes "emits child B" "n_capture_idx n > 0"
  shows "emits (compile_group n child False) (group_shape (nat (n_capture_idx n)) B)"
proof (rule emitsI)
  fix p assume p: "\<not> p_raw_classes p"
  let ?n = "length (p_insts p)" and ?s = "inst_save (2 * n_capture_idx n)"
  obtain x cs where x: "child (ext p [?s] []) = ext p (?s # x) cs" "\<And>ds. B (p_classes p @ cs @ ds) (?n + 1) x"
    by (rule emitsE [OF assms(1), of "ext p [?s] []"]) (use p that in auto)
  have "compile_group n child False p = ext p (?s # x @ [inst_save (2 * n_capture_idx n + 1)]) cs"
    using x(1) assms(2) by (simp add: compile_group_def emit_ext Let_def)
  then show "\<exists>frag cs. compile_group n child False p = ext p frag cs \<and>
      (\<forall>ds. group_shape (nat (n_capture_idx n)) B (p_classes p @ cs @ ds) ?n frag)"
    using x(2) assms(2) unfolding group_shape_def by auto
qed

section \<open>Patterns of trees\<close>

datatype char_atom =
    CLit int u8
  | CAny u8
  | CClass char_class u8
  | CAssert op u8

definition atom_of :: "node_kind \<Rightarrow> u32 \<Rightarrow> char_class \<Rightarrow> u8 \<Rightarrow> char_atom option" where
  "atom_of k ch cc ims =
     (case k of
        NK_Char \<Rightarrow> if uint ch \<le> 0x10FFFF then Some (CLit (uint ch) ims) else None
      | NK_Any \<Rightarrow> Some (CAny ims)
      | NK_Class \<Rightarrow> Some (CClass cc ims)
      | NK_AnchorBeg \<Rightarrow> Some (CAssert OP_ANCHOR_B ims)
      | NK_AnchorEnd \<Rightarrow> Some (CAssert OP_ANCHOR_E ims)
      | NK_WBound \<Rightarrow> Some (CAssert OP_WBOUND ims)
      | NK_NWBound \<Rightarrow> Some (CAssert OP_NWBOUND ims)
      | _ \<Rightarrow> None)"

text \<open>
  A tree that the parser builds: leaves have no children, a sequence or an alternation
  has no \<open>child\<close>, a repetition or a group no \<open>kids\<close>.
\<close>

fun spec_of :: "node \<Rightarrow> char_atom re option" where
  "spec_of (Node k ch cc kids mn mx lz child ci bn ims) =
     (if k = NK_Concat then (if child = None then map_option RSeq (those (map spec_of kids)) else None)
      else if k = NK_Alt then
        (if child = None \<and> kids \<noteq> [] then map_option RAlt (those (map spec_of kids)) else None)
      else if kids \<noteq> [] then None
      else
        (case child of
           None \<Rightarrow> map_option RAtom (atom_of k ch cc ims)
         | Some c \<Rightarrow>
             if k = NK_Repeat \<and> 0 \<le> mn \<and> (mx = - 1 \<or> mn \<le> mx) then
               map_option (RRep (nat mn) (if mx = - 1 then None else Some (nat (mx - mn))) lz (can_match_empty c)) (spec_of c)
             else if k = NK_Group then
               (if ci > 0 then map_option (RGroup (nat ci)) (spec_of c) else spec_of c)
             else None))"

lemma those_map: "those (map f xs) = Some ys \<longleftrightarrow> list_all2 (\<lambda>x y. f x = Some y) xs ys"
  by (induction xs arbitrary: ys) (auto simp: list_all2_Cons1 split: option.splits)

lemma spec_induct [consumes 1, case_names atom seq alt rep group plain]:
  assumes "spec_of n = Some r"
    and "\<And>n a. n_kids n = [] \<Longrightarrow> n_child n = None \<Longrightarrow> atom_of (n_kind n) (n_ch n) (n_cc n) (n_eff_ims n) = Some a \<Longrightarrow>
      P n (RAtom a)"
    and "\<And>n rs. n_kind n = NK_Concat \<Longrightarrow> n_child n = None \<Longrightarrow> list_all2 (\<lambda>n r. spec_of n = Some r \<and> P n r) (n_kids n) rs \<Longrightarrow>
      P n (RSeq rs)"
    and "\<And>n rs. n_kind n = NK_Alt \<Longrightarrow> n_child n = None \<Longrightarrow> n_kids n \<noteq> [] \<Longrightarrow>
      list_all2 (\<lambda>n r. spec_of n = Some r \<and> P n r) (n_kids n) rs \<Longrightarrow> P n (RAlt rs)"
    and "\<And>n c r. n_kind n = NK_Repeat \<Longrightarrow> n_kids n = [] \<Longrightarrow> n_child n = Some c \<Longrightarrow> spec_of c = Some r \<Longrightarrow> P c r \<Longrightarrow>
      0 \<le> n_min n \<Longrightarrow> n_max n = - 1 \<or> n_min n \<le> n_max n \<Longrightarrow>
      P n (RRep (nat (n_min n)) (if n_max n = - 1 then None else Some (nat (n_max n - n_min n))) (n_lazy n) (can_match_empty c) r)"
    and "\<And>n c r. n_kind n = NK_Group \<Longrightarrow> n_kids n = [] \<Longrightarrow> n_child n = Some c \<Longrightarrow> spec_of c = Some r \<Longrightarrow> P c r \<Longrightarrow>
      0 < n_capture_idx n \<Longrightarrow> P n (RGroup (nat (n_capture_idx n)) r)"
    and "\<And>n c r. n_kind n = NK_Group \<Longrightarrow> n_kids n = [] \<Longrightarrow> n_child n = Some c \<Longrightarrow> spec_of c = Some r \<Longrightarrow> P c r \<Longrightarrow>
      n_capture_idx n \<le> 0 \<Longrightarrow> P n r"
  shows "P n r"
  using assms(1)
proof (induction n arbitrary: r rule: spec_of.induct)
  case (1 k ch cc kids mn mx lz child ci bn ims)
  show ?case
  proof (cases "k = NK_Concat \<or> k = NK_Alt")
    case True
    then obtain rs where rs: "list_all2 (\<lambda>n r. spec_of n = Some r) kids rs" "child = None"
        "k = NK_Concat \<and> r = RSeq rs \<or> k = NK_Alt \<and> kids \<noteq> [] \<and> r = RAlt rs"
      using "1.prems" by (auto simp: those_map split: if_splits)
    have "P n r" if "n \<in> set kids" "spec_of n = Some r" for n r
      using that "1.IH"(1,2) rs(2,3) by blast
    with rs(1) have "list_all2 (\<lambda>n r. spec_of n = Some r \<and> P n r) kids rs"
      by (auto simp: list_all2_conv_all_nth)
    then show ?thesis using rs(2,3) assms(3,4) by auto
  next
    case False
    then have kids: "kids = []" using "1.prems" by (auto split: if_splits)
    show ?thesis
    proof (cases child)
      case None
      then show ?thesis using "1.prems" False kids by (auto intro: assms(2))
    next
      case (Some c)
      consider (rep) r' where "k = NK_Repeat" "0 \<le> mn" "mx = - 1 \<or> mn \<le> mx" "spec_of c = Some r'"
          "r = RRep (nat mn) (if mx = - 1 then None else Some (nat (mx - mn))) lz (can_match_empty c) r'"
        | (group) r' where "k = NK_Group" "0 < ci" "spec_of c = Some r'" "r = RGroup (nat ci) r'"
        | (plain) "k = NK_Group" "ci \<le> 0" "spec_of c = Some r"
        using "1.prems" False kids Some by (auto split: if_splits)
      then show ?thesis
      proof cases
        case rep
        then have "P c r'" using kids Some "1.IH"(3) [of c r'] False by simp
        then show ?thesis unfolding rep(5) using rep kids Some
          assms(5) [of "Node k ch cc kids mn mx lz child ci bn ims" c r', unfolded node.sel] by blast
      next
        case group
        then show ?thesis using kids Some "1.IH"(4) False
          assms(6) [of "Node k ch cc kids mn mx lz child ci bn ims" c r'] by simp
      next
        case plain
        then show ?thesis using kids Some "1.IH"(5) False
          assms(7) [of "Node k ch cc kids mn mx lz child ci bn ims" c r] by simp
      qed
    qed
  qed
qed

text \<open>The slots of a subtree are those of its groups.\<close>

definition widen :: "nat \<Rightarrow> (int \<times> int) option \<Rightarrow> (int \<times> int) option" where
  "widen k span =
     Some (case span of None \<Rightarrow> (2 * int k, 2 * int k + 2)
           | Some (a, b) \<Rightarrow> (min a (2 * int k), max b (2 * int k + 2)))"

lemma capture_walk_sel:
  "capture_walk n span = fold capture_walk (n_kids n)
     ((case n_child n of None \<Rightarrow> id | Some c \<Rightarrow> capture_walk c)
       (if n_kind n = NK_Group \<and> n_capture_idx n > 0 then
          Some (case span of None \<Rightarrow> (2 * n_capture_idx n, 2 * n_capture_idx n + 2)
                | Some (a, b) \<Rightarrow> (min a (2 * n_capture_idx n), max b (2 * n_capture_idx n + 2)))
        else span))"
  by (cases n; cases "n_child n"; cases span) (auto simp: Let_def)

lemma fold_capture_walk:
  assumes "list_all2 (\<lambda>n r. \<forall>span. capture_walk n span = fold widen (rgroups r) span) kids rs"
  shows "fold capture_walk kids span = fold widen (concat (map rgroups rs)) span"
  using assms by (induction arbitrary: span rule: list_all2_induct) simp_all

lemma capture_walk_groups: "spec_of n = Some r \<Longrightarrow> \<forall>span. capture_walk n span = fold widen (rgroups r) span"
proof (induction rule: spec_induct)
  case (seq n rs)
  then show ?case using fold_capture_walk [OF list_all2_mono [OF seq(3)]]
    by (simp add: capture_walk_sel [of n])
next
  case (alt n rs)
  then show ?case using fold_capture_walk [OF list_all2_mono [OF alt(4)]]
    by (simp add: capture_walk_sel [of n])
next
  case (group n c r)
  then have "widen (nat (n_capture_idx n)) span =
    Some (case span of None \<Rightarrow> (2 * n_capture_idx n, 2 * n_capture_idx n + 2)
          | Some (a, b) \<Rightarrow> (min a (2 * n_capture_idx n), max b (2 * n_capture_idx n + 2)))" for span
    by (simp add: widen_def split: option.split)
  with group show ?case by (simp add: capture_walk_sel [of n])
next
  case (atom n a)
  then show ?case by (auto simp: capture_walk_sel [of n] atom_of_def)
qed (simp_all add: capture_walk_sel)

lemma fold_widen:
  "sorted (k # gs) \<Longrightarrow> a \<le> 2 * int k \<Longrightarrow> b \<le> 2 * int k + 2 \<Longrightarrow>
   fold widen (k # gs) (Some (a, b)) = Some (a, 2 * int (last (k # gs)) + 2)"
proof (induction gs arbitrary: k b)
  case Nil
  then show ?case by (simp add: widen_def)
next
  case (Cons g gs)
  have "fold widen (g # gs) (Some (a, 2 * int k + 2)) = Some (a, 2 * int (last (g # gs)) + 2)"
    using Cons.prems by (intro Cons.IH) auto
  moreover have "widen k (Some (a, b)) = Some (a, 2 * int k + 2)" using Cons.prems by (simp add: widen_def)
  ultimately show ?case by (simp only: fold_simps) simp
qed

lemma capture_slots_of:
  assumes "spec_of n = Some r" "sorted (rgroups r)"
  shows "capture_slots n = slots_of (rgroups r)"
proof (cases "rgroups r")
  case Nil
  then show ?thesis using capture_walk_groups [OF assms(1)] by (simp add: capture_slots_def slots_of_def)
next
  case (Cons k gs)
  have "fold widen (k # gs) None = fold widen (k # gs) (Some (2 * int k, 2 * int k + 2))" by (simp add: widen_def)
  then show ?thesis using assms capture_walk_groups [OF assms(1)] Cons fold_widen [of k gs "2 * int k" "2 * int k + 2"]
    by (simp add: capture_slots_def slots_of_def)
qed

section \<open>The code of a tree\<close>

lemma sorted_concat_nth: "sorted (concat xss) \<Longrightarrow> xs \<in> set xss \<Longrightarrow> sorted xs"
  by (induction xss) (auto simp: sorted_append)

lemma emits_tree:
  assumes "spec_of n = Some r" "sorted (rgroups r)" and f: "\<And>a. rgroups (f a) = []"
    and "\<And>n a. a \<in> set_re r \<Longrightarrow> n_kids n = [] \<Longrightarrow> n_child n = None \<Longrightarrow>
      atom_of (n_kind n) (n_ch n) (n_cc n) (n_eff_ims n) = Some a \<Longrightarrow> emits (compile_dir flags False n) (codes (f a))"
  shows "emits (compile_dir flags False n) (codes (subst_re f r))"
  using assms(1,2,4)
proof (induction rule: spec_induct)
  case (atom n a)
  then show ?case by simp
next
  case (seq n rs)
  have "list_all2 (\<lambda>k r. emits (compile_dir flags False k) (codes (subst_re f r))) (n_kids n) rs"
    by (rule list.rel_mono_strong [OF seq(3)]) (use seq.prems sorted_concat_nth in force)
  then have "list_all2 emits (map (\<lambda>k. compile_dir flags False k) (n_kids n)) (map codes (map (subst_re f) rs))"
    by (simp add: list_all2_map1 list_all2_map2)
  from emits_seq [OF this] show ?case using seq(1) by (subst compile_dir.simps) simp
next
  case (alt n rs)
  have "list_all2 (\<lambda>k r. emits (compile_dir flags False k) (codes (subst_re f r))) (n_kids n) rs"
    by (rule list.rel_mono_strong [OF alt(4)]) (use alt.prems sorted_concat_nth in force)
  then have "list_all2 emits (map (\<lambda>k. compile_dir flags False k) (n_kids n)) (map codes (map (subst_re f) rs))"
    by (simp add: list_all2_map1 list_all2_map2)
  from emits_alt [OF this] show ?case using alt(1,3) by (subst compile_dir.simps) simp
next
  case (rep n c r)
  have "emits (compile_dir flags False c) (codes (subst_re f r))" using rep.IH rep.prems by simp
  from emits_rep [OF this rep(5,6), of c] show ?case
    using rep(1,3) capture_slots_of [OF rep(4)] rep.prems(1) rgroups_subst [of f r, OF f]
    by (subst compile_dir.simps) simp
next
  case (group n c r)
  have "emits (compile_dir flags False c) (codes (subst_re f r))" using group.IH group.prems by simp
  from emits_group [OF this group(5)] show ?case using group(1,3) by (subst compile_dir.simps) simp
next
  case (plain n c r)
  then have "emits (compile_dir flags False c) (codes (subst_re f r))" by simp
  then show ?case using plain(1,3,5) by (subst compile_dir.simps) (simp add: compile_group_def [abs_def])
qed

definition base :: "char_atom \<Rightarrow> byte_atom re" where
  "base a =
     (case a of
        CLit cp ims \<Rightarrow>
          if cp < 0x80 then RAtom (BLit (word_of_int cp) ims)
          else RSeq (map (\<lambda>b. RAtom (BLit b ims)) (utf8_encode_cp cp))
      | CAny ims \<Rightarrow> RAtom (BAny ims)
      | CClass cc ims \<Rightarrow> RAtom (BClass cc ims)
      | CAssert k ims \<Rightarrow> RAtom (BAssert k ims))"

lemma rgroups_base [simp]: "rgroups (base a) = []"
  by (cases a) (simp_all add: base_def)

lemma ucast_pad [simp]: "ucast (ucast (x :: u8) :: u16) = x"
  by (rule bit_word_eqI) (simp add: bit_ucast_iff bit_imp_le_length)

lemma scast_u8 [simp]: "scast (w :: u32) = (ucast w :: u8)"
  by (rule bit_word_eqI) (simp add: bit_simps min_def bit_imp_le_length)

lemma ucast_u8 [simp]: "ucast (ucast b :: u32) = (b :: u8)"
  by (rule bit_word_eqI) (simp add: bit_simps bit_imp_le_length)

lemma sint_code_point: "uint (ch :: u32) \<le> 0x10FFFF \<Longrightarrow> sint ch = uint ch"
proof -
  assume "uint ch \<le> 0x10FFFF"
  moreover have "- (2 ^ 31) \<le> uint ch" by (rule order_trans [of _ 0]) simp_all
  ultimately have "signed_take_bit 31 (uint ch) = uint ch" by (intro signed_take_bit_int_eq_self) simp_all
  then show ?thesis by (simp add: sint_uint)
qed

lemma emits_cong: "emits f B \<Longrightarrow> (\<And>p. \<not> p_raw_classes p \<Longrightarrow> g p = f p) \<Longrightarrow> emits g B"
  by (simp add: emits_def)

lemma emit_lits:
  "emits (fold (\<lambda>b. emit_with_ims n (char_lit (ucast b))) bs) (seq_shape (map (\<lambda>b. atom_shape (BLit b (n_eff_ims n))) bs))"
proof -
  have "emits (emit_with_ims n (char_lit (ucast b))) (atom_shape (BLit b (n_eff_ims n)))" for b :: u8
    unfolding emit_with_ims_def [abs_def]
    by (rule emits_atom) (simp add: atom_ins_def char_lit_def inst_byte_def)
  then have "emits (fold (\<lambda>kid p. kid p) (map (\<lambda>b. emit_with_ims n (char_lit (ucast b))) bs))
      (seq_shape (map (\<lambda>b. atom_shape (BLit b (n_eff_ims n))) bs))"
    by (intro emits_seq) (simp add: list_all2_map1 list_all2_map2 list_all2_same)
  then show ?thesis by (simp add: fold_map comp_def)
qed

lemma emits_simple:
  assumes "k = OP_ANY_CHAR \<and> a = BAny (n_eff_ims n) \<or>
    k \<in> {OP_ANCHOR_B, OP_ANCHOR_E, OP_WBOUND, OP_NWBOUND} \<and> a = BAssert k (n_eff_ims n)"
  shows "emits (emit_with_ims n (inst_simple k)) (atom_shape a)"
  unfolding emit_with_ims_def [abs_def]
  by (rule emits_atom) (use assms in \<open>auto simp: atom_ins_def inst_simple_def\<close>)

lemma emits_class_ref: "emits (compile_class_ref n) (atom_shape (BClass (n_cc n) (n_eff_ims n)))"
proof (rule emitsI)
  fix p assume "\<not> p_raw_classes p"
  have "compile_class_ref n p =
      ext p [(class_ref (int (length (p_classes p))))\<lparr>i_pad := ucast (n_eff_ims n)\<rparr>] [n_cc n]"
    by (simp add: compile_class_ref_def intern_ext emit_with_ims_def emit_ext)
  moreover have "atom_shape (BClass (n_cc n) (n_eff_ims n)) (p_classes p @ [n_cc n] @ ds) (length (p_insts p))
      [(class_ref (int (length (p_classes p))))\<lparr>i_pad := ucast (n_eff_ims n)\<rparr>]" for ds
    by (simp add: atom_shape_def atom_ins_def class_ref_def)
  ultimately show "\<exists>frag cs. compile_class_ref n p = ext p frag cs \<and>
      (\<forall>ds. atom_shape (BClass (n_cc n) (n_eff_ims n)) (p_classes p @ cs @ ds) (length (p_insts p)) frag)"
    by blast
qed

lemma emits_char:
  assumes "uint (n_ch n) \<le> 0x10FFFF"
  shows "emits (compile_char False n) (codes (base (CLit (uint (n_ch n)) (n_eff_ims n))))"
proof (cases "n_ch n < 0x80")
  case True
  then have u: "uint (n_ch n) < 0x80" by (simp add: word_less_def)
  have "emits (emit_with_ims n (char_lit (n_ch n))) (atom_shape (BLit (ucast (n_ch n)) (n_eff_ims n)))"
    unfolding emit_with_ims_def [abs_def]
    by (rule emits_atom) (simp add: atom_ins_def char_lit_def inst_byte_def)
  from emits_cong [OF this, of "compile_char False n"] show ?thesis
    using u True by (simp add: base_def compile_char_def)
next
  case False
  then have u: "\<not> uint (n_ch n) < 0x80" by (simp add: word_less_def)
  from emits_cong [OF emit_lits, of "compile_char False n" n "utf8_encode_cp (uint (n_ch n))"] show ?thesis
    using u False sint_code_point [OF assms] by (simp add: base_def compile_char_def comp_def)
qed

lemma emits_base:
  assumes "n_kids n = []" "n_child n = None" "atom_of (n_kind n) (n_ch n) (n_cc n) (n_eff_ims n) = Some a"
    and "n_kind n = NK_Class \<Longrightarrow> unicode_mode flags \<and> is_uflag_property_only (n_cc n) \<or>
      expand_unsafe_class (n_cc n) (unicode_mode flags) (n_eff_ims n AND RE_FLAG_I \<noteq> 0) = None"
  shows "emits (compile_dir flags False n) (codes (base a))"
proof (cases "n_kind n = NK_Class")
  case True
  from emits_cong [OF emits_class_ref, of "compile_dir flags False n" n] show ?thesis
    using assms(3,4) True by (auto simp: atom_of_def base_def compile_dir.simps [of _ _ n])
next
  case False
  then show ?thesis using assms(3) emits_char [of n]
    by (subst compile_dir.simps) (auto simp: atom_of_def base_def emits_simple split: node_kind.splits if_splits)
qed

section \<open>The code of a class\<close>

definition range_class :: "u8 \<times> u8 \<Rightarrow> char_class" where
  "range_class r = class_add_range (class_new\<lparr>byte_only := True\<rparr>) (fst r) (snd r)"

definition seq_tree :: "u8 \<Rightarrow> (u8 \<times> u8) list \<Rightarrow> char_atom re" where
  "seq_tree ims c =
     (if length c = 1 then RAtom (CClass (range_class (c ! 0)) ims)
      else RSeq (map (\<lambda>r. RAtom (CClass (range_class r) ims)) c))"

definition class_tree :: "u8 \<Rightarrow> (u8 \<times> u8) list list \<Rightarrow> char_atom re" where
  "class_tree ims cs =
     (if cs = [] then RAtom (CClass (class_new\<lparr>byte_only := True\<rparr>) ims)
      else if length cs = 1 then seq_tree ims (cs ! 0)
      else RAlt (map (seq_tree ims) cs))"

lemma spec_of_sel:
  "spec_of n =
     (if n_kind n = NK_Concat then
        (if n_child n = None then map_option RSeq (those (map spec_of (n_kids n))) else None)
      else if n_kind n = NK_Alt then
        (if n_child n = None \<and> n_kids n \<noteq> [] then map_option RAlt (those (map spec_of (n_kids n))) else None)
      else if n_kids n \<noteq> [] then None
      else
        (case n_child n of
           None \<Rightarrow> map_option RAtom (atom_of (n_kind n) (n_ch n) (n_cc n) (n_eff_ims n))
         | Some c \<Rightarrow>
             if n_kind n = NK_Repeat \<and> 0 \<le> n_min n \<and> (n_max n = - 1 \<or> n_min n \<le> n_max n) then
               map_option (RRep (nat (n_min n)) (if n_max n = - 1 then None else Some (nat (n_max n - n_min n))) (n_lazy n)
                 (can_match_empty c)) (spec_of c)
             else if n_kind n = NK_Group then
               (if n_capture_idx n > 0 then map_option (RGroup (nat (n_capture_idx n))) (spec_of c) else spec_of c)
             else None))"
proof (cases n)
  case (Node k ch cc kids mn mx lz child ci bn ims)
  show ?thesis unfolding Node node.sel by (rule spec_of.simps)
qed

lemma stamp_sel [simp]:
  "n_kind (stamp_eff_ims e n) = n_kind n" "n_ch (stamp_eff_ims e n) = n_ch n" "n_cc (stamp_eff_ims e n) = n_cc n"
  "n_kids (stamp_eff_ims e n) = map (stamp_eff_ims e) (n_kids n)"
  "n_child (stamp_eff_ims e n) = map_option (stamp_eff_ims e) (n_child n)" "n_eff_ims (stamp_eff_ims e n) = e"
  by (cases n; simp)+

lemma those_Some: "those (map (\<lambda>x. Some (f x)) xs) = Some (map f xs)"
  by (induction xs) simp_all

lemma spec_class_node: "n_kids (class_node_for_range l h) = []" "n_child (class_node_for_range l h) = None"
  "n_kids empty_class_node = []" "n_child empty_class_node = None"
  by (simp_all add: class_node_for_range_def empty_class_node_def with_class_def node_new_def)

lemma spec_concat: "spec_of (stamp_eff_ims ims (concat_to_node c)) = Some (seq_tree ims c)"
proof -
  have r: "spec_of (stamp_eff_ims ims (class_node_for_range (fst r) (snd r))) = Some (RAtom (CClass (range_class r) ims))" for r
    by (simp add: spec_of_sel [of "stamp_eff_ims _ _"] spec_class_node atom_of_def class_node_for_range_def range_class_def)
  show ?thesis
  proof (cases "length c = 1")
    case True
    then show ?thesis using r by (simp add: concat_to_node_def seq_tree_def)
  next
    case False
    then show ?thesis using r
      by (simp add: concat_to_node_def seq_tree_def spec_of_sel [of "stamp_eff_ims _ _"] case_prod_unfold comp_def those_Some)
  qed
qed

lemma spec_concats: "cs \<noteq> [] \<Longrightarrow> spec_of (stamp_eff_ims ims (concats_to_node cs)) = Some (class_tree ims cs)"
proof (cases "length cs = 1")
  case True
  then show ?thesis using spec_concat [of ims "cs ! 0"] by (auto simp: concats_to_node_def class_tree_def)
next
  case False
  assume "cs \<noteq> []"
  then show ?thesis using False spec_concat [of ims]
    by (simp add: concats_to_node_def class_tree_def spec_of_sel [of "stamp_eff_ims _ _"] comp_def those_Some)
qed

lemma expand_spec:
  assumes "expand_unsafe_class cc u ci = Some e"
  shows "spec_of (stamp_eff_ims ims e) = Some (class_tree ims (class_concats (cp_ranges_of cc ci)))"
proof (cases "class_concats (cp_ranges_of cc ci) = []")
  case True
  then have "e = empty_class_node"
    using assms by (auto simp: expand_unsafe_class_def Let_def split: if_splits)
  then show ?thesis using True
    by (simp add: class_tree_def spec_of_sel [of "stamp_eff_ims _ _"] spec_class_node atom_of_def empty_class_node_def)
next
  case False
  then have "cp_ranges_of cc ci \<noteq> []" by (auto simp: class_concats_def ranges_in_len_def split_beta)
  then have "e = concats_to_node (class_concats (cp_ranges_of cc ci))"
    using assms False by (auto simp: expand_unsafe_class_def Let_def split: if_splits)
  then show ?thesis using spec_concats [OF False] by simp
qed

lemma class_tree_atoms: "a \<in> set_re (class_tree ims cs) \<Longrightarrow> \<exists>cc. a = CClass cc ims \<and> byte_only cc"
  by (auto simp: class_tree_def seq_tree_def range_class_def split: if_splits)

lemma rgroups_class_tree [simp]: "rgroups (class_tree ims cs) = []"
  by (simp add: class_tree_def seq_tree_def)

text \<open>The pattern over bytes of a character atom.\<close>

definition lower :: "u8 \<Rightarrow> char_atom \<Rightarrow> byte_atom re" where
  "lower flags a =
     (case a of
        CClass cc ims \<Rightarrow>
          (if unicode_mode flags \<and> is_uflag_property_only cc \<or>
              expand_unsafe_class cc (unicode_mode flags) (ims AND RE_FLAG_I \<noteq> 0) = None then base a
           else subst_re base (class_tree ims (class_concats (cp_ranges_of cc (ims AND RE_FLAG_I \<noteq> 0)))))
      | _ \<Rightarrow> base a)"

lemma rgroups_lower [simp]: "rgroups (lower flags a) = []"
  by (cases a) (simp_all add: lower_def rgroups_subst)

lemma emits_leaf:
  assumes "n_kids n = []" "n_child n = None" "atom_of (n_kind n) (n_ch n) (n_cc n) (n_eff_ims n) = Some a"
  shows "emits (compile_dir flags False n) (codes (lower flags a))"
proof (cases "n_kind n = NK_Class \<and> \<not> (unicode_mode flags \<and> is_uflag_property_only (n_cc n)) \<and>
    expand_unsafe_class (n_cc n) (unicode_mode flags) (n_eff_ims n AND RE_FLAG_I \<noteq> 0) \<noteq> None")
  case False
  then have "emits (compile_dir flags False n) (codes (base a))"
    by (intro emits_base [OF assms]) auto
  moreover have "lower flags a = base a"
    using False assms(3) by (auto simp: lower_def atom_of_def split: char_atom.splits node_kind.splits if_splits)
  ultimately show ?thesis by simp
next
  case True
  then obtain e where e: "expand_unsafe_class (n_cc n) (unicode_mode flags) (n_eff_ims n AND RE_FLAG_I \<noteq> 0) = Some e"
    by auto
  let ?cs = "class_concats (cp_ranges_of (n_cc n) (n_eff_ims n AND RE_FLAG_I \<noteq> 0))"
  have "emits (compile_dir flags False (stamp_eff_ims (n_eff_ims n) e)) (codes (subst_re base (class_tree (n_eff_ims n) ?cs)))"
  proof (rule emits_tree [OF expand_spec [OF e]])
    fix n' a'
    assume "a' \<in> set_re (class_tree (n_eff_ims n) ?cs)" "n_kids n' = []" "n_child n' = None"
      and at: "atom_of (n_kind n') (n_ch n') (n_cc n') (n_eff_ims n') = Some a'"
    moreover from this have "n_kind n' = NK_Class \<Longrightarrow> byte_only (n_cc n')"
      using class_tree_atoms [of a'] by (auto simp: atom_of_def)
    ultimately show "emits (compile_dir flags False n') (codes (base a'))"
      by (intro emits_base [OF _ _ at]) (auto simp: expand_unsafe_class_def)
  qed simp_all
  moreover have "lower flags a = subst_re base (class_tree (n_eff_ims n) ?cs)"
    using True assms(3) by (auto simp: lower_def atom_of_def)
  ultimately show ?thesis using True e
    by (intro emits_cong [of _ _ "compile_dir flags False n", rotated]) (auto simp: compile_dir.simps [of _ _ n])
qed

lemma compile_emits:
  "spec_of n = Some r \<Longrightarrow> sorted (rgroups r) \<Longrightarrow>
   emits (\<lambda>p. compile p n flags) (codes (subst_re (lower flags) r))"
  unfolding compile_def by (intro emits_tree emits_leaf) simp_all

end
