(* ===== verification/Regex_Correct.thy ===== *)
theory Regex_Correct
  imports Regex_Codes
begin

text \<open>
  The code of a pattern on the machine of \<open>Regex_Walk\<close>: its accepting paths, in priority
  order, are the outcomes of the matcher of \<open>Regex_Spec\<close>.
\<close>

section \<open>Atoms on the machine\<close>

definition whole_char :: "walker \<Rightarrow> int \<Rightarrow> bool" where
  "whole_char w pos \<longleftrightarrow> pos + int (utf8_len_for (w_s w ! nat pos)) \<le> int (length (w_s w))"

definition assertion_at :: "u8 list \<Rightarrow> op \<Rightarrow> u8 \<Rightarrow> int \<Rightarrow> bool" where
  "assertion_at s k ims pos =
     (let ml = (ims AND RE_FLAG_M \<noteq> 0);
          left = (pos > 0 \<and> is_word_byte (s ! nat (pos - 1)));
          right = (pos < int (length s) \<and> is_word_byte (s ! nat pos))
      in case k of
           OP_ANCHOR_B \<Rightarrow> pos = 0 \<or> ml \<and> terminator_before s (nat pos)
         | OP_ANCHOR_E \<Rightarrow> pos = int (length s) \<or> ml \<and> terminator_at s (nat pos)
         | OP_WBOUND \<Rightarrow> left \<noteq> right
         | _ \<Rightarrow> left = right)"

definition byte_step :: "walker \<Rightarrow> byte_atom \<Rightarrow> int \<Rightarrow> int option" where
  "byte_step w a pos =
     (let s = w_s w in
      case a of
        BAssert k ims \<Rightarrow> if assertion_at s k ims pos then Some pos else None
      | BLit b ims \<Rightarrow> if pos < w_end w \<and> char_eq b (s ! nat pos) ims then Some (pos + 1) else None
      | BAny ims \<Rightarrow>
          if pos < w_end w \<and> (ims AND RE_FLAG_S \<noteq> 0 \<or> \<not> terminator_at s (nat pos)) then
            Some (pos + (if whole_char w pos then int (utf8_len_for (s ! nat pos)) else 1))
          else None
      | BClass cc ims \<Rightarrow>
          if w_end w \<le> pos then None
          else if \<not> byte_only cc \<and> w_unicode w \<and> whole_char w pos then
            (case utf8_decode_cp (drop (nat pos) s) of
               Some (cp, len) \<Rightarrow> if class_test_cp_fold cc cp (ims AND RE_FLAG_I \<noteq> 0) then Some (pos + int len) else None
             | None \<Rightarrow> None)
          else if class_test_fold cc (s ! nat pos) (ims AND RE_FLAG_I \<noteq> 0) then Some (pos + 1) else None)"

definition inside :: "walker \<Rightarrow> int \<Rightarrow> bool" where
  "inside w pos \<longleftrightarrow> 0 \<le> pos \<and> pos \<le> int (length (w_s w))"

fun byte_nul :: "byte_atom \<Rightarrow> bool" where
  "byte_nul (BAssert k ims) \<longleftrightarrow> True"
| "byte_nul _ \<longleftrightarrow> False"

lemma utf8_len_pos [simp]: "0 < utf8_len_for b"
  by (simp add: utf8_len_for_def)

lemma decode_len:
  assumes "utf8_decode_cp s = Some (cp, len)" shows "len = utf8_len_for (hd s) \<and> len \<le> length s"
  using assms by (cases s) (auto simp: utf8_decode_cp_def utf8_len_for_def rd_def Suc_le_eq split: if_splits)

lemma byte_step_bounds:
  assumes "inside w pos" "w_end w \<le> int (length (w_s w))" "byte_step w a pos = Some q"
  shows "pos \<le> q" "inside w q" "\<not> byte_nul a \<Longrightarrow> pos < q"
proof -
  have "pos \<le> q \<and> inside w q \<and> (\<not> byte_nul a \<longrightarrow> pos < q)"
  proof (cases a)
    case (BClass cc ims)
    have lt: "pos < w_end w" using assms(3) BClass by (auto simp: byte_step_def Let_def split: if_splits)
    then have "hd (drop (nat pos) (w_s w)) = w_s w ! nat pos"
      using assms(1,2) by (intro hd_drop_conv_nth) (auto simp: inside_def)
    then have dec: "utf8_decode_cp (drop (nat pos) (w_s w)) = Some (cp, len) \<Longrightarrow>
        0 < len \<and> pos + int len \<le> int (length (w_s w))" for cp len
      using decode_len [of "drop (nat pos) (w_s w)" cp len] assms(1,2) lt by (auto simp: inside_def)
    from assms(3) lt consider cp len where "utf8_decode_cp (drop (nat pos) (w_s w)) = Some (cp, len)" "q = pos + int len"
      | "q = pos + 1"
      by (auto simp: byte_step_def Let_def BClass split: if_splits option.splits)
    then show ?thesis using dec assms(1,2) lt by cases (auto simp: inside_def)
  next
    case (BAny ims)
    then show ?thesis using assms utf8_len_pos [of "w_s w ! nat pos"]
      by (auto simp: byte_step_def Let_def inside_def whole_char_def split: if_splits)
  qed (use assms in \<open>auto simp: byte_step_def Let_def inside_def split: if_splits\<close>)
  then show "pos \<le> q" "inside w q" "\<not> byte_nul a \<Longrightarrow> pos < q" by blast+
qed

lemma bytes_ok:
  assumes "legal w" shows "atoms_ok (byte_step w) (inside w)" "atoms_grow (byte_step w) (inside w) byte_nul"
  using byte_step_bounds [of w] assms unfolding atoms_ok_def atoms_grow_def legal_def by blast+

lemma exec_atom:
  assumes lw: "legal w" and pc: "pc < length (p_insts (w_prog w))" "p_insts (w_prog w) ! pc = ins"
    and a: "atom_ins (p_classes (w_prog w)) ins a" and pos: "inside w pos"
  shows "exec w (pc, pos, row, its) =
    Some (Inr (case byte_step w a pos of None \<Rightarrow> [] | Some q \<Rightarrow> [(pc + 1, q, row, its)]))"
proof -
  have ia: "0 \<le> i_a ins \<Longrightarrow> as_usize (i_a ins) = nat (i_a ins)"
    using eligible_ids(1) [OF lw pc(1)] pc(2) by simp
  have us: "as_usize pos = nat pos" using pos lw by (intro as_usize_id) (auto simp: inside_def legal_def)
  have ex: "exec w (pc, pos, row, its) = exec_inst w ins (pc, pos, row, its)"
    using pc by (simp add: exec_def rd_def)
  show ?thesis
  proof (cases "w_end w \<le> pos")
    case True
    then show ?thesis unfolding ex using a pos
      by (cases a) (auto simp: exec_inst_def atom_ins_def byte_step_def consume_def assertion_holds_def assertion_at_def
          inside_def Let_def)
  next
    case False
    then have lt: "nat pos < length (w_s w)" using pos lw by (auto simp: inside_def legal_def)
    have dec: "utf8_decode_cp (drop (nat pos) (w_s w)) \<noteq> None" if "whole_char w pos"
      using that lt pos by (intro decode_whole) (auto simp: whole_char_def hd_drop_conv_nth inside_def)
    have rd: "rd (w_s w) (nat pos) = Some (w_s w ! nat pos)" using lt by (simp add: rd_def)
    note simps = exec_inst_def atom_ins_def byte_step_def consume_def Let_def us rd whole_char_def Suc_le_eq
    show ?thesis
    proof (cases a)
      case (BClass cc ims)
      have "rd (p_classes (w_prog w)) (as_usize (i_a ins)) = Some cc"
        using a ia by (simp add: BClass atom_ins_def rd_def)
      moreover have "utf8_decode_cp (drop (nat pos) (w_s w)) \<noteq> Some (cp, 0)" for cp
        using decode_len [of "drop (nat pos) (w_s w)" cp 0] by (metis less_irrefl utf8_len_pos)
      ultimately show ?thesis unfolding ex using a False dec lt
        by (cases "whole_char w pos") (auto simp: BClass simps split: option.splits)
    next
      case (BAssert k ims)
      then show ?thesis unfolding ex using a pos
        by (auto simp: exec_inst_def atom_ins_def byte_step_def assertion_holds_def assertion_at_def inside_def Let_def)
    qed (use a False lt in \<open>auto simp: ex simps\<close>)
  qed
qed

declare split_paired_All [simp del] split_paired_Ex [simp del]

section \<open>Code in its place\<close>

primrec placed :: "walker \<Rightarrow> nat \<Rightarrow> inst list \<Rightarrow> bool" where
  "placed w off [] \<longleftrightarrow> True"
| "placed w off (i # frag) \<longleftrightarrow>
     off < length (p_insts (w_prog w)) \<and> p_insts (w_prog w) ! off = i \<and> placed w (Suc off) frag"

lemma placed_append [simp]: "placed w off (f @ g) \<longleftrightarrow> placed w off f \<and> placed w (off + length f) g"
  by (induction f arbitrary: off) auto

text \<open>The accepting rows of a configuration.\<close>

definition yields :: "walker \<Rightarrow> config \<Rightarrow> int list list \<Rightarrow> bool" where
  "yields w c rs \<longleftrightarrow> (\<exists>n. runs w c n rs)"

lemma yields_stop: "exec w c = Some (Inr []) \<Longrightarrow> yields w c []"
  by (auto simp: yields_def intro: runs.stop)

lemma yields_one: "exec w c = Some (Inr [c1]) \<Longrightarrow> yields w c1 rs \<Longrightarrow> yields w c rs"
  by (auto simp: yields_def intro: runs.one)

lemma yields_two: "exec w c = Some (Inr [c1, c2]) \<Longrightarrow> yields w c1 rs1 \<Longrightarrow> yields w c2 rs2 \<Longrightarrow> yields w c (rs1 @ rs2)"
  by (auto simp: yields_def intro: runs.two)

lemma exec_at:
  "placed w pc [inst_jmp t] \<Longrightarrow> exec w (pc, pos, row, its) = Some (Inr [(nat t, pos, row, its)])"
  "placed w pc [inst_split t u] \<Longrightarrow>
     exec w (pc, pos, row, its) = Some (Inr [(nat t, pos, row, its), (nat u, pos, row, its)])"
  "placed w pc [inst_save k] \<Longrightarrow> exec w (pc, pos, row, its) = Some (Inr [(pc + 1, pos, row[nat k := pos], its)])"
  "placed w pc [inst_save_reset a b] \<Longrightarrow>
     exec w (pc, pos, row, its) = Some (Inr [(pc + 1, pos, clear_slots (nat a) (nat b) row, its)])"
  "placed w pc [inst_simple OP_ITER_START] \<Longrightarrow>
     exec w (pc, pos, row, its) = Some (Inr [(pc + 1, pos, row, its[pc := pos])])"
  "placed w pc [inst_iter_check k] \<Longrightarrow>
     exec w (pc, pos, row, its) = Some (Inr (if its ! nat k = pos then [] else [(pc + 1, pos, row, its)]))"
  by (simp_all add: exec_def rd_def exec_inst_def inst_jmp_def inst_split_def inst_save_def inst_save_reset_def
      inst_simple_def inst_iter_check_def)

section \<open>Code that implements outcomes\<close>

text \<open>
  Code between \<open>low\<close> and \<open>high\<close> may change the iteration starts of its own instructions.
  \<open>ends\<close>: from every outcome \<open>d\<close> that arrives at \<open>high\<close>, the machine yields \<open>K d\<close>.
\<close>

definition agree :: "nat \<Rightarrow> nat \<Rightarrow> int list \<Rightarrow> int list \<Rightarrow> bool" where
  "agree low high its its' \<longleftrightarrow> length its' = length its \<and> (\<forall>k. k < low \<or> high \<le> k \<longrightarrow> its' ! k = its ! k)"

definition ends :: "walker \<Rightarrow> (state \<Rightarrow> int list list) \<Rightarrow> nat \<Rightarrow> nat \<Rightarrow> int list \<Rightarrow> state \<Rightarrow> bool" where
  "ends w K low high its d \<longleftrightarrow> (\<forall>its'. agree low high its its' \<longrightarrow> yields w (high, fst d, snd d, its') (K d))"

definition loops :: "walker \<Rightarrow> int list \<Rightarrow> bool" where
  "loops w its \<longleftrightarrow> (\<forall>k < length (p_insts (w_prog w)). i_op (p_insts (w_prog w) ! k) = OP_ITER_START \<longrightarrow> k < length its)"

definition fresh :: "nat set \<Rightarrow> int list \<Rightarrow> bool" where
  "fresh gs row \<longleftrightarrow> (\<forall>k < length row. k div 2 \<in> gs \<longrightarrow> row ! k < 0)"

definition implements :: "walker \<Rightarrow> shape \<Rightarrow> (state \<Rightarrow> state list) \<Rightarrow> nat set \<Rightarrow> bool" where
  "implements w B m gs \<longleftrightarrow> (\<forall>off frag pos row its K.
     placed w off frag \<longrightarrow> B (p_classes (w_prog w)) off frag \<longrightarrow> inside w pos \<longrightarrow> loops w its \<longrightarrow> fresh gs row \<longrightarrow>
     (\<forall>d \<in> set (m (pos, row)). ends w K off (off + length frag) its d) \<longrightarrow>
     yields w (off, pos, row, its) (concat (map K (m (pos, row)))))"

lemma implementsI:
  assumes "\<And>off frag pos row its K. placed w off frag \<Longrightarrow> B (p_classes (w_prog w)) off frag \<Longrightarrow> inside w pos \<Longrightarrow>
    loops w its \<Longrightarrow> fresh gs row \<Longrightarrow> (\<And>d. d \<in> set (m (pos, row)) \<Longrightarrow> ends w K off (off + length frag) its d) \<Longrightarrow>
    yields w (off, pos, row, its) (concat (map K (m (pos, row))))"
  shows "implements w B m gs"
  using assms unfolding implements_def by blast

lemma implementsD:
  assumes "implements w B m gs" "placed w off frag" "B (p_classes (w_prog w)) off frag" "inside w pos" "loops w its"
    "fresh gs row" "\<And>d. d \<in> set (m (pos, row)) \<Longrightarrow> ends w K off (off + length frag) its d"
  shows "yields w (off, pos, row, its) (concat (map K (m (pos, row))))"
  using assms unfolding implements_def by blast

lemma agree_refl [simp]: "agree low high its its"
  by (simp add: agree_def)

lemma agree_trans: "agree low high its its' \<Longrightarrow> agree low high its' its'' \<Longrightarrow> agree low high its its''"
  by (simp add: agree_def)

lemma agree_mono: "agree low high its its' \<Longrightarrow> low' \<le> low \<Longrightarrow> high \<le> high' \<Longrightarrow> agree low' high' its its'"
  by (auto simp: agree_def)

lemma agree_loops: "agree low high its its' \<Longrightarrow> loops w its \<Longrightarrow> loops w its'"
  by (simp add: agree_def loops_def)

lemma ends_agree: "ends w K low high its d \<Longrightarrow> agree low high its its' \<Longrightarrow> ends w K low high its' d"
  unfolding ends_def using agree_trans by blast

lemma ends_mono: "ends w K low high its d \<Longrightarrow> low \<le> low' \<Longrightarrow> ends w K low' high its d"
  unfolding ends_def using agree_mono by blast

lemma endsI: "(\<And>its'. agree low high its its' \<Longrightarrow> yields w (high, fst d, snd d, its') (K d)) \<Longrightarrow> ends w K low high its d"
  by (simp add: ends_def)

lemma endsD: "ends w K low high its d \<Longrightarrow> agree low high its its' \<Longrightarrow> yields w (high, fst d, snd d, its') (K d)"
  by (simp add: ends_def)

lemma fresh_mono: "fresh gs row \<Longrightarrow> gs' \<subseteq> gs \<Longrightarrow> fresh gs' row"
  by (auto simp: fresh_def)

lemma fresh_keeps: "fresh gs (snd c) \<Longrightarrow> keeps ok gs' c d \<Longrightarrow> gs \<inter> gs' = {} \<Longrightarrow> fresh gs (snd d)"
  by (auto simp: fresh_def keeps_def)

lemma concat_map_concat: "concat (map K (concat xss)) = concat (map (\<lambda>xs. concat (map K xs)) xss)"
  by (induction xss) simp_all

lemma implements_atom:
  assumes "legal w"
  shows "implements w (atom_shape a) (es (byte_step w) ub (RAtom a)) {}"
proof (rule implementsI)
  fix off frag pos row its K
  assume p: "placed w off frag" "atom_shape a (p_classes (w_prog w)) off frag" "inside w pos"
    and K: "\<And>d. d \<in> set (es (byte_step w) ub (RAtom a) (pos, row)) \<Longrightarrow> ends w K off (off + length frag) its d"
  then obtain ins where ins: "frag = [ins]" "atom_ins (p_classes (w_prog w)) ins a" by (auto simp: atom_shape_def)
  have ex: "exec w (off, pos, row, its) =
      Some (Inr (case byte_step w a pos of None \<Rightarrow> [] | Some q \<Rightarrow> [(off + 1, q, row, its)]))"
    using exec_atom [OF assms _ _ ins(2) p(3)] p(1) ins(1) by simp
  show "yields w (off, pos, row, its) (concat (map K (es (byte_step w) ub (RAtom a) (pos, row))))"
  proof (cases "byte_step w a pos")
    case None
    then show ?thesis using ex by (simp add: yields_stop)
  next
    case (Some q)
    then have "yields w (off + 1, q, row, its) (K (q, row))"
      using endsD [OF K, of "(q, row)" its] ins(1) by simp
    then show ?thesis using ex Some by (simp add: yields_one)
  qed
qed

lemma implements_seq_Nil: "implements w (seq_shape []) (es at ub (RSeq [])) {}"
proof (rule implementsI)
  fix off :: nat and frag pos row its K
  assume "seq_shape [] (p_classes (w_prog w)) off frag"
    and K: "\<And>d. d \<in> set (es at ub (RSeq []) (pos, row)) \<Longrightarrow> ends w K off (off + length frag) its d"
  then show "yields w (off, pos, row, its) (concat (map K (es at ub (RSeq []) (pos, row))))"
    using endsD [OF K, of "(pos, row)" its] by simp
qed

lemma implements_seq_Cons:
  assumes B: "implements w B (es at ub r) gs" and Bs: "implements w (seq_shape Bs) (es at ub (RSeq rs)) gs'"
    and keep: "\<And>c d. inside w (fst c) \<Longrightarrow> d \<in> set (es at ub r c) \<Longrightarrow> keeps (inside w) gs c d" and disj: "gs \<inter> gs' = {}"
  shows "implements w (seq_shape (B # Bs)) (es at ub (RSeq (r # rs))) (gs \<union> gs')"
proof (rule implementsI)
  fix off frag pos row its K
  assume p: "placed w off frag" "seq_shape (B # Bs) (p_classes (w_prog w)) off frag" "inside w pos" "loops w its"
      "fresh (gs \<union> gs') row"
    and K: "\<And>d. d \<in> set (es at ub (RSeq (r # rs)) (pos, row)) \<Longrightarrow> ends w K off (off + length frag) its d"
  obtain f g where f: "frag = f @ g" "B (p_classes (w_prog w)) off f"
      "seq_shape Bs (p_classes (w_prog w)) (off + length f) g"
    using p(2) by auto
  have "yields w (off, pos, row, its) (concat (map (\<lambda>d. concat (map K (es at ub (RSeq rs) d))) (es at ub r (pos, row))))"
  proof (rule implementsD [OF B])
    fix d assume d: "d \<in> set (es at ub r (pos, row))"
    have k: "keeps (inside w) gs (pos, row) d" using keep [of "(pos, row)"] d p(3) by simp
    show "ends w (\<lambda>d. concat (map K (es at ub (RSeq rs) d))) off (off + length f) its d"
    proof (rule endsI)
      fix its' assume a: "agree off (off + length f) its its'"
      have "yields w (off + length f, fst d, snd d, its') (concat (map K (es at ub (RSeq rs) (fst d, snd d))))"
      proof (rule implementsD [OF Bs])
        show "fresh gs' (snd d)"
          using fresh_keeps [of gs' "(pos, row)" "inside w" gs d] k disj fresh_mono [OF p(5), of gs'] by (simp add: Int_commute)
        fix e assume "e \<in> set (es at ub (RSeq rs) (fst d, snd d))"
        then have "ends w K off (off + length frag) its e" by (intro K) (use d in auto)
        then show "ends w K (off + length f) (off + length f + length g) its' e"
          using ends_mono [OF ends_agree, of w K off "off + length frag" its e its' "off + length f"]
            agree_mono [OF a, of off "off + length frag"] by (simp add: f(1) add.assoc)
      qed (use p f k agree_loops [OF a] in \<open>auto simp: keeps_def\<close>)
      then show "yields w (off + length f, fst d, snd d, its') (concat (map K (es at ub (RSeq rs) d)))" by simp
    qed
  qed (use p f fresh_mono [OF p(5), of gs] in auto)
  then show "yields w (off, pos, row, its) (concat (map K (es at ub (RSeq (r # rs)) (pos, row))))"
    by (simp add: concat_map_concat comp_def)
qed

lemma implements_alts:
  assumes "list_all2 (\<lambda>B r. implements w B (es at ub r) (set (rgroups r))) Bs rs"
  shows "placed w off frag \<Longrightarrow> alts_shape (int (off + length frag)) Bs (p_classes (w_prog w)) off frag \<Longrightarrow>
    inside w pos \<Longrightarrow> loops w its \<Longrightarrow> fresh (set (rgroups (RAlt rs))) row \<Longrightarrow>
    (\<And>d. d \<in> set (es at ub (RAlt rs) (pos, row)) \<Longrightarrow> ends w K off (off + length frag) its d) \<Longrightarrow>
    yields w (off, pos, row, its) (concat (map K (es at ub (RAlt rs) (pos, row))))"
  using assms
proof (induction Bs arbitrary: rs off frag its)
  case (Cons B Bs)
  obtain r rs' where rs: "rs = r # rs'" "implements w B (es at ub r) (set (rgroups r))"
      "list_all2 (\<lambda>B r. implements w B (es at ub r) (set (rgroups r))) Bs rs'"
    using Cons.prems(7) by (auto simp: list_all2_Cons1)
  have fr: "fresh (set (rgroups r)) row" "fresh (set (rgroups (RAlt rs'))) row"
    using Cons.prems(5) rs(1) by (auto intro: fresh_mono)
  have K: "ends w K off (off + length frag) its d" if "d \<in> set (es at ub r (pos, row)) \<or> d \<in> set (es at ub (RAlt rs') (pos, row))" for d
    by (rule Cons.prems(6)) (use that rs(1) in auto)
  show ?case
  proof (cases "Bs = []")
    case True
    then have "rs' = []" using rs(3) by simp
    moreover have "yields w (off, pos, row, its) (concat (map K (es at ub r (pos, row))))"
      by (rule implementsD [OF rs(2) Cons.prems(1) _ Cons.prems(3,4) fr(1)]) (use Cons.prems(2) True K in auto)
    ultimately show ?thesis using rs(1) by simp
  next
    case False
    let ?fin = "off + length frag"
    obtain f g E where f: "frag = inst_split (int (off + 1)) (int (off + 2 + length f)) # f @ inst_jmp E # g"
        "B (p_classes (w_prog w)) (off + 1) f" "alts_shape E Bs (p_classes (w_prog w)) (off + 2 + length f) g"
      and E: "E = int ?fin"
      using Cons.prems(2) alts_shape_Cons [OF False] by auto
    have e: "?fin = off + 2 + length f + length g" by (simp add: f(1))
    have pl: "placed w (off + 1) f" "placed w (off + 1 + length f) [inst_jmp E]" "placed w (off + 2 + length f) g"
        "placed w off [inst_split (int (off + 1)) (int (off + 2 + length f))]"
      using Cons.prems(1) by (simp_all add: f(1))
    have 1: "yields w (off + 1, pos, row, its) (concat (map K (es at ub r (pos, row))))"
    proof (rule implementsD [OF rs(2) pl(1) f(2) Cons.prems(3,4) fr(1)])
      fix d assume d: "d \<in> set (es at ub r (pos, row))"
      show "ends w K (off + 1) (off + 1 + length f) its d"
      proof (rule endsI)
        fix its' assume "agree (off + 1) (off + 1 + length f) its its'"
        then have "agree off ?fin its its'" by (rule agree_mono) (simp_all add: e)
        then have "yields w (?fin, fst d, snd d, its') (K d)" using K d by (intro endsD) simp_all
        moreover have "exec w (off + 1 + length f, fst d, snd d, its') = Some (Inr [(?fin, fst d, snd d, its')])"
          unfolding exec_at(1) [OF pl(2)] E by (simp only: nat_int)
        ultimately show "yields w (off + 1 + length f, fst d, snd d, its') (K d)" by (rule yields_one [rotated])
      qed
    qed
    have 2: "yields w (off + 2 + length f, pos, row, its) (concat (map K (es at ub (RAlt rs') (pos, row))))"
    proof (rule Cons.IH [OF pl(3) _ Cons.prems(3,4) fr(2) _ rs(3)])
      fix d assume "d \<in> set (es at ub (RAlt rs') (pos, row))"
      then show "ends w K (off + 2 + length f) (off + 2 + length f + length g) its d"
        using K ends_mono [of w K off] e by simp
    qed (use f(3) e E in simp)
    have "exec w (off, pos, row, its) = Some (Inr [(off + 1, pos, row, its), (off + 2 + length f, pos, row, its)])"
      unfolding exec_at(2) [OF pl(4)] by (simp only: nat_int)
    from yields_two [OF this 1 2] show ?thesis using rs(1) by simp
  qed
qed simp

lemma implements_alt:
  assumes "list_all2 (\<lambda>B r. implements w B (es at ub r) (set (rgroups r))) Bs rs"
  shows "implements w (alt_shape Bs) (es at ub (RAlt rs)) (set (rgroups (RAlt rs)))"
  by (rule implementsI, rule implements_alts [OF assms]) (simp_all add: alt_shape_def)

lemma implements_group:
  assumes B: "implements w B (es at ub r) (set (rgroups r))" and k: "k \<notin> set (rgroups r)"
  shows "implements w (group_shape k B) (es at ub (RGroup k r)) (set (rgroups (RGroup k r)))"
proof (rule implementsI)
  fix off frag pos row its K
  assume p: "placed w off frag" "group_shape k B (p_classes (w_prog w)) off frag" "inside w pos" "loops w its"
      "fresh (set (rgroups (RGroup k r))) row"
    and K: "\<And>d. d \<in> set (es at ub (RGroup k r) (pos, row)) \<Longrightarrow> ends w K off (off + length frag) its d"
  obtain f where f: "frag = inst_save (2 * int k) # f @ [inst_save (2 * int k + 1)]" "B (p_classes (w_prog w)) (off + 1) f"
    using p(2) by (auto simp: group_shape_def)
  have pl: "placed w off [inst_save (2 * int k)]" "placed w (off + 1) f" "placed w (off + 1 + length f) [inst_save (2 * int k + 1)]"
    using p(1) f(1) by simp_all
  let ?row = "row[2 * k := pos]" and ?K = "\<lambda>d. K (fst d, (snd d)[2 * k + 1 := fst d])"
  have "yields w (off + 1, pos, ?row, its) (concat (map ?K (es at ub r (pos, ?row))))"
  proof (rule implementsD [OF B pl(2) f(2) p(3,4)])
    show "fresh (set (rgroups r)) ?row" unfolding fresh_def
    proof (intro allI impI)
      fix j assume "j < length ?row" "j div 2 \<in> set (rgroups r)"
      moreover from this have "2 * k \<noteq> j" using k by auto
      ultimately show "?row ! j < 0" using p(5) by (simp add: fresh_def)
    qed
    fix d assume d: "d \<in> set (es at ub r (pos, ?row))"
    show "ends w ?K (off + 1) (off + 1 + length f) its d"
    proof (rule endsI)
      fix its' assume "agree (off + 1) (off + 1 + length f) its its'"
      then have a: "agree off (off + length frag) its its'" by (rule agree_mono) (simp_all add: f(1))
      have "ends w K off (off + length frag) its (fst d, (snd d)[2 * k + 1 := fst d])" by (rule K) (use d in auto)
      from endsD [OF this a] have "yields w (off + 1 + length f + 1, fst d, (snd d)[2 * k + 1 := fst d], its') (?K d)"
        by (simp add: f(1))
      moreover have "exec w (off + 1 + length f, fst d, snd d, its') =
          Some (Inr [(off + 1 + length f + 1, fst d, (snd d)[2 * k + 1 := fst d], its')])"
        unfolding exec_at(3) [OF pl(3)] by (simp add: nat_add_distrib nat_mult_distrib)
      ultimately show "yields w (off + 1 + length f, fst d, snd d, its') (?K d)" by (rule yields_one [rotated])
    qed
  qed
  moreover have "exec w (off, pos, row, its) = Some (Inr [(off + 1, pos, ?row, its)])"
    unfolding exec_at(3) [OF pl(1)] by (simp add: nat_mult_distrib)
  ultimately have "yields w (off, pos, row, its) (concat (map ?K (es at ub r (pos, ?row))))" by (rule yields_one [rotated])
  then show "yields w (off, pos, row, its) (concat (map K (es at ub (RGroup k r) (pos, row))))"
    by (simp add: comp_def)
qed

section \<open>Repetition\<close>

definition numbered :: "nat list \<Rightarrow> bool" where
  "numbered gs \<longleftrightarrow> (\<exists>a b. gs = [a..<b])"

text \<open>A reset does what unsetting the groups does.\<close>

definition clears :: "(int \<times> int) option \<Rightarrow> nat list \<Rightarrow> int list \<Rightarrow> bool" where
  "clears rst gs row \<longleftrightarrow>
     (case rst of None \<Rightarrow> row | Some (a, b) \<Rightarrow> clear_slots (nat a) (nat b) row) = unset_groups gs row"

lemma fresh_unset [simp]: "fresh (set gs) (unset_groups gs row)"
  by (auto simp: fresh_def unset_groups_nth)

lemma clears_fresh: "fresh (set gs) row \<Longrightarrow> clears None gs row"
  by (auto simp: clears_def fresh_def unset_groups_nth intro!: nth_equalityI)

lemma clears_slots: "numbered gs \<Longrightarrow> clears (slots_of gs) gs row"
proof -
  assume "numbered gs"
  then obtain a b where gs: "gs = [a..<b]" by (auto simp: numbered_def)
  show ?thesis
  proof (cases "a < b")
    case False
    then show ?thesis by (simp add: gs clears_def slots_of_def)
  next
    case True
    then have s: "slots_of gs = Some (2 * int a, 2 * int b)" by (auto simp: gs slots_of_def of_nat_diff)
    have "clear_slots (2 * a) (2 * b) row = unset_groups gs row"
    proof (rule nth_equalityI)
      fix k assume k: "k < length (clear_slots (2 * a) (2 * b) row)"
      have "2 * a \<le> k \<and> k < 2 * b \<longleftrightarrow> k div 2 \<in> set gs" by (auto simp: gs)
      then show "clear_slots (2 * a) (2 * b) row ! k = unset_groups gs row ! k"
        using k by (auto simp: clear_slots_nth unset_groups_nth)
    qed simp
    then show ?thesis by (simp add: clears_def s nat_mult_distrib)
  qed
qed

text \<open>The body of a loop: it implements \<open>m\<close>, and without a check \<open>m\<close> consumes.\<close>

definition body_ok :: "walker \<Rightarrow> shape \<Rightarrow> (state \<Rightarrow> state list) \<Rightarrow> nat list \<Rightarrow> bool \<Rightarrow> bool" where
  "body_ok w B m gs chk \<longleftrightarrow> numbered gs \<and> implements w B m (set gs) \<and>
     (\<forall>c d. inside w (fst c) \<longrightarrow> d \<in> set (m c) \<longrightarrow> keeps (inside w) (set gs) c d \<and> (chk \<or> fst c < fst d))"

abbreviation iterated :: "bool \<Rightarrow> (state \<Rightarrow> state list) \<Rightarrow> nat list \<Rightarrow> state \<Rightarrow> state list" where
  "iterated chk m gs c \<equiv> filter (\<lambda>d. chk \<longrightarrow> fst d \<noteq> fst c) (m (fst c, unset_groups gs (snd c)))"

lemma concat_filter: "concat (map (\<lambda>d. if P d then K d else []) xs) = concat (map K (filter P xs))"
  by (induction xs) simp_all

lemma implements_iter:
  assumes imp: "implements w B m (set gs)"
    and p: "placed w off frag" "iter_shape B rst chk (p_classes (w_prog w)) off frag" "inside w pos" "loops w its"
    and rst: "clears rst gs row"
    and K: "\<And>d. d \<in> set (iterated chk m gs (pos, row)) \<Longrightarrow> ends w K off (off + length frag) its d"
  shows "yields w (off, pos, row, its) (concat (map K (iterated chk m gs (pos, row))))"
proof -
  let ?h = "iter_head rst chk" and ?row = "unset_groups gs row"
  obtain f where f: "frag = ?h @ f @ (if chk then [inst_iter_check (int off)] else [])"
      "B (p_classes (w_prog w)) (off + length ?h) f"
    using p(2) by (auto simp: iter_shape_def)
  define its1 where "its1 = (if chk then its[off := pos] else its)"
  let ?body = "off + length ?h" and ?fin = "off + length frag"
  have pl: "placed w off ?h" "placed w ?body f" "chk \<Longrightarrow> placed w (?body + length f) [inst_iter_check (int off)]"
    using p(1) by (simp_all add: f(1) add.assoc)
  have off: "chk \<Longrightarrow> off < ?body \<and> off < length its"
    using p(1,4) by (auto simp: f(1) iter_head_def loops_def inst_simple_def)
  have its1: "agree off ?fin its its1" "loops w its1" "chk \<Longrightarrow> its1 ! off = pos"
    using off p(4) by (auto simp: its1_def agree_def loops_def f(1))
  let ?K = "\<lambda>d. if chk \<longrightarrow> fst d \<noteq> pos then K d else []"
  have body: "yields w (?body, pos, ?row, its1) (concat (map ?K (m (pos, ?row))))"
  proof (rule implementsD [OF imp pl(2) f(2) p(3) its1(2) fresh_unset])
    fix d assume d: "d \<in> set (m (pos, ?row))"
    show "ends w ?K ?body (?body + length f) its1 d"
    proof (rule endsI)
      fix its' assume a: "agree ?body (?body + length f) its1 its'"
      then have a': "agree off ?fin its its'"
        using agree_mono [OF a, of off ?fin] by (intro agree_trans [OF its1(1)]) (cases chk; simp add: f(1))
      have K': "yields w (?fin, fst d, snd d, its') (K d)" if "chk \<longrightarrow> fst d \<noteq> pos"
        by (rule endsD [OF K a']) (use d that in auto)
      show "yields w (?body + length f, fst d, snd d, its') (?K d)"
      proof (cases chk)
        case False
        then show ?thesis using K' by (simp add: f(1) add.assoc)
      next
        case True
        have "its' ! off = pos" using a its1(3) off True by (simp add: agree_def)
        then have ex: "exec w (?body + length f, fst d, snd d, its') =
            Some (Inr (if fst d = pos then [] else [(?fin, fst d, snd d, its')]))"
          using exec_at(6) [OF pl(3) [OF True]] True by (simp add: f(1) add.assoc)
        show ?thesis
        proof (cases "fst d = pos")
          case False
          then have "exec w (?body + length f, fst d, snd d, its') = Some (Inr [(?fin, fst d, snd d, its')])"
            using ex by simp
          from yields_one [OF this K'] show ?thesis using False by simp
        qed (use ex True in \<open>simp add: yields_stop\<close>)
      qed
    qed
  qed
  have reset: "yields w (if chk then off + 1 else off, pos, row, its1) (concat (map ?K (m (pos, ?row))))"
  proof (cases rst)
    case None
    then show ?thesis using body rst by (auto simp: clears_def iter_head_def)
  next
    case (Some ab)
    obtain a b where ab: "ab = (a, b)" by fastforce
    let ?i = "if chk then off + 1 else off"
    have "exec w (?i, pos, row, its1) = Some (Inr [(?body, pos, ?row, its1)])"
      using exec_at(4) [of w ?i a b pos row its1] pl(1) rst Some ab by (auto simp: clears_def iter_head_def)
    then show ?thesis using body by (rule yields_one)
  qed
  have "yields w (off, pos, row, its) (concat (map ?K (m (pos, ?row))))"
  proof (cases chk)
    case True
    then have "exec w (off, pos, row, its) = Some (Inr [(off + 1, pos, row, its1)])"
      using exec_at(5) [of w off pos row its] pl(1) by (simp add: iter_head_def its1_def)
    from yields_one [OF this] show ?thesis using reset True by simp
  next
    case False
    then show ?thesis using reset by (simp add: its1_def)
  qed
  then show ?thesis by (simp add: concat_filter)
qed

abbreviation ub :: "walker \<Rightarrow> int" where
  "ub w \<equiv> int (length (w_s w))"

lemma yields_fork:
  assumes "placed w off [fork lz (int b) (int a)]" "yields w (b, pos, row, its) rs1" "yields w (a, pos, row, its) rs2"
  shows "yields w (off, pos, row, its) (if lz then rs2 @ rs1 else rs1 @ rs2)"
proof (cases lz)
  case True
  then have "exec w (off, pos, row, its) = Some (Inr [(a, pos, row, its), (b, pos, row, its)])"
    using exec_at(2) [of w off "int a" "int b"] assms(1) by (simp add: fork_def)
  from yields_two [OF this assms(3,2)] True show ?thesis by simp
next
  case False
  then have "exec w (off, pos, row, its) = Some (Inr [(b, pos, row, its), (a, pos, row, its)])"
    using exec_at(2) [of w off "int b" "int a"] assms(1) by (simp add: fork_def)
  from yields_two [OF this assms(2,3)] False show ?thesis by simp
qed

lemma iterated_filter:
  assumes "body_ok w B m gs chk" "inside w (fst c)"
  shows "iterated chk m gs c = filter (\<lambda>d. fst c < fst d \<and> fst d \<le> ub w) (m (fst c, unset_groups gs (snd c)))"
proof (rule filter_cong)
  fix d assume "d \<in> set (m (fst c, unset_groups gs (snd c)))"
  then have "keeps (inside w) (set gs) (fst c, unset_groups gs (snd c)) d" "chk \<or> fst c < fst d"
    using assms unfolding body_ok_def by (metis fst_conv)+
  then show "(chk \<longrightarrow> fst d \<noteq> fst c) = (fst c < fst d \<and> fst d \<le> ub w)"
    by (auto simp: keeps_def inside_def)
qed simp

lemma rep_more:
  assumes "body_ok w B m gs chk" "inside w (fst c)" "ex \<noteq> Some 0"
  shows "es_rep m (unset_groups gs) lz (ub w) 0 ex c =
    (let rs = concat (map (es_rep m (unset_groups gs) lz (ub w) 0 (map_option (\<lambda>k. k - 1) ex)) (iterated chk m gs c))
     in if lz then c # rs else rs @ [c])"
  using assms(3) iterated_filter [OF assms(1,2)] by (subst es_rep.simps) simp

lemma iterated_inside:
  assumes "body_ok w B m gs chk" "inside w (fst c)" "d \<in> set (iterated chk m gs c)"
  shows "inside w (fst d)" "fst c < fst d" "fst d \<le> ub w"
proof -
  have "keeps (inside w) (set gs) (fst c, unset_groups gs (snd c)) d"
    using assms unfolding body_ok_def by simp
  then show "inside w (fst d)" by (simp add: keeps_def)
  show "fst c < fst d" "fst d \<le> ub w" using assms(3) unfolding iterated_filter [OF assms(1,2)] by auto
qed

lemma rep_more_mem:
  assumes "body_ok w B m gs chk" "inside w (fst c)" "ex \<noteq> Some 0" "d \<in> set (iterated chk m gs c)"
    "e \<in> set (es_rep m (unset_groups gs) lz (ub w) 0 (map_option (\<lambda>k. k - 1) ex) d)"
  shows "e \<in> set (es_rep m (unset_groups gs) lz (ub w) 0 ex c)"
  unfolding rep_more [OF assms(1-3)] Let_def using assms(4,5) by auto

text \<open>What the loop does at its fork: an iteration and what follows it, or the way out.\<close>

lemma implements_fork:
  assumes ok: "body_ok w B m gs chk" and c: "inside w (fst c)" "loops w its" and ex: "ex \<noteq> Some 0"
    and p: "placed w off [fork lz (int (off + 1)) (int after)]" "placed w (off + 1) f"
      "iter_shape B rst chk (p_classes (w_prog w)) (off + 1) f" "clears rst gs (snd c)"
    and order: "low \<le> off" "off + 1 + length f \<le> after"
    and skip: "\<And>d. d \<in> set (es_rep m (unset_groups gs) lz (ub w) 0 ex c) \<Longrightarrow> ends w K low after its d"
    and again: "\<And>d its'. d \<in> set (iterated chk m gs c) \<Longrightarrow> agree low after its its' \<Longrightarrow>
      yields w (off + 1 + length f, fst d, snd d, its')
        (concat (map K (es_rep m (unset_groups gs) lz (ub w) 0 (map_option (\<lambda>k. k - 1) ex) d)))"
  shows "yields w (off, fst c, snd c, its) (concat (map K (es_rep m (unset_groups gs) lz (ub w) 0 ex c)))"
proof -
  let ?rep = "es_rep m (unset_groups gs) lz (ub w) 0 (map_option (\<lambda>k. k - 1) ex)"
  have imp: "implements w B m (set gs)" using ok by (simp add: body_ok_def)
  have c': "(fst c, snd c) = c" by simp
  have it: "yields w (off + 1, fst c, snd c, its) (concat (map (\<lambda>d. concat (map K (?rep d))) (iterated chk m gs c)))"
  proof (rule implements_iter [OF imp p(2,3) c p(4), unfolded c'])
    fix d assume d: "d \<in> set (iterated chk m gs c)"
    show "ends w (\<lambda>d. concat (map K (?rep d))) (off + 1) (off + 1 + length f) its d"
      by (rule endsI, rule again [OF d], erule agree_mono) (use order in auto)
  qed
  have "yields w (after, fst c, snd c, its) (K c)"
    by (rule endsD [OF skip]) (simp_all add: rep_more [OF ok c(1) ex] Let_def)
  from yields_fork [OF p(1) it this] show ?thesis
    by (simp add: rep_more [OF ok c(1) ex] Let_def concat_map_concat comp_def split: if_splits)
qed

lemma implements_star:
  assumes ok: "body_ok w B m gs chk"
    and p: "placed w off frag" "star_shape B (slots_of gs) lz chk (p_classes (w_prog w)) off frag"
  shows "inside w (fst c) \<Longrightarrow> loops w its \<Longrightarrow>
    (\<And>d. d \<in> set (es_rep m (unset_groups gs) lz (ub w) 0 None c) \<Longrightarrow> ends w K low (off + length frag) its d) \<Longrightarrow>
    low \<le> off \<Longrightarrow>
    yields w (off, fst c, snd c, its) (concat (map K (es_rep m (unset_groups gs) lz (ub w) 0 None c)))"
proof (induction "nat (ub w - fst c)" arbitrary: c its rule: less_induct)
  case less
  obtain f where f: "frag = fork lz (int (off + 1)) (int (off + length frag)) # f @ [inst_jmp (int off)]"
      "iter_shape B (slots_of gs) chk (p_classes (w_prog w)) (off + 1) f"
    using p(2) by (auto simp: star_shape_def)
  obtain E where E: "frag = fork lz (int (off + 1)) E # f @ [inst_jmp (int off)]" "E = int (off + length frag)"
    using f(1) by blast
  have pl: "placed w off [fork lz (int (off + 1)) (int (off + length frag))]" "placed w (off + 1) f"
      "placed w (off + 1 + length f) [inst_jmp (int off)]"
    using p(1) unfolding E(2) [symmetric] by (simp_all add: E(1))
  have len: "off + length frag = off + 1 + length f + 1" by (simp add: E(1))
  have num: "numbered gs" using ok by (simp add: body_ok_def)
  show ?case
  proof (rule implements_fork [OF ok less.prems(1,2) _ pl(1,2) f(2) clears_slots [OF num] less.prems(4)])
    fix d its' assume d: "d \<in> set (iterated chk m gs c)" and a: "agree low (off + length frag) its its'"
    note ins = iterated_inside [OF ok less.prems(1) d]
    have "yields w (off, fst d, snd d, its') (concat (map K (es_rep m (unset_groups gs) lz (ub w) 0 None d)))"
    proof (rule less.hyps)
      fix e assume "e \<in> set (es_rep m (unset_groups gs) lz (ub w) 0 None d)"
      then have "ends w K low (off + length frag) its e"
        using rep_more_mem [OF ok less.prems(1) _ d, of None] by (intro less.prems(3)) simp
      then show "ends w K low (off + length frag) its' e" using a by (rule ends_agree)
    qed (use ins less.prems agree_loops [OF a] in auto)
    moreover have "exec w (off + 1 + length f, fst d, snd d, its') = Some (Inr [(off, fst d, snd d, its')])"
      unfolding exec_at(1) [OF pl(3)] by simp
    ultimately show "yields w (off + 1 + length f, fst d, snd d, its')
        (concat (map K (es_rep m (unset_groups gs) lz (ub w) 0 (map_option (\<lambda>k. k - 1) None) d)))"
      by (simp add: yields_one)
  qed (use less.prems(3) len in auto)
qed

lemma implements_extras:
  assumes ok: "body_ok w B m gs chk"
  shows "placed w off frag \<Longrightarrow> extras_shape (int after) B rst (slots_of gs) lz chk n (p_classes (w_prog w)) off frag \<Longrightarrow>
    off + length frag = after \<Longrightarrow> clears rst gs (snd c) \<Longrightarrow> inside w (fst c) \<Longrightarrow> loops w its \<Longrightarrow> low \<le> off \<Longrightarrow>
    (\<And>d. d \<in> set (es_rep m (unset_groups gs) lz (ub w) 0 (Some n) c) \<Longrightarrow> ends w K low after its d) \<Longrightarrow>
    yields w (off, fst c, snd c, its) (concat (map K (es_rep m (unset_groups gs) lz (ub w) 0 (Some n) c)))"
proof (induction n arbitrary: off frag rst c its)
  case 0
  have "es_rep m (unset_groups gs) lz (ub w) 0 (Some 0) c = [c]" by (subst es_rep.simps) simp
  then show ?case using 0 endsD [OF "0.prems"(8), of c its] by simp
next
  case (Suc n)
  obtain f g where f: "frag = fork lz (int (off + 1)) (int after) # f @ g"
      "iter_shape B rst chk (p_classes (w_prog w)) (off + 1) f"
      "extras_shape (int after) B (slots_of gs) (slots_of gs) lz chk n (p_classes (w_prog w)) (off + 1 + length f) g"
    using Suc.prems(2) by auto
  have pl: "placed w off [fork lz (int (off + 1)) (int after)]" "placed w (off + 1) f" "placed w (off + 1 + length f) g"
    using Suc.prems(1) by (simp_all add: f(1))
  have num: "numbered gs" using ok by (simp add: body_ok_def)
  show ?case
  proof (rule implements_fork [OF ok Suc.prems(5,6) _ pl(1,2) f(2) Suc.prems(4,7) _ Suc.prems(8)])
    fix d its' assume d: "d \<in> set (iterated chk m gs c)" and a: "agree low after its its'"
    note ins = iterated_inside [OF ok Suc.prems(5) d]
    have "yields w (off + 1 + length f, fst d, snd d, its')
        (concat (map K (es_rep m (unset_groups gs) lz (ub w) 0 (Some n) d)))"
    proof (rule Suc.IH [OF pl(3) f(3) _ clears_slots [OF num] ins(1)])
      fix e assume "e \<in> set (es_rep m (unset_groups gs) lz (ub w) 0 (Some n) d)"
      then have "ends w K low after its e"
        using rep_more_mem [OF ok Suc.prems(5) _ d, of "Some (Suc n)"] by (intro Suc.prems(8)) simp
      then show "ends w K low after its' e" using a by (rule ends_agree)
    qed (use Suc.prems(3,6,7) agree_loops [OF a] in \<open>auto simp: f(1)\<close>)
    then show "yields w (off + 1 + length f, fst d, snd d, its')
        (concat (map K (es_rep m (unset_groups gs) lz (ub w) 0 (map_option (\<lambda>k. k - 1) (Some (Suc n))) d)))"
      by simp
  qed (use Suc.prems(3) in \<open>auto simp: f(1)\<close>)
qed

lemma implements_copies:
  assumes ok: "body_ok w B m gs chk"
  shows "placed w off f \<Longrightarrow> copies_shape B rst (slots_of gs) mn (p_classes (w_prog w)) off f \<Longrightarrow>
    (if mn = 0 then Q c else clears rst gs (snd c) \<and> (\<forall>c. Q c)) \<Longrightarrow> inside w (fst c) \<Longrightarrow> loops w its \<Longrightarrow>
    (\<And>c its. Q c \<Longrightarrow> inside w (fst c) \<Longrightarrow> loops w its \<Longrightarrow>
       (\<And>d. d \<in> set (es_rep m (unset_groups gs) lz (ub w) 0 ex c) \<Longrightarrow> ends w K low after its d) \<Longrightarrow>
       yields w (off + length f, fst c, snd c, its) (concat (map K (es_rep m (unset_groups gs) lz (ub w) 0 ex c)))) \<Longrightarrow>
    low \<le> off \<Longrightarrow> off + length f \<le> after \<Longrightarrow>
    (\<And>d. d \<in> set (es_rep m (unset_groups gs) lz (ub w) mn ex c) \<Longrightarrow> ends w K low after its d) \<Longrightarrow>
    yields w (off, fst c, snd c, its) (concat (map K (es_rep m (unset_groups gs) lz (ub w) mn ex c)))"
proof (induction mn arbitrary: off f rst c its)
  case 0
  then show ?case by simp
next
  case (Suc mn)
  let ?rep = "es_rep m (unset_groups gs) lz (ub w)"
  obtain x y where x: "f = x @ y" "iter_shape B rst False (p_classes (w_prog w)) off x"
      "copies_shape B (slots_of gs) (slots_of gs) mn (p_classes (w_prog w)) (off + length x) y"
    using Suc.prems(2) by auto
  have imp: "implements w B m (set gs)" and num: "numbered gs" using ok by (simp_all add: body_ok_def)
  have c': "(fst c, snd c) = c" by simp
  have rep: "?rep (Suc mn) ex c = concat (map (?rep mn ex) (iterated False m gs c))"
    by (subst es_rep.simps) simp
  have "yields w (off, fst c, snd c, its) (concat (map (\<lambda>d. concat (map K (?rep mn ex d))) (iterated False m gs c)))"
  proof (rule implements_iter [where row = "snd c", OF imp _ x(2) Suc.prems(4,5) _, unfolded c'])
    fix d assume d: "d \<in> set (iterated False m gs c)"
    then have ins: "inside w (fst d)"
      using ok Suc.prems(4) unfolding body_ok_def keeps_def by (metis (no_types, lifting) filter_True fst_conv)
    show "ends w (\<lambda>d. concat (map K (?rep mn ex d))) off (off + length x) its d"
    proof (rule endsI, rule Suc.IH [OF _ x(3)])
      fix its' assume "agree off (off + length x) its its'"
      then have a: "agree low after its its'" using Suc.prems(7,8) by (elim agree_mono) (simp_all add: x(1))
      show "loops w its'" using a Suc.prems(5) by (rule agree_loops)
      fix e assume "e \<in> set (?rep mn ex d)"
      then have "ends w K low after its e" using d by (intro Suc.prems(9)) (auto simp: rep)
      then show "ends w K low after its' e" using a by (rule ends_agree)
    qed (use Suc.prems ins clears_slots [OF num] in \<open>auto simp: x(1) add.assoc\<close>)
  qed (use Suc.prems x(1) in auto)
  then show ?case by (simp add: rep concat_map_concat comp_def)
qed

lemma implements_rep:
  assumes ok: "body_ok w B m gs chk"
  shows "implements w (rep_shape B (slots_of gs) mn ex lz chk) (es_rep m (unset_groups gs) lz (ub w) mn ex) (set gs)"
proof (rule implementsI)
  fix off and frag :: "inst list" and pos row its K
  let ?rep = "es_rep m (unset_groups gs) lz (ub w)" and ?after = "off + length frag"
  assume p: "placed w off frag" "rep_shape B (slots_of gs) mn ex lz chk (p_classes (w_prog w)) off frag" "inside w pos"
      "loops w its" "fresh (set gs) row"
    and K: "\<And>d. d \<in> set (?rep mn ex (pos, row)) \<Longrightarrow> ends w K off ?after its d"
  obtain f g where f: "frag = f @ g" "copies_shape B None (slots_of gs) mn (p_classes (w_prog w)) off f"
      "case ex of None \<Rightarrow> star_shape B (slots_of gs) lz chk (p_classes (w_prog w)) (off + length f) g
       | Some n \<Rightarrow> extras_shape (int ?after) B (if mn > 0 then slots_of gs else None) (slots_of gs) lz chk n
           (p_classes (w_prog w)) (off + length f) g"
    using p(2) by (auto simp: rep_shape_def)
  have pl: "placed w off f" "placed w (off + length f) g" using p(1) by (simp_all add: f(1))
  have num: "numbered gs" using ok by (simp add: body_ok_def)
  let ?Q = "\<lambda>c :: state. clears (if mn > 0 then slots_of gs else None) gs (snd c)"
  have tail: "yields w (off + length f, fst c, snd c, its') (concat (map K (?rep 0 ex c)))"
    if c: "?Q c" "inside w (fst c)" "loops w its'" "\<And>d. d \<in> set (?rep 0 ex c) \<Longrightarrow> ends w K off ?after its' d" for c its'
  proof (cases ex)
    case None
    show ?thesis unfolding None
      by (rule implements_star [where low = off, OF ok pl(2) _ c(2,3)]) (use f(3) c(4) None in \<open>auto simp: f(1) add.assoc\<close>)
  next
    case (Some n)
    show ?thesis unfolding Some
      by (rule implements_extras [where low = off, OF ok pl(2) _ _ c(1-3)]) (use f(3) c(4) Some in \<open>auto simp: f(1) add.assoc\<close>)
  qed
  have "yields w (off, fst (pos, row), snd (pos, row), its) (concat (map K (?rep mn ex (pos, row))))"
    by (rule implements_copies [OF ok pl(1) f(2), where Q = ?Q, OF _ _ _ tail])
      (use p(3-5) K clears_slots [OF num] clears_fresh in \<open>auto simp: f(1)\<close>)
  then show "yields w (off, pos, row, its) (concat (map K (?rep mn ex (pos, row))))" by simp
qed

section \<open>Every pattern\<close>

fun wf_code :: "('a \<Rightarrow> bool) \<Rightarrow> 'a re \<Rightarrow> bool" where
  "wf_code nul (RAtom a) \<longleftrightarrow> True"
| "wf_code nul (RSeq rs) \<longleftrightarrow> list_all (wf_code nul) rs"
| "wf_code nul (RAlt rs) \<longleftrightarrow> rs \<noteq> [] \<and> list_all (wf_code nul) rs"
| "wf_code nul (RRep mn ex lz chk r) \<longleftrightarrow> wf_code nul r \<and> (chk \<or> \<not> nullable nul r)"
| "wf_code nul (RGroup k r) \<longleftrightarrow> wf_code nul r"

lemma numbered_append:
  assumes "numbered (xs @ ys)" shows "numbered xs \<and> numbered ys \<and> set xs \<inter> set ys = {}"
proof -
  obtain a b where ab: "xs @ ys = [a..<b]" using assms by (auto simp: numbered_def)
  have len: "length xs + length ys = b - a" using arg_cong [OF ab, of length] by simp
  have "xs = take (length xs) [a..<b]" "ys = drop (length xs) [a..<b]" unfolding ab [symmetric] by simp_all
  moreover have "take (length xs) [a..<b] = [a..<a + length xs]"
    using len by (cases xs) (auto intro!: take_upt)
  ultimately have "numbered xs \<and> numbered ys" unfolding numbered_def drop_upt by metis
  moreover have "distinct (xs @ ys)" unfolding ab by simp
  ultimately show ?thesis by auto
qed

lemma numbered_concat: "numbered (concat xss) \<Longrightarrow> xs \<in> set xss \<Longrightarrow> numbered xs"
proof (induction xss)
  case (Cons ys xss)
  then show ?case using numbered_append [of ys "concat xss"] by auto
qed simp

lemma numbered_Cons: "numbered (k # gs) \<Longrightarrow> numbered gs \<and> k \<notin> set gs"
  using numbered_append [of "[k]" gs] by simp

lemma implements_cong: "implements w B m gs \<Longrightarrow> (\<And>c. m' c = m c) \<Longrightarrow> implements w B m' gs"
  by (metis ext)

lemma codes_implement:
  assumes lw: "legal w"
  shows "wf_code byte_nul r \<Longrightarrow> numbered (rgroups r) \<Longrightarrow>
    implements w (codes r) (es (byte_step w) (ub w) r) (set (rgroups r))"
proof (induction r rule: re_induct)
  case (atom a)
  then show ?case using implements_atom [OF lw] by (simp del: es.simps)
next
  case nil
  then show ?case using implements_seq_Nil [of w "byte_step w" "ub w"] by (simp del: es.simps seq_shape.simps)
next
  case (cons r rs)
  have n: "numbered (rgroups r)" "numbered (rgroups (RSeq rs))" "set (rgroups r) \<inter> set (rgroups (RSeq rs)) = {}"
    using cons.prems(2) numbered_append [of "rgroups r" "rgroups (RSeq rs)"] by simp_all
  have "implements w (seq_shape (codes r # map codes rs)) (es (byte_step w) (ub w) (RSeq (r # rs)))
      (set (rgroups r) \<union> set (rgroups (RSeq rs)))"
    by (rule implements_seq_Cons [OF _ _ es_keeps [OF bytes_ok(1) [OF lw]] n(3)])
      (use cons.IH cons.prems n in auto)
  then show ?case by (simp del: es.simps seq_shape.simps)
next
  case (alt rs)
  have "list_all2 (\<lambda>B r. implements w B (es (byte_step w) (ub w) r) (set (rgroups r))) (map codes rs) rs"
    using alt numbered_concat [of "map rgroups rs"]
    by (auto simp: list_all2_conv_all_nth list_all_length)
  from implements_alt [OF this] show ?case by (simp del: es.simps)
next
  case (rep mn ex lz chk r)
  have "body_ok w (codes r) (es (byte_step w) (ub w) r) (rgroups r) chk"
    unfolding body_ok_def using rep es_keeps [OF bytes_ok(1) [OF lw]] es_grows [OF bytes_ok [OF lw]] by auto
  then show ?case unfolding codes.simps rgroups.simps
    by (rule implements_cong [OF implements_rep]) simp
next
  case (group k r)
  then show ?case using implements_group [of w "codes r" _ _ r k] numbered_Cons [of k "rgroups r"] by (simp del: es.simps)
qed

end
