(* ===== verification/Regex_Meaning.thy ===== *)
theory Regex_Meaning
  imports Regex_Correct
begin

text \<open>
  Patterns over characters. A haystack is the encoding of a list of code points; the
  atoms consume a whole character of it. The bytes that the compiler makes of an atom
  have the outcomes of the atom, up to repetitions of the same outcome, so that the
  machine finds what the pattern means.
\<close>

section \<open>First occurrences\<close>

primrec dd :: "'a list \<Rightarrow> 'a list" where
  "dd [] = []"
| "dd (x # xs) = x # filter (\<lambda>y. y \<noteq> x) (dd xs)"

lemma set_dd [simp]: "set (dd xs) = set xs"
  by (induction xs) auto

lemma dd_filter: "dd (filter P xs) = filter P (dd xs)"
  by (induction xs) (auto simp: filter_filter conj_commute intro: filter_cong)

lemma dd_append: "dd (xs @ ys) = dd xs @ filter (\<lambda>y. y \<notin> set xs) (dd ys)"
  by (induction xs) (auto simp: filter_filter intro: filter_cong)

lemma dd_dd [simp]: "dd (dd xs) = dd xs"
  by (induction xs) (auto simp: dd_filter filter_filter intro: filter_cong)

lemma dd_eq_set: "dd xs = dd ys \<Longrightarrow> set xs = set ys"
  by (metis set_dd)

lemma dd_append_cong: "dd xs = dd xs' \<Longrightarrow> dd ys = dd ys' \<Longrightarrow> dd (xs @ ys) = dd (xs' @ ys')"
  using dd_eq_set [of xs xs'] by (simp add: dd_append)

lemma dd_Nil: "dd xs = [] \<longleftrightarrow> xs = []"
  by (cases xs) simp_all

lemma hd_dd: "xs \<noteq> [] \<Longrightarrow> hd (dd xs) = hd xs"
  by (cases xs) simp_all

lemma dd_same: "set xs = {x} \<Longrightarrow> dd xs = [x]"
proof (induction xs)
  case (Cons y ys)
  then have "y = x" "\<forall>z \<in> set (dd ys). z = x" by auto
  then show ?case by simp
qed simp

lemma dd_concat_skip:
  "\<forall>x \<in> set xs. P x \<longrightarrow> filter Q (F x) = [] \<Longrightarrow>
   filter Q (concat (map F (filter (\<lambda>x. \<not> P x) xs))) = filter Q (concat (map F xs))"
  by (induction xs) auto

lemma dd_concat_dd: "dd (concat (map F (dd xs))) = dd (concat (map F xs))"
proof (induction xs)
  case (Cons x xs)
  have "filter (\<lambda>y. y \<notin> set (F x)) (concat (map F (filter (\<lambda>y. y \<noteq> x) (dd xs)))) =
      filter (\<lambda>y. y \<notin> set (F x)) (concat (map F (dd xs)))"
    using dd_concat_skip [of "dd xs" "\<lambda>y. y = x" "\<lambda>y. y \<notin> set (F x)" F] by simp
  then have "filter (\<lambda>y. y \<notin> set (F x)) (dd (concat (map F (filter (\<lambda>y. y \<noteq> x) (dd xs))))) =
      filter (\<lambda>y. y \<notin> set (F x)) (dd (concat (map F xs)))"
    unfolding Cons [symmetric] dd_filter [symmetric] by simp
  then show ?case by (simp add: dd_append)
qed simp

lemma dd_concat_pointwise:
  "\<forall>d \<in> set ys. dd (F d) = dd (G d) \<Longrightarrow> dd (concat (map F ys)) = dd (concat (map G ys))"
proof (induction ys)
  case (Cons y ys)
  then show ?case using dd_append_cong [of "F y" "G y"] by simp
qed simp

lemma dd_concat:
  assumes "dd xs = dd ys" "\<And>d. d \<in> set ys \<Longrightarrow> dd (F d) = dd (G d)"
  shows "dd (concat (map F xs)) = dd (concat (map G ys))"
proof -
  have "dd (concat (map F xs)) = dd (concat (map F (dd ys)))"
    unfolding assms(1) [symmetric] dd_concat_dd ..
  also have "\<dots> = dd (concat (map G (dd ys)))" using assms(2) by (intro dd_concat_pointwise) simp
  also have "\<dots> = dd (concat (map G ys))" by (rule dd_concat_dd)
  finally show ?thesis .
qed

lemma dd_map: "dd xs = dd ys \<Longrightarrow> dd (map f xs) = dd (map f ys)"
  using dd_concat [of xs ys "\<lambda>x. [f x]" "\<lambda>x. [f x]"] by simp

declare split_paired_All [simp del] split_paired_Ex [simp del]

section \<open>Atoms replaced by patterns with the same outcomes\<close>

lemma es_rep_many:
  "mn \<noteq> 0 \<Longrightarrow> es_rep m unset lz N mn ex c = concat (map (es_rep m unset lz N (mn - 1) ex) (m (fst c, unset (snd c))))"
  by (subst es_rep.simps) simp

lemma es_rep_zero:
  "es_rep m unset lz N 0 ex c =
     (if ex = Some 0 then [c]
      else
        (let rs = concat (map (es_rep m unset lz N 0 (map_option (\<lambda>k. k - 1) ex))
               (filter (\<lambda>d. fst c < fst d \<and> fst d \<le> N) (m (fst c, unset (snd c)))))
         in if lz then c # rs else rs @ [c]))"
  by (subst es_rep.simps) simp

lemma es_rep_dd:
  assumes m: "\<And>c. ok (fst c) \<Longrightarrow> dd (m c) = dd (m' c)"
    and k: "\<And>c d. ok (fst c) \<Longrightarrow> d \<in> set (m' c) \<Longrightarrow> ok (fst d)"
  shows "ok (fst c) \<Longrightarrow> dd (es_rep m unset lz N mn ex c) = dd (es_rep m' unset lz N mn ex c)"
proof (induction mn ex c rule: es_rep_induct [where m = m' and unset = unset and ub = N])
  case (rec mn ex c)
  let ?c = "(fst c, unset (snd c))"
  have mc: "dd (m ?c) = dd (m' ?c)" and ok: "d \<in> set (m' ?c) \<Longrightarrow> ok (fst d)" for d
    using rec.prems m k [of ?c] by simp_all
  show ?case
  proof (cases "mn = 0")
    case False
    have "dd (concat (map (es_rep m unset lz N (mn - 1) ex) (m ?c))) =
        dd (concat (map (es_rep m' unset lz N (mn - 1) ex) (m' ?c)))"
      using rec.IH(1) ok False by (intro dd_concat [OF mc]) auto
    then show ?thesis using False by (simp add: es_rep_many)
  next
    case True
    let ?f = "filter (\<lambda>d. fst c < fst d \<and> fst d \<le> N)"
    have f: "dd (?f (m ?c)) = dd (?f (m' ?c))" unfolding dd_filter mc ..
    have "dd (concat (map (es_rep m unset lz N 0 (map_option (\<lambda>k. k - 1) ex)) (?f (m ?c)))) =
        dd (concat (map (es_rep m' unset lz N 0 (map_option (\<lambda>k. k - 1) ex)) (?f (m' ?c))))"
      if "ex \<noteq> Some 0"
      using rec.IH(2) [OF True that] ok by (intro dd_concat [OF f]) auto
    note rs = this dd_append_cong [OF refl this, of "[c]"] dd_append_cong [OF this refl, of "[c]"]
    show ?thesis
    proof (cases "ex = Some 0")
      case True
      then show ?thesis unfolding \<open>mn = 0\<close>
        by (subst es_rep_zero [of m], subst es_rep_zero [of m']) simp
    next
      case False
      let ?rs = "\<lambda>m. concat (map (es_rep m unset lz N 0 (map_option (\<lambda>k. k - 1) ex)) (?f (m ?c)))"
      have "dd (if lz then c # ?rs m else ?rs m @ [c]) = dd (if lz then c # ?rs m' else ?rs m' @ [c])"
        using rs [OF False] by (cases lz) simp_all
      then show ?thesis unfolding \<open>mn = 0\<close>
        by (subst es_rep_zero [of m], subst es_rep_zero [of m']) (simp only: False if_False Let_def)
    qed
  qed
qed

lemma es_subst:
  assumes ok: "atoms_ok at ok"
    and low: "\<And>a c. a \<in> set_re r \<Longrightarrow> ok (fst c) \<Longrightarrow> dd (es bt N (low a) c) = dd (es at N (RAtom a) c)"
    and gs: "\<And>a. rgroups (low a) = []"
  shows "ok (fst c) \<Longrightarrow> dd (es bt N (subst_re low r) c) = dd (es at N r c)"
  using low
proof (induction r arbitrary: c rule: re_induct)
  case (atom a)
  then show ?case by simp
next
  case nil
  then show ?case by simp
next
  case (cons r rs)
  have "ok (fst d)" if "d \<in> set (es at N r c)" for d
    using es_keeps [OF ok cons.prems(1) that] by (simp add: keeps_def)
  then have "dd (concat (map (es bt N (RSeq (map (subst_re low) rs))) (es bt N (subst_re low r) c))) =
      dd (concat (map (es at N (RSeq rs)) (es at N r c)))"
    using cons.IH cons.prems by (intro dd_concat) simp_all
  then show ?case by simp
next
  case (alt rs)
  have "dd (concat (map (\<lambda>r. es bt N (subst_re low r) c) rs)) = dd (concat (map (\<lambda>r. es at N r c) rs))"
  proof (rule dd_concat)
    fix r assume "r \<in> set rs"
    then show "dd (es bt N (subst_re low r) c) = dd (es at N r c)"
      using alt.prems by (intro alt.IH) auto
  qed simp
  then show ?case by (simp add: comp_def)
next
  case (rep mn ex lz chk r)
  have "dd (es_rep (es bt N (subst_re low r)) (unset_groups (rgroups r)) lz N mn ex c) =
      dd (es_rep (es at N r) (unset_groups (rgroups r)) lz N mn ex c)"
  proof (rule es_rep_dd [where ok = ok])
    show "dd (es bt N (subst_re low r) c) = dd (es at N r c)" if "ok (fst c)" for c
      by (rule rep.IH) (use that rep.prems in auto)
    show "ok (fst d)" if "ok (fst c)" "d \<in> set (es at N r c)" for c d
      using es_keeps [OF ok that] by (simp add: keeps_def)
  qed (rule rep.prems(1))
  then show ?case using rgroups_subst [of low r, OF gs] by simp
next
  case (group k r)
  have "dd (es bt N (subst_re low r) (fst c, (snd c)[2 * k := fst c])) = dd (es at N r (fst c, (snd c)[2 * k := fst c]))"
    by (rule group.IH) (use group.prems in auto)
  from dd_map [OF this] show ?case by simp
qed

section \<open>Atoms over characters\<close>

text \<open>The code point at a position below \<open>lim\<close>, with its length.\<close>

definition char_at :: "u8 list \<Rightarrow> int \<Rightarrow> int \<Rightarrow> (int \<times> nat) option" where
  "char_at s lim pos = (if 0 \<le> pos \<and> pos < lim then utf8_decode_cp (drop (nat pos) s) else None)"

definition is_terminator :: "int \<Rightarrow> bool" where
  "is_terminator cp \<longleftrightarrow> cp \<in> {0x0A, 0x0D, 0x2028, 0x2029}"

definition char_ok :: "char_atom \<Rightarrow> int \<Rightarrow> bool" where
  "char_ok a c \<longleftrightarrow>
     (case a of
        CLit cp ims \<Rightarrow> c \<in> case_variants cp (ims AND RE_FLAG_I \<noteq> 0)
      | CAny ims \<Rightarrow> ims AND RE_FLAG_S \<noteq> 0 \<or> \<not> is_terminator c
      | CClass cc ims \<Rightarrow> class_test_cp_fold cc c (ims AND RE_FLAG_I \<noteq> 0)
      | CAssert k ims \<Rightarrow> False)"

definition char_step :: "u8 list \<Rightarrow> int \<Rightarrow> char_atom \<Rightarrow> int \<Rightarrow> int option" where
  "char_step s lim a pos =
     (case a of
        CAssert k ims \<Rightarrow> if assertion_at s k ims pos then Some pos else None
      | _ \<Rightarrow>
          (case char_at s lim pos of
             Some (c, len) \<Rightarrow> if char_ok a c then Some (pos + int len) else None
           | None \<Rightarrow> None))"

section \<open>Boundaries of characters\<close>

definition haystack :: "u8 list \<Rightarrow> int list \<Rightarrow> bool" where
  "haystack s cps \<longleftrightarrow> s = encode_all cps \<and> (\<forall>cp \<in> set cps. code_point cp)"

definition boundary :: "int list \<Rightarrow> int \<Rightarrow> int \<Rightarrow> bool" where
  "boundary cps lim pos \<longleftrightarrow> pos \<le> lim \<and> (\<exists>pre post. cps = pre @ post \<and> pos = int (length (encode_all pre)))"

lemma encode_nonempty: "code_point cp \<Longrightarrow> utf8_encode_cp cp \<noteq> []"
  using encode_nat [of cp] by (auto simp: code_bytes_def split: if_splits)

lemma boundary_char:
  assumes "haystack s cps" "boundary cps lim pos" "boundary cps lim lim" "pos < lim"
  obtains cp rest where "code_point cp" "drop (nat pos) s = utf8_encode_cp cp @ rest"
    "char_at s lim pos = Some (cp, length (utf8_encode_cp cp))"
    "boundary cps lim (pos + int (length (utf8_encode_cp cp)))" "0 \<le> pos" "lim \<le> int (length s)"
proof -
  obtain pre post where p: "cps = pre @ post" "pos = int (length (encode_all pre))"
    using assms(2) by (auto simp: boundary_def)
  obtain pre' post' where l: "cps = pre' @ post'" "lim = int (length (encode_all pre'))"
    using assms(3) by (auto simp: boundary_def)
  obtain us where us: "pre' = pre @ us" "post = us @ post'"
  proof -
    have "pre @ post = pre' @ post'" using p(1) l(1) by simp
    then consider us where "pre = pre' @ us" | us where "pre' = pre @ us" "post = us @ post'"
      by (auto simp: append_eq_append_conv2)
    then show ?thesis
    proof cases
      case 1
      then show ?thesis using p(2) l(2) assms(4) by simp
    qed (rule that)
  qed
  then obtain cp us' where u: "us = cp # us'" using p(2) l(2) assms(4) by (cases us) auto
  have s: "s = encode_all pre @ utf8_encode_cp cp @ encode_all (us' @ post')"
    using assms(1) p us u by (simp add: haystack_def)
  have cp: "code_point cp" using assms(1) p us u by (simp add: haystack_def)
  have dr: "drop (nat pos) s = utf8_encode_cp cp @ encode_all (us' @ post')" using s p by simp
  have at: "char_at s lim pos = Some (cp, length (utf8_encode_cp cp))"
    using p assms(4) dr cp decode_encode [of cp "encode_all (us' @ post')"] by (simp add: char_at_def code_point_def)
  have b: "boundary cps lim (pos + int (length (utf8_encode_cp cp)))"
    unfolding boundary_def using p us u l by (intro conjI exI [of _ "pre @ [cp]"] exI [of _ "us' @ post'"]) simp_all
  show ?thesis by (rule that [OF cp dr at b]) (use p l us u s in simp_all)
qed

lemma char_at_lim: "boundary cps lim pos \<Longrightarrow> \<not> pos < lim \<Longrightarrow> char_at s lim pos = None"
  by (simp add: char_at_def)

lemma boundary_inside: "haystack s cps \<Longrightarrow> boundary cps lim pos \<Longrightarrow> 0 \<le> pos \<and> pos \<le> int (length s)"
  by (auto simp: boundary_def haystack_def)

lemma chars_ok:
  assumes "haystack s cps" "boundary cps lim lim"
  shows "atoms_ok (char_step s lim) (boundary cps lim)"
proof -
  have "pos \<le> q \<and> boundary cps lim q" if b: "boundary cps lim pos" and st: "char_step s lim a pos = Some q" for a pos q
  proof (cases "pos < lim")
    case True
    obtain cp where cp: "char_at s lim pos = Some (cp, length (utf8_encode_cp cp))"
        "boundary cps lim (pos + int (length (utf8_encode_cp cp)))"
      by (rule boundary_char [OF assms(1) b assms(2) True])
    from st have "q = pos \<or> q = pos + int (length (utf8_encode_cp cp))"
      by (cases a) (auto simp: char_step_def cp(1) split: if_splits)
    then show ?thesis using cp(2) b by auto
  next
    case False
    then show ?thesis using b st by (auto simp: char_step_def char_at_lim split: char_atom.splits if_splits)
  qed
  then show ?thesis unfolding atoms_ok_def by blast
qed

text \<open>The first bytes decide the character.\<close>

lemma encode_prefix:
  assumes "code_point c" "code_point c'" "utf8_encode_cp c @ rest = utf8_encode_cp c' @ rest'"
  shows "c = c'"
  using decode_encode [of c rest] decode_encode [of c' rest'] assms by (simp add: code_point_def)

lemma terminator_char:
  assumes "code_point c" "drop pos s = utf8_encode_cp c @ rest"
  shows "terminator_at s pos \<longleftrightarrow> is_terminator c"
proof
  have dec: "utf8_decode_cp (drop pos s) = Some (c, length (utf8_encode_cp c))"
    using decode_encode [of c rest] assms by (simp add: code_point_def)
  assume t: "terminator_at s pos"
  have pos: "pos < length s" using t by (auto simp: terminator_at_def byte_at_def split: if_splits)
  then have d: "drop pos s = s ! pos # drop (pos + 1) s" by (simp add: Cons_nth_drop_Suc)
  from t pos consider "s ! pos = 0x0A" | "s ! pos = 0x0D"
    | "s ! pos = 0xE2" "pos + 2 < length s" "s ! (pos + 1) = 0x80" "s ! (pos + 2) = 0xA8 \<or> s ! (pos + 2) = 0xA9"
    by (auto simp: terminator_at_def byte_at_def split: if_splits)
  then show "is_terminator c"
  proof cases
    case 3
    then have "drop pos s = 0xE2 # 0x80 # s ! (pos + 2) # drop (pos + 3) s"
      using Cons_nth_drop_Suc [of "pos + 1" s] Cons_nth_drop_Suc [of "pos + 2" s]
      unfolding d by (simp add: numeral_3_eq_3)
    then show ?thesis using dec 3(4) by (auto simp: utf8_decode_cp_def rd_def is_terminator_def)
  qed (use dec d in \<open>auto simp: utf8_decode_cp_def rd_def is_terminator_def\<close>)
next
  have enc: "utf8_encode_cp 0x0A = [0x0A]" "utf8_encode_cp 0x0D = [0x0D]"
    "utf8_encode_cp 0x2028 = [0xE2, 0x80, 0xA8]" "utf8_encode_cp 0x2029 = [0xE2, 0x80, 0xA9]"
    by code_simp+
  assume "is_terminator c"
  then consider "drop pos s = 0x0A # rest" | "drop pos s = 0x0D # rest"
    | "drop pos s = 0xE2 # 0x80 # 0xA8 # rest" | "drop pos s = 0xE2 # 0x80 # 0xA9 # rest"
    using assms(2) enc by (auto simp: is_terminator_def)
  moreover have "byte_at s (pos + k) = (if k < length (drop pos s) then Some (drop pos s ! k) else None)" for k
    by (auto simp: byte_at_def)
  note this [of 0] this [of 1] this [of 2]
  ultimately show "terminator_at s pos"
    by cases (simp_all add: terminator_at_def)
qed

section \<open>Sequences of bytes\<close>

definition tests_byte :: "walker \<Rightarrow> byte_atom \<Rightarrow> (u8 \<Rightarrow> bool) \<Rightarrow> bool" where
  "tests_byte w a P \<longleftrightarrow>
     (\<forall>pos. byte_step w a pos = (if pos < w_end w \<and> P (w_s w ! nat pos) then Some (pos + 1) else None))"

definition takes :: "walker \<Rightarrow> int \<Rightarrow> (u8 \<Rightarrow> bool) list \<Rightarrow> bool" where
  "takes w pos Ps \<longleftrightarrow>
     pos + int (length Ps) \<le> w_end w \<and> list_all2 (\<lambda>P b. P b) Ps (take (length Ps) (drop (nat pos) (w_s w)))"

lemma takes_Cons:
  assumes "0 \<le> pos" "pos \<le> w_end w" "w_end w \<le> int (length (w_s w))"
  shows "takes w pos (P # Ps) \<longleftrightarrow> pos < w_end w \<and> P (w_s w ! nat pos) \<and> takes w (pos + 1) Ps"
proof (cases "pos < w_end w")
  case True
  then have "nat pos < length (w_s w)" using assms by simp
  then have "drop (nat pos) (w_s w) = w_s w ! nat pos # drop (nat (pos + 1)) (w_s w)"
    using assms(1) by (simp add: Cons_nth_drop_Suc nat_add_distrib)
  then show ?thesis using True by (auto simp: takes_def)
qed (use assms in \<open>auto simp: takes_def\<close>)

lemma es_bytes:
  assumes "w_end w \<le> int (length (w_s w))" "list_all2 (tests_byte w) as Ps"
  shows "0 \<le> pos \<Longrightarrow> pos \<le> w_end w \<Longrightarrow>
    es (byte_step w) N (RSeq (map RAtom as)) (pos, row) =
    (if takes w pos Ps then [(pos + int (length Ps), row)] else [])"
  using assms(2)
proof (induction arbitrary: pos rule: list_all2_induct)
  case Nil
  then show ?case by (simp add: takes_def)
next
  case (Cons a as P Ps)
  have a: "byte_step w a pos = (if pos < w_end w \<and> P (w_s w ! nat pos) then Some (pos + 1) else None)"
    using Cons.hyps(1) by (simp add: tests_byte_def)
  show ?case
    using Cons.IH [of "pos + 1"] Cons.prems takes_Cons [of pos w P Ps] assms(1) by (simp add: a ac_simps)
qed

lemma tests_lit: "tests_byte w (BLit b ims) (\<lambda>b'. char_eq b b' ims)"
  by (simp add: tests_byte_def byte_step_def)

lemma tests_class: "byte_only cc \<Longrightarrow> tests_byte w (BClass cc ims) (\<lambda>b. class_test_fold cc b (ims AND RE_FLAG_I \<noteq> 0))"
  by (auto simp: tests_byte_def byte_step_def Let_def)

lemma es_byte:
  assumes "tests_byte w a P"
  shows "es (byte_step w) N (RAtom a) c =
    (if fst c < w_end w \<and> P (w_s w ! nat (fst c)) then [(fst c + 1, snd c)] else [])"
  using assms by (simp add: tests_byte_def)

text \<open>At a boundary, bytes that spell an encoding spell the character.\<close>

lemma takes_encoding:
  assumes h: "haystack (w_s w) cps" "boundary cps (w_end w) pos" "boundary cps (w_end w) (w_end w)" "pos < w_end w"
    and c: "code_point c" "drop (nat pos) (w_s w) = utf8_encode_cp c @ rest"
      "boundary cps (w_end w) (pos + int (length (utf8_encode_cp c)))" "w_end w \<le> int (length (w_s w))"
    and c': "code_point c'"
  shows "takes w pos (map (\<lambda>b b'. b = b') (utf8_encode_cp c')) \<longleftrightarrow> c' = c"
proof
  assume t: "takes w pos (map (\<lambda>b b'. b = b') (utf8_encode_cp c'))"
  let ?n = "length (utf8_encode_cp c')"
  have "take ?n (drop (nat pos) (w_s w)) = utf8_encode_cp c'"
    using t by (simp add: takes_def list_all2_map1 list.rel_eq eq_commute)
  then obtain X where "drop (nat pos) (w_s w) = utf8_encode_cp c' @ X"
    by (metis append_take_drop_id)
  then show "c' = c" using encode_prefix [OF c' c(1), of X rest] c(2) by simp
next
  assume "c' = c"
  then show "takes w pos (map (\<lambda>b b'. b = b') (utf8_encode_cp c'))"
    using c by (simp add: takes_def list_all2_map1 list.rel_eq boundary_def)
qed

section \<open>Literals\<close>

lemma char_eq_variants: "char_eq b b' ims \<longleftrightarrow> b' \<in> byte_variants b (ims AND RE_FLAG_I \<noteq> 0)"
proof -
  have pair: "ascii_case_pair b =
      (if 0x41 \<le> uint b \<and> uint b \<le> 0x5A then Some (b + 0x20)
       else if 0x61 \<le> uint b \<and> uint b \<le> 0x7A then Some (b - 0x20) else None)"
  proof (cases "uint b < 128")
    case True
    then show ?thesis using ascii_case_pair_cp [of "uint b"] by simp
  next
    case False
    then show ?thesis by (auto simp: ascii_case_pair_def word_le_def)
  qed
  show ?thesis
    by (auto simp: char_eq_def byte_variants_def pair is_ascii_uppercase_def is_ascii_lowercase_def word_le_def)
qed

lemma char_eq_high: "128 \<le> uint b \<Longrightarrow> char_eq b b' ims \<longleftrightarrow> b = b'"
  by (auto simp: char_eq_variants byte_variants_high)

lemma encode_high: "code_point c \<Longrightarrow> 128 \<le> c \<Longrightarrow> b \<in> set (utf8_encode_cp c) \<Longrightarrow> 128 \<le> uint b"
  using encode_wide [of "nat c" b] by (simp add: code_point_def nat_le_iff)

lemma es_literal:
  assumes h: "haystack (w_s w) cps" "boundary cps (w_end w) pos" "boundary cps (w_end w) (w_end w)" "pos < w_end w"
    and c: "code_point c" "drop (nat pos) (w_s w) = utf8_encode_cp c @ rest"
      "boundary cps (w_end w) (pos + int (length (utf8_encode_cp c)))" "w_end w \<le> int (length (w_s w))" "0 \<le> pos"
    and cp: "code_point cp"
  shows "es (byte_step w) N (base (CLit cp ims)) (pos, row) =
    (if c \<in> case_variants cp (ims AND RE_FLAG_I \<noteq> 0) then [(pos + int (length (utf8_encode_cp c)), row)] else [])"
proof (cases "cp < 0x80")
  case False
  have eq: "char_eq b b' ims \<longleftrightarrow> b = b'" if "b \<in> set (utf8_encode_cp cp)" for b b'
    using encode_high [OF cp _ that] False by (intro char_eq_high) simp
  have "takes w pos (map (\<lambda>b b'. char_eq b b' ims) (utf8_encode_cp cp)) \<longleftrightarrow>
      takes w pos (map (\<lambda>b b'. b = b') (utf8_encode_cp cp))"
    unfolding takes_def by (simp add: list_all2_map1 eq cong: list.rel_cong)
  moreover have "list_all2 (tests_byte w) (map (\<lambda>b. BLit b ims) (utf8_encode_cp cp))
      (map (\<lambda>b b'. char_eq b b' ims) (utf8_encode_cp cp))"
    by (simp add: list_all2_map1 list_all2_map2 list_all2_same tests_lit)
  moreover have "case_variants cp (ims AND RE_FLAG_I \<noteq> 0) = {cp}" using False by (auto simp: case_variants_def)
  ultimately show ?thesis
    using es_bytes [OF c(4), of "map (\<lambda>b. BLit b ims) (utf8_encode_cp cp)" _ pos N row] takes_encoding [OF h c(1-4) cp] False c(5) h(4)
    by (auto simp: base_def comp_def)
next
  case True
  then have u: "uint (word_of_int cp :: u8) = cp"
    using cp by (simp add: code_point_def unsigned_of_int take_bit_int_eq_self)
  have pos: "nat pos < length (w_s w)" using c(4,5) h(4) by simp
  then have d: "w_s w ! nat pos = hd (utf8_encode_cp c)"
    using hd_drop_conv_nth [OF pos] c(2) encode_nonempty [OF c(1)] by simp
  have "w_s w ! nat pos \<in> byte_variants (word_of_int cp) ci \<longleftrightarrow> c \<in> case_variants cp ci" for ci
  proof (cases "c < 128")
    case c128: True
    have "c = uint (word_of_int c :: u8)"
      using c(1) c128 by (simp add: code_point_def unsigned_of_int take_bit_int_eq_self)
    then have e: "utf8_encode_cp c = [word_of_int c]"
      using encode_ascii [of "word_of_int c :: u8"] c128 by simp
    have "word_of_int c \<in> byte_variants (word_of_int cp) ci \<longleftrightarrow> uint (word_of_int c :: u8) \<in> uint ` byte_variants (word_of_int cp) ci"
    proof -
      have "inj (uint :: u8 \<Rightarrow> int)" by (simp add: inj_def word_uint_eq_iff)
      then show ?thesis by (rule inj_image_mem_iff [symmetric])
    qed
    then show ?thesis
      using byte_variants_cp [of "word_of_int cp" ci] u True \<open>c = uint (word_of_int c :: u8)\<close> by (simp add: d e)
  next
    case c128: False
    have "128 \<le> uint (hd (utf8_encode_cp c))"
      using encode_high [OF c(1), of "hd (utf8_encode_cp c)"] c128 encode_nonempty [OF c(1)] by simp
    then show ?thesis
      using byte_variants_cases [of "hd (utf8_encode_cp c)" "word_of_int cp" ci] True u c128
      by (auto simp: d case_variants_def split: if_splits)
  qed
  moreover have "c \<in> case_variants cp ci \<Longrightarrow> length (utf8_encode_cp c) = 1" for ci
  proof -
    assume "c \<in> case_variants cp ci"
    then have "c < 128" using True by (auto simp: case_variants_def split: if_splits)
    then have "uint (word_of_int c :: u8) = c" "c < 128"
      using c(1) by (simp_all add: code_point_def unsigned_of_int take_bit_int_eq_self)
    then show ?thesis using encode_ascii [of "word_of_int c :: u8"] by simp
  qed
  ultimately show ?thesis using True es_byte [OF tests_lit] h(4)
    by (auto simp: base_def char_eq_variants)
qed

section \<open>Classes\<close>

lemma no_pair_high: "128 \<le> uint b \<Longrightarrow> ascii_case_pair b = None"
  by (auto simp: ascii_case_pair_def word_le_def)

lemma steppable_test:
  assumes st: "byte_steppable cc False" and wf: "wf_tables cc" and c: "code_point c"
  shows "class_test_fold cc (hd (utf8_encode_cp c)) ci \<longleftrightarrow> class_test_cp_fold cc c ci"
    "class_test_cp_fold cc c ci \<Longrightarrow> c < 128"
proof -
  have cc: "\<not> negate cc" "u_prop_tables cc = []" "owned_ranges cc = []" "length (bits cc) = 32"
      "\<And>i. 16 \<le> i \<Longrightarrow> i < 32 \<Longrightarrow> bits cc ! i = 0"
  proof -
    show "\<not> negate cc" "u_prop_tables cc = []" "owned_ranges cc = []"
      using st by (auto simp: byte_steppable_def split: if_splits)
    show len: "length (bits cc) = 32" using wf by (simp add: wf_tables_def wf_class_def)
    fix i :: nat assume i: "16 \<le> i" "i < 32"
    have "\<not> list_ex (\<lambda>b. b \<noteq> 0) (drop 16 (bits cc))" using st by (auto simp: byte_steppable_def split: if_splits)
    then have "\<forall>k < 16. drop 16 (bits cc) ! k = 0" using len by (simp add: list_ex_iff all_set_conv_all_nth)
    from spec [OF this, of "i - 16"] show "bits cc ! i = 0" using i len by simp
  qed
  have "(class_test_fold cc (hd (utf8_encode_cp c)) ci \<longleftrightarrow> class_test_cp_fold cc c ci) \<and>
      (class_test_cp_fold cc c ci \<longrightarrow> c < 128)"
  proof (cases "c < 128")
    case True
    then have u: "uint (word_of_int c :: u8) = c"
      using c by (simp add: code_point_def unsigned_of_int take_bit_int_eq_self)
    then have "utf8_encode_cp c = [word_of_int c]" using encode_ascii [of "word_of_int c :: u8"] True by simp
    moreover have "raw_test_cp cc c = raw_test cc (word_of_int c)"
      using raw_test_cp_lists [OF wf, of c] True c by (simp add: class_lists_def code_point_def)
    ultimately show ?thesis using True c
      by (simp add: class_test_fold_def class_test_cp_fold_def Let_def code_point_def)
  next
    case False
    then have b: "128 \<le> uint (hd (utf8_encode_cp c))"
      using encode_high [OF c, of "hd (utf8_encode_cp c)"] encode_nonempty [OF c] by simp
    have "\<not> raw_test cc (hd (utf8_encode_cp c))"
    proof -
      let ?b = "hd (utf8_encode_cp c)"
      have "unat (drop_bit 3 ?b) = unat ?b div 8" 
        unfolding unat_drop_bit_eq by (simp add: drop_bit_eq_div)
      moreover have "128 \<le> unat ?b" using b uint_nat [of ?b] by linarith
      moreover have "unat ?b < 2 ^ LENGTH(8)" by (rule unsigned_less)
      then have "unat ?b < 256" by simp
      ultimately have "16 \<le> unat (drop_bit 3 ?b)" "unat (drop_bit 3 ?b) < 32" by linarith+
      then show ?thesis using cc(5) by (simp add: raw_test_def)
    qed
    moreover have "\<not> raw_test_cp cc c" using False cc(2-5)
      by (auto simp: raw_test_cp_def uprop_range_contains_def search_ranges.simps)
    ultimately show ?thesis using False cc(1) no_pair_high [OF b]
      by (simp add: class_test_fold_def class_test_cp_fold_def Let_def)
  qed
  then show "class_test_fold cc (hd (utf8_encode_cp c)) ci \<longleftrightarrow> class_test_cp_fold cc c ci"
    "class_test_cp_fold cc c ci \<Longrightarrow> c < 128" by blast+
qed

text \<open>A class the compiler keeps, in the mode it is kept in.\<close>

lemma es_class_ref:
  assumes h: "haystack (w_s w) cps" "boundary cps (w_end w) pos" "boundary cps (w_end w) (w_end w)" "pos < w_end w"
    and c: "code_point c" "drop (nat pos) (w_s w) = utf8_encode_cp c @ rest"
      "boundary cps (w_end w) (pos + int (length (utf8_encode_cp c)))" "w_end w \<le> int (length (w_s w))" "0 \<le> pos"
    and cc: "wf_tables cc" "\<not> byte_only cc" "w_unicode w \<or> byte_steppable cc False"
  shows "es (byte_step w) N (RAtom (BClass cc ims)) (pos, row) =
    (if class_test_cp_fold cc c (ims AND RE_FLAG_I \<noteq> 0) then [(pos + int (length (utf8_encode_cp c)), row)] else [])"
proof -
  have dec: "utf8_decode_cp (drop (nat pos) (w_s w)) = Some (c, length (utf8_encode_cp c))"
    using decode_encode [of c rest] c by (simp add: code_point_def)
  have pos: "nat pos < length (w_s w)" using c(4,5) h(4) by simp
  then have d: "w_s w ! nat pos = hd (utf8_encode_cp c)"
    using hd_drop_conv_nth [OF pos] c(2) encode_nonempty [OF c(1)] by simp
  have whole: "whole_char w pos"
    using decode_len [OF dec] d c h(4) by (simp add: whole_char_def hd_append boundary_def encode_nonempty)
  show ?thesis
  proof (cases "w_unicode w")
    case True
    then show ?thesis using h(4) cc(2) whole dec by (simp add: byte_step_def)
  next
    case False
    then have st: "byte_steppable cc False" using cc(3) by simp
    have "class_test_cp_fold cc c ci \<Longrightarrow> length (utf8_encode_cp c) = 1" for ci
    proof -
      assume "class_test_cp_fold cc c ci"
      then have "c < 128" by (rule steppable_test(2) [OF st cc(1) c(1)])
      then have "uint (word_of_int c :: u8) = c" "c < 128"
        using c(1) by (simp_all add: code_point_def unsigned_of_int take_bit_int_eq_self)
      then show ?thesis using encode_ascii [of "word_of_int c :: u8"] by simp
    qed
    then show ?thesis using h(4) False steppable_test(1) [OF st cc(1) c(1)] by (simp add: byte_step_def d)
  qed
qed

text \<open>An expanded class: the outcomes of its tree, one for every sequence that is there.\<close>

definition ranges_of :: "bool \<Rightarrow> (u8 \<times> u8) list \<Rightarrow> (u8 \<Rightarrow> bool) list" where
  "ranges_of ci q = map (\<lambda>r b. class_test_fold (range_class r) b ci) q"

lemma byte_only_range [simp]: "byte_only (range_class r)"
  by (simp add: range_class_def)

lemma tests_range:
  "list_all2 (tests_byte w) (map (\<lambda>r. BClass (range_class r) ims) q) (ranges_of (ims AND RE_FLAG_I \<noteq> 0) q)"
  by (simp add: ranges_of_def list_all2_map1 list_all2_map2 list_all2_same tests_class)

lemma es_seq_tree:
  assumes "w_end w \<le> int (length (w_s w))" "0 \<le> pos" "pos \<le> w_end w"
  shows "es (byte_step w) N (subst_re base (seq_tree ims q)) (pos, row) =
    (if takes w pos (ranges_of (ims AND RE_FLAG_I \<noteq> 0) q) then [(pos + int (length q), row)] else [])"
proof -
  note eb = es_bytes [OF assms(1) tests_range [of w ims q] assms(2,3), where N = N and row = row]
  show ?thesis
  proof (cases "length q = 1")
    case True
    then obtain r where "q = [r]" by (cases q) auto
    then show ?thesis using eb by (auto simp: seq_tree_def base_def ranges_of_def split: option.splits if_splits)
  next
    case False
    then show ?thesis using eb by (simp add: seq_tree_def base_def comp_def ranges_of_def)
  qed
qed

lemma es_class_tree:
  assumes "w_end w \<le> int (length (w_s w))" "0 \<le> pos" "pos \<le> w_end w"
  shows "set (es (byte_step w) N (subst_re base (class_tree ims qs)) (pos, row)) =
    {(pos + int (length q), row) | q. q \<in> set qs \<and> takes w pos (ranges_of (ims AND RE_FLAG_I \<noteq> 0) q)}"
proof -
  consider "qs = []" | q where "qs = [q]" | "qs \<noteq> []" "length qs \<noteq> 1" by (cases qs; cases "tl qs") auto
  then show ?thesis
  proof cases
    case 1
    have "\<not> class_test_fold (class_new\<lparr>byte_only := True\<rparr>) b ci" for b ci
      by (simp add: class_test_fold_variants)
    then show ?thesis using 1 es_byte [OF tests_class [of "class_new\<lparr>byte_only := True\<rparr>"], of w N ims "(pos, row)"]
      by (simp add: class_tree_def base_def)
  next
    case 2
    then show ?thesis using es_seq_tree [OF assms] by (auto simp: class_tree_def)
  next
    case 3
    then show ?thesis using es_seq_tree [OF assms] by (auto simp: class_tree_def)
  qed
qed

lemma class_accepts_range: "class_accepts ci (class_node_for_range (fst r) (snd r)) b \<longleftrightarrow> class_test_fold (range_class r) b ci"
  by (simp add: class_accepts_def class_node_for_range_def range_class_def)

lemma concat_accepts_ranges:
  "concat_accepts ci (concat_to_node q) bs \<longleftrightarrow> list_all2 (\<lambda>P b. P b) (ranges_of ci q) bs"
proof (cases "length q = 1")
  case True
  then obtain r where q: "q = [r]" by (cases q) auto
  have "concat_to_node [r] = class_node_for_range (fst r) (snd r)" by (simp add: concat_to_node_def)
  then show ?thesis
    by (auto simp: q concat_accepts_def ranges_of_def class_accepts_range list_all2_Cons1)
next
  case False
  then show ?thesis
    by (simp add: concat_accepts_def concat_to_node_def case_prod_unfold ranges_of_def list_all2_map1 class_accepts_range)
qed

lemma expansion_ranges:
  assumes "expand_unsafe_class cc u ci = Some e" "wf_tables cc"
  shows "(\<exists>q \<in> set (class_concats (cp_ranges_of cc ci)). list_all2 (\<lambda>P b. P b) (ranges_of ci q) bs) \<longleftrightarrow>
    (\<exists>n \<le> CP_MAX. class_test_cp_fold cc (int n) ci \<and> bs = utf8_encode_cp (int n))"
proof -
  let ?qs = "class_concats (cp_ranges_of cc ci)"
  have "expansion_accepts ci e bs \<longleftrightarrow> (\<exists>q \<in> set ?qs. concat_accepts ci (concat_to_node q) bs)"
  proof (cases "?qs = []")
    case True
    then have "e = empty_class_node"
      using assms by (auto simp: expand_unsafe_class_def Let_def split: if_splits)
    then show ?thesis using True by (simp add: empty_node_accepts)
  next
    case False
    then have "cp_ranges_of cc ci \<noteq> []" by (auto simp: class_concats_def ranges_in_len_def split_beta)
    then have e: "e = concats_to_node ?qs"
      using assms False by (auto simp: expand_unsafe_class_def Let_def split: if_splits)
    show ?thesis
    proof (cases "length ?qs = 1")
      case True
      then obtain q where "?qs = [q]" by (cases ?qs) auto
      then show ?thesis using concat_node_kind [of q] by (simp add: e concats_to_node_def expansion_accepts_def)
    next
      case False
      then show ?thesis by (simp add: e concats_to_node_def expansion_accepts_def)
    qed
  qed
  then show ?thesis using expansion_language [OF assms(2,1)] by (simp add: concat_accepts_ranges)
qed

lemma takes_ranges:
  "takes w pos (ranges_of ci q) \<longleftrightarrow> pos + int (length q) \<le> w_end w \<and>
     list_all2 (\<lambda>P b. P b) (ranges_of ci q) (take (length q) (drop (nat pos) (w_s w)))"
  by (simp add: takes_def ranges_of_def)

lemma es_expanded:
  assumes h: "haystack (w_s w) cps" "boundary cps (w_end w) pos" "boundary cps (w_end w) (w_end w)" "pos < w_end w"
    and c: "code_point c" "drop (nat pos) (w_s w) = utf8_encode_cp c @ rest"
      "boundary cps (w_end w) (pos + int (length (utf8_encode_cp c)))" "w_end w \<le> int (length (w_s w))" "0 \<le> pos"
    and e: "expand_unsafe_class cc u (ims AND RE_FLAG_I \<noteq> 0) = Some e" "wf_tables cc"
  shows "dd (es (byte_step w) N (subst_re base (class_tree ims (class_concats (cp_ranges_of cc (ims AND RE_FLAG_I \<noteq> 0))))) (pos, row)) =
    (if class_test_cp_fold cc c (ims AND RE_FLAG_I \<noteq> 0) then [(pos + int (length (utf8_encode_cp c)), row)] else [])"
proof -
  let ?ci = "ims AND RE_FLAG_I \<noteq> 0"
  let ?qs = "class_concats (cp_ranges_of cc ?ci)" and ?enc = "utf8_encode_cp c"
  let ?outs = "es (byte_step w) N (subst_re base (class_tree ims ?qs)) (pos, row)"
  have set: "set ?outs = {(pos + int (length q), row) | q. q \<in> set ?qs \<and> takes w pos (ranges_of ?ci q)}"
    using es_class_tree [OF c(4,5)] h(4) by simp
  have sound: "length q = length ?enc \<and> class_test_cp_fold cc c ?ci" if "q \<in> set ?qs" "takes w pos (ranges_of ?ci q)" for q
  proof -
    have "list_all2 (\<lambda>P b. P b) (ranges_of ?ci q) (take (length q) (drop (nat pos) (w_s w)))"
      using that(2) by (simp add: takes_ranges)
    with that(1) expansion_ranges [OF e, of "take (length q) (drop (nat pos) (w_s w))"]
    obtain n where n: "n \<le> CP_MAX" "class_test_cp_fold cc (int n) ?ci"
        "take (length q) (drop (nat pos) (w_s w)) = utf8_encode_cp (int n)"
      by blast
    then obtain X where "drop (nat pos) (w_s w) = utf8_encode_cp (int n) @ X" by (metis append_take_drop_id)
    then have "int n = c" using encode_prefix [of "int n" c X rest] c(1,2) n(1) by (simp add: code_point_def CP_MAX_def)
    moreover have "length (take (length q) (drop (nat pos) (w_s w))) = length q"
      using that(2) c(4,5) by (auto simp: takes_ranges)
    ultimately show ?thesis using n by simp
  qed
  have complete: "\<exists>q \<in> set ?qs. takes w pos (ranges_of ?ci q) \<and> length q = length ?enc" if "class_test_cp_fold cc c ?ci"
  proof -
    have "\<exists>n \<le> CP_MAX. class_test_cp_fold cc (int n) ?ci \<and> ?enc = utf8_encode_cp (int n)"
      using that c(1) by (intro exI [of _ "nat c"]) (simp add: code_point_def CP_MAX_def nat_le_iff)
    then obtain q where q: "q \<in> set ?qs" "list_all2 (\<lambda>P b. P b) (ranges_of ?ci q) ?enc"
      using expansion_ranges [OF e] by blast
    then have "length q = length ?enc" using list_all2_lengthD by (fastforce simp: ranges_of_def)
    with q show ?thesis using c(2,3) by (intro bexI [of _ q]) (simp_all add: takes_ranges boundary_def)
  qed
  show ?thesis
  proof (cases "class_test_cp_fold cc c ?ci")
    case True
    then obtain q where q: "q \<in> set ?qs" "takes w pos (ranges_of ?ci q)" "length q = length ?enc" using complete by blast
    have "set ?outs = {(pos + int (length ?enc), row)}" unfolding set
    proof (intro equalityI subsetI)
      fix x assume "x \<in> {(pos + int (length q), row) | q. q \<in> set ?qs \<and> takes w pos (ranges_of ?ci q)}"
      then show "x \<in> {(pos + int (length ?enc), row)}" using sound by fastforce
    next
      fix x assume "x \<in> {(pos + int (length ?enc), row)}"
      then show "x \<in> {(pos + int (length q), row) | q. q \<in> set ?qs \<and> takes w pos (ranges_of ?ci q)}"
        using q by (intro CollectI exI [of _ q]) simp
    qed
    then show ?thesis using True by (simp add: dd_same)
  next
    case False
    have "x \<notin> set ?outs" for x unfolding set using sound False by blast
    then have "?outs = []" by (cases ?outs) auto
    then show ?thesis using False by simp
  qed
qed

section \<open>Every atom\<close>

text \<open>
  The atoms that occur: code points, classes with sorted tables that are not byte classes
  already, whose property tables come with the Unicode mode, and the four assertions.
\<close>

fun wf_atom :: "u8 \<Rightarrow> char_atom \<Rightarrow> bool" where
  "wf_atom flags (CLit cp ims) \<longleftrightarrow> code_point cp"
| "wf_atom flags (CAny ims) \<longleftrightarrow> True"
| "wf_atom flags (CClass cc ims) \<longleftrightarrow>
     wf_tables cc \<and> \<not> byte_only cc \<and> (u_prop_tables cc \<noteq> [] \<longrightarrow> unicode_mode flags)"
| "wf_atom flags (CAssert k ims) \<longleftrightarrow> k \<in> {OP_ANCHOR_B, OP_ANCHOR_E, OP_WBOUND, OP_NWBOUND}"

lemma lower_end:
  assumes h: "haystack (w_s w) cps" "boundary cps (w_end w) pos" "\<not> pos < w_end w" "w_end w \<le> int (length (w_s w))"
    and a: "wf_atom flags a" "\<And>k ims. a \<noteq> CAssert k ims"
  shows "es (byte_step w) N (lower flags a) (pos, row) = []"
proof -
  have pos: "pos = w_end w" "0 \<le> pos" using h boundary_inside [OF h(1,2)] by (auto simp: boundary_def)
  have ne: "\<not> takes w pos (P # Ps)" for P Ps using pos by (simp add: takes_def)
  have base: "es (byte_step w) N (base a) (pos, row) = []"
  proof (cases a)
    case (CLit cp ims)
    then have cp: "code_point cp" using a(1) by simp
    obtain b bs where enc: "utf8_encode_cp cp = b # bs" using encode_nonempty [OF cp] by (cases "utf8_encode_cp cp") auto
    show ?thesis using pos by (simp add: CLit base_def enc byte_step_def)
  qed (use pos a in \<open>auto simp: base_def byte_step_def\<close>)
  show ?thesis
  proof (cases "lower flags a = base a")
    case True
    then show ?thesis using base by simp
  next
    case False
    then obtain cc ims e where cc: "a = CClass cc ims"
        "expand_unsafe_class cc (unicode_mode flags) (ims AND RE_FLAG_I \<noteq> 0) = Some e"
        "lower flags a = subst_re base (class_tree ims (class_concats (cp_ranges_of cc (ims AND RE_FLAG_I \<noteq> 0))))"
      by (auto simp: lower_def split: char_atom.splits if_splits)
    have "\<not> takes w pos (ranges_of (ims AND RE_FLAG_I \<noteq> 0) q)"
      if "q \<in> set (class_concats (cp_ranges_of cc (ims AND RE_FLAG_I \<noteq> 0)))" for q
    proof (cases q)
      case Nil
      then have "\<exists>n \<le> CP_MAX. class_test_cp_fold cc (int n) (ims AND RE_FLAG_I \<noteq> 0) \<and> [] = utf8_encode_cp (int n)"
        using expansion_ranges [OF cc(2), of "[]"] that a(1) cc(1) by (force simp: ranges_of_def)
      then show ?thesis using encode_nonempty by (metis CP_MAX_def code_point_def of_nat_0_le_iff of_nat_mono of_nat_numeral)
    qed (simp add: ranges_of_def ne)
    then have "set (es (byte_step w) N (lower flags a) (pos, row)) = {}"
      unfolding cc(3) using es_class_tree [OF h(4) pos(2)] pos by simp
    then show ?thesis by simp
  qed
qed

lemma es_lower:
  assumes lw: "legal w" and h: "haystack (w_s w) cps" "boundary cps (w_end w) (w_end w)" "boundary cps (w_end w) (fst c)"
    and a: "wf_atom flags a" "w_unicode w = unicode_mode flags"
  shows "dd (es (byte_step w) N (lower flags a) c) = dd (es (char_step (w_s w) (w_end w)) N (RAtom a) c)"
proof -
  obtain pos row where c: "c = (pos, row)" by fastforce
  have lim: "w_end w \<le> int (length (w_s w))" using lw by (simp add: legal_def)
  have b: "boundary cps (w_end w) pos" using h(3) c by simp
  show ?thesis
  proof (cases "\<exists>k ims. a = CAssert k ims")
    case True
    then show ?thesis by (auto simp: c lower_def base_def byte_step_def char_step_def)
  next
    case na: False
    show ?thesis
    proof (cases "pos < w_end w")
      case False
      have "char_step (w_s w) (w_end w) a pos = None"
        using na char_at_lim [OF b False] by (auto simp: char_step_def split: char_atom.splits)
      moreover have "es (byte_step w) N (lower flags a) (pos, row) = []"
        using na by (intro lower_end [OF h(1) b False lim a(1)]) auto
      ultimately show ?thesis by (simp add: c)
    next
      case True
      obtain cp rest where cp: "code_point cp" "drop (nat pos) (w_s w) = utf8_encode_cp cp @ rest"
          "boundary cps (w_end w) (pos + int (length (utf8_encode_cp cp)))" "w_end w \<le> int (length (w_s w))" "0 \<le> pos"
        and at: "char_at (w_s w) (w_end w) pos = Some (cp, length (utf8_encode_cp cp))"
        by (rule boundary_char [OF h(1) b h(2) True])
      have spec: "es (char_step (w_s w) (w_end w)) N (RAtom a) c =
          (if char_ok a cp then [(pos + int (length (utf8_encode_cp cp)), row)] else [])"
        using na at by (auto simp: c char_step_def split: char_atom.splits)
      show ?thesis
      proof (cases a)
        case (CLit x ims)
        then show ?thesis using es_literal [OF h(1) b h(2) True cp, of x N ims row] a(1)
          unfolding spec by (simp add: c lower_def char_ok_def)
      next
        case (CAny ims)
        have pos: "nat pos < length (w_s w)" using cp(4,5) True by simp
        have "utf8_len_for (w_s w ! nat pos) = length (utf8_encode_cp cp)"
          using decode_len [OF decode_encode, of cp rest] cp hd_drop_conv_nth [OF pos] by (simp add: code_point_def)
        moreover have "whole_char w pos" using cp(3,4) calculation by (simp add: whole_char_def boundary_def)
        moreover have "terminator_at (w_s w) (nat pos) \<longleftrightarrow> is_terminator cp" by (rule terminator_char [OF cp(1,2)])
        ultimately show ?thesis using True unfolding spec by (simp add: c CAny lower_def base_def byte_step_def char_ok_def)
      next
        case (CClass cc ims)
        then have cc: "wf_tables cc" "\<not> byte_only cc" "u_prop_tables cc \<noteq> [] \<longrightarrow> unicode_mode flags" using a(1) by auto
        show ?thesis
        proof (cases "unicode_mode flags \<and> is_uflag_property_only cc \<or>
            expand_unsafe_class cc (unicode_mode flags) (ims AND RE_FLAG_I \<noteq> 0) = None")
          case kept: True
          then have "w_unicode w \<or> byte_steppable cc False"
            using cc a(2) by (auto simp: expand_unsafe_class_def Let_def split: if_splits)
          from es_class_ref [OF h(1) b h(2) True cp cc(1,2) this, of N ims row] kept
          show ?thesis unfolding spec by (simp add: c CClass lower_def base_def char_ok_def)
        next
          case False
          then obtain e where e: "expand_unsafe_class cc (unicode_mode flags) (ims AND RE_FLAG_I \<noteq> 0) = Some e" by auto
          from es_expanded [OF h(1) b h(2) True cp e cc(1), of N row] False
          show ?thesis unfolding spec by (auto simp: c CClass lower_def char_ok_def)
        qed
      qed (use na in auto)
    qed
  qed
qed

section \<open>Compiled patterns are well-formed\<close>

fun char_nul :: "char_atom \<Rightarrow> bool" where
  "char_nul (CAssert k ims) \<longleftrightarrow> True"
| "char_nul _ \<longleftrightarrow> False"

lemma can_match_empty_sel:
  "can_match_empty n =
     (case n_kind n of
        NK_Char \<Rightarrow> False
      | NK_Any \<Rightarrow> False
      | NK_Class \<Rightarrow> False
      | NK_Concat \<Rightarrow> list_all can_match_empty (n_kids n)
      | NK_Alt \<Rightarrow> n_kids n = [] \<or> list_ex can_match_empty (n_kids n)
      | NK_StringSet \<Rightarrow> n_kids n = [] \<or> list_ex can_match_empty (n_kids n)
      | NK_Repeat \<Rightarrow> n_min n = 0 \<or> (case n_child n of None \<Rightarrow> True | Some c \<Rightarrow> can_match_empty c)
      | NK_Group \<Rightarrow> (case n_child n of None \<Rightarrow> True | Some c \<Rightarrow> can_match_empty c)
      | _ \<Rightarrow> True)"
proof (cases n)
  case (Node k ch cc kids mn mx lz child ci bn ims)
  show ?thesis unfolding Node node.sel by (rule can_match_empty.simps)
qed

lemma spec_wf: "spec_of n = Some r \<Longrightarrow> (nullable char_nul r \<longrightarrow> can_match_empty n) \<and> wf_code char_nul r"
proof (induction rule: spec_induct)
  case (atom n a)
  then show ?case by (auto simp: atom_of_def can_match_empty_sel [of n] split: node_kind.splits if_splits)
next
  case (seq n rs)
  then show ?case by (auto simp: can_match_empty_sel [of n] list_all2_conv_all_nth list_all_length)
next
  case (alt n rs)
  then show ?case
    by (auto simp: can_match_empty_sel [of n] list_all2_conv_all_nth list_all_length list_ex_length)
next
  case (rep n c r)
  then show ?case by (auto simp: can_match_empty_sel [of n])
qed (simp_all add: can_match_empty_sel)

lemma nullable_subst:
  "(\<And>a. a \<in> set_re r \<Longrightarrow> nullable nul' (f a) \<Longrightarrow> nul a) \<Longrightarrow> nullable nul' (subst_re f r) \<Longrightarrow> nullable nul r"
  by (induction f r rule: subst_re.induct) (auto simp: list_all_iff list_ex_iff)

lemma wf_code_subst:
  "(\<And>a. a \<in> set_re r \<Longrightarrow> wf_code nul' (f a) \<and> (nullable nul' (f a) \<longrightarrow> nul a)) \<Longrightarrow> wf_code nul r \<Longrightarrow>
   wf_code nul' (subst_re f r)"
proof (induction f r rule: subst_re.induct)
  case (4 f mn ex lz chk r)
  then show ?case using nullable_subst [of r nul' f nul] by auto
qed (auto simp: list_all_iff)

lemma lower_wf:
  assumes "wf_atom flags a"
  shows "wf_code byte_nul (lower flags a) \<and> (nullable byte_nul (lower flags a) \<longrightarrow> char_nul a)"
proof -
  have base: "wf_code byte_nul (base a) \<and> (nullable byte_nul (base a) \<longrightarrow> char_nul a)"
    if "wf_atom flags a" for a
    using that encode_nonempty by (cases a) (auto simp: base_def list_all_iff neq_Nil_conv)
  show ?thesis
  proof (cases "lower flags a = base a")
    case True
    then show ?thesis using base assms by simp
  next
    case False
    then obtain cc ims e where cc: "a = CClass cc ims"
        "expand_unsafe_class cc (unicode_mode flags) (ims AND RE_FLAG_I \<noteq> 0) = Some e"
        "lower flags a = subst_re base (class_tree ims (class_concats (cp_ranges_of cc (ims AND RE_FLAG_I \<noteq> 0))))"
      by (auto simp: lower_def split: char_atom.splits if_splits)
    have ne: "q \<noteq> []" if "q \<in> set (class_concats (cp_ranges_of cc (ims AND RE_FLAG_I \<noteq> 0)))" for q
    proof
      assume "q = []"
      then have "\<exists>n \<le> CP_MAX. class_test_cp_fold cc (int n) (ims AND RE_FLAG_I \<noteq> 0) \<and> [] = utf8_encode_cp (int n)"
        using expansion_ranges [OF cc(2), of "[]"] that assms cc(1) by (force simp: ranges_of_def)
      then show False using encode_nonempty by (metis CP_MAX_def code_point_def of_nat_0_le_iff of_nat_mono of_nat_numeral)
    qed
    have leaf: "base (CClass cc' ims) = RAtom (BClass cc' ims)" for cc' by (simp add: base_def)
    have "wf_code byte_nul (subst_re base (seq_tree ims q)) \<and> (q \<noteq> [] \<longrightarrow> \<not> nullable byte_nul (subst_re base (seq_tree ims q)))" for q
      by (auto simp: seq_tree_def leaf list_all_iff neq_Nil_conv)
    then show ?thesis unfolding cc(3) using ne by (auto simp: class_tree_def leaf list_all_iff list_ex_iff)
  qed
qed

section \<open>The machine finds what the pattern means\<close>

text \<open>The rows of the outcomes that end at \<open>fin\<close>, in priority order.\<close>

definition meaning :: "u8 list \<Rightarrow> int \<Rightarrow> int \<Rightarrow> char_atom re \<Rightarrow> int list \<Rightarrow> int list list" where
  "meaning s st fin r row =
     map snd (filter (\<lambda>d. fst d = fin) (es (char_step s fin) (int (length s)) r (st, row)))"

lemma placed_whole: "p_insts (w_prog w) = pre @ frag @ post \<Longrightarrow> placed w (length pre) frag"
proof (induction frag arbitrary: pre)
  case (Cons i frag)
  then show ?case using Cons.IH [of "pre @ [i]"] by simp
qed simp

lemma compiled_means:
  assumes n: "spec_of n = Some r" "numbered (rgroups r)" "\<forall>a \<in> set_re r. wf_atom flags a"
    and p: "p_insts p = []" "p_classes p = []" "\<not> p_raw_classes p"
    and w: "w = walker_for (emit (compile p n flags) match_accept) s st fin flags" "legal w" "loops w its"
    and s: "haystack s cps" "boundary cps fin st" "boundary cps fin fin" "\<forall>v \<in> set row. v < 0"
  shows "\<exists>rs. yields w (0, st, row, its) rs \<and> dd rs = dd (meaning s st fin r row)"
proof -
  let ?r = "subst_re (lower flags) r"
  have gs: "rgroups ?r = rgroups r" by (rule rgroups_subst) simp
  have "sorted (rgroups r)" using n(2) by (auto simp: numbered_def)
  then obtain frag cs where c: "compile p n flags = ext p frag cs" "codes ?r cs 0 frag"
    using emitsE [OF compile_emits [OF n(1)] p(3)] p(1,2) by (metis append_Nil append_Nil2 list.size(3))
  have prog: "p_insts (w_prog w) = [] @ frag @ [match_accept]" "p_classes (w_prog w) = cs"
    unfolding w(1) by (simp_all add: c(1) emit_ext p(1,2))
  have pl: "placed w 0 frag" "placed w (length frag) [match_accept]"
    using placed_whole [OF prog(1)] placed_whole [of w frag "[match_accept]" "[]"] prog(1) by simp_all
  have ws: "w_s w = s" "w_end w = fin" "w_unicode w = unicode_mode flags" by (simp_all add: w(1))
  let ?K = "\<lambda>d. if fst d = fin then [snd d] else []"
  have wf: "wf_code byte_nul ?r"
    using wf_code_subst [of r byte_nul "lower flags" char_nul] lower_wf n(3) spec_wf [OF n(1)] by blast
  have imp: "implements w (codes ?r) (es (byte_step w) (ub w) ?r) (set (rgroups r))"
    using codes_implement [OF w(2) wf] n(2) by (simp add: gs)
  have "yields w (0, st, row, its) (concat (map ?K (es (byte_step w) (ub w) ?r (st, row))))"
  proof (rule implementsD [OF imp pl(1)])
    show "codes ?r (p_classes (w_prog w)) 0 frag" using c(2) prog(2) by simp
    show "inside w st" using boundary_inside [OF s(1,2)] ws by (simp add: inside_def)
    show "fresh (set (rgroups r)) row" using s(4) by (simp add: fresh_def)
    fix d assume "d \<in> set (es (byte_step w) (ub w) ?r (st, row))"
    show "ends w ?K 0 (0 + length frag) its d"
    proof (rule endsI)
      fix its'
      have "exec w (length frag, fst d, snd d, its') = Some (Inl (fst d = fin))"
        using pl(2) ws by (simp add: exec_def rd_def exec_inst_def match_accept_def inst_simple_def)
      from runs.accept [OF this] show "yields w (0 + length frag, fst d, snd d, its') (?K d)"
        by (auto simp: yields_def)
    qed
  qed (rule w(3))
  moreover have "dd (concat (map ?K (es (byte_step w) (ub w) ?r (st, row)))) = dd (meaning s st fin r row)"
  proof -
    have "dd (es (byte_step w) (ub w) ?r (st, row)) = dd (es (char_step s fin) (ub w) r (st, row))"
    proof (rule es_subst [where ok = "boundary cps fin"])
      show "atoms_ok (char_step s fin) (boundary cps fin)" by (rule chars_ok [OF s(1,3)])
      show "dd (es (byte_step w) (ub w) (lower flags a) c) = dd (es (char_step s fin) (ub w) (RAtom a) c)"
        if "a \<in> set_re r" "boundary cps fin (fst c)" for a c
        using es_lower [OF w(2), of cps c flags a "ub w"] that s n(3) ws by simp
    qed (use s(2) in simp_all)
    then have "dd (concat (map ?K (es (byte_step w) (ub w) ?r (st, row)))) =
        dd (concat (map ?K (es (char_step s fin) (ub w) r (st, row))))"
      by (rule dd_concat) simp
    moreover have "concat (map ?K xs) = map snd (filter (\<lambda>d. fst d = fin) xs)" for xs :: "state list"
      by (induction xs) auto
    ultimately show ?thesis by (simp add: meaning_def ws)
  qed
  ultimately show ?thesis by blast
qed

end
