(* ===== verification/Regex_Eligible.thy ===== *)
theory Regex_Eligible
  imports Regex_Correct
begin

text \<open>
  Code of the shapes of \<open>Regex_Codes\<close> passes the eligibility check of the backtracker:
  its targets stay inside, every check names the start of an iteration, and every class
  it refers to is in the table.
\<close>

section \<open>Instructions that stay inside\<close>

definition ok_ins :: "char_class list \<Rightarrow> nat \<Rightarrow> nat \<Rightarrow> int set \<Rightarrow> inst \<Rightarrow> bool" where
  "ok_ins cs a b S ins =
     (case i_op ins of
        OP_CLASS \<Rightarrow> 0 \<le> i_a ins \<and> nat (i_a ins) < length cs
      | OP_SAVE \<Rightarrow> 0 \<le> i_a ins
      | OP_SAVE_RESET \<Rightarrow> 0 \<le> i_a ins \<and> i_a ins \<le> i_b ins
      | OP_ITER_CHECK \<Rightarrow> i_a ins \<in> S
      | OP_JMP \<Rightarrow> i_a ins \<in> {int a .. int b}
      | OP_SPLIT \<Rightarrow> i_a ins \<in> {int a .. int b} \<and> i_b ins \<in> {int a .. int b}
      | k \<Rightarrow> k \<in> {OP_CHAR, OP_ANY_CHAR, OP_ANCHOR_B, OP_ANCHOR_E, OP_WBOUND, OP_NWBOUND, OP_ITER_START})"

primrec starts :: "nat \<Rightarrow> inst list \<Rightarrow> int set" where
  "starts off [] = {}"
| "starts off (i # frag) = (if i_op i = OP_ITER_START then {int off} else {}) \<union> starts (Suc off) frag"

definition good :: "char_class list \<Rightarrow> nat \<Rightarrow> inst list \<Rightarrow> bool" where
  "good cs off frag \<longleftrightarrow> (\<forall>ins \<in> set frag. ok_ins cs off (off + length frag) (starts off frag) ins)"

lemma op_simps [simp]:
  "i_op (fork lz b a) = OP_SPLIT" "i_op (inst_jmp t) = OP_JMP" "i_op (inst_split b a) = OP_SPLIT"
  by (simp_all add: fork_def inst_split_def inst_jmp_def)

lemma ok_ins_mono: "ok_ins cs a b S ins \<Longrightarrow> a' \<le> a \<Longrightarrow> b \<le> b' \<Longrightarrow> S \<subseteq> S' \<Longrightarrow> ok_ins cs a' b' S' ins"
  by (auto simp: ok_ins_def split: op.splits)

lemma starts_append [simp]: "starts off (f @ g) = starts off f \<union> starts (off + length f) g"
  by (induction f arbitrary: off) auto

lemma starts_iff: "t \<in> starts off frag \<longleftrightarrow> (\<exists>k < length frag. t = int (off + k) \<and> i_op (frag ! k) = OP_ITER_START)"
proof (induction frag arbitrary: off)
  case (Cons i frag)
  show ?case unfolding starts.simps Un_iff Cons by (auto simp: less_Suc_eq_0_disj)
qed simp

lemma good_part:
  assumes "good cs off' f" "off \<le> off'" "off' + length f \<le> off + length frag" "starts off' f \<subseteq> starts off frag"
  shows "\<forall>ins \<in> set f. ok_ins cs off (off + length frag) (starts off frag) ins"
  using assms unfolding good_def by (blast intro: ok_ins_mono)

abbreviation good_shape :: "shape \<Rightarrow> bool" where
  "good_shape B \<equiv> \<forall>cs off frag. B cs off frag \<longrightarrow> good cs off frag"

lemma good_atom: "good_shape (atom_shape a)"
  by (cases a) (auto simp: atom_shape_def atom_ins_def good_def ok_ins_def split: op.splits)

lemma good_append: "good cs off f \<Longrightarrow> good cs (off + length f) g \<Longrightarrow> good cs off (f @ g)"
  unfolding good_def [of cs off "f @ g"] set_append ball_Un
  using good_part [of cs off f off "f @ g"] good_part [of cs "off + length f" g off "f @ g"] by simp

lemma good_seq: "\<forall>B \<in> set Bs. good_shape B \<Longrightarrow> good_shape (seq_shape Bs)"
proof (induction Bs)
  case Nil
  show ?case by (simp add: good_def)
next
  case (Cons B Bs)
  then show ?case by (auto intro: good_append)
qed

lemma good_alts: "\<forall>B \<in> set Bs. good_shape B \<Longrightarrow> alts_shape (int (off + length frag)) Bs cs off frag \<Longrightarrow> good cs off frag"
proof (induction Bs arbitrary: off frag)
  case (Cons B Bs)
  show ?case
  proof (cases "Bs = []")
    case True
    then show ?thesis using Cons.prems by simp
  next
    case False
    obtain f g E where f: "frag = inst_split (int (off + 1)) (int (off + 2 + length f)) # f @ inst_jmp E # g"
        "B cs (off + 1) f" "alts_shape E Bs cs (off + 2 + length f) g" and E: "E = int (off + length frag)"
      using Cons.prems(2) alts_shape_Cons [OF False] by auto
    have E': "E = int ((off + 2 + length f) + length g)" using E by (simp add: f(1))
    have g: "good cs (off + 1) f" using Cons.prems(1) f(2) by simp
    have g': "good cs (off + 2 + length f) g"
      by (rule Cons.IH) (use Cons.prems(1) f(3) E' in simp_all)
    have "\<forall>ins \<in> set f. ok_ins cs off (off + length frag) (starts off frag) ins"
      by (rule good_part [OF g]) (auto simp: f(1))
    moreover have "\<forall>ins \<in> set g. ok_ins cs off (off + length frag) (starts off frag) ins"
      by (rule good_part [OF g']) (auto simp: f(1))
    moreover have "ok_ins cs off (off + length frag) S (inst_split (int (off + 1)) (int (off + 2 + length f)))"
        "ok_ins cs off (off + length frag) S (inst_jmp E)" for S
      using E by (simp_all add: ok_ins_def inst_split_def inst_jmp_def f(1))
    ultimately show ?thesis unfolding good_def by (subst (1) f(1)) auto
  qed
qed simp

definition ok_reset :: "(int \<times> int) option \<Rightarrow> bool" where
  "ok_reset rst \<longleftrightarrow> (case rst of None \<Rightarrow> True | Some (a, b) \<Rightarrow> 0 \<le> a \<and> a \<le> b)"

lemma good_iter:
  assumes "good_shape B" "ok_reset rst" "iter_shape B rst chk cs off frag"
  shows "good cs off frag"
proof -
  obtain f where f: "frag = iter_head rst chk @ f @ (if chk then [inst_iter_check (int off)] else [])"
      "B cs (off + length (iter_head rst chk)) f"
    using assms(3) by (auto simp: iter_shape_def)
  have "\<forall>ins \<in> set f. ok_ins cs off (off + length frag) (starts off frag) ins"
    by (rule good_part) (use f assms(1) in auto)
  moreover have "ok_ins cs off (off + length frag) S (inst_simple OP_ITER_START)" for S
    by (simp add: ok_ins_def inst_simple_def)
  moreover have "ok_ins cs off (off + length frag) S (inst_save_reset a b)" if "rst = Some (a, b)" for a b S
    using assms(2) that by (simp add: ok_ins_def inst_save_reset_def ok_reset_def)
  moreover have "ok_ins cs off (off + length frag) (starts off frag) (inst_iter_check (int off))" if chk
    using that by (simp add: ok_ins_def inst_iter_check_def f(1) iter_head_def inst_simple_def)
  ultimately show ?thesis unfolding good_def
    by (subst (1) f(1)) (auto simp: iter_head_def split: option.splits if_splits)
qed

lemma good_copies:
  assumes "good_shape B" "ok_reset rst"
  shows "ok_reset rst1 \<Longrightarrow> copies_shape B rst1 rst n cs off frag \<Longrightarrow> good cs off frag"
proof (induction n arbitrary: rst1 off frag)
  case 0
  then show ?case by (simp add: good_def)
next
  case (Suc n)
  obtain f g where f: "frag = f @ g" "iter_shape B rst1 False cs off f" "copies_shape B rst rst n cs (off + length f) g"
    using Suc.prems(2) by auto
  have "good cs off f" by (rule good_iter [OF assms(1) Suc.prems(1) f(2)])
  moreover have "good cs (off + length f) g" by (rule Suc.IH [OF assms(2) f(3)])
  ultimately show ?case unfolding f(1) by (rule good_append)
qed

lemma good_fork:
  assumes "good cs (off + 1) f" "off + 1 + length f \<le> after" "after \<le> b" "starts off (fork lz (int (off + 1)) (int after) # f) \<subseteq> S"
  shows "\<forall>ins \<in> set (fork lz (int (off + 1)) (int after) # f). ok_ins cs off b S ins"
proof -
  have "\<forall>ins \<in> set f. ok_ins cs off b S ins"
  proof
    fix ins assume "ins \<in> set f"
    then have "ok_ins cs (off + 1) (off + 1 + length f) (starts (off + 1) f) ins" using assms(1) by (simp add: good_def)
    then show "ok_ins cs off b S ins" by (rule ok_ins_mono) (use assms(2-4) in auto)
  qed
  moreover have "ok_ins cs off b S (fork lz (int (off + 1)) (int after))"
    using assms(2,3) by (simp add: ok_ins_def fork_def inst_split_def)
  ultimately show ?thesis by simp
qed

lemma good_star:
  assumes "good_shape B" "ok_reset rst" "star_shape B rst lz chk cs off frag"
  shows "good cs off frag"
proof -
  obtain f where f0: "frag = fork lz (int (off + 1)) (int (off + length frag)) # f @ [inst_jmp (int off)]"
      "iter_shape B rst chk cs (off + 1) f"
    using assms(3) unfolding star_shape_def by blast
  obtain E where E: "E = off + length frag" by simp
  have f: "frag = fork lz (int (off + 1)) (int E) # f @ [inst_jmp (int off)]" unfolding E by (rule f0(1))
  have len: "length frag = length f + 2" using arg_cong [OF f, of length] by simp
  have g: "good cs (off + 1) f" by (rule good_iter [OF assms(1,2) f0(2)])
  have "\<forall>ins \<in> set (fork lz (int (off + 1)) (int E) # f). ok_ins cs off (off + length frag) (starts off frag) ins"
    by (rule good_fork [OF g]) (use arg_cong [OF f, of "starts off"] in \<open>auto simp: E len\<close>)
  moreover have "ok_ins cs off (off + length frag) S (inst_jmp (int off))" for S
    by (simp add: ok_ins_def inst_jmp_def)
  ultimately show ?thesis unfolding good_def by (subst (1) f) auto
qed

lemma good_extras:
  assumes "good_shape B" "ok_reset rst"
  shows "ok_reset rst1 \<Longrightarrow> extras_shape (int after) B rst1 rst lz chk n cs off frag \<Longrightarrow> off + length frag = after \<Longrightarrow>
    good cs off frag"
proof (induction n arbitrary: rst1 off frag)
  case 0
  then show ?case by (simp add: good_def)
next
  case (Suc n)
  obtain f g where f: "frag = fork lz (int (off + 1)) (int after) # f @ g" "iter_shape B rst1 chk cs (off + 1) f"
      "extras_shape (int after) B rst rst lz chk n cs (off + 1 + length f) g"
    using Suc.prems(2) by auto
  have "good cs (off + 1) f" by (rule good_iter [OF assms(1) Suc.prems(1) f(2)])
  then have "\<forall>ins \<in> set (fork lz (int (off + 1)) (int after) # f). ok_ins cs off (off + length frag) (starts off frag) ins"
    by (rule good_fork) (use Suc.prems(3) in \<open>auto simp: f(1)\<close>)
  moreover have "\<forall>ins \<in> set g. ok_ins cs off (off + length frag) (starts off frag) ins"
    by (rule good_part [OF Suc.IH [OF assms(2) f(3)]]) (use Suc.prems(3) in \<open>auto simp: f(1)\<close>)
  ultimately show ?case unfolding good_def by (subst (1) f(1)) auto
qed

lemma good_rep:
  assumes "good_shape B" "ok_reset rst"
  shows "good_shape (rep_shape B rst mn ex lz chk)"
proof (intro allI impI)
  fix cs off frag assume "rep_shape B rst mn ex lz chk cs off frag"
  then obtain f g where f: "frag = f @ g" "copies_shape B None rst mn cs off f"
      "case ex of None \<Rightarrow> star_shape B rst lz chk cs (off + length f) g
       | Some n \<Rightarrow> extras_shape (int (off + length frag)) B (if mn > 0 then rst else None) rst lz chk n cs (off + length f) g"
    unfolding rep_shape_def by blast
  have none: "ok_reset None" by (simp add: ok_reset_def)
  have "good cs (off + length f) g"
  proof (cases ex)
    case None
    then show ?thesis using good_star [OF assms] f(3) by simp
  next
    case (Some n)
    then show ?thesis using f(3) assms(2) none
      by (intro good_extras [OF assms, of "if mn > 0 then rst else None" "off + length frag"]) (auto simp: f(1) add.assoc)
  qed
  then show "good cs off frag" using good_copies [OF assms none f(2)] f(1) by (simp add: good_append)
qed

lemma good_group: "good_shape B \<Longrightarrow> good_shape (group_shape k B)"
proof (intro allI impI)
  fix cs off frag assume B: "good_shape B" and "group_shape k B cs off frag"
  then obtain f where f: "frag = inst_save (2 * int k) # f @ [inst_save (2 * int k + 1)]" "B cs (off + 1) f"
    by (auto simp: group_shape_def)
  have "\<forall>ins \<in> set f. ok_ins cs off (off + length frag) (starts off frag) ins"
    by (rule good_part) (use f B in auto)
  moreover have "ok_ins cs off (off + length frag) S (inst_save (2 * int k))"
      "ok_ins cs off (off + length frag) S (inst_save (2 * int k + 1))" for S
    by (simp_all add: ok_ins_def inst_save_def)
  ultimately show "good cs off frag" unfolding good_def by (subst (1) f(1)) auto
qed

lemma ok_slots: "sorted gs \<Longrightarrow> ok_reset (slots_of gs)"
proof (cases gs)
  case (Cons k ks)
  assume "sorted gs"
  then have "k \<le> last (k # ks)" using Cons by (cases ks) auto
  then show ?thesis by (auto simp: Cons ok_reset_def slots_of_def)
qed (simp add: ok_reset_def slots_of_def)

lemma good_codes: "sorted (rgroups r) \<Longrightarrow> good_shape (codes r)"
proof (induction r rule: re_induct)
  case (cons r rs)
  have "sorted (rgroups x)" if "x \<in> set (r # rs)" for x
    using cons.prems sorted_concat_nth [of "map rgroups (r # rs)"] that by auto
  then have "good_shape (codes r)" "good_shape (seq_shape (map codes rs))"
    using cons by (auto simp: sorted_append)
  then show ?case by (auto intro: good_append)
next
  case (alt rs)
  then have "\<forall>B \<in> set (map codes rs). good_shape B"
    using sorted_concat_nth [of "map rgroups rs"] by auto
  then show ?case using good_alts [of "map codes rs"] unfolding codes.simps alt_shape_def by blast
next
  case (rep mn ex lz chk r)
  then show ?case using good_rep [OF _ ok_slots, of "codes r" "rgroups r"] by simp
next
  case (group k r)
  then show ?case using good_group by simp
next
  case (atom a)
  show ?case using good_atom by simp
qed (simp add: good_def)

lemma good_eligible:
  assumes "good cs 0 frag" "p_insts p = frag @ [match_accept]" "p_classes p = cs"
  shows "can_backtrack p"
proof -
  have "ok_ins cs 0 (length frag) (starts 0 frag) (frag ! k)" if "k < length frag" for k
    using assms(1) that by (simp add: good_def)
  then have ok: "case i_op (frag ! k) of
      OP_CLASS \<Rightarrow> 0 \<le> i_a (frag ! k) \<and> nat (i_a (frag ! k)) < length cs
    | OP_SAVE \<Rightarrow> 0 \<le> i_a (frag ! k)
    | OP_SAVE_RESET \<Rightarrow> 0 \<le> i_a (frag ! k) \<and> i_a (frag ! k) \<le> i_b (frag ! k)
    | OP_ITER_CHECK \<Rightarrow> 0 \<le> i_a (frag ! k) \<and> nat (i_a (frag ! k)) < length frag \<and> i_op (frag ! nat (i_a (frag ! k))) = OP_ITER_START
    | OP_JMP \<Rightarrow> 0 \<le> i_a (frag ! k) \<and> i_a (frag ! k) \<le> int (length frag)
    | OP_SPLIT \<Rightarrow> 0 \<le> i_a (frag ! k) \<and> i_a (frag ! k) \<le> int (length frag) \<and> 0 \<le> i_b (frag ! k) \<and> i_b (frag ! k) \<le> int (length frag)
    | m \<Rightarrow> m \<in> {OP_CHAR, OP_ANY_CHAR, OP_ANCHOR_B, OP_ANCHOR_E, OP_WBOUND, OP_NWBOUND, OP_ITER_START}"
    if "k < length frag" for k
    using \<open>\<And>k. k < length frag \<Longrightarrow> ok_ins cs 0 (length frag) (starts 0 frag) (frag ! k)\<close> [OF that]
    by (cases "i_op (frag ! k)") (auto simp: ok_ins_def starts_iff)
  show ?thesis
    unfolding can_backtrack_def Let_def list_all_iff
  proof (intro ballI)
    fix x assume "x \<in> set (enumerate 0 (p_insts p))"
    then have mem: "fst x < length (p_insts p)" "p_insts p ! fst x = snd x"
      using in_set_enumerate_eq [of x 0 "p_insts p"] by simp_all
    define i where "i = fst x"
    have i: "x = (i, p_insts p ! i)" "i < length (p_insts p)"
      using mem by (simp_all add: i_def)
    show "case x of (i, ins) \<Rightarrow>
           (case i_op ins of
              OP_CHAR \<Rightarrow> i + 1 < length (p_insts p)
            | OP_ANY_CHAR \<Rightarrow> i + 1 < length (p_insts p)
            | OP_ANCHOR_B \<Rightarrow> i + 1 < length (p_insts p)
            | OP_ANCHOR_E \<Rightarrow> i + 1 < length (p_insts p)
            | OP_WBOUND \<Rightarrow> i + 1 < length (p_insts p)
            | OP_NWBOUND \<Rightarrow> i + 1 < length (p_insts p)
            | OP_CLASS \<Rightarrow> i + 1 < length (p_insts p) \<and> i_a ins \<ge> 0 \<and> nat (i_a ins) < length (p_classes p)
            | OP_SAVE \<Rightarrow> i + 1 < length (p_insts p) \<and> i_a ins \<ge> 0
            | OP_SAVE_RESET \<Rightarrow> i + 1 < length (p_insts p) \<and> i_a ins \<ge> 0 \<and> i_a ins \<le> i_b ins
            | OP_ITER_START \<Rightarrow> i + 1 < length (p_insts p)
            | OP_ITER_CHECK \<Rightarrow>
                i + 1 < length (p_insts p) \<and> (i_a ins \<ge> 0 \<and> nat (i_a ins) < length (p_insts p)) \<and>
                i_op (p_insts p ! nat (i_a ins)) = OP_ITER_START
            | OP_JMP \<Rightarrow> i_a ins \<ge> 0 \<and> nat (i_a ins) < length (p_insts p)
            | OP_SPLIT \<Rightarrow> (i_a ins \<ge> 0 \<and> nat (i_a ins) < length (p_insts p)) \<and>
                (i_b ins \<ge> 0 \<and> nat (i_b ins) < length (p_insts p))
            | OP_MATCH \<Rightarrow> True
            | _ \<Rightarrow> False)"
    proof (cases "i < length frag")
      case True
      then show ?thesis using ok [OF True] i assms(2,3) by (cases "i_op (frag ! i)") (auto simp: nth_append)
    next
      case False
      then show ?thesis using i assms(2) by (simp add: nth_append match_accept_def inst_simple_def)
    qed
  qed
qed

text \<open>Every pattern without backreferences and lookarounds is eligible.\<close>

lemma compiled_can_backtrack:
  assumes "spec_of n = Some r" "sorted (rgroups r)" "p_insts p = []" "p_classes p = []" "\<not> p_raw_classes p"
  shows "can_backtrack (emit (compile p n flags) match_accept)"
proof -
  obtain frag cs where c: "compile p n flags = ext p frag cs" "codes (subst_re (lower flags) r) cs 0 frag"
    using emitsE [OF compile_emits [OF assms(1,2)] assms(5)] assms(3,4) by (metis append_Nil append_Nil2 list.size(3))
  have "sorted (rgroups (subst_re (lower flags) r))" using assms(2) by (simp add: rgroups_subst)
  then have "good cs 0 frag" using good_codes c(2) by blast
  then show ?thesis by (rule good_eligible) (simp_all add: c(1) emit_ext assms(3,4))
qed

end
