(* ===== verification/Regex_Semantics.thy ===== *)
theory Regex_Semantics
  imports Regex_Meaning Regex_Eligible
begin

text \<open>
  The compiler, the backtracker and the meaning of patterns together: what a compiled
  pattern finds.
\<close>

section \<open>From paths to rows\<close>

lemma runs_reaches:
  assumes "reaches w c c'" "runs w c n rs"
  shows "\<exists>n' rs'. runs w c' n' rs' \<and> set rs' \<subseteq> set rs"
  using assms
proof (induction rule: reaches.induct)
  case here
  then show ?case by blast
next
  case (follow c1 cs c2)
  then obtain n1 rs1 where r: "runs w c1 n1 rs1" "set rs1 \<subseteq> set rs" by blast
  have "\<exists>n' rs'. runs w c2 n' rs' \<and> set rs' \<subseteq> set rs1"
    using r(1) follow.hyps(2,3) by (cases rule: runsE) fastforce+
  then show ?case using r(2) by blast
qed

lemma accepted_row:
  assumes "reaches w c (pc, fin, row, its)" "yields w c rs" "pc < length (p_insts (w_prog w))"
    "i_op (p_insts (w_prog w) ! pc) = OP_MATCH" "w_end w = fin"
  shows "row \<in> set rs"
proof -
  obtain n where "runs w c n rs" using assms(2) by (auto simp: yields_def)
  from runs_reaches [OF assms(1) this] obtain n' rs' where r: "runs w (pc, fin, row, its) n' rs'" "set rs' \<subseteq> set rs"
    by blast
  have "exec w (pc, fin, row, its) = Some (Inl True)"
    using assms(3-5) by (simp add: exec_def rd_def exec_inst_def)
  then have "rs' = [row]" using r(1) by (cases rule: runsE) auto
  with r(2) show ?thesis by simp
qed

lemma ready_loops:
  "ready p s st fin bt row \<Longrightarrow> loops (walker_for p s st fin flags) (bt_iter_pos bt)"
  unfolding ready_def loops_def by (auto simp: in_set_conv_nth) (metis nth_mem)

section \<open>A sample\<close>

definition chr :: "u32 \<Rightarrow> node" where
  "chr c = Node NK_Char c class_new [] 0 (- 1) False None (- 1) [] 0"

text \<open>\<open>/(?:(a)|b)+/\<close>\<close>

definition sample :: node where
  "sample =
     Node NK_Repeat 0 class_new [] 1 (- 1) False
       (Some (Node NK_Alt 0 class_new
          [Node NK_Group 0 class_new [] 0 (- 1) False (Some (chr 0x61)) 1 [] 0, chr 0x62]
          0 (- 1) False None (- 1) [] 0)) (- 1) [] 0"

lemma sample_spec:
  "spec_of sample = Some (RRep 1 None False False (RAlt [RGroup 1 (RAtom (CLit 0x61 0)), RAtom (CLit 0x62 0)]))"
  by (simp add: sample_def chr_def atom_of_def)

definition sample_prog :: program where
  "sample_prog = emit (compile program_new sample 0) match_accept"

lemma sample_insts:
  "p_insts sample_prog =
     [inst_split 1 5, inst_save 2, char_lit 0x61, inst_save 3, inst_jmp 6, char_lit 0x62,
      inst_split 7 15, inst_save_reset 2 4, inst_split 9 13, inst_save 2, char_lit 0x61, inst_save 3, inst_jmp 14,
      char_lit 0x62, inst_jmp 6, match_accept]"
  by code_simp

lemma sample_eligible: "can_backtrack sample_prog"
  unfolding sample_prog_def
  by (rule compiled_can_backtrack [OF sample_spec]) (simp_all add: program_new_def)

lemmas sample_simps = inst_save_def inst_save_reset_def char_lit_def inst_split_def inst_jmp_def match_accept_def inst_simple_def

lemma sample_ready: "ready sample_prog [0x61, 0x62] 0 2 (for_program sample_prog) [- 1, - 1, - 1, - 1]"
  using sample_eligible
  by (simp add: ready_def fits_def VISITED_BITS_MAX_def as_usize_def sample_insts sample_simps i32_def for_program_def)

lemma sample_text:
  "haystack [0x61, 0x62] [0x61, 0x62]" "boundary [0x61, 0x62] 2 0" "boundary [0x61, 0x62] 2 2"
proof -
  have e: "utf8_encode_cp 0x61 = [0x61]" "utf8_encode_cp 0x62 = [0x62]" by code_simp+
  show "haystack [0x61, 0x62] [0x61, 0x62]" by (simp add: haystack_def e code_point_def)
  show "boundary [0x61, 0x62] 2 0" by (simp add: boundary_def exI [of _ "[]"])
  show "boundary [0x61, 0x62] 2 2"
    unfolding boundary_def by (intro conjI exI [of _ "[0x61, 0x62]"] exI [of _ "[]"]) (simp_all add: e)
qed

lemma sample_meaning:
  "meaning [0x61, 0x62] 0 2 (RRep 1 None False False (RAlt [RGroup 1 (RAtom (CLit 0x61 0)), RAtom (CLit 0x62 0)]))
     [- 1, - 1, - 1, - 1] = [[- 1, - 1, - 1, - 1]]"
  by code_simp

section \<open>Properties\<close>

text \<open>
  \<open>pattern flags n r\<close>: the tree \<open>n\<close> means \<open>r\<close>; its groups are numbered in the order of
  their parentheses and its atoms are those the parser builds. \<open>window s st fin\<close>: \<open>s\<close>
  encodes code points, and the window starts and ends at characters.
\<close>

definition pattern :: "u8 \<Rightarrow> node \<Rightarrow> char_atom re \<Rightarrow> bool" where
  "pattern flags n r \<longleftrightarrow> spec_of n = Some r \<and> numbered (rgroups r) \<and> (\<forall>a \<in> set_re r. wf_atom flags a)"

definition text_window :: "u8 list \<Rightarrow> int \<Rightarrow> int \<Rightarrow> bool" where
  "text_window s st fin \<longleftrightarrow> (\<exists>cps. haystack s cps \<and> boundary cps fin st \<and> boundary cps fin fin)"

definition code_of :: "node \<Rightarrow> u8 \<Rightarrow> program" where
  "code_of n flags = emit (compile program_new n flags) match_accept"

lemma code_means:
  assumes "pattern flags n r" "text_window s st fin" "legal (walker_for (code_of n flags) s st fin flags)"
    "loops (walker_for (code_of n flags) s st fin flags) its" "\<forall>v \<in> set row. v < 0"
  shows "\<exists>rs. yields (walker_for (code_of n flags) s st fin flags) (0, st, row, its) rs \<and> dd rs = dd (meaning s st fin r row)"
proof -
  have new: "p_insts program_new = []" "p_classes program_new = []" "\<not> p_raw_classes program_new"
    by (simp_all add: program_new_def)
  obtain cps where cps: "haystack s cps" "boundary cps fin st" "boundary cps fin fin"
    using assms(2) by (auto simp: text_window_def)
  have n: "spec_of n = Some r" "numbered (rgroups r)" "\<forall>a \<in> set_re r. wf_atom flags a"
    using assms(1) by (simp_all add: pattern_def)
  show ?thesis
    using compiled_means [OF n new refl _ _ cps assms(5)] assms(3,4) unfolding code_of_def by blast
qed

lemma sample_pattern:
  "pattern 0 sample (RRep 1 None False False (RAlt [RGroup 1 (RAtom (CLit 0x61 0)), RAtom (CLit 0x62 0)]))"
  by (auto simp: pattern_def sample_spec numbered_def code_point_def intro: exI [of _ 1] exI [of _ 2] simp: upt_rec)

lemma sample_window: "text_window [0x61, 0x62] 0 2"
  using sample_text unfolding text_window_def by blast

text \<open>C28: whatever the pattern, without backreferences, lookarounds and string sets, its
  code passes the eligibility check of the backtracker: no jump leaves the program, every
  iteration check names the start of its iteration, every class is in the table.\<close>

theorem compiled_eligible:
  assumes "pattern flags n r"
  shows "can_backtrack (code_of n flags)"
proof -
  have "sorted (rgroups r)" using assms by (auto simp: pattern_def numbered_def)
  then show ?thesis
    using assms unfolding code_of_def pattern_def by (intro compiled_can_backtrack) (auto simp: program_new_def)
qed

lemma compiled_eligible_witness: "can_backtrack (code_of sample 0) \<and> length (p_insts (code_of sample 0)) = 16"
  using compiled_eligible [OF sample_pattern] sample_insts by (simp add: sample_prog_def code_of_def)

text \<open>C6: the accepting paths of the code of a pattern, in the priority order of the
  machine and each row counted at its first occurrence, are the outcomes of the matcher
  of ECMAScript that end where the window ends.\<close>

theorem compiled_meaning:
  assumes "pattern flags n r" "text_window s st fin" "\<forall>v \<in> set row. v < 0"
    "ready (code_of n flags) s st fin bt row"
  shows "\<exists>k rows. runs (walker_for (code_of n flags) s st fin flags) (0, st, row, bt_iter_pos bt) k rows \<and>
    dd rows = dd (meaning s st fin r row)"
  using code_means [OF assms(1,2) ready_legal [OF assms(4)] ready_loops [OF assms(4)] assms(3)]
  unfolding yields_def by blast

lemma compiled_meaning_witness:
  "\<exists>k rows. runs (walker_for sample_prog [0x61, 0x62] 0 2 0) (0, 0, [- 1, - 1, - 1, - 1], []) k rows \<and>
     dd rows = [[- 1, - 1, - 1, - 1]]"
proof -
  have "bt_iter_pos (for_program sample_prog) = []"
    by (simp add: for_program_def sample_insts sample_simps)
  then show ?thesis
    using compiled_meaning [OF sample_pattern sample_window, of "[- 1, - 1, - 1, - 1]" "for_program sample_prog"] sample_ready sample_meaning
    unfolding sample_prog_def code_of_def by simp
qed

text \<open>C3: a capture pass over a compiled pattern returns without a panic. The row of a
  match is that of an outcome of the ECMAScript matcher that ends at the end of the
  window; when no iteration of the pattern can be empty it is that of the first such
  outcome, and a failed pass means that there is none.\<close>

theorem captures_correct:
  assumes "pattern flags n r" "text_window s st fin" "\<forall>v \<in> set row. v < 0"
    "ready (code_of n flags) s st fin bt row"
  shows "wp (captures_at (code_of n flags) s st fin flags bt row) (\<lambda>(out, bt', row').
    let outcomes = meaning s st fin r row;
        no_checks = (\<forall>ins \<in> set (p_insts (code_of n flags)). i_op ins \<noteq> OP_ITER_CHECK)
    in (out = Matched \<longrightarrow> row' \<in> set outcomes \<and> (no_checks \<longrightarrow> row' = hd outcomes)) \<and>
       (out = NoMatch \<longrightarrow> row' = row \<and> (no_checks \<longrightarrow> outcomes = [])))"
proof -
  let ?p = "code_of n flags" and ?out = "meaning s st fin r row"
  let ?w = "walker_for ?p s st fin flags"
  obtain rs where rs: "yields ?w (0, st, row, bt_iter_pos bt) rs" "dd rs = dd ?out"
    using code_means [OF assms(1,2) ready_legal [OF assms(4)] ready_loops [OF assms(4)] assms(3)] by blast
  then obtain k where k: "runs ?w (0, st, row, bt_iter_pos bt) k rs" by (auto simp: yields_def)
  have set: "set rs = set ?out" by (rule dd_eq_set [OF rs(2)])
  then have nil: "rs = [] \<longleftrightarrow> ?out = []" by (metis set_empty)
  have hd: "hd rs = hd ?out" if "rs \<noteq> []"
    using hd_dd [of rs] hd_dd [of ?out] rs(2) nil that by simp
  from captures_sound [OF assms(4), of flags] obtain out bt' row' where
    c: "captures_at ?p s st fin flags bt row = Some (out, bt', row')"
    and m: "out = Matched \<Longrightarrow> \<exists>pc its. reaches ?w (0, st, row, bt_iter_pos bt) (pc, fin, row', its) \<and>
       pc < length (p_insts ?p) \<and> i_op (p_insts ?p ! pc) = OP_MATCH"
    and f: "out = NoMatch \<Longrightarrow> row' = row"
  proof (elim wpE)
    fix x
    assume x: "captures_at ?p s st fin flags bt row = Some x"
      "case x of (out, bt', row') \<Rightarrow>
        (out = Matched \<longrightarrow> (\<exists>pc its. reaches ?w (0, st, row, bt_iter_pos bt) (pc, fin, row', its) \<and>
           pc < length (p_insts ?p) \<and> i_op (p_insts ?p ! pc) = OP_MATCH)) \<and>
        (out = NoMatch \<longrightarrow> row' = row \<and> bt_iter_pos bt' = bt_iter_pos bt)"
    obtain out bt' row' where "x = (out, bt', row')" by (cases x)
    with x show thesis by (intro that [of out bt' row']) simp_all
  qed
  have sound: "row' \<in> set ?out" if "out = Matched"
    using m [OF that] accepted_row [OF _ rs(1)] set by auto
  have first: "(out = Matched \<longrightarrow> row' = hd ?out) \<and> (out = NoMatch \<longrightarrow> ?out = [])"
    if "\<forall>ins \<in> set (p_insts ?p). i_op ins \<noteq> OP_ITER_CHECK"
    using captures_first [OF assms(4) that k] c nil hd by (auto split: outcome.splits)
  show ?thesis using c sound first f by (simp add: Let_def)
qed

text \<open>The second iteration unsets the group that the first one set.\<close>

lemma captures_correct_witness:
  "wp (captures_at sample_prog [0x61, 0x62] 0 2 0 (for_program sample_prog) [- 1, - 1, - 1, - 1]) (\<lambda>(out, bt', row').
     out \<noteq> NoMatch \<and> (out = Matched \<longrightarrow> row' = [- 1, - 1, - 1, - 1]))"
proof -
  have no: "\<forall>ins \<in> set (p_insts sample_prog). i_op ins \<noteq> OP_ITER_CHECK"
    by (simp add: sample_insts sample_simps)
  have "ready (code_of sample 0) [0x61, 0x62] 0 2 (for_program sample_prog) [- 1, - 1, - 1, - 1]"
    using sample_ready by (simp add: sample_prog_def code_of_def)
  then have "wp (captures_at (code_of sample 0) [0x61, 0x62] 0 2 0 (for_program sample_prog) [- 1, - 1, - 1, - 1])
      (\<lambda>(out, bt', row').
        let outcomes = [[- 1, - 1, - 1, - 1]] :: int list list; no_checks = True
        in (out = Matched \<longrightarrow> row' \<in> set outcomes \<and> (no_checks \<longrightarrow> row' = hd outcomes)) \<and>
           (out = NoMatch \<longrightarrow> row' = [- 1, - 1, - 1, - 1] \<and> (no_checks \<longrightarrow> outcomes = [])))"
    using captures_correct [OF sample_pattern sample_window, of "[- 1, - 1, - 1, - 1]" "for_program sample_prog"] no
    unfolding sample_meaning sample_prog_def code_of_def by simp
  then show ?thesis unfolding sample_prog_def code_of_def by (rule wp_mono) auto
qed

end
