(* ===== verification/F64_Int.thy ===== *)
theory F64_Int
  imports TJ_Prelude "HOL-Library.Log_Nat"
begin

text \<open>
  The conversions between \<open>f64\<close> and \<open>i64\<close> that the runtime crates use, on the
  bits of the double (IEEE 754 binary64, round to nearest even): \<open>x as f64\<close>,
  \<open>is_nan\<close>, \<open>==\<close>, and the integer a double stands for. An integer of at most
  53 bits survives the conversion, which is what the dynamic values and the keys of
  \<open>Map\<close> rely on.
\<close>

definition f64_negative :: "u64 \<Rightarrow> bool" where
  "f64_negative b = (2 ^ 63 \<le> unat b)"

definition f64_exponent :: "u64 \<Rightarrow> nat" where
  "f64_exponent b = unat b div 2 ^ 52 mod 2048"

definition f64_fraction :: "u64 \<Rightarrow> nat" where
  "f64_fraction b = unat b mod 2 ^ 52"

definition f64_is_nan :: "u64 \<Rightarrow> bool" where
  "f64_is_nan b = (f64_exponent b = 2047 \<and> f64_fraction b \<noteq> 0)"

definition f64_is_zero :: "u64 \<Rightarrow> bool" where
  "f64_is_zero b = (f64_exponent b = 0 \<and> f64_fraction b = 0)"

text \<open>IEEE equality: no NaN equals anything, and the two zeros are equal.\<close>

definition f64_eq :: "u64 \<Rightarrow> u64 \<Rightarrow> bool" where
  "f64_eq a b = (\<not> f64_is_nan a \<and> \<not> f64_is_nan b \<and> (a = b \<or> f64_is_zero a \<and> f64_is_zero b))"

text \<open>The integer that a double is, if it is one: \<open>d.trunc() == d\<close> and its value.\<close>

definition f64_magnitude :: "u64 \<Rightarrow> nat option" where
  "f64_magnitude b =
     (let e = f64_exponent b; m = 2 ^ 52 + f64_fraction b
      in if e = 2047 then None
         else if f64_is_zero b then Some 0
         else if e < 1023 then None
         else if 1075 \<le> e then Some (m * 2 ^ (e - 1075))
         else if m mod 2 ^ (1075 - e) = 0 then Some (m div 2 ^ (1075 - e))
         else None)"

definition f64_int :: "u64 \<Rightarrow> int option" where
  "f64_int b = map_option (\<lambda>m. if f64_negative b then - int m else int m) (f64_magnitude b)"

text \<open>\<open>m as f64\<close> for \<open>0 < m < 2 ^ 64\<close>, without its sign: the leading bit of \<open>m\<close>
  gives the exponent, the next 52 bits the fraction, and the rest rounds to nearest, ties to
  even; a carry out of the fraction moves into the exponent.\<close>

definition f64_round :: "nat \<Rightarrow> nat" where
  "f64_round m =
     (let e = floorlog 2 m - 1
      in (e + 1023) * 2 ^ 52 +
         (if e \<le> 52 then m * 2 ^ (52 - e) - 2 ^ 52
          else (let s = e - 52; q = m div 2 ^ s; r = m mod 2 ^ s; half = 2 ^ (s - 1)
                in q - 2 ^ 52 + (if half < r \<or> half = r \<and> odd q then 1 else 0))))"

definition f64_of_int :: "int \<Rightarrow> u64" where
  "f64_of_int x =
     (if x = 0 then 0
      else if x < 0 then word_of_nat (2 ^ 63 + f64_round (nat (- x)))
      else word_of_nat (f64_round (nat x)))"

section \<open>Integers of at most 53 bits\<close>

lemma f64_round_fields:
  assumes "0 < m" "m < 2 ^ 53"
  defines "e \<equiv> floorlog 2 m - 1"
  shows "e \<le> 52" "2 ^ e \<le> m" "m < 2 ^ (e + 1)"
    and "f64_round m = (e + 1023) * 2 ^ 52 + (m * 2 ^ (52 - e) - 2 ^ 52)"
    and "2 ^ 52 \<le> m * 2 ^ (52 - e)" "m * 2 ^ (52 - e) < 2 ^ 53"
proof -
  have b: "2 ^ (floorlog 2 m - 1) \<le> m" "m < 2 ^ floorlog 2 m"
    using floorlog_bounds [of m 2] assms by auto
  have "floorlog 2 m \<noteq> 0" using assms by (simp add: floorlog_eq_zero_iff)
  then have f: "floorlog 2 m = e + 1" by (simp add: e_def)
  show e: "2 ^ e \<le> m" "m < 2 ^ (e + 1)" using b by (simp_all add: f flip: e_def)
  show l: "e \<le> 52"
  proof (rule ccontr)
    assume "\<not> e \<le> 52"
    then have "(2::nat) ^ 53 \<le> 2 ^ e" by (intro power_increasing) auto
    with e assms show False by linarith
  qed
  show "f64_round m = (e + 1023) * 2 ^ 52 + (m * 2 ^ (52 - e) - 2 ^ 52)"
    using l unfolding f64_round_def e_def [symmetric] Let_def by simp
  have p: "(2::nat) ^ e * 2 ^ (52 - e) = 2 ^ 52" using l by (simp flip: power_add)
  have "2 ^ e * 2 ^ (52 - e) \<le> m * 2 ^ (52 - e)" by (rule mult_le_mono1 [OF e(1)])
  then show "2 ^ 52 \<le> m * 2 ^ (52 - e)" using p by simp
  have "m * 2 ^ (52 - e) < 2 ^ (e + 1) * 2 ^ (52 - e)"
    by (rule mult_strict_right_mono [OF e(2)]) simp
  also have "\<dots> = 2 * (2 ^ e * 2 ^ (52 - e))" by simp
  finally show "m * 2 ^ (52 - e) < 2 ^ 53" unfolding p by simp
qed

lemma f64_round_magnitude:
  assumes "0 < m" "m < 2 ^ 53" "unat b mod 2 ^ 63 = f64_round m"
  shows "f64_magnitude b = Some m" "\<not> f64_is_zero b" "\<not> f64_is_nan b"
proof -
  define e where "e = floorlog 2 m - 1"
  note F = f64_round_fields [OF assms(1,2), folded e_def]
  let ?f = "m * 2 ^ (52 - e) - 2 ^ 52"
  have r: "unat b mod 2 ^ 63 = (e + 1023) * 2 ^ 52 + ?f" using assms(3) F(4) by simp
  have f: "?f < 2 ^ 52" using F(5,6) by simp
  have fr: "f64_fraction b = ?f"
  proof -
    have "unat b mod 2 ^ 52 = unat b mod 2 ^ 63 mod 2 ^ 52" by (simp add: mod_mod_cancel)
    also have "\<dots> = ?f" unfolding r mod_mult_self3 by (rule mod_less [OF f])
    finally show ?thesis by (simp add: f64_fraction_def)
  qed
  have ex: "f64_exponent b = e + 1023"
  proof -
    have "unat b mod (2 ^ 52 * 2048) = 2 ^ 52 * (unat b div 2 ^ 52 mod 2048) + unat b mod 2 ^ 52"
      by (rule mod_mult2_eq)
    then have "unat b div 2 ^ 52 mod 2048 = unat b mod (2 ^ 52 * 2048) div 2 ^ 52" by simp
    also have "\<dots> = unat b mod 2 ^ 63 div 2 ^ 52" by simp
    also have "\<dots> = e + 1023" unfolding r using f by (simp only: div_mult_self3 div_less)
    finally show ?thesis by (simp add: f64_exponent_def)
  qed
  have z: "\<not> f64_is_zero b" by (simp add: f64_is_zero_def ex)
  then show "\<not> f64_is_zero b" .
  show "\<not> f64_is_nan b" using F(1) by (simp add: f64_is_nan_def ex)
  have m: "2 ^ 52 + ?f = m * 2 ^ (52 - e)" using F(5) by simp
  show "f64_magnitude b = Some m"
  proof (cases "e = 52")
    case True
    then show ?thesis using z m by (simp add: f64_magnitude_def ex fr)
  next
    case False
    have d: "1075 - (e + 1023) = 52 - e" using F(1) by simp
    show ?thesis using z F(1) False
      unfolding f64_magnitude_def Let_def ex fr m d by simp
  qed
qed

lemma f64_round_less: "f64_round m < 2 ^ 63" if "0 < m" "m < 2 ^ 53"
proof -
  define e where "e = floorlog 2 m - 1"
  note F = f64_round_fields [OF that, folded e_def]
  have "m * 2 ^ (52 - e) - 2 ^ 52 < 2 ^ 52" using F(5,6) by simp
  moreover have "(e + 1023) * 2 ^ 52 \<le> (52 + 1023) * 2 ^ 52" using F(1) by simp
  ultimately show ?thesis unfolding F(4) by simp
qed

text \<open>A converted integer of 64 bits is a finite double: its exponent stays small.\<close>

lemma f64_round_le: "f64_round m \<le> 1087 * 2 ^ 52" if "0 < m" "m < 2 ^ 64"
proof -
  define e where "e = floorlog 2 m - 1"
  have b: "2 ^ (floorlog 2 m - 1) \<le> m" "m < 2 ^ floorlog 2 m"
    using floorlog_bounds [of m 2] that by auto
  have "floorlog 2 m \<noteq> 0" using that by (simp add: floorlog_eq_zero_iff)
  then have f: "floorlog 2 m = e + 1" by (simp add: e_def)
  have e: "2 ^ e \<le> m" "m < 2 ^ (e + 1)" using b by (simp_all add: f flip: e_def)
  have l: "e \<le> 63"
  proof (rule ccontr)
    assume "\<not> e \<le> 63"
    then have "(2::nat) ^ 64 \<le> 2 ^ e" by (intro power_increasing) auto
    with e that show False by linarith
  qed
  show ?thesis
  proof (cases "e \<le> 52")
    case True
    have p: "(2::nat) ^ e * 2 ^ (52 - e) = 2 ^ 52" using True by (simp flip: power_add)
    have "m * 2 ^ (52 - e) < 2 ^ (e + 1) * 2 ^ (52 - e)"
      by (rule mult_strict_right_mono [OF e(2)]) simp
    also have "\<dots> = 2 * (2 ^ e * 2 ^ (52 - e))" by simp
    finally have "m * 2 ^ (52 - e) - 2 ^ 52 \<le> 2 ^ 52" unfolding p by simp
    moreover have "(e + 1023) * 2 ^ 52 \<le> 1075 * 2 ^ 52" using True by simp
    ultimately show ?thesis using True unfolding f64_round_def e_def [symmetric] Let_def by simp
  next
    case False
    let ?q = "m div 2 ^ (e - 52)"
    have "e + 1 = (e - 52) + 53" using False by simp
    then have p: "(2::nat) ^ (e + 1) = 2 ^ (e - 52) * 2 ^ 53" by (simp only: power_add)
    have q: "?q < 2 ^ 53" by (rule less_mult_imp_div_less) (use e(2) p in \<open>simp add: mult.commute\<close>)
    have "(e + 1023) * 2 ^ 52 \<le> 1086 * 2 ^ 52" using l by simp
    with q show ?thesis using False unfolding f64_round_def e_def [symmetric] Let_def
      by (auto split: if_splits)
  qed
qed

lemma unat_of_nat_64: "unat (word_of_nat k :: u64) = k" if "k < 2 ^ 64"
  using that by (simp add: unsigned_of_nat take_bit_nat_eq_self_iff)

lemma f64_of_int_unat:
  assumes "x \<noteq> 0" "\<bar>x\<bar> < 2 ^ 64"
  shows "unat (f64_of_int x) = (if x < 0 then 2 ^ 63 else 0) + f64_round (nat \<bar>x\<bar>)"
proof -
  have m: "0 < nat \<bar>x\<bar>" "nat \<bar>x\<bar> < 2 ^ 64" using assms by (auto simp: nat_less_iff)
  note l = f64_round_le [OF m]
  show ?thesis
  proof (cases "x < 0")
    case True
    have "unat (word_of_nat (2 ^ 63 + f64_round (nat \<bar>x\<bar>)) :: u64) = 2 ^ 63 + f64_round (nat \<bar>x\<bar>)"
      by (rule unat_of_nat_64) (use l in simp)
    with True show ?thesis by (simp only: f64_of_int_def if_True if_False) simp
  next
    case False
    have "unat (word_of_nat (f64_round (nat \<bar>x\<bar>)) :: u64) = f64_round (nat \<bar>x\<bar>)"
      by (rule unat_of_nat_64) (use l in simp)
    with False assms(1) show ?thesis by (simp add: f64_of_int_def)
  qed
qed

theorem f64_int_of_int:
  assumes "\<bar>x\<bar> < 2 ^ 53"
  shows "f64_int (f64_of_int x) = Some x" and "\<not> f64_is_nan (f64_of_int x)"
proof -
  have "f64_int (f64_of_int x) = Some x \<and> \<not> f64_is_nan (f64_of_int x)"
  proof (cases "x = 0")
    case True
    then show ?thesis
      by (simp add: f64_of_int_def f64_int_def f64_magnitude_def f64_is_zero_def f64_exponent_def
          f64_fraction_def f64_is_nan_def)
  next
    case False
    define m where "m = nat \<bar>x\<bar>"
    have m: "0 < m" "m < 2 ^ 53" using False assms by (auto simp: m_def nat_less_iff)
    note l = f64_round_less [OF m]
    let ?b = "f64_of_int x"
    have u: "unat ?b = (if x < 0 then 2 ^ 63 else 0) + f64_round m"
      using f64_of_int_unat [OF False] assms by (simp add: m_def)
    have r: "unat ?b mod 2 ^ 63 = f64_round m" using l by (simp add: u)
    have s: "f64_negative ?b = (x < 0)" using l by (simp add: f64_negative_def u)
    show ?thesis using f64_round_magnitude [OF m r] False by (simp add: f64_int_def s m_def)
  qed
  then show "f64_int (f64_of_int x) = Some x" and "\<not> f64_is_nan (f64_of_int x)" by simp_all
qed

end
