(* ===== verification/Any_Box.thy ===== *)
theory Any_Box
  imports F64_Int
begin

text \<open>
  Dynamic values (\<open>src/crates/torajs-anyvalue/src/nanbox.rs\<close> and the pair shims of
  \<open>nanbox_encode.rs\<close>): every JavaScript value is a 64-bit word, a double shifted by
  \<open>DOUBLE_ENCODE_OFFSET\<close>, a tagged 32-bit integer, a sentinel, an inline string of at most
  five bytes or the address of a heap cell. A double is its bits.

  The predicates read a word by its upper 16 bits; the lemmas compute them on each of the
  encodings, and from that the properties: the predicates classify every word, and a
  \<open>(tag, value)\<close> pair survives its encoding.
\<close>

section \<open>Constants\<close>

definition TAG_TYPE_NUMBER :: u64 where
  "TAG_TYPE_NUMBER = 0xFFFE000000000000"

definition DOUBLE_ENCODE_OFFSET :: u64 where
  "DOUBLE_ENCODE_OFFSET = 0x0007000000000000"

definition TAG_BIT_TYPE_OTHER :: u64 where
  "TAG_BIT_TYPE_OTHER = 0x0000000000000002"

definition TAG_BIT_BOOL :: u64 where
  "TAG_BIT_BOOL = 0x0000000000000004"

definition TAG_BIT_UNDEFINED :: u64 where
  "TAG_BIT_UNDEFINED = 0x0000000000000008"

definition VALUE_FALSE :: u64 where
  "VALUE_FALSE = TAG_BIT_TYPE_OTHER OR TAG_BIT_BOOL"

definition VALUE_TRUE :: u64 where
  "VALUE_TRUE = TAG_BIT_TYPE_OTHER OR TAG_BIT_BOOL OR 1"

definition VALUE_NULL :: u64 where
  "VALUE_NULL = TAG_BIT_TYPE_OTHER"

definition VALUE_UNDEFINED :: u64 where
  "VALUE_UNDEFINED = TAG_BIT_TYPE_OTHER OR TAG_BIT_UNDEFINED"

definition TOP_16_MASK :: u64 where
  "TOP_16_MASK = 0xFFFF000000000000"

definition SHORT_STR_TAG :: u64 where
  "SHORT_STR_TAG = 0x0001000000000000"

definition SHORT_STR_CAP :: nat where
  "SHORT_STR_CAP = 5"

text \<open>\<open>f64::NAN.to_bits()\<close>.\<close>

definition F64_NAN :: u64 where
  "F64_NAN = 0x7FF8000000000000"

section \<open>Predicates\<close>

definition is_int32 :: "u64 \<Rightarrow> bool" where
  "is_int32 v = (v AND TOP_16_MASK = TAG_TYPE_NUMBER)"

definition is_double :: "u64 \<Rightarrow> bool" where
  "is_double v = (v AND TAG_TYPE_NUMBER \<noteq> 0 \<and> \<not> is_int32 v)"

definition is_cell :: "u64 \<Rightarrow> bool" where
  "is_cell v = (v AND TOP_16_MASK = 0 \<and> v AND TAG_BIT_TYPE_OTHER = 0 \<and> v \<noteq> 0)"

definition is_short_str :: "u64 \<Rightarrow> bool" where
  "is_short_str v = (v AND TOP_16_MASK = SHORT_STR_TAG)"

definition is_null :: "u64 \<Rightarrow> bool" where
  "is_null v = (v = VALUE_NULL)"

definition is_undefined :: "u64 \<Rightarrow> bool" where
  "is_undefined v = (v = VALUE_UNDEFINED)"

definition is_bool :: "u64 \<Rightarrow> bool" where
  "is_bool v = (v AND NOT 1 = VALUE_FALSE)"

section \<open>Reading and building values\<close>

definition short_str_len :: "u64 \<Rightarrow> u8" where
  "short_str_len v = ucast (drop_bit 40 v AND 0xFF)"

definition short_str_bytes :: "u64 \<Rightarrow> u8 list" where
  "short_str_bytes v =
     (let payload = v AND 0x000000FFFFFFFFFF
      in [ucast payload, ucast (drop_bit 8 payload), ucast (drop_bit 16 payload),
          ucast (drop_bit 24 payload), ucast (drop_bit 32 payload)])"

text \<open>The bytes are or-ed in, the one at index \<open>i\<close> shifted by \<open>8 * i\<close>.\<close>

definition short_str_payload :: "u8 list \<Rightarrow> u64" where
  "short_str_payload bytes =
     foldl (\<lambda>payload (i, b). payload OR push_bit (i * 8) (ucast b)) 0 (enumerate 0 bytes)"

definition try_box_short_str :: "u8 list \<Rightarrow> u64 option" where
  "try_box_short_str bytes =
     (if length bytes > SHORT_STR_CAP then None
      else Some (SHORT_STR_TAG OR push_bit 40 (of_nat (length bytes)) OR short_str_payload bytes))"

definition as_int32 :: "u64 \<Rightarrow> u32" where
  "as_int32 v = ucast v"

definition as_double :: "u64 \<Rightarrow> u64" where
  "as_double v = v - DOUBLE_ENCODE_OFFSET"

definition as_bool :: "u64 \<Rightarrow> bool" where
  "as_bool v = (v AND 1 \<noteq> 0)"

definition box_int32 :: "u32 \<Rightarrow> u64" where
  "box_int32 x = TAG_TYPE_NUMBER OR ucast x"

definition box_double :: "u64 \<Rightarrow> u64" where
  "box_double x =
     (let encoded = x + DOUBLE_ENCODE_OFFSET
      in if \<not> is_double encoded then F64_NAN + DOUBLE_ENCODE_OFFSET else encoded)"

definition box_void_ptr :: "u64 \<Rightarrow> u64" where
  "box_void_ptr p = p"

definition box_bool :: "bool \<Rightarrow> u64" where
  "box_bool b = (if b then VALUE_TRUE else VALUE_FALSE)"

section \<open>Tagged pairs\<close>

text \<open>The slot tags: 0 null, 1 boolean, 2 i64, 3 f64, 4 heap, 5 undefined.\<close>

definition anyv_box_i64 :: "i64 \<Rightarrow> u64" where
  "anyv_box_i64 x =
     (if - (2 ^ 31) \<le> sint x \<and> sint x < 2 ^ 31 then box_int32 (ucast x)
      else box_double (f64_of_int (sint x)))"

definition anyv_box_from_pair :: "i64 \<Rightarrow> i64 \<Rightarrow> u64" where
  "anyv_box_from_pair t v =
     (if t = 0 then VALUE_NULL
      else if t = 1 then box_bool (v \<noteq> 0)
      else if t = 2 then anyv_box_i64 v
      else if t = 3 then box_double v
      else if t = 4 then (if v = 0 then VALUE_NULL else box_void_ptr v)
      else if t = 5 then VALUE_UNDEFINED
      else VALUE_NULL)"

definition anyv_unbox_tag :: "u64 \<Rightarrow> i64" where
  "anyv_unbox_tag v =
     (if is_int32 v then 2
      else if is_double v then 3
      else if is_null v then 0
      else if is_undefined v then 5
      else if is_bool v then 1
      else if is_short_str v \<or> is_cell v then 4
      else 5)"

text \<open>\<open>materialize\<close> is the allocation of a heap string for an inline one; its address is
  the answer.\<close>

definition anyv_unbox_value :: "(u64 \<Rightarrow> i64) \<Rightarrow> u64 \<Rightarrow> i64" where
  "anyv_unbox_value materialize v =
     (if is_int32 v then scast (as_int32 v)
      else if is_double v then as_double v
      else if is_null v \<or> is_undefined v then 0
      else if is_bool v then (if as_bool v then 1 else 0)
      else if is_short_str v then materialize v
      else if is_cell v then v
      else 0)"

section \<open>Upper bits\<close>

lemma and_not_mask: "v AND NOT (mask n) = push_bit n (drop_bit n v)" for v :: "'a::len word"
  by (rule bit_word_eqI) (auto simp: bit_simps dest: bit_imp_le_length)

abbreviation upper :: "u64 \<Rightarrow> nat" where
  "upper v \<equiv> unat v div 0x1000000000000"

lemma unat_drop: "unat (drop_bit n (v :: u64)) = unat v div 2 ^ n"
  unfolding unat_drop_bit_eq by (rule drop_bit_eq_div)

lemma unat_push_drop: "unat (push_bit n (drop_bit n (v :: u64))) = unat v div 2 ^ n * 2 ^ n"
proof -
  have "unat v div 2 ^ n * 2 ^ n \<le> unat v" by simp
  also have "\<dots> < 2 ^ 64" using unsigned_less [of v] by simp
  finally have "unat v div 2 ^ n * 2 ^ n < 2 ^ 64" .
  then show ?thesis
    unfolding unsigned_push_bit_eq unat_drop
    by (simp add: push_bit_eq_mult take_bit_nat_eq_self_iff)
qed

lemma top_16_mask: "TOP_16_MASK = NOT (mask 48)"
  by (simp add: TOP_16_MASK_def mask_eq_exp_minus_1)

lemma tag_type_number: "TAG_TYPE_NUMBER = NOT (mask 49)"
  by (simp add: TAG_TYPE_NUMBER_def mask_eq_exp_minus_1)

lemma top_16: "unat (v AND TOP_16_MASK) = upper v * 0x1000000000000"
  unfolding top_16_mask and_not_mask unat_push_drop by simp

lemma top_15: "unat (v AND TAG_TYPE_NUMBER) = upper v div 2 * 0x2000000000000"
  unfolding tag_type_number and_not_mask unat_push_drop by (simp add: div_mult2_eq [symmetric])

lemma is_int32_upper: "is_int32 v \<longleftrightarrow> upper v = 0xFFFE"
  unfolding is_int32_def word_unat_eq_iff top_16 by (simp add: TAG_TYPE_NUMBER_def)

lemma is_double_upper: "is_double v \<longleftrightarrow> 2 \<le> upper v \<and> upper v \<noteq> 0xFFFE"
  unfolding is_double_def is_int32_upper word_unat_eq_iff top_15 by auto

lemma is_short_str_upper: "is_short_str v \<longleftrightarrow> upper v = 1"
  unfolding is_short_str_def word_unat_eq_iff top_16 by (simp add: SHORT_STR_TAG_def)

lemma other_bit: "v AND TAG_BIT_TYPE_OTHER = 0 \<longleftrightarrow> \<not> bit v 1"
proof -
  have e: "TAG_BIT_TYPE_OTHER = 2 ^ 1" by (simp add: TAG_BIT_TYPE_OTHER_def)
  show ?thesis unfolding e by (rule and_exp_eq_0_iff_not_bit)
qed

lemma is_cell_upper: "is_cell v \<longleftrightarrow> upper v = 0 \<and> \<not> bit v 1 \<and> v \<noteq> 0"
  unfolding is_cell_def other_bit unfolding word_unat_eq_iff top_16 by auto

lemmas upper_simps = is_int32_upper is_double_upper is_short_str_upper is_cell_upper

lemmas value_defs = VALUE_NULL_def VALUE_UNDEFINED_def VALUE_TRUE_def VALUE_FALSE_def
  TAG_BIT_TYPE_OTHER_def TAG_BIT_BOOL_def TAG_BIT_UNDEFINED_def

lemma is_bool_iff: "is_bool v \<longleftrightarrow> v = VALUE_FALSE \<or> v = VALUE_TRUE"
proof
  assume "is_bool v"
  then have b: "v AND NOT 1 = VALUE_FALSE" by (simp add: is_bool_def)
  have "v = (v AND NOT 1) OR (v AND 1)" by (rule bit_word_eqI) (auto simp: bit_simps)
  then have "v = VALUE_FALSE OR v AND 1" unfolding b .
  moreover have "v AND 1 = 0 \<or> v AND 1 = 1" by (auto simp: and_one_eq)
  ultimately show "v = VALUE_FALSE \<or> v = VALUE_TRUE" by (auto simp: value_defs)
qed (auto simp: is_bool_def value_defs)

section \<open>The encodings\<close>

lemma upper_int32 [simp]: "upper (box_int32 x) = 0xFFFE"
proof -
  have "drop_bit 48 (box_int32 x) = drop_bit 48 TAG_TYPE_NUMBER"
    unfolding box_int32_def tag_type_number
    by (rule bit_word_eqI) (auto simp: bit_simps dest: bit_imp_le_length)
  then have "unat (drop_bit 48 (box_int32 x)) = unat (drop_bit 48 TAG_TYPE_NUMBER)" by simp
  then show ?thesis unfolding unat_drop by (simp add: TAG_TYPE_NUMBER_def)
qed

lemma as_box_int32 [simp]: "as_int32 (box_int32 x) = x"
  unfolding as_int32_def box_int32_def tag_type_number
  by (rule bit_word_eqI) (auto simp: bit_simps)

lemma as_box_double:
  "as_double (box_double x) = (if is_double (x + DOUBLE_ENCODE_OFFSET) then x else F64_NAN)"
  by (simp add: as_double_def box_double_def)

lemma box_double_double: "is_double (box_double x)"
proof (cases "is_double (x + DOUBLE_ENCODE_OFFSET)")
  case False
  then have "box_double x = F64_NAN + DOUBLE_ENCODE_OFFSET" by (simp add: box_double_def)
  then show ?thesis by (simp add: is_double_upper F64_NAN_def DOUBLE_ENCODE_OFFSET_def)
qed (simp add: box_double_def)

text \<open>Any double that is not a NaN is encoded as it is.\<close>

lemma double_range: "is_double (x + DOUBLE_ENCODE_OFFSET)" if "upper x \<noteq> 0xFFF7" "upper x < 0xFFF9"
proof -
  have "upper (x + DOUBLE_ENCODE_OFFSET) = upper x + 7"
    by (subst unat_plus_if_size) (use that in \<open>auto simp: DOUBLE_ENCODE_OFFSET_def word_size\<close>)
  then show ?thesis using that by (simp add: is_double_upper)
qed

lemma value_upper [simp]:
  "upper VALUE_NULL = 0" "upper VALUE_UNDEFINED = 0" "upper VALUE_TRUE = 0" "upper VALUE_FALSE = 0"
  by (simp_all add: value_defs)

lemma value_bit [simp]:
  "bit VALUE_NULL 1" "bit VALUE_UNDEFINED 1" "bit VALUE_TRUE 1" "bit VALUE_FALSE 1"
  by (simp_all add: value_defs)

lemma value_distinct [simp]:
  "VALUE_NULL \<noteq> VALUE_UNDEFINED" "VALUE_NULL \<noteq> VALUE_TRUE" "VALUE_NULL \<noteq> VALUE_FALSE"
  "VALUE_UNDEFINED \<noteq> VALUE_TRUE" "VALUE_UNDEFINED \<noteq> VALUE_FALSE" "VALUE_TRUE \<noteq> VALUE_FALSE"
  "VALUE_UNDEFINED \<noteq> VALUE_NULL"
  by (simp_all add: value_defs)

lemma value_not_boxed [simp]:
  "\<not> is_int32 VALUE_NULL" "\<not> is_int32 VALUE_UNDEFINED" "\<not> is_int32 VALUE_TRUE" "\<not> is_int32 VALUE_FALSE"
  "\<not> is_double VALUE_NULL" "\<not> is_double VALUE_UNDEFINED" "\<not> is_double VALUE_TRUE" "\<not> is_double VALUE_FALSE"
  by (simp_all add: upper_simps)

lemma is_int32_box [simp]: "is_int32 (box_int32 x)"
  by (simp add: is_int32_upper)

lemma is_int32_double [simp]: "is_double v \<Longrightarrow> \<not> is_int32 v"
  by (simp add: is_double_def)

text \<open>An integer of 32 bits is decoded with its sign.\<close>

lemma scast_ucast_32: "scast (ucast (x :: i64) :: u32) = x" if "- (2 ^ 31) \<le> sint x" "sint x < 2 ^ 31"
proof -
  have "signed_take_bit 31 (sint x) = sint x"
    by (rule signed_take_bit_int_eq_self) (use that in simp_all)
  then have "sint (ucast x :: u32) = sint x"
    by (simp add: sint_uint signed_take_bit_take_bit unsigned_ucast_eq)
  then show ?thesis by (simp add: scast_eq)
qed

section \<open>Properties\<close>

text \<open>The pair that comes back: an integer outside of 32 bits has become a double, a null
  pointer has become null, a boolean is 0 or 1, and a NaN whose encoding would collide is
  the canonical one.\<close>

definition decoded :: "i64 \<Rightarrow> i64 \<Rightarrow> i64 \<times> i64" where
  "decoded t v =
     (if t = 1 then (1, if v \<noteq> 0 then 1 else 0)
      else if t = 2 then (if - (2 ^ 31) \<le> sint v \<and> sint v < 2 ^ 31 then (2, v) else (3, f64_of_int (sint v)))
      else if t = 3 then (3, if is_double (v + DOUBLE_ENCODE_OFFSET) then v else F64_NAN)
      else if t = 4 then (if v = 0 then (0, 0) else (4, v))
      else if t = 5 then (5, 0)
      else (0, 0))"


lemma f64_of_int_double: "is_double (f64_of_int (sint x) + DOUBLE_ENCODE_OFFSET)" for x :: i64
proof (cases "sint x = 0")
  case True
  then show ?thesis by (simp add: f64_of_int_def is_double_upper DOUBLE_ENCODE_OFFSET_def)
next
  case False
  have r: "\<bar>sint x\<bar> \<le> 2 ^ 63" using sint_greater_eq [of x] sint_less [of x] by auto
  then have m: "0 < nat \<bar>sint x\<bar>" "nat \<bar>sint x\<bar> < 2 ^ 64" using False by (auto simp: nat_less_iff)
  have "unat (f64_of_int (sint x)) = (if sint x < 0 then 2 ^ 63 else 0) + f64_round (nat \<bar>sint x\<bar>)"
    by (rule f64_of_int_unat [OF False]) (use r in simp)
  also have "\<dots> \<le> 2 ^ 63 + 1087 * 2 ^ 52"
    by (rule add_mono [OF _ f64_round_le [OF m]]) simp
  finally have u: "unat (f64_of_int (sint x)) \<le> 2 ^ 63 + 1087 * 2 ^ 52" .
  show ?thesis by (rule double_range) (use u in simp_all)
qed

lemma unbox_box_pair:
  assumes "t = 4 \<Longrightarrow> v = 0 \<or> upper v = 0 \<and> \<not> bit v 1"
  shows "(anyv_unbox_tag (anyv_box_from_pair t v), anyv_unbox_value materialize (anyv_box_from_pair t v)) = decoded t v"
proof -
  have d: "anyv_unbox_tag (box_double x) = 3" "anyv_unbox_value materialize (box_double x) =
      (if is_double (x + DOUBLE_ENCODE_OFFSET) then x else F64_NAN)" for x
    using box_double_double [of x] by (simp_all add: anyv_unbox_tag_def anyv_unbox_value_def as_box_double)
  have b: "is_bool VALUE_TRUE" "is_bool VALUE_FALSE" by (simp_all add: is_bool_iff)
  have c: "upper v = 0 \<Longrightarrow> \<not> bit v 1 \<Longrightarrow> v \<noteq> VALUE_NULL \<and> v \<noteq> VALUE_UNDEFINED \<and> v \<noteq> VALUE_TRUE \<and> v \<noteq> VALUE_FALSE"
    using value_bit by metis
  have e: "anyv_unbox_tag (box_int32 x) = 2" "anyv_unbox_value materialize (box_int32 x) = scast x" for x
    by (simp_all add: anyv_unbox_tag_def anyv_unbox_value_def)
  consider "t = 0" | "t = 1" | "t = 2" | "t = 3" | "t = 4" | "t = 5" | "t \<notin> {0, 1, 2, 3, 4, 5}" by blast
  then show ?thesis
  proof cases
    case 3
    then show ?thesis
      by (simp add: anyv_box_from_pair_def anyv_box_i64_def decoded_def d e f64_of_int_double scast_ucast_32)
  next
    case 4
    then show ?thesis by (simp add: anyv_box_from_pair_def decoded_def d)
  next
    case 5
    then show ?thesis using assms c
      by (auto simp: anyv_box_from_pair_def decoded_def box_void_ptr_def anyv_unbox_tag_def anyv_unbox_value_def
          is_null_def is_undefined_def is_bool_iff upper_simps)
  qed (auto simp: anyv_box_from_pair_def decoded_def d b box_bool_def anyv_unbox_tag_def anyv_unbox_value_def
        is_null_def is_undefined_def as_bool_def, simp_all add: value_defs)
qed

text \<open>C35: encoding a \<open>(tag, value)\<close> pair and decoding it gives the pair back, normalised as
  \<open>decoded\<close> says. The address of a cell has its upper 16 bits and its bit 1 clear.\<close>

theorem pair_roundtrip:
  assumes "t = 4 \<Longrightarrow> v = 0 \<or> upper v = 0 \<and> \<not> bit v 1"
  shows "(anyv_unbox_tag (anyv_box_from_pair t v), anyv_unbox_value materialize (anyv_box_from_pair t v)) = decoded t v"
  using unbox_box_pair [where t = t and v = v and materialize = materialize] assms by blast

theorem pair_roundtrip_witness:
  "(anyv_unbox_tag (anyv_box_from_pair 4 0x10002000), anyv_unbox_value (\<lambda>v. v) (anyv_box_from_pair 4 0x10002000))
     = (4, 0x10002000)"
  using pair_roundtrip [of 4 "0x10002000" "\<lambda>v. v"] by (simp add: decoded_def)


lemma one_kind:
  "length (filter (\<lambda>is. is v) [is_int32, is_double, is_cell, is_short_str, is_null, is_undefined, is_bool]) \<le> 1"
proof -
  have n: "is_null v \<Longrightarrow> upper v = 0 \<and> bit v 1" "is_undefined v \<Longrightarrow> upper v = 0 \<and> bit v 1"
    "is_bool v \<Longrightarrow> upper v = 0 \<and> bit v 1"
    by (auto simp: is_null_def is_undefined_def is_bool_iff value_defs)
  have x: "\<not> (is_null v \<and> is_undefined v)" "\<not> (is_null v \<and> is_bool v)" "\<not> (is_undefined v \<and> is_bool v)"
    by (auto simp: is_null_def is_undefined_def is_bool_iff)
  show ?thesis
  proof (cases "upper v = 0 \<and> bit v 1")
    case True
    then have "\<not> is_int32 v" "\<not> is_double v" "\<not> is_cell v" "\<not> is_short_str v" by (simp_all add: upper_simps)
    with x show ?thesis by auto
  next
    case False
    with n have f: "\<not> is_null v" "\<not> is_undefined v" "\<not> is_bool v" by blast+
    consider "upper v = 0xFFFE" | "upper v = 0" | "upper v = 1" | "2 \<le> upper v" "upper v \<noteq> 0xFFFE" by linarith
    then show ?thesis
    proof cases
      case 1
      then have "is_int32 v" "\<not> is_double v" "\<not> is_cell v" "\<not> is_short_str v" by (simp_all add: upper_simps)
      with f show ?thesis by simp
    next
      case 2
      then have "\<not> is_int32 v" "\<not> is_double v" "\<not> is_short_str v" by (simp_all add: upper_simps)
      with f show ?thesis by simp
    next
      case 3
      then have "\<not> is_int32 v" "\<not> is_double v" "\<not> is_cell v" "is_short_str v" by (simp_all add: upper_simps)
      with f show ?thesis by simp
    next
      case 4
      then have "\<not> is_int32 v" "is_double v" "\<not> is_cell v" "\<not> is_short_str v" by (simp_all add: upper_simps)
      with f show ?thesis by simp
    qed
  qed
qed

section \<open>Inline strings\<close>

lemma short_str_payload_simps [simp]:
  "short_str_payload [] = 0"
  "short_str_payload [a] = ucast a"
  "short_str_payload [a, b] = ucast a OR push_bit 8 (ucast b)"
  "short_str_payload [a, b, c] = ucast a OR push_bit 8 (ucast b) OR push_bit 16 (ucast c)"
  "short_str_payload [a, b, c, d] =
     ucast a OR push_bit 8 (ucast b) OR push_bit 16 (ucast c) OR push_bit 24 (ucast d)"
  "short_str_payload [a, b, c, d, e] =
     ucast a OR push_bit 8 (ucast b) OR push_bit 16 (ucast c) OR push_bit 24 (ucast d) OR push_bit 32 (ucast e)"
  by (simp_all add: short_str_payload_def enumerate_eq_zip upt_rec or.assoc numeral_nat)

lemma length_le_5:
  assumes "length xs \<le> 5"
  obtains "xs = []" | a where "xs = [a]" | a b where "xs = [a, b]" | a b c where "xs = [a, b, c]"
    | a b c d where "xs = [a, b, c, d]" | a b c d e where "xs = [a, b, c, d, e]"
proof -
  have "length xs = 0 \<or> length xs = 1 \<or> length xs = 2 \<or> length xs = 3 \<or> length xs = 4 \<or> length xs = 5"
    using assms by linarith
  then show thesis
    using that by (auto simp: numeral_nat length_Suc_conv)
qed

text \<open>The layout of an inline string: five bytes, the length above them, then the tag.\<close>

lemma short_str_layout:
  fixes n :: u64 and a b c d e :: u8
  assumes "unat n < 8"
  defines "v \<equiv> SHORT_STR_TAG OR push_bit 40 n OR
    (ucast a OR push_bit 8 (ucast b) OR push_bit 16 (ucast c) OR push_bit 24 (ucast d) OR push_bit 32 (ucast e))"
  shows "is_short_str v" "short_str_len v = ucast n" "short_str_bytes v = [a, b, c, d, e]"
proof -
  have "take_bit 3 n = n" using assms(1) by (simp add: word_unat_eq_iff unsigned_take_bit_eq take_bit_nat_eq_self_iff)
  then have n: "bit n k \<Longrightarrow> k < 3" for k by (metis bit_take_bit_iff)
  have e: "SHORT_STR_TAG = 2 ^ 48" by (simp add: SHORT_STR_TAG_def)
  have t: "bit SHORT_STR_TAG k \<longleftrightarrow> k = 48" for k unfolding e bit_exp_iff by auto
  have m: "(0xFF :: u64) = mask 8" "(0x000000FFFFFFFFFF :: u64) = mask 40"
    by (simp_all add: mask_eq_exp_minus_1)
  have b8: "bit x k \<Longrightarrow> k < 8" for x :: u8 and k by (auto dest: bit_imp_le_length)
  then have o: "8 \<le> k \<Longrightarrow> \<not> bit x k" for x :: u8 and k by force
  have "v AND TOP_16_MASK = SHORT_STR_TAG"
    unfolding v_def top_16_mask
    by (rule bit_word_eqI) (auto simp: bit_simps t dest: n b8)
  then show "is_short_str v" by (simp add: is_short_str_def)
  show "short_str_len v = ucast n"
    unfolding short_str_len_def v_def m
    by (rule bit_word_eqI) (auto simp: bit_simps t dest: n b8)
  show "short_str_bytes v = [a, b, c, d, e]"
    unfolding short_str_bytes_def v_def m Let_def
    by (auto intro!: bit_word_eqI simp: bit_simps t o dest: n b8)
qed

text \<open>a string of at most five bytes is encoded without a heap cell and read back, length
  and bytes; a longer one is not encoded.\<close>

theorem short_str_roundtrip:
  "case try_box_short_str bytes of
     None \<Rightarrow> SHORT_STR_CAP < length bytes
   | Some v \<Rightarrow> is_short_str v \<and> unat (short_str_len v) = length bytes \<and>
       take (unat (short_str_len v)) (short_str_bytes v) = bytes"
proof (cases "length bytes \<le> 5")
  case True
  have z: "push_bit k (ucast (0 :: u8)) = (0 :: u64)" for k by simp
  note l = short_str_layout
  from True show ?thesis
  proof (cases rule: length_le_5)
    case 1 then show ?thesis using l [of 0 0 0 0 0 0] by (simp add: try_box_short_str_def SHORT_STR_CAP_def)
  next
    case (2 a) then show ?thesis using l [of 1 a 0 0 0 0] by (simp add: try_box_short_str_def SHORT_STR_CAP_def)
  next
    case (3 a b) then show ?thesis using l [of 2 a b 0 0 0] by (simp add: try_box_short_str_def SHORT_STR_CAP_def)
  next
    case (4 a b c) then show ?thesis using l [of 3 a b c 0 0] by (simp add: try_box_short_str_def SHORT_STR_CAP_def)
  next
    case (5 a b c d) then show ?thesis using l [of 4 a b c d 0] by (simp add: try_box_short_str_def SHORT_STR_CAP_def)
  next
    case (6 a b c d e) then show ?thesis using l [of 5 a b c d e] by (simp add: try_box_short_str_def SHORT_STR_CAP_def)
  qed
qed (simp add: try_box_short_str_def SHORT_STR_CAP_def)

section \<open>Classification\<close>

text \<open>The answers of the predicates on a word, in the order integer, double, cell, inline string,
  null, undefined, boolean.\<close>

definition kinds :: "u64 \<Rightarrow> bool list" where
  "kinds v = map (\<lambda>is. is v) [is_int32, is_double, is_cell, is_short_str, is_null, is_undefined, is_bool]"

lemma aligned_address:
  fixes a :: u64
  assumes "0 < unat a" "unat a < 2 ^ 48" "8 dvd unat a"
  shows "upper a = 0" "\<not> bit a 1" "a \<noteq> 0"
proof -
  show "upper a = 0" "a \<noteq> 0" using assms(1,2) by auto
  have "even (unat a div 2)" using assms(3) by (auto elim!: dvdE)
  then have "\<not> bit (unat a) 1" by (simp add: bit_iff_odd)
  then show "\<not> bit a 1" by (simp add: bit_unsigned_iff)
qed

text \<open>C36: The predicates partition the values. No word is of two kinds; each boxing function lands in
  its kind and in no other, whatever it is given: integers, doubles (NaNs included), booleans, null,
  undefined, the address of a cell (8-aligned, below \<open>2 ^ 48\<close>) and texts of at most five
  bytes.\<close>

theorem value_classified:
  assumes "0 < unat a" "unat a < 2 ^ 48" "8 dvd unat a" "length bytes \<le> 5"
  shows "length (filter id (kinds v)) \<le> 1 \<and>
    kinds (box_int32 i) = [True, False, False, False, False, False, False] \<and>
    kinds (box_double x) = [False, True, False, False, False, False, False] \<and>
    kinds (box_void_ptr a) = [False, False, True, False, False, False, False] \<and>
    (\<exists>w. try_box_short_str bytes = Some w \<and> kinds w = [False, False, False, True, False, False, False]) \<and>
    kinds VALUE_NULL = [False, False, False, False, True, False, False] \<and>
    kinds VALUE_UNDEFINED = [False, False, False, False, False, True, False] \<and>
    kinds (box_bool b) = [False, False, False, False, False, False, True]"
proof -
  have one: "length (filter id (kinds w)) \<le> 1" for w
    using one_kind [of w] by (simp add: kinds_def comp_def split: if_splits)
  have only: "kinds w = map (\<lambda>j. j = k) [0..<7]" if "k < 7" "kinds w ! k" for w k
  proof (rule nth_equalityI)
    have len: "length (kinds w) = 7" by (simp add: kinds_def)
    then show "length (kinds w) = length (map (\<lambda>j. j = k) [0..<7])" by simp
    fix j assume "j < length (kinds w)"
    then have j: "j < 7" using len by simp
    have "j = k" if "kinds w ! j"
    proof (rule ccontr)
      assume "j \<noteq> k"
      then have "{j, k} \<subseteq> {n. n < length (kinds w) \<and> id (kinds w ! n)}" using that \<open>kinds w ! k\<close> j \<open>k < 7\<close> len by auto
      then have "card {j, k} \<le> length (filter id (kinds w))" unfolding length_filter_conv_card by (rule card_mono [rotated]) simp
      then show False using one [of w] \<open>j \<noteq> k\<close> by simp
    qed
    then show "kinds w ! j = map (\<lambda>j. j = k) [0..<7] ! j" using j \<open>kinds w ! k\<close> by auto
  qed
  have ptr: "is_cell (box_void_ptr a)" using aligned_address [OF assms(1-3)] by (simp add: box_void_ptr_def is_cell_upper)
  obtain w where w: "try_box_short_str bytes = Some w" "is_short_str w"
    using short_str_roundtrip [of bytes] assms(4) by (auto simp: SHORT_STR_CAP_def split: option.splits)
  have "kinds (box_int32 i) ! 0" "kinds (box_double x) ! 1" "kinds (box_void_ptr a) ! 2" "kinds w ! 3"
    "kinds VALUE_NULL ! 4" "kinds VALUE_UNDEFINED ! 5" "kinds (box_bool b) ! 6"
    using ptr w(2) box_double_double by (simp_all add: kinds_def is_null_def is_undefined_def is_bool_iff box_bool_def)
  note k = only [OF _ this(1)] only [OF _ this(2)] only [OF _ this(3)] only [OF _ this(4)]
    only [OF _ this(5)] only [OF _ this(6)] only [OF _ this(7)]
  show ?thesis using one w(1) k by (simp add: upt_rec)
qed

theorem value_classified_witness:
  "kinds (box_void_ptr 0x1000) = [False, False, True, False, False, False, False] \<and>
   (\<exists>w. try_box_short_str [104, 105] = Some w \<and> kinds w = [False, False, False, True, False, False, False])"
  using value_classified [of "0x1000" "[104, 105]" 0 0 0 True] by simp

end
