(* ===== verification/Map_Key.thy ===== *)
theory Map_Key
  imports Any_Box
begin

text \<open>
  The keys of \<open>Map\<close> and \<open>Set\<close> (\<open>src/crates/torajs-collections/src\<close>: \<open>hash.rs\<close>,
  \<open>eq.rs\<close>, \<open>key_decode.rs\<close>): a \<open>(tag, payload)\<close> pair is hashed and compared by
  SameValueZero. The heap is a function from addresses to cells; a string cell is its code
  units, whatever their encoding in memory.

  \<open>key_class\<close> is the JavaScript value a pair stands for. The properties: two pairs are
  equal exactly if they stand for the same value, and then have the same hash.
\<close>

section \<open>Cells and tags\<close>

datatype heap_cell = StrCell "u16 list" | BigIntCell u32 "u64 list" | OtherCell u16

type_synonym heap = "u64 \<Rightarrow> heap_cell"

definition TAG_STR :: u16 where "TAG_STR = 0"
definition TAG_BIGINT :: u16 where "TAG_BIGINT = 10"

fun type_tag :: "heap_cell \<Rightarrow> u16" where
  "type_tag (StrCell _) = TAG_STR"
| "type_tag (BigIntCell _ _) = TAG_BIGINT"
| "type_tag (OtherCell t) = t"

definition ANY_NULL :: u8 where "ANY_NULL = 0"
definition ANY_BOOL :: u8 where "ANY_BOOL = 1"
definition ANY_I64 :: u8 where "ANY_I64 = 2"
definition ANY_F64 :: u8 where "ANY_F64 = 3"
definition ANY_HEAP :: u8 where "ANY_HEAP = 4"
definition ANY_UNDEF :: u8 where "ANY_UNDEF = 5"

lemmas any_defs = ANY_NULL_def ANY_BOOL_def ANY_I64_def ANY_F64_def ANY_HEAP_def ANY_UNDEF_def

section \<open>Hashing\<close>

definition map_mix_u64 :: "u64 \<Rightarrow> u32" where
  "map_mix_u64 x =
     (let x = x XOR drop_bit 33 x;
          x = x * 0xff51afd7ed558ccd;
          x = x XOR drop_bit 33 x;
          x = x * 0xc4ceb9fe1a85ec53;
          x = x XOR drop_bit 33 x
      in ucast x)"

definition map_hash_bytes :: "u8 list \<Rightarrow> u32" where
  "map_hash_bytes bytes =
     map_mix_u64 (fold (\<lambda>b h. (h XOR ucast b) * 0x100000001b3) bytes 0xcbf29ce484222325)"

text \<open>The content hash of a string folds over its code units in either encoding.\<close>

definition str_hash :: "u16 list \<Rightarrow> u64" where
  "str_hash units = fold (\<lambda>c h. (h XOR ucast c) * 0x100000001b3) units 0xcbf29ce484222325"

text \<open>The limbs of a BigInt in memory.\<close>

definition limb_bytes :: "u64 list \<Rightarrow> u8 list" where
  "limb_bytes ws = concat (map (\<lambda>w. map (\<lambda>i. ucast (drop_bit (8 * i) w)) [0..<8]) ws)"

definition f64_as_exact_i64 :: "u64 \<Rightarrow> i64 option" where
  "f64_as_exact_i64 d =
     (case f64_int d of
        Some x \<Rightarrow> if - (2 ^ 63) \<le> x \<and> x < 2 ^ 63 then Some (word_of_int x) else None
      | None \<Rightarrow> None)"

definition map_hash_key :: "heap \<Rightarrow> u8 \<Rightarrow> u64 \<Rightarrow> u32" where
  "map_hash_key heap tag payload =
     (let h = (if tag = ANY_NULL then 0xa5a5a5a5
               else if tag = ANY_UNDEF then 0x5a5a5a5a
               else if tag = ANY_BOOL then map_mix_u64 (payload XOR 0xb001)
               else if tag = ANY_I64 then map_mix_u64 (payload XOR 0xa11)
               else if tag = ANY_F64 then
                 (if f64_is_nan payload then 0xdeadbeef
                  else case f64_as_exact_i64 payload of
                         Some i \<Rightarrow> map_mix_u64 (i XOR 0xa11)
                       | None \<Rightarrow> map_mix_u64 (payload XOR 0xa11))
               else if tag = ANY_HEAP then
                 (if payload = 0 then 0x12345678
                  else case heap payload of
                         StrCell units \<Rightarrow> map_mix_u64 (str_hash units)
                       | BigIntCell sign ws \<Rightarrow>
                           (let limbs = map_hash_bytes (limb_bytes ws)
                            in map_mix_u64 (ucast limbs XOR push_bit 32 (ucast sign) XOR 0xb16))
                       | OtherCell _ \<Rightarrow> map_mix_u64 (payload XOR 0xf00d))
               else map_mix_u64 (payload XOR 0xbad))
      in if h = 0 then 1 else h)"

section \<open>Equality\<close>

definition bigint_values_equal :: "u32 \<Rightarrow> u64 list \<Rightarrow> u32 \<Rightarrow> u64 list \<Rightarrow> bool" where
  "bigint_values_equal sign_a wa sign_b wb =
     (if sign_a \<noteq> sign_b then False
      else if length wa \<noteq> length wb then False
      else list_all (\<lambda>i. wa ! i = wb ! i) [0..<length wa])"

definition map_keys_equal :: "heap \<Rightarrow> u8 \<Rightarrow> u64 \<Rightarrow> u8 \<Rightarrow> u64 \<Rightarrow> bool" where
  "map_keys_equal heap ta pa tb pb =
     (if ta \<noteq> tb then
        (if ta = ANY_I64 \<and> tb = ANY_F64 then f64_as_exact_i64 pb = Some pa
         else if ta = ANY_F64 \<and> tb = ANY_I64 then f64_as_exact_i64 pa = Some pb
         else False)
      else if ta = ANY_NULL \<or> ta = ANY_UNDEF then True
      else if ta = ANY_BOOL \<or> ta = ANY_I64 then pa = pb
      else if ta = ANY_F64 then
        (if f64_is_nan pa then f64_is_nan pb
         else if f64_is_nan pb then False
         else f64_eq pa pb)
      else if ta = ANY_HEAP then
        (if pa = pb then True
         else if pa = 0 \<or> pb = 0 then False
         else if type_tag (heap pa) \<noteq> type_tag (heap pb) then False
         else case (heap pa, heap pb) of
                (StrCell a, StrCell b) \<Rightarrow> a = b
              | (BigIntCell sign_a wa, BigIntCell sign_b wb) \<Rightarrow> bigint_values_equal sign_a wa sign_b wb
              | _ \<Rightarrow> False)
      else pa = pb)"

section \<open>Stored pairs\<close>

definition stored_pair :: "(u64 \<Rightarrow> i64) \<Rightarrow> u64 \<Rightarrow> u8 \<times> u64" where
  "stored_pair materialize v =
     (let top = v AND TOP_16_MASK
      in if top = TAG_TYPE_NUMBER then (ANY_I64, scast (ucast v :: u32))
         else if v AND TAG_TYPE_NUMBER \<noteq> 0 then (ANY_F64, v - DOUBLE_ENCODE_OFFSET)
         else if top = 0 \<and> v AND TAG_BIT_TYPE_OTHER = 0 \<and> v \<noteq> 0 then (ANY_HEAP, v)
         else if v = VALUE_NULL \<or> v = 0 then (ANY_NULL, 0)
         else if v = VALUE_UNDEFINED then (ANY_UNDEF, 0)
         else if v AND NOT 1 = VALUE_FALSE then (ANY_BOOL, v AND 1)
         else (ucast (anyv_unbox_tag v), anyv_unbox_value materialize v))"

section \<open>The value of a key\<close>

datatype js_key =
    JNull | JUndef | JBool u64 | JInt i64 | JNaN | JDouble u64
  | JStr "u16 list" | JBigInt u32 "u64 list" | JNoRef | JRef u64 | JOther u8 u64

definition key_class :: "heap \<Rightarrow> u8 \<Rightarrow> u64 \<Rightarrow> js_key" where
  "key_class heap tag payload =
     (if tag = ANY_NULL then JNull
      else if tag = ANY_UNDEF then JUndef
      else if tag = ANY_BOOL then JBool payload
      else if tag = ANY_I64 then JInt payload
      else if tag = ANY_F64 then
        (if f64_is_nan payload then JNaN
         else case f64_as_exact_i64 payload of Some i \<Rightarrow> JInt i | None \<Rightarrow> JDouble payload)
      else if tag = ANY_HEAP then
        (if payload = 0 then JNoRef
         else case heap payload of
                StrCell units \<Rightarrow> JStr units
              | BigIntCell sign ws \<Rightarrow> JBigInt sign ws
              | OtherCell _ \<Rightarrow> JRef payload)
      else JOther tag payload)"

fun class_hash :: "js_key \<Rightarrow> u32" where
  "class_hash JNull = 0xa5a5a5a5"
| "class_hash JUndef = 0x5a5a5a5a"
| "class_hash (JBool b) = map_mix_u64 (b XOR 0xb001)"
| "class_hash (JInt i) = map_mix_u64 (i XOR 0xa11)"
| "class_hash JNaN = 0xdeadbeef"
| "class_hash (JDouble d) = map_mix_u64 (d XOR 0xa11)"
| "class_hash (JStr units) = map_mix_u64 (str_hash units)"
| "class_hash (JBigInt sign ws) =
     map_mix_u64 (ucast (map_hash_bytes (limb_bytes ws)) XOR push_bit 32 (ucast sign) XOR 0xb16)"
| "class_hash JNoRef = 0x12345678"
| "class_hash (JRef p) = map_mix_u64 (p XOR 0xf00d)"
| "class_hash (JOther _ p) = map_mix_u64 (p XOR 0xbad)"

lemma map_hash_class:
  "map_hash_key heap tag payload = (let h = class_hash (key_class heap tag payload) in if h = 0 then 1 else h)"
  by (simp add: map_hash_key_def key_class_def Let_def any_defs split: option.split heap_cell.split)

lemma map_hash_nonzero: "map_hash_key heap tag payload \<noteq> 0"
  by (simp add: map_hash_key_def Let_def)

lemma bigint_values_equal_iff: "bigint_values_equal s a t b \<longleftrightarrow> s = t \<and> a = b"
  by (auto simp: bigint_values_equal_def list_all_iff intro: nth_equalityI)


text \<open>Doubles that are the same integer are equal: the magnitude determines the exponent and
  the fraction.\<close>

lemma f64_split: "unat b = (if f64_negative b then 2 ^ 63 else 0) + f64_exponent b * 2 ^ 52 + f64_fraction b"
proof -
  have l: "unat b < 2 ^ 64" using unsigned_less [of b] by simp
  have "unat b div 2 ^ 52 = 2048 * (unat b div 2 ^ 63) + f64_exponent b"
    using div_mod_decomp [of "unat b div 2 ^ 52" 2048]
    by (simp add: f64_exponent_def div_mult2_eq [symmetric])
  moreover have "unat b div 2 ^ 63 = (if f64_negative b then 1 else 0)"
    using l by (auto simp: f64_negative_def div_eq_0_iff intro!: div_nat_eqI)
  moreover have "unat b = unat b div 2 ^ 52 * 2 ^ 52 + f64_fraction b"
    unfolding f64_fraction_def by (rule div_mod_decomp)
  ultimately show ?thesis by (auto split: if_splits)
qed

lemma f64_magnitude_Some:
  assumes "f64_magnitude b = Some m" "\<not> f64_is_zero b"
  shows "0 < m" and "2 ^ (f64_exponent b - 1023) \<le> m" "m < 2 ^ (f64_exponent b - 1022)" "1023 \<le> f64_exponent b"
    and "m * 2 ^ 52 = (2 ^ 52 + f64_fraction b) * 2 ^ (f64_exponent b - 1023)"
proof -
  let ?e = "f64_exponent b" and ?M = "2 ^ 52 + f64_fraction b"
  have M: "2 ^ 52 \<le> ?M" "?M < 2 ^ 53" by (simp_all add: f64_fraction_def)
  show e: "1023 \<le> ?e" using assms by (auto simp: f64_magnitude_def Let_def split: if_splits)
  show eq: "m * 2 ^ 52 = ?M * 2 ^ (?e - 1023)"
  proof (cases "1075 \<le> ?e")
    case True
    then have "m = ?M * 2 ^ (?e - 1075)" using assms by (auto simp: f64_magnitude_def Let_def split: if_splits)
    moreover have "?e - 1023 = (?e - 1075) + 52" using True by simp
    ultimately show ?thesis by (simp only: power_add mult.assoc)
  next
    case False
    then have d: "?M mod 2 ^ (1075 - ?e) = 0" "m = ?M div 2 ^ (1075 - ?e)"
      using assms by (auto simp: f64_magnitude_def Let_def split: if_splits)
    then have "?M = m * 2 ^ (1075 - ?e)" by (metis add_0_right div_mult_mod_eq)
    moreover have "52 = (1075 - ?e) + (?e - 1023)" using False e by simp
    ultimately show ?thesis by (metis (no_types) mult.assoc power_add)
  qed
  have "2 ^ (?e - 1023) * 2 ^ 52 \<le> m * 2 ^ 52"
    unfolding eq using M(1) by (metis mult.commute mult_le_mono1)
  then show "2 ^ (?e - 1023) \<le> m" by simp
  then show "0 < m" by (metis gr0I le_zero_eq power_not_zero zero_neq_numeral)
  have "m * 2 ^ 52 < 2 ^ 53 * 2 ^ (?e - 1023)"
    unfolding eq by (rule mult_strict_right_mono [OF M(2)]) simp
  also have "\<dots> = 2 ^ (?e - 1022) * 2 ^ 52"
  proof -
    have "53 + (?e - 1023) = (?e - 1022) + 52" using e by simp
    then show ?thesis by (metis power_add)
  qed
  finally show "m < 2 ^ (?e - 1022)" by simp
qed

lemma f64_int_inject:
  assumes "f64_int a = Some x" "f64_int b = Some x"
  shows "f64_eq a b"
proof -
  have n: "\<not> f64_is_nan c" if "f64_int c = Some x" for c
    using that by (auto simp: f64_int_def f64_magnitude_def f64_is_nan_def Let_def split: if_splits)
  have z: "f64_is_zero c \<longleftrightarrow> x = 0" if "f64_int c = Some x" for c
  proof
    assume "f64_is_zero c"
    then have "f64_magnitude c = Some 0" by (simp add: f64_magnitude_def f64_is_zero_def)
    then show "x = 0" using that by (auto simp: f64_int_def split: if_splits)
  next
    assume "x = 0"
    then have "f64_magnitude c = Some 0" using that by (auto simp: f64_int_def split: if_splits)
    then show "f64_is_zero c" using f64_magnitude_Some(1) [of c 0] by blast
  qed
  show ?thesis
  proof (cases "x = 0")
    case True
    then show ?thesis using n z assms by (simp add: f64_eq_def)
  next
    case False
    obtain m k where m: "f64_magnitude a = Some m" and k: "f64_magnitude b = Some k"
      using assms by (auto simp: f64_int_def)
    have za: "\<not> f64_is_zero a" and zb: "\<not> f64_is_zero b" using z assms False by auto
    note A = f64_magnitude_Some [OF m za] and B = f64_magnitude_Some [OF k zb]
    have s: "f64_negative a = f64_negative b" and mk: "m = k"
      using assms m k A(1) B(1) by (auto simp: f64_int_def split: if_splits)
    have "f64_exponent a = f64_exponent b"
    proof -
      have "(2::nat) ^ (f64_exponent a - 1023) < 2 ^ (f64_exponent b - 1022)"
        "(2::nat) ^ (f64_exponent b - 1023) < 2 ^ (f64_exponent a - 1022)"
        using A(2,3) B(2,3) unfolding mk by (metis le_less_trans)+
      then have "f64_exponent a - 1023 < f64_exponent b - 1022" "f64_exponent b - 1023 < f64_exponent a - 1022"
        by simp_all
      then show ?thesis using A(4) B(4) by linarith
    qed
    moreover from this have "f64_fraction a = f64_fraction b" using A(5) B(5) mk by simp
    ultimately have "unat a = unat b" using s by (simp add: f64_split [of a] f64_split [of b])
    then have "a = b" by (simp add: word_unat_eq_iff)
    then show ?thesis using n assms by (simp add: f64_eq_def)
  qed
qed

lemma f64_exact_Some: "f64_as_exact_i64 d = Some i \<longleftrightarrow> f64_int d = Some (sint i)"
proof
  assume "f64_as_exact_i64 d = Some i"
  then obtain x where x: "f64_int d = Some x" "- (2 ^ 63) \<le> x" "x < 2 ^ 63" "word_of_int x = i"
    by (auto simp: f64_as_exact_i64_def split: option.splits if_splits)
  have "sint i = signed_take_bit 63 x" by (simp add: signed_of_int flip: x(4))
  also have "\<dots> = x" by (rule signed_take_bit_int_eq_self) (use x in simp_all)
  finally show "f64_int d = Some (sint i)" using x by simp
next
  assume "f64_int d = Some (sint i)"
  then show "f64_as_exact_i64 d = Some i"
    using sint_greater_eq [of i] sint_less [of i] by (simp add: f64_as_exact_i64_def)
qed

lemma f64_zero_exact: "f64_is_zero d \<Longrightarrow> f64_as_exact_i64 d = Some 0"
  by (simp add: f64_exact_Some f64_int_def f64_magnitude_def f64_is_zero_def)

lemma f64_exact_not_nan: "f64_as_exact_i64 d = Some i \<Longrightarrow> \<not> f64_is_nan d"
  by (auto simp: f64_exact_Some f64_int_def f64_magnitude_def f64_is_nan_def Let_def split: if_splits)

lemma f64_class_eq:
  assumes "\<not> f64_is_nan a" "\<not> f64_is_nan b"
  shows "f64_eq a b \<longleftrightarrow> (case f64_as_exact_i64 a of Some i \<Rightarrow> JInt i | None \<Rightarrow> JDouble a) =
    (case f64_as_exact_i64 b of Some i \<Rightarrow> JInt i | None \<Rightarrow> JDouble b)"
proof
  assume "f64_eq a b"
  then consider "a = b" | "f64_is_zero a" "f64_is_zero b" by (auto simp: f64_eq_def)
  then show "(case f64_as_exact_i64 a of Some i \<Rightarrow> JInt i | None \<Rightarrow> JDouble a) =
    (case f64_as_exact_i64 b of Some i \<Rightarrow> JInt i | None \<Rightarrow> JDouble b)"
    by cases (simp_all add: f64_zero_exact split: option.split)
next
  assume e: "(case f64_as_exact_i64 a of Some i \<Rightarrow> JInt i | None \<Rightarrow> JDouble a) =
    (case f64_as_exact_i64 b of Some i \<Rightarrow> JInt i | None \<Rightarrow> JDouble b)"
  show "f64_eq a b"
  proof (cases "f64_as_exact_i64 a")
    case None
    with e have "a = b" by (auto split: option.splits)
    then show ?thesis using assms by (simp add: f64_eq_def)
  next
    case (Some i)
    with e have "f64_as_exact_i64 b = Some i" by (auto split: option.splits)
    with Some show ?thesis by (auto simp: f64_exact_Some intro: f64_int_inject)
  qed
qed

text \<open>Only the two number tags share values.\<close>

fun class_tag :: "js_key \<Rightarrow> u8" where
  "class_tag JNull = ANY_NULL"
| "class_tag JUndef = ANY_UNDEF"
| "class_tag (JBool _) = ANY_BOOL"
| "class_tag (JInt _) = ANY_I64"
| "class_tag JNaN = ANY_I64"
| "class_tag (JDouble _) = ANY_I64"
| "class_tag (JStr _) = ANY_HEAP"
| "class_tag (JBigInt _ _) = ANY_HEAP"
| "class_tag JNoRef = ANY_HEAP"
| "class_tag (JRef _) = ANY_HEAP"
| "class_tag (JOther t _) = t"

lemma class_tag_key: "class_tag (key_class heap tag p) = (if tag = ANY_F64 then ANY_I64 else tag)"
  by (simp add: key_class_def any_defs split: option.split heap_cell.split)

lemma key_class_num:
  "key_class heap ANY_I64 p = JInt p"
  "key_class heap ANY_F64 p =
     (if f64_is_nan p then JNaN else case f64_as_exact_i64 p of Some i \<Rightarrow> JInt i | None \<Rightarrow> JDouble p)"
  by (simp_all add: key_class_def any_defs)

lemma keys_equal_num:
  "map_keys_equal heap ANY_I64 pa ANY_F64 pb \<longleftrightarrow> key_class heap ANY_I64 pa = key_class heap ANY_F64 pb"
  "map_keys_equal heap ANY_F64 pa ANY_I64 pb \<longleftrightarrow> key_class heap ANY_F64 pa = key_class heap ANY_I64 pb"
proof -
  have t: "ANY_I64 \<noteq> ANY_F64" by (simp add: any_defs)
  show "map_keys_equal heap ANY_I64 pa ANY_F64 pb \<longleftrightarrow> key_class heap ANY_I64 pa = key_class heap ANY_F64 pb"
    unfolding key_class_num using t by (auto simp: map_keys_equal_def dest: f64_exact_not_nan split: option.split)
  show "map_keys_equal heap ANY_F64 pa ANY_I64 pb \<longleftrightarrow> key_class heap ANY_F64 pa = key_class heap ANY_I64 pb"
    unfolding key_class_num using t by (auto simp: map_keys_equal_def dest: f64_exact_not_nan split: option.split)
qed

lemma keys_equal_same:
  "map_keys_equal heap t pa t pb \<longleftrightarrow> key_class heap t pa = key_class heap t pb"
proof -
  consider "t = ANY_NULL" | "t = ANY_UNDEF" | "t = ANY_BOOL" | "t = ANY_I64" | "t = ANY_F64" | "t = ANY_HEAP"
    | "t \<notin> {ANY_NULL, ANY_UNDEF, ANY_BOOL, ANY_I64, ANY_F64, ANY_HEAP}" by blast
  then show ?thesis
  proof cases
    case 5
    then show ?thesis unfolding 5 key_class_num using f64_class_eq [of pa pb]
      by (auto simp: map_keys_equal_def any_defs split: option.split)
  next
    case 6
    then show ?thesis
      by (auto simp: map_keys_equal_def key_class_def any_defs bigint_values_equal_iff split: heap_cell.split)
  qed (simp_all add: map_keys_equal_def key_class_def any_defs)
qed

lemma keys_equal_class: "map_keys_equal heap ta pa tb pb \<longleftrightarrow> key_class heap ta pa = key_class heap tb pb"
proof (cases "ta = tb")
  case True
  then show ?thesis by (simp add: keys_equal_same)
next
  case ne: False
  show ?thesis
  proof (cases "ta = ANY_I64 \<and> tb = ANY_F64 \<or> ta = ANY_F64 \<and> tb = ANY_I64")
    case True
    then show ?thesis using keys_equal_num by blast
  next
    case False
    with ne have "\<not> map_keys_equal heap ta pa tb pb" by (auto simp: map_keys_equal_def)
    moreover have "key_class heap ta pa \<noteq> key_class heap tb pb"
      using False ne class_tag_key [of heap ta pa] class_tag_key [of heap tb pb] by (auto split: if_splits)
    ultimately show ?thesis by simp
  qed
qed

text \<open>C34: keys are compared by SameValueZero: two pairs are equal exactly if they stand for the
  same JavaScript value (all NaNs are one, the zeros are one, a double and an integer of
  the same value are one, strings and BigInts by content), so equality is an equivalence;
  equal keys have the same hash, and no hash is the tombstone's.\<close>

theorem keys_same_value_zero:
  "(map_keys_equal heap ta pa tb pb \<longleftrightarrow> key_class heap ta pa = key_class heap tb pb) \<and>
   (map_keys_equal heap ta pa tb pb \<longrightarrow> map_hash_key heap ta pa = map_hash_key heap tb pb) \<and>
   map_hash_key heap ta pa \<noteq> 0"
  using keys_equal_class [of heap ta pa tb pb] map_hash_class [of heap] map_hash_nonzero [of heap ta pa] by simp

theorem keys_same_value_zero_witness:
  "map_keys_equal (\<lambda>_. StrCell []) ANY_F64 0x401C000000000000 ANY_I64 7 \<and>
   map_hash_key (\<lambda>_. StrCell []) ANY_F64 0x401C000000000000 = map_hash_key (\<lambda>_. StrCell []) ANY_I64 7"
proof -
  have "map_keys_equal (\<lambda>_. StrCell []) ANY_F64 0x401C000000000000 ANY_I64 7"
    by (simp add: map_keys_equal_def any_defs f64_as_exact_i64_def f64_int_def f64_magnitude_def f64_exponent_def
        f64_fraction_def f64_is_zero_def f64_negative_def)
  with keys_same_value_zero [where heap = "\<lambda>_. StrCell []" and ta = ANY_F64 and pa = "0x401C000000000000" and tb = ANY_I64 and pb = 7] show ?thesis by blast
qed

section \<open>Keys that survive the entry table\<close>

lemma stored_pair_unbox:
  assumes "v \<noteq> 0"
  shows "stored_pair materialize v = (ucast (anyv_unbox_tag v), anyv_unbox_value materialize v)"
proof -
  have i: "v AND TOP_16_MASK = TAG_TYPE_NUMBER \<longleftrightarrow> is_int32 v"
    and d: "v AND TAG_TYPE_NUMBER \<noteq> 0 \<and> \<not> is_int32 v \<longleftrightarrow> is_double v"
    and c: "v AND TOP_16_MASK = 0 \<and> v AND TAG_BIT_TYPE_OTHER = 0 \<and> v \<noteq> 0 \<longleftrightarrow> is_cell v"
    and b: "v AND NOT 1 = VALUE_FALSE \<longleftrightarrow> is_bool v"
    by (simp_all only: is_int32_def is_double_def is_cell_def is_bool_def)
  from b have b': "v AND - 2 = VALUE_FALSE \<longleftrightarrow> is_bool v" by simp
  show ?thesis
  proof (cases "is_int32 v")
    case True
    then show ?thesis
      by (simp add: stored_pair_def i any_defs anyv_unbox_tag_def anyv_unbox_value_def as_int32_def)
  next
    case ni: False
    show ?thesis
    proof (cases "is_double v")
      case True
      with ni d have "v AND TAG_TYPE_NUMBER \<noteq> 0" by simp
      with True ni show ?thesis
        by (simp add: stored_pair_def i any_defs anyv_unbox_tag_def anyv_unbox_value_def as_double_def)
    next
      case nd: False
      with ni d have z: "v AND TAG_TYPE_NUMBER = 0" by simp
      show ?thesis
      proof (cases "is_cell v")
        case True
        then have "v AND TOP_16_MASK = 0 \<and> v AND TAG_BIT_TYPE_OTHER = 0" by (simp add: is_cell_def)
        moreover have "\<not> is_null v" "\<not> is_undefined v" "\<not> is_bool v" "\<not> is_short_str v"
          using True by (auto simp: is_null_def is_undefined_def is_bool_iff upper_simps value_defs)
        moreover have "TAG_TYPE_NUMBER \<noteq> 0" by (simp add: TAG_TYPE_NUMBER_def)
        ultimately show ?thesis using True ni nd z assms
          by (simp add: stored_pair_def i any_defs anyv_unbox_tag_def anyv_unbox_value_def)
      next
        case nc: False
        have "v AND 1 = (if as_bool v then 1 else 0)" by (auto simp: as_bool_def and_one_eq)
        with ni nd nc z assms c show ?thesis
          by (auto simp: stored_pair_def i b' any_defs anyv_unbox_tag_def anyv_unbox_value_def is_null_def is_undefined_def)
      qed
    qed
  qed
qed

text \<open>The payloads the compiled program passes: booleans are 0 or 1, an integer is a JavaScript
  number, a reference is the address of a cell.\<close>

definition storable :: "u8 \<Rightarrow> u64 \<Rightarrow> bool" where
  "storable tag payload =
     (tag = ANY_NULL \<or> tag = ANY_UNDEF \<or> tag = ANY_BOOL \<and> payload \<le> 1 \<or>
      tag = ANY_I64 \<and> \<bar>sint payload\<bar> < 2 ^ 53 \<or> tag = ANY_F64 \<or>
      tag = ANY_HEAP \<and> is_cell payload)"

definition box_key :: "u8 \<Rightarrow> u64 \<Rightarrow> u64" where
  "box_key tag payload = anyv_box_from_pair (ucast tag) payload"

lemma box_key_nonzero: "storable tag payload \<Longrightarrow> box_key tag payload \<noteq> 0"
  using box_double_double [of payload] box_double_double [of "f64_of_int (sint payload)"] is_int32_box [of "ucast payload"]
  by (auto simp: box_key_def storable_def any_defs anyv_box_from_pair_def anyv_box_i64_def box_bool_def
      box_void_ptr_def is_cell_def value_defs is_double_def is_int32_def)

lemma storable_pair:
  assumes "storable tag payload"
  shows "stored_pair materialize (box_key tag payload) =
    (ucast (fst (decoded (ucast tag) payload)), snd (decoded (ucast tag) payload))"
proof -
  have "(ucast tag :: i64) = 4 \<Longrightarrow> payload = 0 \<or> upper payload = 0 \<and> \<not> bit payload 1"
    using assms by (auto simp: storable_def any_defs is_cell_upper)
  note unbox_box_pair [OF this, where materialize = materialize]
  then have "anyv_unbox_tag (box_key tag payload) = fst (decoded (ucast tag) payload)"
    "anyv_unbox_value materialize (box_key tag payload) = snd (decoded (ucast tag) payload)"
    unfolding box_key_def prod_eq_iff by simp_all
  then show ?thesis unfolding stored_pair_unbox [OF box_key_nonzero [OF assms]] by simp
qed

lemma storable_class:
  assumes "storable tag payload"
  shows "case stored_pair materialize (box_key tag payload) of (t, p) \<Rightarrow> key_class heap t p = key_class heap tag payload"
proof -
  have n: "f64_is_nan F64_NAN" by (simp add: f64_is_nan_def F64_NAN_def f64_exponent_def f64_fraction_def)
  have nan: "f64_is_nan payload" if "\<not> is_double (payload + DOUBLE_ENCODE_OFFSET)"
  proof -
    from that double_range have u: "upper payload = 0xFFF7 \<or> 0xFFF9 \<le> upper payload" by fastforce
    have "upper payload < 0x10000" using unsigned_less [of payload] by (auto simp: div_less_iff_less_mult)
    with u have "upper payload \<in> {0xFFF7, 0xFFF9, 0xFFFA, 0xFFFB, 0xFFFC, 0xFFFD, 0xFFFE, 0xFFFF}" by auto
    then have "upper payload div 16 mod 2048 = 2047" "upper payload mod 16 \<noteq> 0" by auto
    moreover have "f64_exponent payload = upper payload div 16 mod 2048"
      by (simp add: f64_exponent_def flip: div_mult2_eq)
    moreover have "upper payload mod 16 = f64_fraction payload div 0x1000000000000"
      using mod_mult2_eq [of "unat payload" "0x1000000000000" 16] by (simp add: f64_fraction_def)
    ultimately show ?thesis by (auto simp: f64_is_nan_def)
  qed
  have s: "f64_as_exact_i64 (f64_of_int (sint payload)) = Some payload" "\<not> f64_is_nan (f64_of_int (sint payload))"
    if "\<bar>sint payload\<bar> < 2 ^ 53"
    using f64_int_of_int [OF that] by (simp_all add: f64_exact_Some)
  consider "tag = ANY_NULL \<or> tag = ANY_UNDEF" | "tag = ANY_BOOL" "payload \<le> 1"
    | "tag = ANY_I64" "\<bar>sint payload\<bar> < 2 ^ 53" | "tag = ANY_F64" | "tag = ANY_HEAP" "is_cell payload"
    using assms by (auto simp: storable_def)
  then show ?thesis
  proof cases
    case 1
    then show ?thesis unfolding storable_pair [OF assms]
      by (elim disjE) (simp_all add: decoded_def any_defs key_class_def)
  next
    case 2
    then have "payload = 0 \<or> payload = 1" by (auto simp: word_le_nat_alt word_unat_eq_iff)
    then show ?thesis unfolding storable_pair [OF assms] using 2 by (auto simp: decoded_def any_defs key_class_def)
  next
    case 3
    then show ?thesis unfolding storable_pair [OF assms] using s by (simp add: decoded_def any_defs key_class_def)
  next
    case 4
    then show ?thesis unfolding storable_pair [OF assms] using n nan by (simp add: decoded_def any_defs key_class_def)
  next
    case 5
    then have "payload \<noteq> 0" by (simp add: is_cell_def)
    with 5 show ?thesis unfolding storable_pair [OF assms] by (simp add: decoded_def any_defs key_class_def)
  qed
qed

end
