(* ===== verification/Map_Table.thy ===== *)
theory Map_Table
  imports Map_Key
begin

text \<open>
  The heap block of \<open>Map\<close> and \<open>Set\<close> (\<open>src/crates/torajs-collections/src\<close>:
  \<open>layout.rs\<close>, \<open>create.rs\<close>, \<open>probe.rs\<close>, \<open>mutate.rs\<close>, \<open>delete.rs\<close>, \<open>query.rs\<close>,
  \<open>iter.rs\<close>, \<open>drop.rs\<close>, \<open>value_lane.rs\<close>): an array of entries in insertion order, and a
  robin-hood hash table of slots that name them.

  A null pointer to a block is \<open>None\<close>. The reference counts live in the cells the
  payloads point at, so an operation answers, beside its result, the calls it makes on them
  in order (\<open>rc_event\<close>).
\<close>

section \<open>Layout\<close>

definition TAG_MAP :: u16 where "TAG_MAP = 15"
definition TAG_SET :: u16 where "TAG_SET = 19"
definition FLAG_MAP_VALUES_NUMBER :: u16 where "FLAG_MAP_VALUES_NUMBER = push_bit 10 1"
definition MAP_ENTRIES_INITIAL :: u32 where "MAP_ENTRIES_INITIAL = 8"
definition MAP_SLOTS_INITIAL :: u32 where "MAP_SLOTS_INITIAL = 16"
definition MAP_LOAD_NUMER :: u32 where "MAP_LOAD_NUMER = 3"
definition MAP_LOAD_DENOM :: u32 where "MAP_LOAD_DENOM = 4"
definition ENTRY_HASH_TOMBSTONE :: u32 where "ENTRY_HASH_TOMBSTONE = 0"
definition SLOT_EMPTY :: u32 where "SLOT_EMPTY = 0xFFFFFFFF"
definition SLOT_TOMBSTONE :: u32 where "SLOT_TOMBSTONE = 0xFFFFFFFE"

definition slot_make :: "u32 \<Rightarrow> u32 \<Rightarrow> u64" where
  "slot_make hash idx = push_bit 32 (ucast hash) OR ucast idx"

definition slot_hash :: "u64 \<Rightarrow> u32" where
  "slot_hash s = ucast (drop_bit 32 s)"

definition slot_index :: "u64 \<Rightarrow> u32" where
  "slot_index s = ucast (s AND 0xFFFFFFFF)"

record map_entry =
  e_hash :: u32
  key_anyv :: u64
  value_anyv :: u64

record map_cell =
  m_type_tag :: u16
  m_flags :: u16
  n_entries :: u32
  n_used :: u32
  entries_cap :: u32
  slots_count :: u32
  n_tombstones :: u32
  generation :: u32
  m_slots :: "u64 list"
  m_entries :: "map_entry list"
  m_props :: u64

text \<open>What the operations read outside of the block: the heap, and the allocation of a string
  for an inline one (no entry holds one).\<close>

record map_env =
  env_heap :: heap
  env_materialize :: "u64 \<Rightarrow> i64"

datatype rc_event = RcInc u64 | ValueDrop u64 | ThrowTypeError

definition no_entry :: map_entry where
  "no_entry = \<lparr>e_hash = 0, key_anyv = 0, value_anyv = 0\<rparr>"

definition empty_slots :: "u32 \<Rightarrow> u64 list" where
  "empty_slots count = replicate (unat count) (slot_make 0 SLOT_EMPTY)"

definition map_create :: map_cell where
  "map_create = \<lparr>m_type_tag = TAG_MAP, m_flags = 0, n_entries = 0, n_used = 0,
     entries_cap = MAP_ENTRIES_INITIAL, slots_count = MAP_SLOTS_INITIAL, n_tombstones = 0, generation = 0,
     m_slots = empty_slots MAP_SLOTS_INITIAL, m_entries = replicate (unat MAP_ENTRIES_INITIAL) no_entry,
     m_props = 0\<rparr>"

definition set_create :: map_cell where
  "set_create = map_create\<lparr>m_type_tag := TAG_SET\<rparr>"

section \<open>Probing\<close>

text \<open>The distance of position \<open>i\<close> from the ideal slot of \<open>hash\<close>.\<close>

definition slot_probe :: "u32 \<Rightarrow> u32 \<Rightarrow> u32 \<Rightarrow> u32" where
  "slot_probe cap i hash = (let mask = cap - 1 in (i + cap - (hash AND mask)) AND mask)"

partial_function (option) slot_insert_loop ::
    "u32 \<Rightarrow> u32 \<Rightarrow> u32 \<Rightarrow> u32 \<Rightarrow> u32 \<Rightarrow> u64 list \<Rightarrow> u64 list option" where
  "slot_insert_loop cap i probe cur_hash cur_idx slots = do {
     s \<leftarrow> rd slots (unat i);
     if slot_index s = SLOT_EMPTY then wr slots (unat i) (slot_make cur_hash cur_idx)
     else if slot_probe cap i (slot_hash s) < probe then do {
       slots \<leftarrow> wr slots (unat i) (slot_make cur_hash cur_idx);
       slot_insert_loop cap ((i + 1) AND (cap - 1)) (slot_probe cap i (slot_hash s) + 1) (slot_hash s) (slot_index s) slots
     }
     else slot_insert_loop cap ((i + 1) AND (cap - 1)) (probe + 1) cur_hash cur_idx slots
   }"

definition map_slot_insert :: "u64 list \<Rightarrow> u32 \<Rightarrow> u32 \<Rightarrow> u32 \<Rightarrow> u64 list option" where
  "map_slot_insert slots cap hash idx = slot_insert_loop cap (hash AND (cap - 1)) 0 hash idx slots"

record lookup_result =
  lr_slot_idx :: u32
  lr_entry_idx :: u32
  lr_hash :: u32
  lr_found :: bool

text \<open>The outcome of a lookup that found nothing: the first tombstone seen, or the place where
  it stopped.\<close>

definition lookup_miss :: "u32 \<Rightarrow> u32 \<Rightarrow> u32 \<Rightarrow> u32 \<Rightarrow> lookup_result" where
  "lookup_miss count first_tomb i hash =
     \<lparr>lr_slot_idx = (if first_tomb \<noteq> count then first_tomb else i), lr_entry_idx = SLOT_EMPTY,
      lr_hash = hash, lr_found = False\<rparr>"

partial_function (option) lookup_loop ::
    "map_env \<Rightarrow> map_cell \<Rightarrow> u8 \<Rightarrow> u64 \<Rightarrow> u32 \<Rightarrow> u32 \<Rightarrow> u32 \<Rightarrow> u32 \<Rightarrow> lookup_result option" where
  "lookup_loop env m tag payload hash i probe first_tomb = do {
     let count = slots_count m;
     s \<leftarrow> rd (m_slots m) (unat i);
     let s_idx = slot_index s;
     if s_idx = SLOT_EMPTY then Some (lookup_miss count first_tomb i hash)
     else do {
       hit \<leftarrow> (if s_idx \<noteq> SLOT_TOMBSTONE \<and> slot_hash s = hash then do {
                 e \<leftarrow> rd (m_entries m) (unat s_idx);
                 Some (case stored_pair (env_materialize env) (key_anyv e) of
                         (e_tag, e_payload) \<Rightarrow> map_keys_equal (env_heap env) e_tag e_payload tag payload)
               } else Some False);
       if hit then Some \<lparr>lr_slot_idx = i, lr_entry_idx = s_idx, lr_hash = hash, lr_found = True\<rparr>
       else if s_idx \<noteq> SLOT_TOMBSTONE \<and> slot_hash s \<noteq> hash \<and> slot_probe count i (slot_hash s) < probe
       then Some (lookup_miss count first_tomb i hash)
       else do {
         let first_tomb = (if s_idx = SLOT_TOMBSTONE \<and> first_tomb = count then i else first_tomb);
         let i = (i + 1) AND (count - 1);
         let probe = probe + 1;
         if count \<le> probe then Some (lookup_miss count first_tomb i hash)
         else lookup_loop env m tag payload hash i probe first_tomb
       }
     }
   }"

definition map_lookup_slot :: "map_env \<Rightarrow> map_cell \<Rightarrow> u8 \<Rightarrow> u64 \<Rightarrow> lookup_result option" where
  "map_lookup_slot env m tag payload =
     (let hash = map_hash_key (env_heap env) tag payload
      in lookup_loop env m tag payload hash (hash AND (slots_count m - 1)) 0 (slots_count m))"

definition rehash_step :: "u32 \<Rightarrow> map_entry list \<Rightarrow> nat \<Rightarrow> map_entry list \<times> u64 list \<times> u32 \<Rightarrow>
    (map_entry list \<times> u64 list \<times> u32) option" where
  "rehash_step new_slots_count old_e k = (\<lambda>(new_e, new_s, new_used). do {
     src \<leftarrow> rd old_e k;
     if e_hash src = ENTRY_HASH_TOMBSTONE then Some (new_e, new_s, new_used)
     else do {
       new_e \<leftarrow> wr new_e (unat new_used) src;
       new_s \<leftarrow> map_slot_insert new_s new_slots_count (e_hash src) new_used;
       Some (new_e, new_s, new_used + 1)
     }
   })"

definition map_rehash :: "map_cell \<Rightarrow> u32 \<Rightarrow> u32 \<Rightarrow> map_cell option" where
  "map_rehash m new_entries_cap new_slots_count = do {
     (new_e, new_s, new_used) \<leftarrow>
       for_range 0 (unat (n_used m)) (rehash_step new_slots_count (m_entries m))
         (replicate (unat new_entries_cap) no_entry, empty_slots new_slots_count, 0);
     Some (m\<lparr>m_entries := new_e, m_slots := new_s, entries_cap := new_entries_cap,
       slots_count := new_slots_count, n_used := new_used, n_tombstones := 0, generation := generation m + 1\<rparr>)
   }"

definition slot_load_exceeded :: "u32 \<Rightarrow> u32 \<Rightarrow> u32 \<Rightarrow> bool" where
  "slot_load_exceeded entries tombstones count = (count * MAP_LOAD_NUMER < (entries + tombstones + 1) * MAP_LOAD_DENOM)"

end
