(* ===== verification/Map_Slots.thy ===== *)
theory Map_Slots
  imports Map_Table "HOL-Library.Multiset"
begin

text \<open>
  The slot table by itself: distances on a circle of slots, the robin-hood invariant \<open>rh\<close>,
  under which a probe sequence meets its key before it meets a reason to stop, and the
  proof that an insertion into a table without tombstones keeps it.
\<close>

section \<open>Slots as words\<close>

lemma slot_hash_make [simp]: "slot_hash (slot_make h i) = h"
  unfolding slot_hash_def slot_make_def
  by (rule bit_word_eqI) (auto simp: bit_simps dest: bit_imp_le_length)

lemma and_ffffffff: "(s :: u64) AND 0xFFFFFFFF = take_bit 32 s"
proof -
  have "(0xFFFFFFFF :: u64) = mask 32" by (simp add: mask_eq_exp_minus_1)
  then show ?thesis by (simp add: take_bit_eq_mask)
qed

lemma slot_index_make [simp]: "slot_index (slot_make h i) = i"
  unfolding slot_index_def slot_make_def and_ffffffff
  by (rule bit_word_eqI) (auto simp: bit_simps dest: bit_imp_le_length)

lemma slot_make_parts: "slot_make (slot_hash s) (slot_index s) = s"
proof (rule bit_word_eqI)
  fix n
  assume "n < LENGTH(64)"
  then show "bit (slot_make (slot_hash s) (slot_index s)) n = bit s n"
    unfolding slot_hash_def slot_make_def slot_index_def and_ffffffff
    by (cases "n < 32") (auto simp: bit_simps)
qed

lemma slot_make_eq_iff [simp]: "slot_make h i = slot_make h' i' \<longleftrightarrow> h = h' \<and> i = i'"
  by (metis slot_hash_make slot_index_make)

section \<open>Distances\<close>

definition dist :: "nat \<Rightarrow> nat \<Rightarrow> u32 \<Rightarrow> nat" where
  "dist N i h = (i + N - unat h mod N) mod N"

lemma dist_cases: "dist N i h = (if unat h mod N \<le> i then i - unat h mod N else i + N - unat h mod N)"
  if "i < N"
proof -
  define w where "w = unat h mod N"
  have w: "w < N" using that by (simp add: w_def)
  show ?thesis
  proof (cases "w \<le> i")
    case True
    then have "(i + N - w) mod N = (i - w + N) mod N" by (simp only: add_diff_assoc2)
    also have "\<dots> = i - w" using that by simp
    finally show ?thesis using True by (simp add: dist_def flip: w_def)
  next
    case False
    then show ?thesis using w that by (simp add: dist_def flip: w_def)
  qed
qed

lemma dist_less: "i < N \<Longrightarrow> dist N i h < N"
  by (simp add: dist_def)

lemma dist_inject: "dist N i h = dist N j h \<longleftrightarrow> i = j" if "i < N" "j < N"
proof -
  define w where "w = unat h mod N"
  have "w < N" using that by (simp add: w_def)
  with that show ?thesis unfolding dist_cases [OF that(1)] dist_cases [OF that(2)] w_def [symmetric] by auto
qed

lemma dist_suc: "dist N (Suc i mod N) h = Suc (dist N i h)" if i: "i < N" and d: "Suc (dist N i h) < N"
proof -
  define w where "w = unat h mod N"
  have w: "w < N" using that by (simp add: w_def)
  show ?thesis
  proof (cases "Suc i = N")
    case True
    then have z: "Suc i mod N = 0" "0 < N" by simp_all
    show ?thesis using d w True
      unfolding z(1) dist_cases [OF i] dist_cases [OF z(2)] w_def [symmetric] by auto
  next
    case False
    then have z: "Suc i mod N = Suc i" "Suc i < N" using i by simp_all
    show ?thesis using d w False
      unfolding z(1) dist_cases [OF i] dist_cases [OF z(2)] w_def [symmetric] by auto
  qed
qed

lemma dist_home: "dist N (unat h mod N) h = 0"
  by (cases "N = 0") (simp_all add: dist_cases dist_def)

text \<open>The arithmetic of the code, for a power of two.\<close>

definition table_size :: "u32 \<Rightarrow> nat \<Rightarrow> bool" where
  "table_size cap N = (\<exists>k \<le> 30. N = 2 ^ k \<and> unat cap = N)"

lemma table_size_bounds: "0 < N" "N \<le> 2 ^ 30" "unat cap = N" if "table_size cap N"
proof -
  from that obtain k where "k \<le> 30" "N = 2 ^ k" "unat cap = N" by (auto simp: table_size_def)
  then show "0 < N" "N \<le> 2 ^ 30" "unat cap = N" by (simp_all only: power_increasing_iff) simp_all
qed

lemma and_cap: "unat (x AND (cap - 1)) = unat x mod N" if "table_size cap N"
proof -
  from that obtain k where k: "k \<le> 30" "N = 2 ^ k" "unat cap = N" by (auto simp: table_size_def)
  have "(2 :: nat) ^ k < 2 ^ 32" by (rule power_strict_increasing) (use k in auto)
  then have "unat (word_of_nat (2 ^ k) :: u32) = 2 ^ k"
    by (simp only: unsigned_of_nat) (rule trans [OF _ take_bit_nat_eq_self [of "2 ^ k" 32]], simp_all)
  then have "unat cap = unat (2 ^ k :: u32)" using k by simp
  then have "cap = 2 ^ k" by (simp only: word_unat_eq_iff)
  then have m: "cap - 1 = mask k" by (simp add: mask_eq_exp_minus_1)
  show ?thesis
    unfolding m take_bit_eq_mask [symmetric] unsigned_take_bit_eq k(2) by (rule take_bit_eq_mod)
qed

lemma next_pos: "unat ((i + 1) AND (cap - 1)) = Suc (unat i) mod N" if "table_size cap N" "unat i < N"
proof -
  have "unat (i + 1) = Suc (unat i)"
    by (subst unat_plus_if_size) (use that table_size_bounds [OF that(1)] in \<open>auto simp: word_size\<close>)
  then show ?thesis by (simp only: and_cap [OF that(1)])
qed

lemma probe_dist: "unat (slot_probe cap i h) = dist N (unat i) h" if t: "table_size cap N" and i: "unat i < N"
proof -
  note B = table_size_bounds [OF t]
  have h: "unat (h AND (cap - 1)) = unat h mod N" by (rule and_cap [OF t])
  have l: "unat h mod N < N" using B by simp
  have s: "unat (i + cap) = unat i + N"
    by (subst unat_plus_if_size) (use i B in \<open>auto simp: word_size\<close>)
  have "unat (i + cap - (h AND (cap - 1))) = unat i + N - unat h mod N"
    by (subst unat_sub) (use l s h in \<open>auto simp: word_le_nat_alt\<close>)
  then show ?thesis unfolding slot_probe_def Let_def and_cap [OF t] dist_def by simp
qed

lemma suc_probe: "unat (x + 1 :: u32) = Suc (unat x)" if "table_size cap N" "unat x < N"
  by (subst unat_plus_if_size) (use that table_size_bounds [OF that(1)] in \<open>auto simp: word_size\<close>)

section \<open>The robin-hood invariant\<close>

definition slot_live :: "u64 \<Rightarrow> bool" where
  "slot_live s = (slot_index s \<noteq> SLOT_EMPTY \<and> slot_index s \<noteq> SLOT_TOMBSTONE)"

text \<open>On the way from the ideal slot of \<open>h\<close> to position \<open>j\<close> there is no reason to stop.\<close>

definition reach :: "u64 list \<Rightarrow> u32 \<Rightarrow> nat \<Rightarrow> bool" where
  "reach S h j = (\<forall>p<length S. dist (length S) p h < dist (length S) j h \<longrightarrow>
     slot_index (S ! p) \<noteq> SLOT_EMPTY \<and>
     (slot_index (S ! p) = SLOT_TOMBSTONE \<or> dist (length S) p h \<le> dist (length S) p (slot_hash (S ! p))))"

definition rh :: "u64 list \<Rightarrow> bool" where
  "rh S = (\<forall>j<length S. slot_live (S ! j) \<longrightarrow> reach S (slot_hash (S ! j)) j)"

definition tombless :: "u64 list \<Rightarrow> bool" where
  "tombless S = (\<forall>p<length S. slot_index (S ! p) \<noteq> SLOT_TOMBSTONE)"

lemma rhD: "rh S \<Longrightarrow> j < length S \<Longrightarrow> slot_live (S ! j) \<Longrightarrow> reach S (slot_hash (S ! j)) j"
  by (simp add: rh_def)

lemma reachD:
  "reach S h j \<Longrightarrow> p < length S \<Longrightarrow> dist (length S) p h < dist (length S) j h \<Longrightarrow> slot_index (S ! p) \<noteq> SLOT_EMPTY"
  "reach S h j \<Longrightarrow> p < length S \<Longrightarrow> dist (length S) p h < dist (length S) j h \<Longrightarrow>
     slot_index (S ! p) \<noteq> SLOT_TOMBSTONE \<Longrightarrow> dist (length S) p h \<le> dist (length S) p (slot_hash (S ! p))"
  by (auto simp: reach_def)

text \<open>Writing a live slot: paths that crossed the position keep crossing it, when its new
  resident is at least as far from home as the old one, or the position was empty.\<close>

lemma reach_update:
  assumes r: "reach S h j" and i: "i < length S" and ne: "idx \<noteq> SLOT_EMPTY"
    and far: "slot_index (S ! i) \<noteq> SLOT_EMPTY \<Longrightarrow> slot_index (S ! i) \<noteq> SLOT_TOMBSTONE \<and>
      dist (length S) i (slot_hash (S ! i)) \<le> dist (length S) i hash"
  shows "reach (S[i := slot_make hash idx]) h j"
  unfolding reach_def
proof (intro allI impI)
  fix p
  assume p: "p < length (S[i := slot_make hash idx])"
    and d: "dist (length (S[i := slot_make hash idx])) p h < dist (length (S[i := slot_make hash idx])) j h"
  then have p': "p < length S" "dist (length S) p h < dist (length S) j h" by simp_all
  show "slot_index (S[i := slot_make hash idx] ! p) \<noteq> SLOT_EMPTY \<and>
    (slot_index (S[i := slot_make hash idx] ! p) = SLOT_TOMBSTONE \<or>
     dist (length (S[i := slot_make hash idx])) p h \<le>
       dist (length (S[i := slot_make hash idx])) p (slot_hash (S[i := slot_make hash idx] ! p)))"
  proof (cases "p = i")
    case True
    with reachD(1) [OF r p'] far have "slot_index (S ! i) \<noteq> SLOT_TOMBSTONE"
      "dist (length S) i (slot_hash (S ! i)) \<le> dist (length S) i hash" by auto
    with reachD [OF r p'] True i ne show ?thesis by auto
  next
    case False
    with reachD [OF r p'] show ?thesis by auto
  qed
qed

lemma rh_update:
  assumes rh: "rh S" and i: "i < length S" and ne: "idx \<noteq> SLOT_EMPTY" and r: "reach S hash i"
    and far: "slot_index (S ! i) \<noteq> SLOT_EMPTY \<Longrightarrow> slot_index (S ! i) \<noteq> SLOT_TOMBSTONE \<and>
      dist (length S) i (slot_hash (S ! i)) \<le> dist (length S) i hash"
  shows "rh (S[i := slot_make hash idx])"
  unfolding rh_def
proof (intro allI impI)
  fix j
  assume j: "j < length (S[i := slot_make hash idx])" "slot_live (S[i := slot_make hash idx] ! j)"
  show "reach (S[i := slot_make hash idx]) (slot_hash (S[i := slot_make hash idx] ! j)) j"
  proof (cases "j = i")
    case True
    with i show ?thesis using reach_update [OF r i ne far] by simp
  next
    case False
    with j have "reach S (slot_hash (S ! j)) j" by (intro rhD [OF rh]) auto
    from reach_update [OF this i ne far] False show ?thesis by simp
  qed
qed

lemma tombless_update: "tombless S \<Longrightarrow> idx \<noteq> SLOT_TOMBSTONE \<Longrightarrow> tombless (S[i := slot_make hash idx])"
  unfolding tombless_def by (metis length_list_update nth_list_update_eq nth_list_update_neq slot_index_make)


section \<open>Insertion\<close>

lemmas slot_insert_simps = slot_insert_loop.simps [of cap i probe h idx S] for cap i probe h idx S

lemma mset_update_slot:
  "i < length S \<Longrightarrow> add_mset (S ! i) (mset (S[i := s])) = add_mset s (mset S)"
  by (simp add: mset_update)

lemma slot_insert_loop_spec:
  assumes "table_size cap N" "length S = N" "unat i < N" "unat probe = dist N (unat i) hash"
    "idx \<noteq> SLOT_EMPTY" "idx \<noteq> SLOT_TOMBSTONE" "rh S" "tombless S" "reach S hash (unat i)"
    "e < N" "slot_index (S ! e) = SLOT_EMPTY"
    "\<forall>p<N. slot_index (S ! p) = SLOT_EMPTY \<longrightarrow> S ! p = slot_make 0 SLOT_EMPTY"
  shows "\<exists>S'. slot_insert_loop cap i probe hash idx S = Some S' \<and> length S' = N \<and> rh S' \<and> tombless S' \<and>
    add_mset (slot_make 0 SLOT_EMPTY) (mset S') = add_mset (slot_make hash idx) (mset S)"
  using assms
proof (induction "dist N e i" arbitrary: S i probe hash idx rule: less_induct)
  case less
  note t = less.prems(1)
  note B = table_size_bounds [OF t]
  let ?i = "unat i" and ?s = "S ! unat i"
  have i: "?i < length S" using less.prems by simp
  show ?case
  proof (cases "slot_index ?s = SLOT_EMPTY")
    case True
    have "rh (S[?i := slot_make hash idx])"
      by (rule rh_update [OF less.prems(7) i less.prems(5,9)]) (use True in simp)
    moreover have "tombless (S[?i := slot_make hash idx])"
      by (rule tombless_update [OF less.prems(8,6)])
    moreover have "add_mset (slot_make 0 SLOT_EMPTY) (mset (S[?i := slot_make hash idx])) = add_mset (slot_make hash idx) (mset S)"
      using mset_update_slot [OF i] True less.prems(12) less.prems(3) by metis
    ultimately show ?thesis
      using True i less.prems(2) by (subst slot_insert_loop.simps) (simp add: rd_def wr_def)
  next
    case False
    let ?d = "dist N ?i hash" and ?r = "dist N ?i (slot_hash ?s)" and ?n = "(i + 1) AND (cap - 1)"
    have ei: "e \<noteq> ?i" using False less.prems(11) by auto
    have pr: "unat (slot_probe cap i (slot_hash ?s)) = ?r" by (rule probe_dist [OF t less.prems(3)])
    have nx: "unat ?n = Suc ?i mod N" by (rule next_pos [OF t less.prems(3)])
    then have n: "unat ?n < N" using B by simp
    have tm: "slot_index ?s \<noteq> SLOT_TOMBSTONE" using less.prems(8) i by (simp add: tombless_def)
    have live: "slot_live ?s" using False tm by (simp add: slot_live_def)
    have dec: "dist N e ?n < dist N e i"
    proof -
      have "unat i mod N = ?i" "unat ?n mod N = unat ?n" using less.prems(3) n by simp_all
      then show ?thesis
        unfolding dist_cases [OF less.prems(10)] using nx n ei less.prems(3,10)
        by (auto simp: mod_Suc split: if_splits)
    qed
    \<comment> \<open>the empty slot is ahead on any path through this position\<close>
    have room: "Suc (dist N ?i h) < N" if "reach S h ?i" for h
    proof (rule ccontr)
      assume "\<not> Suc (dist N ?i h) < N"
      moreover have "dist N ?i h < N" "dist N e h < N" using less.prems(3,10) by (simp_all add: dist_less)
      moreover have "dist N e h \<noteq> dist N ?i h" using ei less.prems(3,10) by (simp add: dist_inject)
      ultimately have "dist N e h < dist N ?i h" by linarith
      with reachD(1) [OF that, of e] less.prems(2,10,11) show False by simp
    qed
    have step: "reach S h (unat ?n)" if "reach S h ?i" "dist N ?i h \<le> ?r" for h
      unfolding reach_def
    proof (intro allI impI)
      fix p
      assume p: "p < length S" "dist (length S) p h < dist (length S) (unat ?n) h"
      have "dist N (unat ?n) h = Suc (dist N ?i h)"
        unfolding nx by (rule dist_suc [OF less.prems(3) room [OF that(1)]])
      with p less.prems(2) have "dist N p h < dist N ?i h \<or> p = ?i"
        using dist_inject [of p N ?i h] less.prems(3) by auto
      then show "slot_index (S ! p) \<noteq> SLOT_EMPTY \<and>
        (slot_index (S ! p) = SLOT_TOMBSTONE \<or> dist (length S) p h \<le> dist (length S) p (slot_hash (S ! p)))"
        using reachD [OF that(1) p(1)] False that(2) less.prems(2) by auto
    qed
    show ?thesis
    proof (cases "slot_probe cap i (slot_hash ?s) < probe")
      case swap: True
      then have far: "?r < ?d" using pr less.prems(4) by (simp add: word_less_nat_alt)
      let ?S = "S[?i := slot_make hash idx]"
      have rh: "rh ?S"
        by (rule rh_update [OF less.prems(7) i less.prems(5,9)]) (use far tm less.prems(2) in simp)
      have own: "reach S (slot_hash ?s) ?i" by (rule rhD [OF less.prems(7) i live])
      have own': "reach ?S (slot_hash ?s) (unat ?n)"
        by (rule reach_update [OF step [OF own] i less.prems(5)]) (use far tm less.prems(2) in simp_all)
      have probe': "unat (slot_probe cap i (slot_hash ?s) + 1) = dist N (unat ?n) (slot_hash ?s)"
        unfolding nx dist_suc [OF less.prems(3) room [OF own]]
        by (subst suc_probe [OF t]) (use pr dist_less [OF less.prems(3)] in simp_all)
      have all': "\<forall>p<N. slot_index (?S ! p) = SLOT_EMPTY \<longrightarrow> ?S ! p = slot_make 0 SLOT_EMPTY"
        using less.prems(5,12) by (metis nth_list_update_eq nth_list_update_neq slot_index_make i)
      have e': "slot_index (?S ! e) = SLOT_EMPTY" using ei less.prems(11) by simp
      have len': "length ?S = N" using less.prems(2) by simp
      from less.hyps [OF dec t len' n probe' False tm rh tombless_update [OF less.prems(8,6)] own' less.prems(10) e' all']
      obtain S' where S': "slot_insert_loop cap ?n (slot_probe cap i (slot_hash ?s) + 1) (slot_hash ?s) (slot_index ?s) ?S = Some S'"
        "length S' = N" "rh S'" "tombless S'"
        "add_mset (slot_make 0 SLOT_EMPTY) (mset S') = add_mset (slot_make (slot_hash ?s) (slot_index ?s)) (mset ?S)"
        by blast
      have "add_mset (slot_make 0 SLOT_EMPTY) (mset S') = add_mset (slot_make hash idx) (mset S)"
        unfolding S'(5) slot_make_parts by (rule mset_update_slot [OF i])
      moreover have "slot_insert_loop cap i probe hash idx S = Some S'"
        using i False swap S'(1) by (subst slot_insert_loop.simps) (simp add: rd_def wr_def)
      ultimately show ?thesis using S' by blast
    next
      case stay: False
      then have near: "?d \<le> ?r" using pr less.prems(4) by (simp add: word_less_nat_alt)
      have probe': "unat (probe + 1) = dist N (unat ?n) hash"
        unfolding nx dist_suc [OF less.prems(3) room [OF less.prems(9)]]
        by (subst suc_probe [OF t]) (use less.prems(4) dist_less [OF less.prems(3)] in simp_all)
      from less.hyps [OF dec t less.prems(2) n probe' less.prems(5-8) step [OF less.prems(9) near] less.prems(10-12)]
      obtain S' where S': "slot_insert_loop cap ?n (probe + 1) hash idx S = Some S'"
        "length S' = N" "rh S'" "tombless S'"
        "add_mset (slot_make 0 SLOT_EMPTY) (mset S') = add_mset (slot_make hash idx) (mset S)"
        by blast
      moreover have "slot_insert_loop cap i probe hash idx S = Some S'"
        using i False stay S'(1) by (subst slot_insert_loop.simps) (simp add: rd_def)
      ultimately show ?thesis by blast
    qed
  qed
qed

end
