(* ===== verification/Map_Lookup.thy ===== *)
theory Map_Lookup
  imports Map_Slots
begin

text \<open>
  A well-formed block: the slots are, in some order, one slot per live entry, the counted
  tombstones and empty slots, arranged by the robin-hood invariant; the entries have distinct
  keys and carry the hashes of their keys. On such a block a lookup finds the entry of a
  key exactly if there is one.
\<close>

section \<open>The table of an array of entries\<close>

definition live_idx :: "map_entry list \<Rightarrow> nat \<Rightarrow> nat list" where
  "live_idx es n = filter (\<lambda>i. e_hash (es ! i) \<noteq> 0) [0..<n]"

definition entry_slot :: "map_entry list \<Rightarrow> nat \<Rightarrow> u64" where
  "entry_slot es i = slot_make (e_hash (es ! i)) (word_of_nat i)"

definition table_ok :: "u64 list \<Rightarrow> map_entry list \<Rightarrow> nat \<Rightarrow> nat \<Rightarrow> bool" where
  "table_ok S es n tombs =
     (rh S \<and> n \<le> length es \<and> length es \<le> 2 ^ 30 \<and> length (live_idx es n) + tombs < length S \<and>
      mset S = mset (map (entry_slot es) (live_idx es n)) + replicate_mset tombs (slot_make 0 SLOT_TOMBSTONE) +
        replicate_mset (length S - length (live_idx es n) - tombs) (slot_make 0 SLOT_EMPTY))"

lemma live_idx_iff [simp]: "i \<in> set (live_idx es n) \<longleftrightarrow> i < n \<and> e_hash (es ! i) \<noteq> 0"
  by (auto simp: live_idx_def)

lemma distinct_live_idx [simp]: "distinct (live_idx es n)"
  by (simp add: live_idx_def)

lemma index_word: "unat (word_of_nat i :: u32) = i" if "i < 2 ^ 30"
  using that by (simp add: unsigned_of_nat take_bit_nat_eq_self)

lemma index_word_valid: "(word_of_nat i :: u32) \<noteq> SLOT_EMPTY" "(word_of_nat i :: u32) \<noteq> SLOT_TOMBSTONE" if "i < 2 ^ 30"
  using index_word [OF that] that by (auto simp: SLOT_EMPTY_def SLOT_TOMBSTONE_def dest!: arg_cong [of _ _ unat])

lemma entry_slot_live: "slot_live (entry_slot es i)" if "i < 2 ^ 30"
  using index_word_valid [OF that] by (simp add: entry_slot_def slot_live_def)

lemma table_okD:
  assumes "table_ok S es n tombs"
  shows "rh S" "n \<le> length es" "length es \<le> 2 ^ 30" "length (live_idx es n) + tombs < length S"
    "mset S = mset (map (entry_slot es) (live_idx es n)) + replicate_mset tombs (slot_make 0 SLOT_TOMBSTONE) +
        replicate_mset (length S - length (live_idx es n) - tombs) (slot_make 0 SLOT_EMPTY)"
  using assms by (simp_all add: table_ok_def)

lemma table_set:
  assumes "table_ok S es n tombs"
  shows "s \<in> set S \<longleftrightarrow> s \<in> entry_slot es ` set (live_idx es n) \<or>
    0 < tombs \<and> s = slot_make 0 SLOT_TOMBSTONE \<or> s = slot_make 0 SLOT_EMPTY"
proof -
  note D = table_okD [OF assms]
  have "s \<in> set S \<longleftrightarrow> s \<in># mset S" by simp
  also have "\<dots> \<longleftrightarrow> s \<in> entry_slot es ` set (live_idx es n) \<or>
    0 < tombs \<and> s = slot_make 0 SLOT_TOMBSTONE \<or> s = slot_make 0 SLOT_EMPTY"
    unfolding D(5) using D(4) by (auto simp del: live_idx_iff)
  finally show ?thesis .
qed

lemma table_slot:
  assumes "table_ok S es n tombs" "p < length S" "slot_live (S ! p)"
  obtains i where "i < n" "e_hash (es ! i) \<noteq> 0" "S ! p = entry_slot es i" "i < 2 ^ 30"
proof -
  from assms(2) have "S ! p \<in> set S" by simp
  with table_set [OF assms(1), of "S ! p"] assms(3)
  have "S ! p \<in> entry_slot es ` set (live_idx es n)" by (auto simp: slot_live_def)
  then obtain i where i: "i < n" "e_hash (es ! i) \<noteq> 0" "S ! p = entry_slot es i" by auto
  moreover have "i < 2 ^ 30" using i(1) table_okD(2,3) [OF assms(1)] by linarith
  ultimately show thesis using that by blast
qed

lemma table_empty:
  assumes "table_ok S es n tombs" "p < length S" "slot_index (S ! p) = SLOT_EMPTY"
  shows "S ! p = slot_make 0 SLOT_EMPTY"
proof -
  from assms(2) have "S ! p \<in> set S" by simp
  with table_set [OF assms(1), of "S ! p"] show ?thesis
  proof (elim disjE iffE, auto, goal_cases)
    case (1 i)
    then have "i < 2 ^ 30" using table_okD(2,3) [OF assms(1)] by linarith
    from index_word_valid [OF this] 1 assms(3) show ?case by (simp add: entry_slot_def)
  qed (use assms(3) in \<open>auto simp: SLOT_EMPTY_def SLOT_TOMBSTONE_def\<close>)
qed

lemma table_has_empty:
  assumes "table_ok S es n tombs"
  obtains e where "e < length S" "slot_index (S ! e) = SLOT_EMPTY"
proof -
  have "slot_make 0 SLOT_EMPTY \<in> set S" using table_set [OF assms] by blast
  then obtain e where "e < length S" "S ! e = slot_make 0 SLOT_EMPTY" by (auto simp: in_set_conv_nth)
  with that show thesis by simp
qed

section \<open>Keys of entries\<close>

definition entry_class :: "map_env \<Rightarrow> map_entry \<Rightarrow> js_key" where
  "entry_class env e = (case stored_pair (env_materialize env) (key_anyv e) of
     (t, p) \<Rightarrow> key_class (env_heap env) t p)"

definition class_hash_nz :: "js_key \<Rightarrow> u32" where
  "class_hash_nz c = (let h = class_hash c in if h = 0 then 1 else h)"

definition hashes_ok :: "map_env \<Rightarrow> map_entry list \<Rightarrow> nat \<Rightarrow> bool" where
  "hashes_ok env es n = (\<forall>i<n. e_hash (es ! i) \<noteq> 0 \<longrightarrow> e_hash (es ! i) = class_hash_nz (entry_class env (es ! i)))"

lemma map_hash_nz: "map_hash_key heap tag payload = class_hash_nz (key_class heap tag payload)"
  by (simp add: map_hash_class class_hash_nz_def)

lemma class_hash_nz_nonzero [simp]: "class_hash_nz c \<noteq> 0"
  by (simp add: class_hash_nz_def Let_def)

lemma stored_key_equal:
  "(case stored_pair (env_materialize env) (key_anyv e) of
      (et, ep) \<Rightarrow> map_keys_equal (env_heap env) et ep tag payload) \<longleftrightarrow>
   entry_class env e = key_class (env_heap env) tag payload"
  by (simp add: entry_class_def keys_equal_class split: prod.split)

section \<open>Lookup\<close>

text \<open>Position \<open>p\<close> holds the slot of the key of class \<open>c\<close>.\<close>

definition holds :: "map_env \<Rightarrow> u64 list \<Rightarrow> map_entry list \<Rightarrow> js_key \<Rightarrow> nat \<Rightarrow> bool" where
  "holds env S es c p = (slot_live (S ! p) \<and> entry_class env (es ! unat (slot_index (S ! p))) = c)"

lemma holds_hash:
  assumes "table_ok S es n tombs" "hashes_ok env es n" "p < length S" "holds env S es c p"
  shows "slot_hash (S ! p) = class_hash_nz c"
proof -
  from assms obtain i where i: "i < n" "e_hash (es ! i) \<noteq> 0" "S ! p = entry_slot es i" "i < 2 ^ 30"
    by (auto simp: holds_def elim: table_slot)
  then show ?thesis using assms(2,4) by (auto simp: holds_def hashes_ok_def entry_slot_def index_word)
qed

definition lookup_answer :: "map_env \<Rightarrow> map_cell \<Rightarrow> js_key \<Rightarrow> lookup_result \<Rightarrow> bool" where
  "lookup_answer env m c r =
     (lr_hash r = class_hash_nz c \<and>
      (if lr_found r then unat (lr_slot_idx r) < length (m_slots m) \<and>
         holds env (m_slots m) (m_entries m) c (unat (lr_slot_idx r)) \<and>
         lr_entry_idx r = slot_index (m_slots m ! unat (lr_slot_idx r))
       else \<forall>p<length (m_slots m). \<not> holds env (m_slots m) (m_entries m) c p))"

lemma lookup_loop_spec:
  fixes env tag payload
  defines "c \<equiv> key_class (env_heap env) tag payload"
  assumes "table_size (slots_count m) N" "length (m_slots m) = N"
    and ok: "table_ok (m_slots m) (m_entries m) n tombs" "hashes_ok env (m_entries m) n"
    and "unat i < N" "unat probe = dist N (unat i) (class_hash_nz c)"
    and "\<forall>p<N. dist N p (class_hash_nz c) < unat probe \<longrightarrow> \<not> holds env (m_slots m) (m_entries m) c p"
  shows "wp (lookup_loop env m tag payload (class_hash_nz c) i probe tomb) (lookup_answer env m c)"
  using assms(6-8)
proof (induction "N - unat probe" arbitrary: i probe tomb rule: less_induct)
  case less
  note t = assms(2) and B = table_size_bounds [OF assms(2)]
  let ?S = "m_slots m" and ?es = "m_entries m" and ?h = "class_hash_nz c"
  let ?i = "unat i" and ?s = "m_slots m ! unat i"
  have i: "?i < length ?S" using less.prems assms(3) by simp
  have tail: "dist N ?i ?h < dist N p ?h" if "p < N" "p \<noteq> ?i" "holds env ?S ?es c p" for p
  proof -
    have "unat probe \<le> dist N p ?h" using less.prems(3) that by force
    moreover have "dist N p ?h \<noteq> dist N ?i ?h" using that less.prems(1) by (simp add: dist_inject)
    ultimately show ?thesis using less.prems(2) by simp
  qed
  have path: "reach ?S ?h p" if "p < N" "holds env ?S ?es c p" for p
    using rhD [OF table_okD(1) [OF ok(1)], of p] holds_hash [OF ok, of p c] that assms(3)
    by (simp add: holds_def)
  have miss: "lookup_answer env m c (lookup_miss (slots_count m) tomb' i' ?h)"
    if "\<And>p. p < N \<Longrightarrow> \<not> holds env ?S ?es c p" for tomb' i'
    using that assms(3) by (simp add: lookup_answer_def lookup_miss_def)
  show ?case
  proof (cases "slot_index ?s = SLOT_EMPTY")
    case True
    have "\<not> holds env ?S ?es c p" if "p < N" for p
      using True tail [OF that] path [OF that] reachD(1) [of ?S ?h p ?i] i assms(3)
      by (cases "p = ?i") (auto simp: holds_def slot_live_def)
    then show ?thesis
      using i True miss by (subst lookup_loop.simps) (simp add: rd_def)
  next
    case ne: False
    define hit where "hit = (slot_index ?s \<noteq> SLOT_TOMBSTONE \<and> slot_hash ?s = ?h \<and> holds env ?S ?es c ?i)"
    have hit_holds: "holds env ?S ?es c ?i \<longleftrightarrow> hit"
      using holds_hash [OF ok i] by (auto simp: hit_def holds_def slot_live_def)
    have hit: "(if slot_index ?s \<noteq> SLOT_TOMBSTONE \<and> slot_hash ?s = ?h then do {
                 e \<leftarrow> rd ?es (unat (slot_index ?s));
                 Some (case stored_pair (env_materialize env) (key_anyv e) of
                         (e_tag, e_payload) \<Rightarrow> map_keys_equal (env_heap env) e_tag e_payload tag payload)
               } else Some False) = Some hit"
    proof (cases "slot_index ?s \<noteq> SLOT_TOMBSTONE \<and> slot_hash ?s = ?h")
      case True
      then have l: "slot_live ?s" using ne by (simp add: slot_live_def)
      from table_slot [OF ok(1) i l] obtain j where j: "j < n" "?s = entry_slot ?es j" "j < 2 ^ 30" by metis
      then have "unat (slot_index ?s) < length ?es"
        using table_okD(2) [OF ok(1)] by (simp add: entry_slot_def index_word)
      then show ?thesis using True l unfolding stored_key_equal
        by (simp add: rd_def hit_def holds_def c_def)
    qed (auto simp: hit_def)
    show ?thesis
    proof (cases hit)
      case True
      then show ?thesis using i ne hit_holds
        by (subst lookup_loop.simps) (simp add: rd_def [of ?S] hit lookup_answer_def)
    next
      case nh: False
      then have here: "\<not> holds env ?S ?es c ?i" using hit_holds by simp
      show ?thesis
      proof (cases "slot_index ?s \<noteq> SLOT_TOMBSTONE \<and> slot_hash ?s \<noteq> ?h \<and> slot_probe (slots_count m) i (slot_hash ?s) < probe")
        case stop: True
        have pr: "dist N ?i (slot_hash ?s) < dist N ?i ?h"
          using stop probe_dist [OF t less.prems(1)] less.prems(2) by (simp add: word_less_nat_alt)
        have "\<not> holds env ?S ?es c p" if "p < N" for p
          using here tail [OF that] path [OF that] reachD(2) [of ?S ?h p ?i] i assms(3) stop pr
          by (cases "p = ?i") fastforce+
        then show ?thesis using i ne nh stop miss
          by (subst lookup_loop.simps) (simp add: rd_def [of ?S] hit)
      next
        case go: False
        have sp: "unat (probe + 1) = Suc (unat probe)"
          by (rule suc_probe [OF t]) (use less.prems dist_less [of ?i N ?h] in simp)
        have past: "\<not> holds env ?S ?es c p" if "p < N" "dist N p ?h \<le> unat probe" for p
          using here tail [OF that(1)] that less.prems(2) by (cases "p = ?i") auto
        show ?thesis
        proof (cases "slots_count m \<le> probe + 1")
          case True
          then have "N \<le> Suc (unat probe)" using sp B(3) by (simp add: word_le_nat_alt)
          then have "\<not> holds env ?S ?es c p" if "p < N" for p
            using past [OF that] dist_less [OF that, of ?h] by simp
          then show ?thesis using i ne nh go True miss
            by (subst lookup_loop.simps) (auto simp: rd_def [of ?S] hit Let_def)
        next
          case False
          then have l: "Suc (unat probe) < N" using sp B(3) by (simp add: word_le_nat_alt)
          let ?n = "(i + 1) AND (slots_count m - 1)"
          have n: "unat ?n = Suc ?i mod N" by (rule next_pos [OF t less.prems(1)])
          have d: "unat (probe + 1) = dist N (unat ?n) ?h"
            unfolding n sp using dist_suc [OF less.prems(1)] less.prems(2) l by simp
          have "wp (lookup_loop env m tag payload ?h ?n (probe + 1) tomb') (lookup_answer env m c)" for tomb'
          proof (rule less.hyps)
            show "N - unat (probe + 1) < N - unat probe" using sp l by simp
            show "unat ?n < N" using n B by simp
            show "\<forall>p<N. dist N p ?h < unat (probe + 1) \<longrightarrow> \<not> holds env ?S ?es c p"
              using past sp by simp
          qed (rule d)
          then show ?thesis using i ne nh go False
            by (subst lookup_loop.simps) (auto simp: rd_def [of ?S] hit Let_def)
        qed
      qed
    qed
  qed
qed


text \<open>The answer in terms of the entries.\<close>

definition found_at :: "map_env \<Rightarrow> map_cell \<Rightarrow> nat \<Rightarrow> js_key \<Rightarrow> lookup_result \<Rightarrow> bool" where
  "found_at env m n c r =
     (lr_hash r = class_hash_nz c \<and>
      (if lr_found r then
         \<exists>i<n. e_hash (m_entries m ! i) \<noteq> 0 \<and> entry_class env (m_entries m ! i) = c \<and> i < 2 ^ 30 \<and>
           lr_entry_idx r = word_of_nat i \<and> unat (lr_slot_idx r) < length (m_slots m) \<and>
           m_slots m ! unat (lr_slot_idx r) = entry_slot (m_entries m) i
       else \<forall>i<n. e_hash (m_entries m ! i) \<noteq> 0 \<longrightarrow> entry_class env (m_entries m ! i) \<noteq> c))"

lemma lookup_spec:
  assumes t: "table_size (slots_count m) N" "length (m_slots m) = N"
    and ok: "table_ok (m_slots m) (m_entries m) n tombs" "hashes_ok env (m_entries m) n"
  shows "wp (map_lookup_slot env m tag payload) (found_at env m n (key_class (env_heap env) tag payload))"
proof -
  let ?c = "key_class (env_heap env) tag payload" and ?S = "m_slots m" and ?es = "m_entries m"
  let ?i = "class_hash_nz ?c AND (slots_count m - 1)"
  note B = table_size_bounds [OF t(1)]
  have i: "unat ?i = unat (class_hash_nz ?c) mod N" by (rule and_cap [OF t(1)])
  have "wp (map_lookup_slot env m tag payload) (lookup_answer env m ?c)"
    unfolding map_lookup_slot_def Let_def map_hash_nz
    by (rule lookup_loop_spec [OF t ok]) (use i B in \<open>simp_all add: dist_home\<close>)
  then show ?thesis
  proof (rule wp_mono)
    fix r
    assume a: "lookup_answer env m ?c r"
    show "found_at env m n ?c r"
    proof (cases "lr_found r")
      case True
      with a have p: "unat (lr_slot_idx r) < length ?S" "holds env ?S ?es ?c (unat (lr_slot_idx r))"
        "lr_entry_idx r = slot_index (?S ! unat (lr_slot_idx r))" "lr_hash r = class_hash_nz ?c"
        by (simp_all add: lookup_answer_def)
      then obtain j where j: "j < n" "e_hash (?es ! j) \<noteq> 0" "?S ! unat (lr_slot_idx r) = entry_slot ?es j" "j < 2 ^ 30"
        by (auto simp: holds_def elim: table_slot [OF ok(1)])
      have "\<exists>i<n. e_hash (?es ! i) \<noteq> 0 \<and> entry_class env (?es ! i) = ?c \<and> i < 2 ^ 30 \<and>
        lr_entry_idx r = word_of_nat i \<and> unat (lr_slot_idx r) < length ?S \<and> ?S ! unat (lr_slot_idx r) = entry_slot ?es i"
        using p j by (intro exI [of _ j]) (auto simp: holds_def entry_slot_def index_word)
      then show ?thesis using True p by (simp add: found_at_def)
    next
      case False
      with a have p: "\<forall>p<length ?S. \<not> holds env ?S ?es ?c p" "lr_hash r = class_hash_nz ?c"
        by (simp_all add: lookup_answer_def)
      have "entry_class env (?es ! j) \<noteq> ?c" if j: "j < n" "e_hash (?es ! j) \<noteq> 0" for j
      proof -
        have b: "j < 2 ^ 30" using j(1) table_okD(2,3) [OF ok(1)] by linarith
        have "entry_slot ?es j \<in> set ?S" unfolding table_set [OF ok(1)] using j by auto
        then obtain p where "p < length ?S" "?S ! p = entry_slot ?es j" by (auto simp: in_set_conv_nth)
        with p(1) entry_slot_live [OF b] show ?thesis
          by (auto simp: holds_def entry_slot_def index_word [OF b] slot_live_def)
      qed
      with False p show ?thesis by (simp add: found_at_def)
    qed
  qed
qed

section \<open>Well-formed blocks\<close>

definition live_entries :: "map_cell \<Rightarrow> map_entry list" where
  "live_entries m = map (\<lambda>i. m_entries m ! i) (live_idx (m_entries m) (unat (n_used m)))"

text \<open>What a block stands for: its keys and values in insertion order.\<close>

definition contents :: "map_env \<Rightarrow> map_cell \<Rightarrow> (js_key \<times> u64) list" where
  "contents env m = map (\<lambda>e. (entry_class env e, value_anyv e)) (live_entries m)"

definition map_ok :: "map_env \<Rightarrow> map_cell \<Rightarrow> bool" where
  "map_ok env m =
     (table_size (slots_count m) (length (m_slots m)) \<and> 16 \<le> length (m_slots m) \<and>
      length (m_entries m) = unat (entries_cap m) \<and> unat (n_used m) \<le> unat (entries_cap m) \<and> 0 < unat (entries_cap m) \<and>
      table_ok (m_slots m) (m_entries m) (unat (n_used m)) (unat (n_tombstones m)) \<and>
      hashes_ok env (m_entries m) (unat (n_used m)) \<and>
      unat (n_entries m) = length (contents env m) \<and>
      4 * (unat (n_entries m) + unat (n_tombstones m)) \<le> 3 * length (m_slots m) \<and>
      distinct (map fst (contents env m)))"

lemma map_okD:
  assumes "map_ok env m"
  shows "table_size (slots_count m) (length (m_slots m))" "16 \<le> length (m_slots m)"
    "length (m_entries m) = unat (entries_cap m)" "unat (n_used m) \<le> unat (entries_cap m)" "0 < unat (entries_cap m)"
    "table_ok (m_slots m) (m_entries m) (unat (n_used m)) (unat (n_tombstones m))"
    "hashes_ok env (m_entries m) (unat (n_used m))"
    "unat (n_entries m) = length (contents env m)"
    "4 * (unat (n_entries m) + unat (n_tombstones m)) \<le> 3 * length (m_slots m)"
    "distinct (map fst (contents env m))"
  using assms by (simp_all add: map_ok_def)

lemma length_contents: "length (contents env m) = length (live_idx (m_entries m) (unat (n_used m)))"
  by (simp add: contents_def live_entries_def)

lemma map_lookup_ok:
  assumes "map_ok env m"
  shows "wp (map_lookup_slot env m tag payload)
    (found_at env m (unat (n_used m)) (key_class (env_heap env) tag payload))"
  using lookup_spec [OF map_okD(1) [OF assms] refl map_okD(6,7) [OF assms]] .

text \<open>Two live entries with the same key are the same.\<close>

lemma entry_unique:
  assumes "map_ok env m" "i < unat (n_used m)" "e_hash (m_entries m ! i) \<noteq> 0" "j < unat (n_used m)"
    "e_hash (m_entries m ! j) \<noteq> 0" "entry_class env (m_entries m ! i) = entry_class env (m_entries m ! j)"
  shows "i = j"
proof -
  have "distinct (map (\<lambda>i. entry_class env (m_entries m ! i)) (live_idx (m_entries m) (unat (n_used m))))"
    using map_okD(10) [OF assms(1)] by (simp add: contents_def live_entries_def comp_def)
  then have "inj_on (\<lambda>i. entry_class env (m_entries m ! i)) (set (live_idx (m_entries m) (unat (n_used m))))"
    by (simp add: distinct_map)
  then show ?thesis by (rule inj_onD) (use assms in auto)
qed

lemma contents_mem:
  "(c, v) \<in> set (contents env m) \<longleftrightarrow>
     (\<exists>i<unat (n_used m). e_hash (m_entries m ! i) \<noteq> 0 \<and> entry_class env (m_entries m ! i) = c \<and>
        value_anyv (m_entries m ! i) = v)"
  by (auto simp: contents_def live_entries_def)

end
