(* ===== verification/Map_Rehash.thy ===== *)
theory Map_Rehash
  imports Map_Lookup
begin

text \<open>
  The rebuilding of a block (\<open>map_rehash\<close>): the live entries move to the front in their
  order and a fresh slot table is filled with them, which leaves no tombstone and keeps the
  contents.
\<close>

section \<open>One insertion\<close>

lemma table_tombless: "table_ok S es n 0 \<Longrightarrow> tombless S"
  unfolding tombless_def
proof (intro allI impI notI)
  fix p
  assume t: "table_ok S es n 0" and p: "p < length S" "slot_index (S ! p) = SLOT_TOMBSTONE"
  then have "S ! p \<in> set S" by simp
  with table_set [OF t, of "S ! p"] obtain i where i: "S ! p = entry_slot es i" "i < n"
    using p by (auto simp: SLOT_EMPTY_def SLOT_TOMBSTONE_def)
  with table_okD(2,3) [OF t] have "i < 2 ^ 30" by linarith
  from index_word_valid(2) [OF this] i p show False by (simp add: entry_slot_def)
qed

lemma live_idx_Suc: "live_idx es (Suc n) = live_idx es n @ (if e_hash (es ! n) \<noteq> 0 then [n] else [])"
  by (simp add: live_idx_def)

lemma live_idx_cong: "(\<And>i. i < n \<Longrightarrow> e_hash (es ! i) = e_hash (es' ! i)) \<Longrightarrow> live_idx es n = live_idx es' n"
  by (auto simp: live_idx_def intro: filter_cong)

lemma entry_slot_cong: "e_hash (es ! i) = e_hash (es' ! i) \<Longrightarrow> entry_slot es i = entry_slot es' i"
  by (simp add: entry_slot_def)

lemma table_insert:
  assumes cap: "table_size cap (length S)" and ok: "table_ok S es n 0"
    and same: "\<And>i. i < n \<Longrightarrow> es' ! i = es ! i" and len: "length es' = length es"
    and new: "n < length es" "e_hash (es' ! n) \<noteq> 0" and room: "Suc (length (live_idx es n)) < length S"
  shows "wp (map_slot_insert S cap (e_hash (es' ! n)) (word_of_nat n))
    (\<lambda>S'. length S' = length S \<and> table_ok S' es' (Suc n) 0)"
proof -
  note D = table_okD [OF ok] and B = table_size_bounds [OF cap]
  let ?h = "e_hash (es' ! n)" and ?L = "length (live_idx es n)"
  let ?i = "?h AND (cap - 1)"
  have n: "n < 2 ^ 30" using new D(3) by linarith
  obtain e where e: "e < length S" "slot_index (S ! e) = SLOT_EMPTY" by (rule table_has_empty [OF ok])
  have home: "unat ?i = unat ?h mod length S" by (rule and_cap [OF cap])
  then have i: "unat ?i < length S" using B by simp
  have z: "dist (length S) (unat ?i) ?h = 0" unfolding home by (rule dist_home)
  have probe: "unat (0 :: u32) = dist (length S) (unat ?i) ?h" using z by simp
  have r: "reach S ?h (unat ?i)" using z by (simp add: reach_def)
  have all: "\<forall>p<length S. slot_index (S ! p) = SLOT_EMPTY \<longrightarrow> S ! p = slot_make 0 SLOT_EMPTY"
    using table_empty [OF ok] by blast
  from slot_insert_loop_spec [OF cap refl i probe index_word_valid [OF n] D(1) table_tombless [OF ok] r e all]
  obtain S' where S': "map_slot_insert S cap ?h (word_of_nat n) = Some S'" "length S' = length S" "rh S'"
    "add_mset (slot_make 0 SLOT_EMPTY) (mset S') = add_mset (slot_make ?h (word_of_nat n)) (mset S)"
    by (auto simp: map_slot_insert_def)
  have live: "live_idx es' (Suc n) = live_idx es n @ [n]"
    using new same by (simp add: live_idx_Suc live_idx_cong [of n es' es])
  have slots: "map (entry_slot es') (live_idx es n) = map (entry_slot es) (live_idx es n)"
    using same by (auto intro!: entry_slot_cong)
  have "length S - ?L = Suc (length S - Suc ?L)" using room by simp
  then have "add_mset (slot_make 0 SLOT_EMPTY) (mset S') =
      add_mset (slot_make 0 SLOT_EMPTY) (mset (map (entry_slot es') (live_idx es' (Suc n))) +
        replicate_mset (length S - Suc ?L) (slot_make 0 SLOT_EMPTY))"
    unfolding S'(4) D(5) live map_append slots by (simp add: entry_slot_def)
  then have "mset S' = mset (map (entry_slot es') (live_idx es' (Suc n))) +
        replicate_mset (length S - Suc ?L) (slot_make 0 SLOT_EMPTY)" by simp
  then have "table_ok S' es' (Suc n) 0"
    using S'(2,3) len new D(3) room by (simp add: table_ok_def live)
  with S' show ?thesis by simp
qed

section \<open>Rehash\<close>

lemma table_ok_empty:
  assumes "table_size cap N" "length es \<le> 2 ^ 30"
  shows "table_ok (empty_slots cap) es 0 0" "length (empty_slots cap) = N"
proof -
  have N: "unat cap = N" "0 < N" using table_size_bounds [OF assms(1)] by simp_all
  then show l: "length (empty_slots cap) = N" by (simp add: empty_slots_def)
  have "rh (empty_slots cap)"
    by (auto simp: rh_def empty_slots_def slot_live_def)
  then show "table_ok (empty_slots cap) es 0 0"
    using assms(2) N l by (simp add: table_ok_def live_idx_def) (simp add: empty_slots_def)
qed

definition rehash_inv :: "map_entry list \<Rightarrow> nat \<Rightarrow> nat \<Rightarrow> nat \<Rightarrow> map_entry list \<times> u64 list \<times> u32 \<Rightarrow> bool" where
  "rehash_inv old_e cap N k = (\<lambda>(new_e, new_s, new_used).
     unat new_used = length (live_idx old_e k) \<and> length new_e = cap \<and> length new_s = N \<and>
     take (unat new_used) new_e = map ((!) old_e) (live_idx old_e k) \<and> table_ok new_s new_e (unat new_used) 0)"

lemma all_live:
  assumes "take n es = map ((!) old_e) (live_idx old_e k)" "n = length (live_idx old_e k)" "n \<le> length es"
  shows "live_idx es n = [0..<n]" and "i < n \<Longrightarrow> e_hash (es ! i) \<noteq> 0"
proof -
  show l: "e_hash (es ! i) \<noteq> 0" if "i < n" for i
  proof -
    have "es ! i = take n es ! i" using that by simp
    also have "\<dots> = old_e ! (live_idx old_e k ! i)" unfolding assms(1) using that assms(2) by simp
    finally show ?thesis using nth_mem [of i "live_idx old_e k"] that assms(2) by (simp del: nth_mem)
  qed
  then show "live_idx es n = [0..<n]" by (simp add: live_idx_def filter_id_conv)
qed

lemma rehash_step_inv:
  assumes cap: "table_size cnt N" and k: "k < length old_e"
    and room: "length (live_idx old_e (Suc k)) \<le> ecap" "length (live_idx old_e (Suc k)) < N"
    and inv: "rehash_inv old_e ecap N k s"
  shows "wp (rehash_step cnt old_e k s) (rehash_inv old_e ecap N (Suc k))"
proof -
  obtain new_e new_s new_used where s: "s = (new_e, new_s, new_used)" by (cases s)
  let ?u = "unat new_used" and ?src = "old_e ! k"
  from inv have I: "?u = length (live_idx old_e k)" "length new_e = ecap" "length new_s = N"
    "take ?u new_e = map ((!) old_e) (live_idx old_e k)" "table_ok new_s new_e ?u 0"
    unfolding rehash_inv_def s prod.case by blast+
  show ?thesis
  proof (cases "e_hash ?src = 0")
    case True
    then show ?thesis using I k
      by (simp add: s rehash_step_def rd_def ENTRY_HASH_TOMBSTONE_def rehash_inv_def live_idx_Suc)
  next
    case False
    then have live: "live_idx old_e (Suc k) = live_idx old_e k @ [k]" by (simp add: live_idx_Suc)
    have u: "?u < length new_e" "Suc ?u < N" using room I(1,2) live by simp_all
    let ?e = "new_e[?u := ?src]"
    have w: "word_of_nat ?u = new_used" by simp
    have lv: "length (live_idx new_e ?u) = ?u" using all_live(1) [OF I(4,1)] u by simp
    have sz: "table_size cnt (length new_s)" using cap I(3) by simp
    from table_insert [OF sz I(5), of ?e] obtain S' where S':
      "map_slot_insert new_s cnt (e_hash ?src) new_used = Some S'" "length S' = N" "table_ok S' ?e (Suc ?u) 0"
      using False u I(3) lv w by (auto elim!: wpE)
    have b: "Suc ?u < 2 ^ 32" using table_size_bounds [OF cap] u by simp
    have su: "unat (new_used + 1) = Suc ?u"
      by (subst unat_plus_if_size) (use b in \<open>auto simp: word_size\<close>)
    have "take (Suc ?u) ?e = map ((!) old_e) (live_idx old_e (Suc k))"
      using u(1) I(4) by (simp add: take_Suc_conv_app_nth live)
    then show ?thesis using False k S' u I su live
      by (simp add: s rehash_step_def rd_def wr_def ENTRY_HASH_TOMBSTONE_def rehash_inv_def)
  qed
qed

text \<open>What a rehash keeps: all but the arrays, the counts that describe them and the generation.\<close>

lemma map_rehash_spec:
  assumes ok: "hashes_ok env (m_entries m) (unat (n_used m))" "unat (n_used m) \<le> length (m_entries m)"
    "unat (n_entries m) = length (contents env m)" "distinct (map fst (contents env m))"
    and cap: "table_size cnt N" "16 \<le> N" "unat ecap \<le> 2 ^ 30" "0 < unat ecap"
    and room: "unat (n_entries m) \<le> unat ecap" "4 * unat (n_entries m) \<le> 3 * N"
  shows "wp (map_rehash m ecap cnt) (\<lambda>m'. map_ok env m' \<and> contents env m' = contents env m \<and>
    n_entries m' = n_entries m \<and> n_tombstones m' = 0 \<and> n_used m' = n_entries m \<and> slots_count m' = cnt \<and>
    entries_cap m' = ecap \<and> m_flags m' = m_flags m \<and> m_type_tag m' = m_type_tag m \<and> m_props m' = m_props m \<and>
    generation m' = generation m + 1)"
proof -
  let ?old = "m_entries m" and ?n = "unat (n_used m)"
  have L: "length (live_idx ?old ?n) = unat (n_entries m)" using ok(3) by (simp add: length_contents)
  have mono: "length (live_idx ?old k) \<le> length (live_idx ?old ?n)" if "k \<le> ?n" for k
  proof -
    have "[0..<?n] = [0..<k] @ [k..<?n]" using that by (metis le0 upt_add_eq_append le_iff_add)
    then show ?thesis by (simp add: live_idx_def)
  qed
  have start: "rehash_inv ?old (unat ecap) N 0 (replicate (unat ecap) no_entry, empty_slots cnt, 0)"
    using table_ok_empty [OF cap(1), of "replicate (unat ecap) no_entry"] cap(3)
    by (simp add: rehash_inv_def live_idx_def)
  have loop: "wp (for_range 0 ?n (rehash_step cnt ?old) (replicate (unat ecap) no_entry, empty_slots cnt, 0))
    (rehash_inv ?old (unat ecap) N ?n)"
  proof (rule wp_for_range [where I = "rehash_inv ?old (unat ecap) N"])
    fix k s
    assume k: "k < ?n" and I: "rehash_inv ?old (unat ecap) N k s"
    have "length (live_idx ?old (Suc k)) \<le> unat (n_entries m)" using mono [of "Suc k"] k L by simp
    then show "wp (rehash_step cnt ?old k s) (rehash_inv ?old (unat ecap) N (Suc k))"
      by (intro rehash_step_inv [OF cap(1) _ _ _ I]) (use k ok(2) room cap(2) in simp_all)
  qed (use start in auto)
  then obtain new_e new_s new_used where r:
    "for_range 0 ?n (rehash_step cnt ?old) (replicate (unat ecap) no_entry, empty_slots cnt, 0) = Some (new_e, new_s, new_used)"
    and I: "unat new_used = length (live_idx ?old ?n)" "length new_e = unat ecap" "length new_s = N"
      "take (unat new_used) new_e = map ((!) ?old) (live_idx ?old ?n)" "table_ok new_s new_e (unat new_used) 0"
    by (auto simp: rehash_inv_def elim!: wpE)
  define m' where "m' = m\<lparr>m_entries := new_e, m_slots := new_s, entries_cap := ecap,
       slots_count := cnt, n_used := new_used, n_tombstones := 0, generation := generation m + 1\<rparr>"
  have m': "map_rehash m ecap cnt = Some m'" by (simp add: map_rehash_def r m'_def)
  have used: "new_used = n_entries m" using I(1) L by (simp add: word_unat_eq_iff)
  have ul: "unat new_used \<le> length new_e" using I(2) used room by simp
  note A = all_live [OF I(4,1) ul]
  have le: "live_entries m' = map ((!) ?old) (live_idx ?old ?n)"
  proof -
    have "map ((!) new_e) [0..<unat new_used] = take (unat new_used) new_e"
      using ul by (intro nth_equalityI) auto
    then show ?thesis using I(4) A(1) by (simp add: live_entries_def m'_def)
  qed
  have c: "contents env m' = contents env m" by (simp only: contents_def le) (simp add: live_entries_def)
  have "hashes_ok env new_e (unat new_used)"
    unfolding hashes_ok_def
  proof (intro allI impI)
    fix i
    assume i: "i < unat new_used"
    have "new_e ! i = take (unat new_used) new_e ! i" using i by simp
    also have "\<dots> = ?old ! (live_idx ?old ?n ! i)" unfolding I(4) using i I(1) by simp
    finally have "new_e ! i = ?old ! (live_idx ?old ?n ! i)" .
    moreover have "live_idx ?old ?n ! i \<in> set (live_idx ?old ?n)" by (rule nth_mem) (use i I(1) in simp)
    ultimately show "e_hash (new_e ! i) = class_hash_nz (entry_class env (new_e ! i))"
      using ok(1) by (simp add: hashes_ok_def)
  qed
  then have "map_ok env m'"
    using I used c ok(3,4) cap room ul by (simp add: map_ok_def m'_def)
  with m' c used show ?thesis by (simp add: m'_def)
qed

end
