(* ===== verification/Map_Ops.thy ===== *)
theory Map_Ops
  imports Map_Table
begin

text \<open>
  The operations of \<open>Map\<close> and \<open>Set\<close> over the block of \<open>Map_Table\<close>: writes
  (\<open>mutate.rs\<close>), removal (\<open>delete.rs\<close>), queries and the set algebra (\<open>query.rs\<close>),
  iteration (\<open>iter.rs\<close>) and destruction (\<open>drop.rs\<close>). An operation that hands payloads
  to the reference counts answers the calls it makes, in order.
\<close>

section \<open>Reference counts\<close>

text \<open>A heap payload that is not null is released or taken.\<close>

definition drop_pair :: "u8 \<Rightarrow> u64 \<Rightarrow> rc_event list" where
  "drop_pair tag payload = (if tag = ANY_HEAP \<and> payload \<noteq> 0 then [ValueDrop payload] else [])"

definition inc_pair :: "u8 \<Rightarrow> u64 \<Rightarrow> rc_event list" where
  "inc_pair tag payload = (if tag = ANY_HEAP \<and> payload \<noteq> 0 then [RcInc payload] else [])"

definition unbox :: "map_env \<Rightarrow> u64 \<Rightarrow> u8 \<times> u64" where
  "unbox env v = (ucast (anyv_unbox_tag v), anyv_unbox_value (env_materialize env) v)"

definition drop_entry_refs :: "map_env \<Rightarrow> map_entry \<Rightarrow> rc_event list" where
  "drop_entry_refs env e =
     (case unbox env (key_anyv e) of (t, p) \<Rightarrow> drop_pair t p) @
     (case unbox env (value_anyv e) of (t, p) \<Rightarrow> drop_pair t p)"

section \<open>Writing\<close>

definition admits_value :: "map_cell \<Rightarrow> u8 \<Rightarrow> bool" where
  "admits_value m tag = (m_flags m AND FLAG_MAP_VALUES_NUMBER = 0 \<or> tag = ANY_I64 \<or> tag = ANY_F64 \<or> tag = ANY_UNDEF)"

definition map_mark_num :: "map_cell \<Rightarrow> map_cell" where
  "map_mark_num m = m\<lparr>m_flags := m_flags m OR FLAG_MAP_VALUES_NUMBER\<rparr>"

text \<open>Section 24.1.3.9 of the standard: a key -0 is stored as +0.\<close>

definition norm_zero :: "u8 \<Rightarrow> u64 \<Rightarrow> u64" where
  "norm_zero tag payload = (if tag = ANY_F64 \<and> payload = 0x8000000000000000 then 0 else payload)"

definition grow_slots :: "map_cell \<Rightarrow> map_cell option" where
  "grow_slots m =
     (if slot_load_exceeded (n_entries m) (n_tombstones m) (slots_count m) then
        (let new_slots = slots_count m * 2;
             new_entries = entries_cap m;
             new_entries = (if n_entries m + 1 > new_entries then new_entries * 2 else new_entries)
         in map_rehash m new_entries new_slots)
      else Some m)"

definition overwrite_entry :: "map_env \<Rightarrow> map_cell \<Rightarrow> u32 \<Rightarrow> u8 \<Rightarrow> u64 \<Rightarrow> u8 \<Rightarrow> u64 \<Rightarrow> (map_cell \<times> rc_event list) option" where
  "overwrite_entry env m idx kt kp vt vp = do {
     e \<leftarrow> rd (m_entries m) (unat idx);
     let dropped = (case stored_pair (env_materialize env) (value_anyv e) of (t, p) \<Rightarrow> drop_pair t p) @ drop_pair kt kp;
     es \<leftarrow> wr (m_entries m) (unat idx) (e\<lparr>value_anyv := box_key vt vp\<rparr>);
     Some (m\<lparr>m_entries := es\<rparr>, dropped)
   }"

definition insert_entry :: "map_cell \<Rightarrow> u32 \<Rightarrow> u32 \<Rightarrow> u8 \<Rightarrow> u64 \<Rightarrow> u8 \<Rightarrow> u64 \<Rightarrow> map_cell option" where
  "insert_entry m hash new_idx kt kp vt vp = do {
     es \<leftarrow> wr (m_entries m) (unat new_idx) \<lparr>e_hash = hash, key_anyv = box_key kt kp, value_anyv = box_key vt vp\<rparr>;
     s \<leftarrow> map_slot_insert (m_slots m) (slots_count m) hash new_idx;
     Some (m\<lparr>m_entries := es, n_used := n_used m + 1, n_entries := n_entries m + 1, m_slots := s\<rparr>)
   }"

definition fresh_entry :: "map_env \<Rightarrow> map_cell \<Rightarrow> u32 \<Rightarrow> u8 \<Rightarrow> u64 \<Rightarrow> u8 \<Rightarrow> u64 \<Rightarrow> map_cell option" where
  "fresh_entry env m hash kt kp vt vp =
     (if entries_cap m \<le> n_used m then do {
        m \<leftarrow> map_rehash m (entries_cap m * 2) (slots_count m);
        re \<leftarrow> map_lookup_slot env m kt kp;
        insert_entry m (lr_hash re) (n_used m) kt kp vt vp
      }
      else insert_entry m hash (n_used m) kt kp vt vp)"

definition map_set :: "map_env \<Rightarrow> map_cell option \<Rightarrow> u8 \<Rightarrow> u64 \<Rightarrow> u8 \<Rightarrow> u64 \<Rightarrow> (map_cell option \<times> rc_event list) option" where
  "map_set env p kt kp vt vp =
     (case p of
        None \<Rightarrow> Some (None, [])
      | Some m \<Rightarrow>
          if \<not> admits_value m vt then Some (Some m, ThrowTypeError # drop_pair kt kp @ drop_pair vt vp)
          else do {
            let kp = norm_zero kt kp;
            m \<leftarrow> grow_slots m;
            lr \<leftarrow> map_lookup_slot env m kt kp;
            if lr_found lr then do {
              (m, evs) \<leftarrow> overwrite_entry env m (lr_entry_idx lr) kt kp vt vp;
              Some (Some m, evs)
            }
            else do {
              m \<leftarrow> fresh_entry env m (lr_hash lr) kt kp vt vp;
              Some (Some m, [])
            }
          })"

text \<open>The value of the entry a lookup found, as a pair and with its reference taken.\<close>

definition entry_value :: "map_env \<Rightarrow> map_cell \<Rightarrow> u32 \<Rightarrow> ((u8 \<times> u64) \<times> rc_event list) option" where
  "entry_value env m idx = do {
     e \<leftarrow> rd (m_entries m) (unat idx);
     let (vt, vp) = unbox env (value_anyv e);
     Some ((vt, vp), inc_pair vt vp)
   }"

definition map_get_or_insert :: "map_env \<Rightarrow> map_cell option \<Rightarrow> u8 \<Rightarrow> u64 \<Rightarrow> u8 \<Rightarrow> u64 \<Rightarrow>
    (map_cell option \<times> (u8 \<times> u64) \<times> rc_event list) option" where
  "map_get_or_insert env p kt kp dt dp =
     (case p of
        None \<Rightarrow> Some (None, (5, 0), drop_pair kt kp @ drop_pair dt dp)
      | Some m \<Rightarrow> do {
          let kp = norm_zero kt kp;
          lr \<leftarrow> map_lookup_slot env m kt kp;
          if lr_found lr then do {
            (v, evs) \<leftarrow> entry_value env m (lr_entry_idx lr);
            Some (Some m, v, evs @ drop_pair kt kp @ drop_pair dt dp)
          }
          else if \<not> admits_value m dt then
            Some (Some m, (5, 0), ThrowTypeError # drop_pair kt kp @ drop_pair dt dp)
          else do {
            (p, evs) \<leftarrow> map_set env p kt kp dt dp;
            Some (p, (dt, dp), evs @ inc_pair dt dp)
          }
        })"

definition map_peek :: "map_env \<Rightarrow> map_cell option \<Rightarrow> u8 \<Rightarrow> u64 \<Rightarrow> (bool \<times> (u8 \<times> u64) \<times> rc_event list) option" where
  "map_peek env p kt kp =
     (case p of
        None \<Rightarrow> Some (False, (5, 0), [])
      | Some m \<Rightarrow> do {
          let kp = norm_zero kt kp;
          lr \<leftarrow> map_lookup_slot env m kt kp;
          if \<not> lr_found lr then Some (False, (5, 0), [])
          else do {
            (v, evs) \<leftarrow> entry_value env m (lr_entry_idx lr);
            Some (True, v, evs)
          }
        })"

section \<open>Removal\<close>

definition tombstone_entry :: "map_cell \<Rightarrow> u32 \<Rightarrow> u32 \<Rightarrow> map_cell option" where
  "tombstone_entry m entry_idx slot_idx = do {
     es \<leftarrow> wr (m_entries m) (unat entry_idx) \<lparr>e_hash = ENTRY_HASH_TOMBSTONE, key_anyv = 0, value_anyv = 0\<rparr>;
     s \<leftarrow> wr (m_slots m) (unat slot_idx) (slot_make 0 SLOT_TOMBSTONE);
     Some (m\<lparr>m_entries := es, m_slots := s, n_entries := n_entries m - 1, n_tombstones := n_tombstones m + 1\<rparr>)
   }"

text \<open>A quarter of the slots being tombstones, the block is rebuilt at its size.\<close>

definition compact_slots :: "map_cell \<Rightarrow> map_cell option" where
  "compact_slots m =
     (if n_tombstones m > slots_count m div 4 then map_rehash m (entries_cap m) (slots_count m) else Some m)"

definition map_delete :: "map_env \<Rightarrow> map_cell option \<Rightarrow> u8 \<Rightarrow> u64 \<Rightarrow> (map_cell option \<times> bool \<times> rc_event list) option" where
  "map_delete env p kt kp = do {
     (p, r, evs) \<leftarrow> (case p of
        None \<Rightarrow> Some (None, False, [])
      | Some m \<Rightarrow> do {
          lr \<leftarrow> map_lookup_slot env m kt kp;
          if lr_found lr then do {
            e \<leftarrow> rd (m_entries m) (unat (lr_entry_idx lr));
            let evs = drop_entry_refs env e;
            m \<leftarrow> tombstone_entry m (lr_entry_idx lr) (lr_slot_idx lr);
            m \<leftarrow> compact_slots m;
            Some (Some m, True, evs)
          }
          else Some (Some m, False, [])
        });
     Some (p, r, evs @ drop_pair kt kp)
   }"

text \<open>The live entries of the used prefix, dropped in order.\<close>

definition drop_live :: "map_env \<Rightarrow> map_cell \<Rightarrow> rc_event list option" where
  "drop_live env m =
     for_range 0 (unat (n_used m)) (\<lambda>i evs. do {
       e \<leftarrow> rd (m_entries m) i;
       Some (if e_hash e = ENTRY_HASH_TOMBSTONE then evs else evs @ drop_entry_refs env e)
     }) []"

definition map_clear :: "map_env \<Rightarrow> map_cell option \<Rightarrow> (map_cell option \<times> rc_event list) option" where
  "map_clear env p =
     (case p of
        None \<Rightarrow> Some (None, [])
      | Some m \<Rightarrow> do {
          evs \<leftarrow> drop_live env m;
          Some (Some (m\<lparr>m_entries := replicate (unat (entries_cap m)) no_entry, m_slots := empty_slots (slots_count m),
            n_entries := 0, n_used := 0, n_tombstones := 0, generation := generation m + 1\<rparr>), evs)
        })"

section \<open>Queries\<close>

definition map_size :: "map_cell option \<Rightarrow> i64" where
  "map_size p = (case p of None \<Rightarrow> 0 | Some m \<Rightarrow> ucast (n_entries m))"

definition map_has :: "map_env \<Rightarrow> map_cell option \<Rightarrow> u8 \<Rightarrow> u64 \<Rightarrow> (bool \<times> rc_event list) option" where
  "map_has env p kt kp = do {
     r \<leftarrow> (case p of
       None \<Rightarrow> Some False
     | Some m \<Rightarrow> do { lr \<leftarrow> map_lookup_slot env m kt kp; Some (lr_found lr) });
     Some (r, drop_pair kt kp)
   }"

definition map_get :: "map_env \<Rightarrow> map_cell option \<Rightarrow> u8 \<Rightarrow> u64 \<Rightarrow> ((u8 \<times> u64) \<times> rc_event list) option" where
  "map_get env p kt kp = do {
     (v, evs) \<leftarrow> (case p of
       None \<Rightarrow> Some ((ANY_UNDEF, 0), [])
     | Some m \<Rightarrow> do {
         lr \<leftarrow> map_lookup_slot env m kt kp;
         if \<not> lr_found lr then Some ((ANY_UNDEF, 0), [])
         else do {
           e \<leftarrow> rd (m_entries m) (unat (lr_entry_idx lr));
           let (vt, vp) = stored_pair (env_materialize env) (value_anyv e);
           Some ((vt, vp), inc_pair vt vp)
         }
       });
     Some (v, evs @ drop_pair kt kp)
   }"

text \<open>\<open>for_each_entry\<close>, with the state \<open>f\<close> changes.\<close>

definition for_each_entry :: "map_cell option \<Rightarrow> (map_entry \<Rightarrow> 's \<Rightarrow> 's option) \<Rightarrow> 's \<Rightarrow> 's option" where
  "for_each_entry src f s =
     (case src of
        None \<Rightarrow> Some s
      | Some m \<Rightarrow> for_range 0 (unat (n_used m)) (\<lambda>i s. do {
          e \<leftarrow> rd (m_entries m) i;
          if e_hash e = 0 then Some s else f e s
        }) s)"

definition has_entry :: "map_env \<Rightarrow> map_cell \<Rightarrow> map_entry \<Rightarrow> bool option" where
  "has_entry env m e = (case unbox env (key_anyv e) of
     (t, p) \<Rightarrow> do { lr \<leftarrow> map_lookup_slot env m t p; Some (lr_found lr) })"

definition map_count :: "map_cell option \<Rightarrow> u32" where
  "map_count p = (case p of None \<Rightarrow> 0 | Some m \<Rightarrow> n_entries m)"

text \<open>The three predicates stop at the first entry that decides them.\<close>

definition all_entries :: "map_cell \<Rightarrow> (map_entry \<Rightarrow> bool option) \<Rightarrow> bool option" where
  "all_entries m f =
     for_range 0 (unat (n_used m)) (\<lambda>i ok. if \<not> ok then Some ok else do {
       e \<leftarrow> rd (m_entries m) i;
       if e_hash e = 0 then Some True else f e
     }) True"

definition set_is_subset_of :: "map_env \<Rightarrow> map_cell option \<Rightarrow> map_cell option \<Rightarrow> bool option" where
  "set_is_subset_of env this other =
     (if map_count this = 0 then Some True
      else case (this, other) of
        (Some m_this, Some m_other) \<Rightarrow> all_entries m_this (has_entry env m_other)
      | _ \<Rightarrow> Some False)"

definition set_is_superset_of :: "map_env \<Rightarrow> map_cell option \<Rightarrow> map_cell option \<Rightarrow> bool option" where
  "set_is_superset_of env this other =
     (if map_count other = 0 then Some True
      else case (this, other) of
        (Some m_this, Some m_other) \<Rightarrow> all_entries m_other (has_entry env m_this)
      | _ \<Rightarrow> Some False)"

definition set_is_disjoint_from :: "map_env \<Rightarrow> map_cell option \<Rightarrow> map_cell option \<Rightarrow> bool option" where
  "set_is_disjoint_from env this other =
     (if map_count this = 0 \<or> map_count other = 0 then Some True
      else case (this, other) of
        (Some m_this, Some m_other) \<Rightarrow>
          all_entries m_this (\<lambda>e. do { b \<leftarrow> has_entry env m_other e; Some (\<not> b) })
      | _ \<Rightarrow> Some True)"

text \<open>The operations that build a set carry it with the calls made so far.\<close>

type_synonym building = "map_cell \<times> rc_event list"

definition copy_pair_into :: "map_env \<Rightarrow> u8 \<Rightarrow> u64 \<Rightarrow> u8 \<Rightarrow> u64 \<Rightarrow> building \<Rightarrow> building option" where
  "copy_pair_into env kt kp vt vp = (\<lambda>(dst, evs). do {
     (p, evs') \<leftarrow> map_set env (Some dst) kt kp vt vp;
     case p of None \<Rightarrow> None | Some dst \<Rightarrow> Some (dst, evs @ evs')
   })"

definition copy_entry_into :: "map_env \<Rightarrow> map_entry \<Rightarrow> building \<Rightarrow> building option" where
  "copy_entry_into env e = (\<lambda>(dst, evs).
     case unbox env (key_anyv e) of (t, p) \<Rightarrow> copy_pair_into env t p ANY_UNDEF 0 (dst, evs @ inc_pair t p))"

definition copy_kv_entry_into :: "map_env \<Rightarrow> map_entry \<Rightarrow> building \<Rightarrow> building option" where
  "copy_kv_entry_into env e = (\<lambda>(dst, evs).
     case (unbox env (key_anyv e), unbox env (value_anyv e)) of
       ((kt, kp), (vt, vp)) \<Rightarrow> copy_pair_into env kt kp vt vp (dst, evs @ inc_pair kt kp @ inc_pair vt vp))"

definition set_union :: "map_env \<Rightarrow> map_cell option \<Rightarrow> map_cell option \<Rightarrow> building option" where
  "set_union env this other = do {
     s \<leftarrow> for_each_entry this (copy_entry_into env) (set_create, []);
     for_each_entry other (copy_entry_into env) s
   }"

definition copy_if :: "map_env \<Rightarrow> (map_entry \<Rightarrow> bool option) \<Rightarrow> map_entry \<Rightarrow> building \<Rightarrow> building option" where
  "copy_if env keep e s = do { b \<leftarrow> keep e; if b then copy_entry_into env e s else Some s }"

definition set_intersection :: "map_env \<Rightarrow> map_cell option \<Rightarrow> map_cell option \<Rightarrow> building option" where
  "set_intersection env this other =
     (case (this, other) of
        (Some m_this, Some m_other) \<Rightarrow>
          (let (src, probe) = (if n_entries m_this \<le> n_entries m_other then (m_this, m_other) else (m_other, m_this))
           in for_each_entry (Some src) (copy_if env (has_entry env probe)) (set_create, []))
      | _ \<Rightarrow> Some (set_create, []))"

definition absent_in :: "map_env \<Rightarrow> map_cell option \<Rightarrow> map_entry \<Rightarrow> bool option" where
  "absent_in env other e =
     (case other of None \<Rightarrow> Some True | Some m \<Rightarrow> do { b \<leftarrow> has_entry env m e; Some (\<not> b) })"

definition set_difference :: "map_env \<Rightarrow> map_cell option \<Rightarrow> map_cell option \<Rightarrow> building option" where
  "set_difference env this other = for_each_entry this (copy_if env (absent_in env other)) (set_create, [])"

definition set_symmetric_difference :: "map_env \<Rightarrow> map_cell option \<Rightarrow> map_cell option \<Rightarrow> building option" where
  "set_symmetric_difference env this other = do {
     s \<leftarrow> for_each_entry this (copy_if env (absent_in env other)) (set_create, []);
     for_each_entry other (copy_if env (absent_in env this)) s
   }"

definition map_clone :: "map_env \<Rightarrow> map_cell option \<Rightarrow> building option" where
  "map_clone env src = for_each_entry src (copy_kv_entry_into env) (map_create, [])"

section \<open>Iteration\<close>

text \<open>The walk to the first live entry from index \<open>i\<close>: the entry and the index after it.\<close>

partial_function (option) next_live :: "map_cell \<Rightarrow> u32 \<Rightarrow> (map_entry \<times> u32) option option" where
  "next_live m i =
     (if i < n_used m then do {
        e \<leftarrow> rd (m_entries m) (unat i);
        if e_hash e = ENTRY_HASH_TOMBSTONE then next_live m (i + 1) else Some (Some (e, i + 1))
      }
      else Some None)"

definition map_iter_next :: "map_env \<Rightarrow> map_cell option \<Rightarrow> i64 \<Rightarrow>
    (((u8 \<times> u64) \<times> (u8 \<times> u64)) option \<times> i64) option" where
  "map_iter_next env p c =
     (case p of
        None \<Rightarrow> Some (None, c)
      | Some m \<Rightarrow> do {
          r \<leftarrow> next_live m (if c = - 1 then 0 else ucast c);
          case r of
            Some (e, i) \<Rightarrow> Some (Some (unbox env (key_anyv e), unbox env (value_anyv e)), ucast i)
          | None \<Rightarrow> Some (None, ucast (n_used m))
        })"

datatype iter_kind = IterKeys | IterValues | IterEntries | IterSetEntries

text \<open>What a step yields: a payload, or a fresh array of two.\<close>

datatype iter_yield = YieldValue u8 u64 | YieldPair u8 u64 u8 u64

definition map_iter_step :: "map_env \<Rightarrow> map_cell option \<Rightarrow> iter_kind \<Rightarrow> i64 \<Rightarrow>
    (iter_yield option \<times> i64 \<times> rc_event list) option" where
  "map_iter_step env p kind c =
     (case p of
        None \<Rightarrow> Some (None, c, [])
      | Some m \<Rightarrow> do {
          r \<leftarrow> next_live m (ucast c);
          case r of
            None \<Rightarrow> Some (None, ucast (n_used m), [])
          | Some (e, i) \<Rightarrow>
              (case (unbox env (key_anyv e), unbox env (value_anyv e)) of ((kt, kp), (vt, vp)) \<Rightarrow>
                (case kind of
                   IterKeys \<Rightarrow> Some (Some (YieldValue kt kp), ucast i, inc_pair kt kp)
                 | IterValues \<Rightarrow> Some (Some (YieldValue vt vp), ucast i, inc_pair vt vp)
                 | IterEntries \<Rightarrow> Some (Some (YieldPair kt kp vt vp), ucast i, inc_pair kt kp @ inc_pair vt vp)
                 | IterSetEntries \<Rightarrow> Some (Some (YieldPair kt kp kt kp), ucast i, inc_pair kt kp @ inc_pair kt kp)))
        })"

section \<open>Destruction\<close>

text \<open>What the last owner releases: the entries in order, then the bag of own properties. The
  decrement of the block itself, the collector's buffer and the class registry are outside.\<close>

definition map_drop_last :: "map_env \<Rightarrow> map_cell \<Rightarrow> rc_event list option" where
  "map_drop_last env m = do {
     evs \<leftarrow> drop_live env m;
     Some (evs @ (if m_props m \<noteq> 0 then [ValueDrop (m_props m)] else []))
   }"

end
