(* ===== verification/Map_Correct.thy ===== *)
theory Map_Correct
  imports Map_Rehash Map_Ops
begin

text \<open>
  What the operations of a well-formed block do to its contents: an ordered association list
  keyed by JavaScript values, without duplicates.
\<close>

section \<open>The ordered map\<close>

definition omap_get :: "('k \<times> 'v) list \<Rightarrow> 'k \<Rightarrow> 'v option" where
  "omap_get xs k = map_of xs k"

definition omap_set :: "'k \<Rightarrow> 'v \<Rightarrow> ('k \<times> 'v) list \<Rightarrow> ('k \<times> 'v) list" where
  "omap_set k v xs =
     (if k \<in> fst ` set xs then map (\<lambda>(k', w). (k', if k' = k then v else w)) xs else xs @ [(k, v)])"

definition omap_delete :: "'k \<Rightarrow> ('k \<times> 'v) list \<Rightarrow> ('k \<times> 'v) list" where
  "omap_delete k xs = filter (\<lambda>(k', _). k' \<noteq> k) xs"

lemma omap_set_keys: "k \<in> fst ` set xs \<Longrightarrow> map fst (omap_set k v xs) = map fst xs"
  by (auto simp: omap_set_def)

section \<open>Contents by index\<close>

lemma contents_idx:
  "contents env m = map (\<lambda>i. (entry_class env (m_entries m ! i), value_anyv (m_entries m ! i)))
     (live_idx (m_entries m) (unat (n_used m)))"
  by (simp add: contents_def live_entries_def comp_def)

lemma contents_key:
  "c \<in> fst ` set (contents env m) \<longleftrightarrow>
     (\<exists>i<unat (n_used m). e_hash (m_entries m ! i) \<noteq> 0 \<and> entry_class env (m_entries m ! i) = c)"
  by (force simp: contents_idx)

lemma map_ok_less:
  assumes "map_ok env m" "i < unat (n_used m)"
  shows "i < length (m_entries m)" "i < 2 ^ 30"
  using assms table_okD(2,3) [OF map_okD(6) [OF assms(1)]] by linarith+

section \<open>Reading\<close>

lemma omap_get_entry:
  assumes "map_ok env m" "i < unat (n_used m)" "e_hash (m_entries m ! i) \<noteq> 0"
  shows "map_of (contents env m) (entry_class env (m_entries m ! i)) = Some (value_anyv (m_entries m ! i))"
  by (rule map_of_is_SomeI) (use assms map_okD(10) [OF assms(1)] in \<open>auto simp: contents_mem\<close>)

lemma omap_get_none:
  assumes "\<forall>i<unat (n_used m). e_hash (m_entries m ! i) \<noteq> 0 \<longrightarrow> entry_class env (m_entries m ! i) \<noteq> c"
  shows "map_of (contents env m) c = None" "c \<notin> fst ` set (contents env m)"
  using assms by (auto simp: map_of_eq_None_iff contents_key)

lemma map_get_spec:
  fixes kt kp
  assumes "map_ok env m"
  defines "c \<equiv> key_class (env_heap env) kt kp"
  shows "wp (map_get env (Some m) kt kp) (\<lambda>(v, evs).
    v = (case omap_get (contents env m) c of Some w \<Rightarrow> stored_pair (env_materialize env) w | None \<Rightarrow> (ANY_UNDEF, 0)) \<and>
    evs = (if c \<in> fst ` set (contents env m) then inc_pair (fst v) (snd v) else []) @ drop_pair kt kp)"
proof -
  from map_lookup_ok [OF assms(1), of kt kp] obtain r where
    r: "map_lookup_slot env m kt kp = Some r" "found_at env m (unat (n_used m)) c r"
    by (auto simp: c_def elim!: wpE)
  show ?thesis
  proof (cases "lr_found r")
    case True
    with r obtain i where i: "i < unat (n_used m)" "e_hash (m_entries m ! i) \<noteq> 0" "entry_class env (m_entries m ! i) = c"
      "lr_entry_idx r = word_of_nat i" by (auto simp: found_at_def)
    note l = map_ok_less [OF assms(1) i(1)]
    have "map_of (contents env m) c = Some (value_anyv (m_entries m ! i))"
      using omap_get_entry [OF assms(1) i(1,2)] i(3) by simp
    moreover from this have "c \<in> fst ` set (contents env m)" by (metis map_of_eq_None_iff option.distinct(1))
    ultimately show ?thesis using True r(1) i l
      by (auto simp: map_get_def rd_def index_word omap_get_def split: prod.split)
  next
    case False
    with r have "\<forall>i<unat (n_used m). e_hash (m_entries m ! i) \<noteq> 0 \<longrightarrow> entry_class env (m_entries m ! i) \<noteq> c"
      by (simp add: found_at_def)
    from omap_get_none [OF this] show ?thesis using False r(1)
      by (simp add: map_get_def omap_get_def)
  qed
qed

lemma map_has_spec:
  assumes "map_ok env m"
  shows "map_has env (Some m) kt kp =
    Some (key_class (env_heap env) kt kp \<in> fst ` set (contents env m), drop_pair kt kp)"
proof -
  let ?c = "key_class (env_heap env) kt kp"
  from map_lookup_ok [OF assms(1), of kt kp] obtain r where
    r: "map_lookup_slot env m kt kp = Some r" "found_at env m (unat (n_used m)) ?c r"
    by (auto elim!: wpE)
  then have "lr_found r \<longleftrightarrow> ?c \<in> fst ` set (contents env m)"
    unfolding contents_key by (auto simp: found_at_def split: if_splits)
  then show ?thesis using r(1) by (simp add: map_has_def)
qed

section \<open>Overwriting\<close>

lemma entries_update:
  fixes e
  assumes "map_ok env m" "i < unat (n_used m)" "e_hash (m_entries m ! i) \<noteq> 0"
    and e: "e_hash e = e_hash (m_entries m ! i)" "entry_class env e = entry_class env (m_entries m ! i)"
  defines "m' \<equiv> m\<lparr>m_entries := (m_entries m)[i := e]\<rparr>"
  shows "map_ok env m'" "contents env m' = omap_set (entry_class env e) (value_anyv e) (contents env m)"
proof -
  let ?es = "m_entries m" and ?es' = "(m_entries m)[i := e]" and ?n = "unat (n_used m)"
  note l = map_ok_less [OF assms(1,2)]
  have h: "e_hash (?es' ! j) = e_hash (?es ! j)" for j using e(1) l(1) by (simp add: nth_list_update)
  have c: "entry_class env (?es' ! j) = entry_class env (?es ! j)" for j
    using e(2) l(1) by (simp add: nth_list_update)
  have live: "live_idx ?es' k = live_idx ?es k" for k by (rule live_idx_cong) (rule h)
  have slots: "entry_slot ?es' = entry_slot ?es" by (rule ext) (rule entry_slot_cong, rule h)
  have key: "entry_class env e \<in> fst ` set (contents env m)" unfolding contents_key using assms(2,3) e(2) by metis
  show eq: "contents env m' = omap_set (entry_class env e) (value_anyv e) (contents env m)"
  proof -
    have u: "entry_class env (?es ! j) = entry_class env e \<longleftrightarrow> j = i" if "j \<in> set (live_idx ?es ?n)" for j
      using entry_unique [OF assms(1) _ _ assms(2,3)] that e(2) by auto
    have "contents env m' = map (\<lambda>j. (entry_class env (?es ! j), value_anyv (?es' ! j))) (live_idx ?es ?n)"
      by (simp add: contents_idx m'_def live c)
    also have "\<dots> = map (\<lambda>j. (entry_class env (?es ! j), if entry_class env (?es ! j) = entry_class env e
        then value_anyv e else value_anyv (?es ! j))) (live_idx ?es ?n)"
      using u l(1) by (intro map_cong refl) (simp add: nth_list_update)
    also have "\<dots> = omap_set (entry_class env e) (value_anyv e) (contents env m)"
      using key by (simp add: omap_set_def) (simp add: contents_idx comp_def)
    finally show ?thesis .
  qed
  have "map fst (contents env m') = map fst (contents env m)" unfolding eq by (rule omap_set_keys [OF key])
  moreover from this have "length (contents env m') = length (contents env m)" by (metis length_map)
  moreover have "table_ok (m_slots m) ?es' ?n (unat (n_tombstones m))"
    using map_okD(6) [OF assms(1)] by (simp add: table_ok_def live slots)
  moreover have "hashes_ok env ?es' ?n" using map_okD(7) [OF assms(1)] by (simp add: hashes_ok_def h c)
  ultimately show "map_ok env m'" using assms(1) by (simp add: map_ok_def m'_def)
qed

section \<open>Inserting\<close>

lemma box_class:
  assumes "storable kt kp"
  shows "entry_class env \<lparr>e_hash = h, key_anyv = box_key kt kp, value_anyv = v\<rparr> = key_class (env_heap env) kt kp"
  using storable_class [OF assms, where heap = "env_heap env" and materialize = "env_materialize env"]
  by (simp add: entry_class_def split: prod.splits)

lemma insert_entry_spec:
  fixes kt kp env
  assumes ok: "map_ok env m" and tombs: "n_tombstones m = 0" and st: "storable kt kp"
    and room: "unat (n_used m) < unat (entries_cap m)" "4 * (unat (n_entries m) + 1) \<le> 3 * length (m_slots m)"
    and fresh: "key_class (env_heap env) kt kp \<notin> fst ` set (contents env m)"
  defines "c \<equiv> key_class (env_heap env) kt kp"
  shows "wp (insert_entry m (class_hash_nz c) (n_used m) kt kp vt vp) (\<lambda>m'.
    map_ok env m' \<and> contents env m' = contents env m @ [(c, box_key vt vp)] \<and> n_tombstones m' = 0 \<and>
    slots_count m' = slots_count m \<and> entries_cap m' = entries_cap m \<and> n_used m' = n_used m + 1 \<and>
    m_flags m' = m_flags m \<and> m_type_tag m' = m_type_tag m)"
proof -
  let ?es = "m_entries m" and ?n = "unat (n_used m)" and ?S = "m_slots m"
  define e where "e = \<lparr>e_hash = class_hash_nz c, key_anyv = box_key kt kp, value_anyv = box_key vt vp\<rparr>"
  let ?es' = "?es[?n := e]"
  note M = map_okD [OF ok]
  have t: "table_ok ?S ?es ?n 0" using M(6) tombs by simp
  have n: "?n < length ?es" using room M(3) by simp
  have e: "e_hash e = class_hash_nz c" "entry_class env e = c" "value_anyv e = box_key vt vp"
    using box_class [OF st] by (simp_all add: e_def c_def)
  have L: "length (live_idx ?es ?n) = unat (n_entries m)" using M(8) by (simp add: length_contents)
  have pos: "Suc (length (live_idx ?es ?n)) < length ?S" using room(2) M(2) unfolding L by simp
  have "wp (map_slot_insert ?S (slots_count m) (e_hash (?es' ! ?n)) (word_of_nat ?n))
    (\<lambda>S'. length S' = length ?S \<and> table_ok S' ?es' (Suc ?n) 0)"
    by (rule table_insert [OF M(1) t]) (use n e pos in simp_all)
  then obtain S' where S': "map_slot_insert ?S (slots_count m) (class_hash_nz c) (n_used m) = Some S'"
    "length S' = length ?S" "table_ok S' ?es' (Suc ?n) 0"
    using n e by (auto elim!: wpE)
  have u: "unat (n_used m + 1) = Suc ?n"
    by (subst unat_plus_if_size) (use n table_okD(3) [OF t] in \<open>auto simp: word_size\<close>)
  have ue: "unat (n_entries m + 1) = Suc (unat (n_entries m))"
    by (subst unat_plus_if_size) (use room table_size_bounds [OF M(1)] in \<open>auto simp: word_size\<close>)
  define m' where "m' = m\<lparr>m_entries := ?es', n_used := n_used m + 1, n_entries := n_entries m + 1, m_slots := S'\<rparr>"
  have r: "insert_entry m (class_hash_nz c) (n_used m) kt kp vt vp = Some m'"
    using n S'(1) by (simp add: insert_entry_def wr_def m'_def e_def)
  have live: "live_idx ?es' (Suc ?n) = live_idx ?es ?n @ [?n]"
    using n e(1) live_idx_cong [of ?n ?es' ?es] by (simp add: live_idx_Suc)
  have "map (\<lambda>i. (entry_class env (?es' ! i), value_anyv (?es' ! i))) (live_idx ?es ?n) =
    map (\<lambda>i. (entry_class env (?es ! i), value_anyv (?es ! i))) (live_idx ?es ?n)" by auto
  then have con: "contents env m' = contents env m @ [(c, box_key vt vp)]"
    using n e by (simp add: contents_idx m'_def u live)
  have "hashes_ok env ?es' (Suc ?n)"
    using M(7) n e by (simp add: hashes_ok_def nth_list_update less_Suc_eq)
  then have "map_ok env m'"
    unfolding map_ok_def con using M S' u ue room tombs fresh n by (simp add: m'_def c_def)
  with r con show ?thesis using tombs by (simp add: m'_def)
qed


section \<open>Growing\<close>

text \<open>Blocks whose counts cannot wrap when they double.\<close>

definition small :: "map_cell \<Rightarrow> bool" where
  "small m = (unat (slots_count m) \<le> 2 ^ 28 \<and> unat (entries_cap m) \<le> 2 ^ 28)"

lemma n_entries_le: "map_ok env m \<Longrightarrow> unat (n_entries m) \<le> unat (n_used m)"
  using map_okD(8) [of env m] by (simp add: length_contents live_idx_def) (metis length_filter_le length_upt minus_nat.diff_0)

lemma load_exceeded:
  assumes "map_ok env m" "small m"
  shows "slot_load_exceeded (n_entries m) (n_tombstones m) (slots_count m) \<longleftrightarrow>
    3 * length (m_slots m) < 4 * (unat (n_entries m) + unat (n_tombstones m) + 1)"
proof -
  note M = map_okD [OF assms(1)]
  note B = table_size_bounds [OF M(1)]
  have N: "length (m_slots m) \<le> 2 ^ 28" using assms(2) B(3) by (simp add: small_def)
  have "unat (slots_count m * MAP_LOAD_NUMER) = 3 * length (m_slots m)"
    using N B(3) by (simp add: MAP_LOAD_NUMER_def unat_word_ariths)
  moreover have "unat ((n_entries m + n_tombstones m + 1) * MAP_LOAD_DENOM) =
      4 * (unat (n_entries m) + unat (n_tombstones m) + 1)"
    using N M(9) by (simp add: MAP_LOAD_DENOM_def unat_word_ariths mod_simps)
  ultimately show ?thesis by (simp add: slot_load_exceeded_def word_less_nat_alt)
qed

lemma table_size_double: "table_size (c * 2) (2 * N)" if "table_size c N" "N \<le> 2 ^ 28"
proof -
  from that obtain k where k: "N = 2 ^ k" "unat c = N" by (auto simp: table_size_def)
  from that(2) k have "k \<le> 28" by (metis one_less_numeral_iff power_le_imp_le_exp semiring_norm(76))
  moreover have "unat (c * 2) = 2 * N" using k that(2) by (simp add: unat_word_ariths)
  ultimately show ?thesis using k unfolding table_size_def by (intro exI [of _ "Suc k"]) simp
qed

lemma unat_double: "unat (x * 2 :: u32) = 2 * unat x" if "unat x \<le> 2 ^ 28"
  using that by (simp add: unat_word_ariths)

lemma grow_slots_spec:
  assumes ok: "map_ok env m" and small: "small m"
  shows "wp (grow_slots m) (\<lambda>m'. map_ok env m' \<and> contents env m' = contents env m \<and>
    (n_tombstones m' = 0 \<or> n_tombstones m' = n_tombstones m) \<and> n_entries m' = n_entries m \<and>
    4 * (unat (n_entries m') + unat (n_tombstones m') + 1) \<le> 3 * length (m_slots m') \<and>
    m_flags m' = m_flags m \<and> m_type_tag m' = m_type_tag m \<and>
    unat (slots_count m') \<le> 2 ^ 29 \<and> unat (entries_cap m') \<le> 2 ^ 29 \<and>
    (m' = m \<or> slots_count m' = slots_count m * 2 \<and> 3 * unat (slots_count m) < 4 * (unat (n_entries m) + unat (n_tombstones m) + 1) \<and>
       n_used m' = n_entries m \<and> n_tombstones m' = 0 \<and> (entries_cap m' = entries_cap m \<or>
       entries_cap m' = entries_cap m * 2 \<and> entries_cap m < n_entries m + 1)))"
proof -
  note M = map_okD [OF ok] and L = load_exceeded [OF ok small]
  note B = table_size_bounds [OF M(1)]
  have N: "length (m_slots m) \<le> 2 ^ 28" "unat (entries_cap m) \<le> 2 ^ 28" using small B(3) by (simp_all add: small_def)
  show ?thesis
  proof (cases "slot_load_exceeded (n_entries m) (n_tombstones m) (slots_count m)")
    case False
    then show ?thesis using ok L N B(3) by (simp add: grow_slots_def)
  next
    case True
    let ?cap = "if n_entries m + 1 > entries_cap m then entries_cap m * 2 else entries_cap m"
    have c: "unat ?cap \<le> 2 ^ 29" "unat (entries_cap m) \<le> unat ?cap" "0 < unat ?cap"
      using N(2) M(5) unat_double [OF N(2)] by auto
    have n: "unat (n_entries m) \<le> unat (entries_cap m)" using n_entries_le [OF ok] M(4) by linarith
    have "wp (map_rehash m ?cap (slots_count m * 2)) (\<lambda>m'. map_ok env m' \<and> contents env m' = contents env m \<and>
      n_entries m' = n_entries m \<and> n_tombstones m' = 0 \<and> n_used m' = n_entries m \<and> slots_count m' = slots_count m * 2 \<and>
      entries_cap m' = ?cap \<and> m_flags m' = m_flags m \<and> m_type_tag m' = m_type_tag m \<and> m_props m' = m_props m \<and>
      generation m' = generation m + 1)"
      by (rule map_rehash_spec [OF M(7) _ M(8,10) table_size_double [OF M(1) N(1)]])
         (use M c n in auto)
    then show ?thesis
      unfolding grow_slots_def Let_def if_P [OF True]
    proof (rule wp_mono, intro conjI, simp_all, goal_cases)
      case (1 m')
      then have "map_ok env m'" by simp
      from table_size_bounds(3) [OF map_okD(1) [OF this]] have "length (m_slots m') = 2 * length (m_slots m)"
        using 1 B(3) unat_double [of "slots_count m"] N by simp
      then show ?case using M(2,9) 1 by simp
    qed (use L True B(3) N unat_double [of "slots_count m"] unat_double [of "entries_cap m"] in \<open>auto split: if_splits\<close>)
  qed
qed

section \<open>Setting\<close>

lemma norm_zero_class:
  "key_class heap kt (norm_zero kt kp) = key_class heap kt kp"
proof -
  have "key_class heap ANY_F64 0 = JInt 0" "key_class heap ANY_F64 0x8000000000000000 = JInt 0"
    by (simp_all add: key_class_num f64_zero_exact f64_is_zero_def f64_exponent_def f64_fraction_def f64_is_nan_def)
  then show ?thesis by (auto simp: norm_zero_def)
qed

lemma norm_zero_storable: "storable kt kp \<Longrightarrow> storable kt (norm_zero kt kp)"
  by (auto simp: norm_zero_def storable_def)

lemma fresh_entry_spec:
  fixes kt kp env
  assumes ok: "map_ok env m" and tombs: "n_tombstones m = 0" and st: "storable kt kp"
    and size: "unat (entries_cap m) \<le> 2 ^ 29"
    and room: "4 * (unat (n_entries m) + 1) \<le> 3 * length (m_slots m)"
    and fresh: "key_class (env_heap env) kt kp \<notin> fst ` set (contents env m)"
  defines "c \<equiv> key_class (env_heap env) kt kp"
  shows "wp (fresh_entry env m (class_hash_nz c) kt kp vt vp) (\<lambda>m'.
    map_ok env m' \<and> contents env m' = contents env m @ [(c, box_key vt vp)] \<and> n_tombstones m' = 0 \<and>
    slots_count m' = slots_count m \<and> m_flags m' = m_flags m \<and> m_type_tag m' = m_type_tag m \<and>
    (entries_cap m' = entries_cap m \<and> n_used m' = n_used m + 1 \<or>
     entries_cap m' = entries_cap m * 2 \<and> entries_cap m \<le> n_used m \<and> n_used m' = n_entries m + 1))"
proof (cases "entries_cap m \<le> n_used m")
  case False
  then have "unat (n_used m) < unat (entries_cap m)" by (simp add: word_le_nat_alt)
  from insert_entry_spec [OF ok tombs st this room fresh, of vt vp] False show ?thesis
    unfolding fresh_entry_def c_def by (auto elim!: wp_mono)
next
  case True
  note M = map_okD [OF ok]
  have d: "unat (entries_cap m * 2) = 2 * unat (entries_cap m)" using size by (simp add: unat_word_ariths)
  have n: "unat (n_entries m) \<le> unat (entries_cap m)" using n_entries_le [OF ok] M(4) by linarith
  have "wp (map_rehash m (entries_cap m * 2) (slots_count m)) (\<lambda>m'. map_ok env m' \<and> contents env m' = contents env m \<and>
      n_entries m' = n_entries m \<and> n_tombstones m' = 0 \<and> n_used m' = n_entries m \<and> slots_count m' = slots_count m \<and>
      entries_cap m' = entries_cap m * 2 \<and> m_flags m' = m_flags m \<and> m_type_tag m' = m_type_tag m \<and> m_props m' = m_props m \<and>
      generation m' = generation m + 1)"
    by (rule map_rehash_spec [OF M(7) _ M(8,10,1,2)]) (use M d n size in auto)
  then obtain m1 where m1: "map_rehash m (entries_cap m * 2) (slots_count m) = Some m1" "map_ok env m1"
    "contents env m1 = contents env m" "n_entries m1 = n_entries m" "n_tombstones m1 = 0" "n_used m1 = n_entries m"
    "slots_count m1 = slots_count m" "entries_cap m1 = entries_cap m * 2" "m_flags m1 = m_flags m" "m_type_tag m1 = m_type_tag m"
    by (auto elim!: wpE)
  from map_lookup_ok [OF m1(2), of kt kp] obtain r where
    r: "map_lookup_slot env m1 kt kp = Some r" "lr_hash r = class_hash_nz c"
    by (auto simp: found_at_def c_def elim!: wpE)
  have N: "length (m_slots m1) = length (m_slots m)"
    using table_size_bounds(3) [OF map_okD(1) [OF m1(2)]] table_size_bounds(3) [OF M(1)] m1(7) by simp
  have u: "unat (n_used m1) < unat (entries_cap m1)" using m1(6,8) d n M(5) by simp
  have room1: "4 * (unat (n_entries m1) + 1) \<le> 3 * length (m_slots m1)" using room m1(4) N by simp
  have fresh1: "key_class (env_heap env) kt kp \<notin> fst ` set (contents env m1)" using fresh m1(3) by simp
  from insert_entry_spec [OF m1(2,5) st u room1 fresh1, of vt vp]
  show ?thesis using True m1 r unfolding fresh_entry_def c_def by (auto elim!: wp_mono)
qed

lemma map_set_spec:
  fixes kt kp env
  assumes ok: "map_ok env m" and small: "small m" and st: "storable kt kp" and adm: "admits_value m vt"
    and tombs: "n_tombstones m = 0 \<or> key_class (env_heap env) kt kp \<in> fst ` set (contents env m)"
  defines "c \<equiv> key_class (env_heap env) kt kp"
  shows "wp (map_set env (Some m) kt kp vt vp) (\<lambda>(p, evs). \<exists>m'. p = Some m' \<and>
    map_ok env m' \<and> contents env m' = omap_set c (box_key vt vp) (contents env m) \<and>
    (n_tombstones m' = 0 \<or> n_tombstones m' = n_tombstones m) \<and>
    m_flags m' = m_flags m \<and> m_type_tag m' = m_type_tag m)"
proof -
  let ?kp = "norm_zero kt kp"
  have cls: "key_class (env_heap env) kt ?kp = c" by (simp add: norm_zero_class c_def)
  from grow_slots_spec [OF ok small] obtain m1 where g: "grow_slots m = Some m1" and ok1: "map_ok env m1"
    and c1: "contents env m1 = contents env m" and t1: "n_tombstones m1 = 0 \<or> n_tombstones m1 = n_tombstones m"
    and r1: "4 * (unat (n_entries m1) + unat (n_tombstones m1) + 1) \<le> 3 * length (m_slots m1)"
    and f1: "m_flags m1 = m_flags m" "m_type_tag m1 = m_type_tag m" and s1: "unat (entries_cap m1) \<le> 2 ^ 29"
    by (auto elim!: wpE)
  from map_lookup_ok [OF ok1, of kt ?kp] obtain r where
    r: "map_lookup_slot env m1 kt ?kp = Some r" "found_at env m1 (unat (n_used m1)) c r"
    unfolding cls by (auto elim!: wpE)
  show ?thesis
  proof (cases "lr_found r")
    case True
    with r obtain i where i: "i < unat (n_used m1)" "e_hash (m_entries m1 ! i) \<noteq> 0" "entry_class env (m_entries m1 ! i) = c"
      "lr_entry_idx r = word_of_nat i" by (auto simp: found_at_def)
    note l = map_ok_less [OF ok1 i(1)]
    let ?e = "(m_entries m1 ! i)\<lparr>value_anyv := box_key vt vp\<rparr>"
    have e: "entry_class env ?e = c" using i(3) by (simp add: entry_class_def)
    note U = entries_update [OF ok1 i(1,2), of ?e]
    have "map_ok env (m1\<lparr>m_entries := (m_entries m1)[i := ?e]\<rparr>)"
      "contents env (m1\<lparr>m_entries := (m_entries m1)[i := ?e]\<rparr>) = omap_set c (box_key vt vp) (contents env m)"
      using U e i(3) c1 by simp_all
    then show ?thesis using True adm g r(1) i(4) l t1 f1
      by (simp add: map_set_def overwrite_entry_def rd_def wr_def index_word)
  next
    case False
    with r have no: "\<forall>i<unat (n_used m1). e_hash (m_entries m1 ! i) \<noteq> 0 \<longrightarrow> entry_class env (m_entries m1 ! i) \<noteq> c"
      and h: "lr_hash r = class_hash_nz c" by (simp_all add: found_at_def)
    have fresh: "c \<notin> fst ` set (contents env m1)" by (rule omap_get_none(2) [OF no])
    then have t0: "n_tombstones m1 = 0" using tombs t1 c1 by (auto simp: c_def)
    have room: "4 * (unat (n_entries m1) + 1) \<le> 3 * length (m_slots m1)" using r1 by simp
    have fr: "key_class (env_heap env) kt ?kp \<notin> fst ` set (contents env m1)" using fresh cls by simp
    from fresh_entry_spec [OF ok1 t0 norm_zero_storable [OF st] s1 room fr, of vt vp, unfolded cls] obtain m2 where
      m2: "fresh_entry env m1 (class_hash_nz c) kt ?kp vt vp = Some m2" "map_ok env m2"
        "contents env m2 = contents env m1 @ [(c, box_key vt vp)]" "n_tombstones m2 = 0"
        "m_flags m2 = m_flags m1" "m_type_tag m2 = m_type_tag m1"
      by (auto elim!: wpE)
    then show ?thesis using False adm g r(1) h fresh c1 f1 by (simp add: map_set_def omap_set_def)
  qed
qed


section \<open>Deleting\<close>

text \<open>A tombstone never cuts a path, so a delete keeps the invariant.\<close>

lemma rh_tombstone: "rh (S[j := slot_make 0 SLOT_TOMBSTONE])" if "rh S"
  unfolding rh_def
proof (intro allI impI)
  let ?S = "S[j := slot_make 0 SLOT_TOMBSTONE]"
  fix i
  assume i: "i < length ?S" "slot_live (?S ! i)"
  have t: "slot_index (slot_make 0 SLOT_TOMBSTONE) = SLOT_TOMBSTONE" "SLOT_TOMBSTONE \<noteq> SLOT_EMPTY"
    by (simp_all add: SLOT_EMPTY_def SLOT_TOMBSTONE_def)
  have "i \<noteq> j"
    using i t by (auto simp: slot_live_def)
  with i have "reach S (slot_hash (S ! i)) i" by (intro rhD [OF that]) auto
  then show "reach ?S (slot_hash (?S ! i)) i"
    unfolding reach_def
  proof (intro allI impI)
    fix p
    assume r: "\<forall>p<length S. dist (length S) p (slot_hash (S ! i)) < dist (length S) i (slot_hash (S ! i)) \<longrightarrow>
        slot_index (S ! p) \<noteq> SLOT_EMPTY \<and> (slot_index (S ! p) = SLOT_TOMBSTONE \<or>
        dist (length S) p (slot_hash (S ! i)) \<le> dist (length S) p (slot_hash (S ! p)))"
      and p: "p < length ?S" "dist (length ?S) p (slot_hash (?S ! i)) < dist (length ?S) i (slot_hash (?S ! i))"
    show "slot_index (?S ! p) \<noteq> SLOT_EMPTY \<and> (slot_index (?S ! p) = SLOT_TOMBSTONE \<or>
        dist (length ?S) p (slot_hash (?S ! i)) \<le> dist (length ?S) p (slot_hash (?S ! p)))"
      using r p t \<open>i \<noteq> j\<close> by (cases "p = j") auto
  qed
qed

lemma live_idx_remove:
  assumes "i < n" "i < length es" "e_hash e = 0"
  shows "live_idx (es[i := e]) n = filter (\<lambda>j. j \<noteq> i) (live_idx es n)"
  using assms by (auto simp: live_idx_def nth_list_update intro!: filter_cong)

lemma mset_filter_remove:
  assumes "distinct xs" "x \<in> set xs"
  shows "mset xs = add_mset x (mset (filter (\<lambda>y. y \<noteq> x) xs))"
proof -
  have "filter (\<lambda>y. y \<noteq> x) xs = remove1 x xs"
    unfolding distinct_remove1_removeAll [OF assms(1)] removeAll_filter_not_eq by (intro filter_cong) auto
  then show ?thesis using assms(2) by simp
qed

lemma mark_tombstone:
  fixes env i j
  assumes ok: "map_ok env m" and i: "i < unat (n_used m)" "e_hash (m_entries m ! i) \<noteq> 0"
    and j: "j < length (m_slots m)" "m_slots m ! j = entry_slot (m_entries m) i"
  defines "m' \<equiv> m\<lparr>m_entries := (m_entries m)[i := \<lparr>e_hash = 0, key_anyv = 0, value_anyv = 0\<rparr>],
      m_slots := (m_slots m)[j := slot_make 0 SLOT_TOMBSTONE],
      n_entries := n_entries m - 1, n_tombstones := n_tombstones m + 1\<rparr>"
  shows "map_ok env m'"
    and "contents env m' = omap_delete (entry_class env (m_entries m ! i)) (contents env m)"
    and "unat (n_entries m) = Suc (unat (n_entries m'))" "unat (n_tombstones m') = Suc (unat (n_tombstones m))"
proof -
  let ?es = "m_entries m" and ?n = "unat (n_used m)" and ?S = "m_slots m" and ?T = "unat (n_tombstones m)"
  let ?z = "\<lparr>e_hash = 0, key_anyv = 0, value_anyv = 0\<rparr>"
  note M = map_okD [OF ok] and l = map_ok_less [OF ok i(1)]
  note D = table_okD [OF M(6)]
  let ?L = "live_idx ?es ?n" and ?c = "entry_class env (m_entries m ! i)"
  have mem: "i \<in> set ?L" using i by simp
  have live: "live_idx (?es[i := ?z]) ?n = filter (\<lambda>j. j \<noteq> i) ?L" by (rule live_idx_remove) (use i l in auto)
  have rem: "mset ?L = add_mset i (mset (filter (\<lambda>j. j \<noteq> i) ?L))" by (rule mset_filter_remove [OF _ mem]) simp
  then have len: "length ?L = Suc (length (filter (\<lambda>j. j \<noteq> i) ?L))" by (metis size_add_mset size_mset)
  have Len: "length ?L = unat (n_entries m)" using M(8) by (simp add: length_contents)
  have pos: "unat (n_entries m) \<noteq> 0" using len Len by simp
  show ne: "unat (n_entries m) = Suc (unat (n_entries m'))"
  proof -
    have "n_entries m \<noteq> 0" using pos by auto
    from unat_minus_one [OF this] pos show ?thesis by (simp add: m'_def)
  qed
  show nt: "unat (n_tombstones m') = Suc ?T"
    unfolding m'_def by (simp, subst unat_plus_if_size) (use M(9) table_size_bounds [OF M(1)] in \<open>auto simp: word_size\<close>)
  have u: "entry_class env (?es ! k) = ?c \<longleftrightarrow> k = i" if "k \<in> set ?L" for k
    using entry_unique [OF ok _ _ i] that by auto
  have "contents env m' = map (\<lambda>k. (entry_class env (?es ! k), value_anyv (?es ! k))) (filter (\<lambda>j. j \<noteq> i) ?L)"
    unfolding contents_idx m'_def by (simp add: live)
  also have "\<dots> = map (\<lambda>k. (entry_class env (?es ! k), value_anyv (?es ! k))) (filter (\<lambda>k. entry_class env (?es ! k) \<noteq> ?c) ?L)"
    using u by (intro arg_cong [where f = "map _"] filter_cong refl) auto
  also have "\<dots> = omap_delete ?c (contents env m)"
    by (simp add: omap_delete_def contents_idx filter_map comp_def)
  finally show c: "contents env m' = omap_delete ?c (contents env m)" .
  have es: "map (entry_slot (?es[i := ?z])) (filter (\<lambda>j. j \<noteq> i) ?L) = map (entry_slot ?es) (filter (\<lambda>j. j \<noteq> i) ?L)"
    by (intro map_cong refl entry_slot_cong) auto
  have img: "mset (map (entry_slot ?es) ?L) = add_mset (entry_slot ?es i) (mset (map (entry_slot ?es) (filter (\<lambda>j. j \<noteq> i) ?L)))"
    using arg_cong [OF rem, of "image_mset (entry_slot ?es)"] by simp
  have "add_mset (entry_slot ?es i) (mset (?S[j := slot_make 0 SLOT_TOMBSTONE])) = add_mset (slot_make 0 SLOT_TOMBSTONE) (mset ?S)"
    using mset_update_slot [OF j(1), of "slot_make 0 SLOT_TOMBSTONE"] j(2) by simp
  also have "\<dots> = add_mset (entry_slot ?es i) (mset (map (entry_slot (?es[i := ?z])) (filter (\<lambda>j. j \<noteq> i) ?L)) +
      replicate_mset (Suc ?T) (slot_make 0 SLOT_TOMBSTONE) +
      replicate_mset (length ?S - length (filter (\<lambda>j. j \<noteq> i) ?L) - Suc ?T) (slot_make 0 SLOT_EMPTY))"
    unfolding D(5) es img using len by simp
  finally have ms: "mset (?S[j := slot_make 0 SLOT_TOMBSTONE]) = mset (map (entry_slot (?es[i := ?z])) (filter (\<lambda>j. j \<noteq> i) ?L)) +
      replicate_mset (Suc ?T) (slot_make 0 SLOT_TOMBSTONE) +
      replicate_mset (length ?S - length (filter (\<lambda>j. j \<noteq> i) ?L) - Suc ?T) (slot_make 0 SLOT_EMPTY)"
    by simp
  have "table_ok (?S[j := slot_make 0 SLOT_TOMBSTONE]) (?es[i := ?z]) ?n (Suc ?T)"
    unfolding table_ok_def live using ms D(2-4) len rh_tombstone [OF D(1), of j] by simp
  moreover have "hashes_ok env (?es[i := ?z]) ?n" using M(7) l(1) by (simp add: hashes_ok_def nth_list_update)
  moreover have "unat (n_entries m') = length (contents env m')"
    using ne Len len by (simp add: length_contents) (simp add: m'_def live)
  moreover have "distinct (map fst (contents env m'))"
    unfolding c using M(10) by (auto simp: omap_delete_def distinct_map filter_map intro: inj_on_subset)
  ultimately show "map_ok env m'"
    using M ne nt unfolding map_ok_def by (simp add: m'_def)
qed

lemma omap_delete_absent: "k \<notin> fst ` set xs \<Longrightarrow> omap_delete k xs = xs"
  by (force simp: omap_delete_def filter_id_conv)

lemma map_delete_spec:
  fixes kt kp env
  assumes ok: "map_ok env m"
  defines "c \<equiv> key_class (env_heap env) kt kp"
  shows "wp (map_delete env (Some m) kt kp) (\<lambda>(p, r, evs). \<exists>m'. p = Some m' \<and> map_ok env m' \<and>
    contents env m' = omap_delete c (contents env m) \<and> r = (c \<in> fst ` set (contents env m)) \<and>
    m_flags m' = m_flags m \<and> m_type_tag m' = m_type_tag m)"
proof -
  note M = map_okD [OF ok]
  from map_lookup_ok [OF ok, of kt kp] obtain r where
    r: "map_lookup_slot env m kt kp = Some r" "found_at env m (unat (n_used m)) c r"
    by (auto simp: c_def elim!: wpE)
  show ?thesis
  proof (cases "lr_found r")
    case False
    with r have "\<forall>i<unat (n_used m). e_hash (m_entries m ! i) \<noteq> 0 \<longrightarrow> entry_class env (m_entries m ! i) \<noteq> c"
      by (simp add: found_at_def)
    from omap_get_none(2) [OF this] show ?thesis using False r(1) ok
      by (simp add: map_delete_def omap_delete_absent)
  next
    case True
    with r obtain i where i: "i < unat (n_used m)" "e_hash (m_entries m ! i) \<noteq> 0" "entry_class env (m_entries m ! i) = c"
      "lr_entry_idx r = word_of_nat i" and j: "unat (lr_slot_idx r) < length (m_slots m)"
      "m_slots m ! unat (lr_slot_idx r) = entry_slot (m_entries m) i" by (auto simp: found_at_def)
    note l = map_ok_less [OF ok i(1)]
    note T = mark_tombstone [OF ok i(1,2) j]
    define m1 where "m1 = m\<lparr>m_entries := (m_entries m)[i := \<lparr>e_hash = 0, key_anyv = 0, value_anyv = 0\<rparr>],
      m_slots := (m_slots m)[unat (lr_slot_idx r) := slot_make 0 SLOT_TOMBSTONE],
      n_entries := n_entries m - 1, n_tombstones := n_tombstones m + 1\<rparr>"
    note T = T [folded m1_def, unfolded i(3)]
    note M1 = map_okD [OF T(1)]
    have key: "c \<in> fst ` set (contents env m)" unfolding contents_key using i by blast
    have same: "entries_cap m1 = entries_cap m" "slots_count m1 = slots_count m" "m_flags m1 = m_flags m" "m_type_tag m1 = m_type_tag m"
      by (simp_all add: m1_def)
    have n: "unat (n_entries m1) \<le> unat (entries_cap m1)" using n_entries_le [OF T(1)] M1(4) by linarith
    have "wp (compact_slots m1) (\<lambda>m'. map_ok env m' \<and> contents env m' = contents env m1 \<and>
      m_flags m' = m_flags m \<and> m_type_tag m' = m_type_tag m)"
    proof (cases "n_tombstones m1 > slots_count m1 div 4")
      case True
      have "wp (map_rehash m1 (entries_cap m1) (slots_count m1)) (\<lambda>m'. map_ok env m' \<and> contents env m' = contents env m1 \<and>
        n_entries m' = n_entries m1 \<and> n_tombstones m' = 0 \<and> n_used m' = n_entries m1 \<and> slots_count m' = slots_count m1 \<and>
        entries_cap m' = entries_cap m1 \<and> m_flags m' = m_flags m1 \<and> m_type_tag m' = m_type_tag m1 \<and> m_props m' = m_props m1 \<and>
        generation m' = generation m1 + 1)"
        by (rule map_rehash_spec [OF M1(7) _ M1(8,10,1,2)]) (use M1 n table_okD(3) [OF M1(6)] in auto)
      then show ?thesis using True same unfolding compact_slots_def by (auto elim!: wp_mono)
    qed (use T(1) same in \<open>auto simp: compact_slots_def\<close>)
    then obtain m2 where m2: "compact_slots m1 = Some m2"
      "map_ok env m2" "contents env m2 = contents env m1" "m_flags m2 = m_flags m" "m_type_tag m2 = m_type_tag m"
      by (auto elim!: wpE)
    have "tombstone_entry m (lr_entry_idx r) (lr_slot_idx r) = Some m1"
      using i(4) l j(1) by (simp add: tombstone_entry_def wr_def index_word ENTRY_HASH_TOMBSTONE_def m1_def)
    then have "map_delete env (Some m) kt kp = Some (Some m2, True, drop_entry_refs env (m_entries m ! i) @ drop_pair kt kp)"
      using True r(1) i(4) l m2(1) by (simp add: map_delete_def rd_def index_word)
    then show ?thesis using m2 T(2) key by simp
  qed
qed

section \<open>Clearing\<close>

lemma drop_live_returns:
  assumes "map_ok env m"
  shows "\<exists>evs. drop_live env m = Some evs"
proof -
  have "wp (drop_live env m) (\<lambda>_. True)"
    unfolding drop_live_def
    by (rule wp_for_range [where I = "\<lambda>_ _. True"])
      (use map_ok_less(1) [OF assms] in \<open>auto simp: rd_def\<close>)
  then show ?thesis by (auto elim: wpE)
qed

lemma map_clear_spec:
  assumes ok: "map_ok env m"
  shows "wp (map_clear env (Some m)) (\<lambda>(p, evs). \<exists>m'. p = Some m' \<and> map_ok env m' \<and> contents env m' = [] \<and>
    n_tombstones m' = 0 \<and> m_flags m' = m_flags m \<and> m_type_tag m' = m_type_tag m \<and>
    slots_count m' = slots_count m \<and> entries_cap m' = entries_cap m)"
proof -
  note M = map_okD [OF ok]
  obtain evs where "drop_live env m = Some evs" using drop_live_returns [OF ok] by blast
  moreover have "length (replicate (unat (entries_cap m)) no_entry) \<le> 2 ^ 30"
    using table_okD(3) [OF M(6)] M(3) by simp
  note E = table_ok_empty [OF M(1) this]
  ultimately show ?thesis using M E
    by (simp add: map_clear_def map_ok_def contents_idx live_idx_def hashes_ok_def)
qed

section \<open>Creating\<close>

lemma create_ok: "map_ok env map_create" "map_ok env set_create" "contents env map_create = []" "contents env set_create = []"
proof -
  have t: "table_size MAP_SLOTS_INITIAL 16"
    unfolding table_size_def by (intro exI [of _ 4]) (simp add: MAP_SLOTS_INITIAL_def)
  have r: "length (replicate 8 no_entry) \<le> 2 ^ 30" by simp
  note E = table_ok_empty [OF t r]
  show "map_ok env map_create"
    using t E by (simp add: map_ok_def map_create_def MAP_ENTRIES_INITIAL_def contents_idx live_idx_def hashes_ok_def)
  then show "map_ok env set_create"
    by (simp add: map_ok_def set_create_def contents_idx)
  show "contents env map_create = []" "contents env set_create = []"
    by (simp_all add: contents_idx map_create_def set_create_def live_idx_def)
qed

end
