(* ===== verification/Map_Semantics.thy ===== *)
theory Map_Semantics
  imports Map_Correct
begin

text \<open>
  What the operations of \<open>Map\<close> and \<open>Set\<close> promise together: a block is an ordered map of
  JavaScript values along every history in which no key is inserted over a tombstone, and a
  walk over a block that does not change meets its entries in order. Two histories show where
  the promise ends: an insertion over a tombstone can hide another key, and a compaction moves
  entries under a running iterator.
\<close>

declare slot_insert_loop.simps [code] lookup_loop.simps [code] next_live.simps [code]

section \<open>Histories\<close>

text \<open>The blocks a program can build, with the map each should stand for. A write may insert
  a key only while no slot is a tombstone.\<close>

inductive history :: "map_env \<Rightarrow> map_cell \<Rightarrow> (js_key \<times> u64) list \<Rightarrow> bool" for env where
  create: "history env map_create []"
| create_set: "history env set_create []"
| set: "history env m xs \<Longrightarrow> small m \<Longrightarrow> storable kt kp \<Longrightarrow> admits_value m vt \<Longrightarrow>
    n_tombstones m = 0 \<or> key_class (env_heap env) kt kp \<in> fst ` set xs \<Longrightarrow>
    map_set env (Some m) kt kp vt vp = Some (Some m', evs) \<Longrightarrow>
    history env m' (omap_set (key_class (env_heap env) kt kp) (box_key vt vp) xs)"
| delete: "history env m xs \<Longrightarrow> map_delete env (Some m) kt kp = Some (Some m', r, evs) \<Longrightarrow>
    history env m' (omap_delete (key_class (env_heap env) kt kp) xs)"
| clear: "history env m xs \<Longrightarrow> map_clear env (Some m) = Some (Some m', evs) \<Longrightarrow> history env m' []"

lemma history_ok: "history env m xs \<Longrightarrow> map_ok env m \<and> contents env m = xs"
proof (induction rule: history.induct)
  case (set m xs kt kp vt vp m' evs)
  then show ?case using map_set_spec [of env m kt kp vt vp] by (auto elim!: wpE)
next
  case (delete m xs kt kp m' r evs)
  then show ?case using map_delete_spec [of env m kt kp] by (auto elim!: wpE)
next
  case (clear m xs m' evs)
  then show ?case using map_clear_spec [of env m] by (auto elim!: wpE)
qed (simp_all add: create_ok)

lemma map_size_contents:
  assumes "map_ok env m"
  shows "map_size (Some m) = word_of_nat (length (contents env m))"
  by (simp add: map_size_def flip: map_okD(8) [OF assms])

section \<open>Walks\<close>

lemma live_idx_split:
  assumes "i \<le> n"
  shows "live_idx es n = live_idx es i @ filter (\<lambda>j. e_hash (es ! j) \<noteq> 0) [i..<n]"
proof -
  have "[0..<n] = [0..<i] @ [i..<n]" using assms by (metis le0 upt_add_eq_append le_iff_add)
  then show ?thesis by (simp add: live_idx_def)
qed

lemma next_live_spec:
  assumes ok: "map_ok env m"
  shows "wp (next_live m i) (\<lambda>r. case r of
      Some (e, j) \<Rightarrow> unat i < unat j \<and> unat j \<le> unat (n_used m) \<and> e = m_entries m ! (unat j - 1) \<and>
        filter (\<lambda>k. e_hash (m_entries m ! k) \<noteq> 0) [unat i..<unat (n_used m)] =
        (unat j - 1) # filter (\<lambda>k. e_hash (m_entries m ! k) \<noteq> 0) [unat j..<unat (n_used m)]
    | None \<Rightarrow> filter (\<lambda>k. e_hash (m_entries m ! k) \<noteq> 0) [unat i..<unat (n_used m)] = [])"
proof (induction "unat (n_used m) - unat i" arbitrary: i rule: less_induct)
  case less
  show ?case
  proof (cases "i < n_used m")
    case False
    then show ?thesis by (subst next_live.simps) (simp add: word_less_nat_alt)
  next
    case True
    then have i: "unat i < unat (n_used m)" by (simp add: word_less_nat_alt)
    note l = map_ok_less [OF ok i]
    have s: "unat (i + 1) = Suc (unat i)"
      by (subst unat_plus_if_size) (use l in \<open>auto simp: word_size\<close>)
    have u: "[unat i..<unat (n_used m)] = unat i # [Suc (unat i)..<unat (n_used m)]" using i by (rule upt_conv_Cons)
    show ?thesis
    proof (cases "e_hash (m_entries m ! unat i) = 0")
      case dead: True
      have "wp (next_live m (i + 1)) (\<lambda>r. case r of
          Some (e, j) \<Rightarrow> unat (i + 1) < unat j \<and> unat j \<le> unat (n_used m) \<and> e = m_entries m ! (unat j - 1) \<and>
            filter (\<lambda>k. e_hash (m_entries m ! k) \<noteq> 0) [unat (i + 1)..<unat (n_used m)] =
            (unat j - 1) # filter (\<lambda>k. e_hash (m_entries m ! k) \<noteq> 0) [unat j..<unat (n_used m)]
        | None \<Rightarrow> filter (\<lambda>k. e_hash (m_entries m ! k) \<noteq> 0) [unat (i + 1)..<unat (n_used m)] = [])"
        by (rule less) (use i s in simp)
      then show ?thesis using True dead l(1) u
        by (subst next_live.simps) (auto simp: rd_def ENTRY_HASH_TOMBSTONE_def s elim!: wp_mono split: option.splits)
    next
      case False
      then show ?thesis using True l(1) u i
        by (subst next_live.simps) (simp add: rd_def ENTRY_HASH_TOMBSTONE_def s)
    qed
  qed
qed

text \<open>The walk of \<open>forEach\<close>: steps until the cursor runs off, with the payloads met.\<close>

partial_function (option) iterate :: "map_env \<Rightarrow> map_cell option \<Rightarrow> i64 \<Rightarrow> ((u8 \<times> u64) \<times> (u8 \<times> u64)) list option" where
  "iterate env p c = do {
     (y, c) \<leftarrow> map_iter_next env p c;
     case y of
       None \<Rightarrow> Some []
     | Some kv \<Rightarrow> do { rest \<leftarrow> iterate env p c; Some (kv # rest) }
   }"

lemma cursor_cast: "ucast (ucast (j :: u32) :: i64) = j" "unat j \<noteq> 0 \<Longrightarrow> (ucast j :: i64) \<noteq> - 1"
proof -
  show "ucast (ucast j :: i64) = j" by (rule bit_word_eqI) (auto simp: bit_simps)
  have "unat j < 2 ^ 32" using unsigned_less [of j] by simp
  then have "unat (ucast j :: i64) < 2 ^ 32" by (simp add: unsigned_ucast_eq take_bit_nat_eq_self)
  moreover have "unat (- 1 :: i64) = 2 ^ 64 - 1"
    by (simp add: unsigned_minus_1_eq_mask mask_eq_exp_minus_1)
  ultimately show "(ucast j :: i64) \<noteq> - 1" by fastforce
qed

lemma iterate_from:
  fixes i :: u32
  assumes ok: "map_ok env m" and c: "c = - 1 \<and> i = 0 \<or> c = ucast i \<and> c \<noteq> - 1"
  shows "iterate env (Some m) c = Some (map (\<lambda>k. (unbox env (key_anyv (m_entries m ! k)), unbox env (value_anyv (m_entries m ! k))))
    (filter (\<lambda>k. e_hash (m_entries m ! k) \<noteq> 0) [unat i..<unat (n_used m)]))"
  using c
proof (induction "unat (n_used m) - unat i" arbitrary: i c rule: less_induct)
  case less
  have start: "(if c = - 1 then 0 else ucast c) = i" using less.prems cursor_cast(1) by auto
  from next_live_spec [OF ok, of i] obtain r where r: "next_live m i = Some r" and P: "case r of
      Some (e, j) \<Rightarrow> unat i < unat j \<and> unat j \<le> unat (n_used m) \<and> e = m_entries m ! (unat j - 1) \<and>
        filter (\<lambda>k. e_hash (m_entries m ! k) \<noteq> 0) [unat i..<unat (n_used m)] =
        (unat j - 1) # filter (\<lambda>k. e_hash (m_entries m ! k) \<noteq> 0) [unat j..<unat (n_used m)]
    | None \<Rightarrow> filter (\<lambda>k. e_hash (m_entries m ! k) \<noteq> 0) [unat i..<unat (n_used m)] = []"
    by (auto elim!: wpE)
  show ?case
  proof (cases r)
    case None
    then show ?thesis using P by (subst iterate.simps) (simp add: map_iter_next_def start r)
  next
    case (Some ej)
    obtain e j where ej: "ej = (e, j)" by (cases ej)
    with P Some have P: "unat i < unat j" "unat j \<le> unat (n_used m)" "e = m_entries m ! (unat j - 1)"
      "filter (\<lambda>k. e_hash (m_entries m ! k) \<noteq> 0) [unat i..<unat (n_used m)] =
        (unat j - 1) # filter (\<lambda>k. e_hash (m_entries m ! k) \<noteq> 0) [unat j..<unat (n_used m)]" by auto
    have "iterate env (Some m) (ucast j) = Some (map (\<lambda>k. (unbox env (key_anyv (m_entries m ! k)), unbox env (value_anyv (m_entries m ! k))))
      (filter (\<lambda>k. e_hash (m_entries m ! k) \<noteq> 0) [unat j..<unat (n_used m)]))"
      by (rule less.hyps) (use P(1,2) cursor_cast(2) [of j] in auto)
    then show ?thesis unfolding P(4)
      by (subst iterate.simps) (simp add: map_iter_next_def start r Some ej P(3))
  qed
qed


section \<open>Properties\<close>

text \<open>A history with a string, a number and a write over it.\<close>

definition sample_env :: map_env where
  "sample_env = \<lparr>env_heap = (\<lambda>_. StrCell [104, 105]), env_materialize = (\<lambda>_. 0)\<rparr>"

lemma sample_set:
  "small map_create" "storable ANY_HEAP 0x10000" "admits_value map_create ANY_I64" "n_tombstones map_create = 0"
  "p \<noteq> 0 \<Longrightarrow> key_class (env_heap sample_env) ANY_HEAP p = JStr [104, 105]"
  by (simp_all add: small_def map_create_def MAP_SLOTS_INITIAL_def MAP_ENTRIES_INITIAL_def storable_def any_defs
      is_cell_upper admits_value_def sample_env_def key_class_def)

text \<open>A block with one entry.\<close>

lemma sample_block:
  obtains m evs where "map_set sample_env (Some map_create) ANY_HEAP 0x10000 ANY_I64 7 = Some (Some m, evs)"
    "map_ok sample_env m" "contents sample_env m = [(JStr [104, 105], box_key ANY_I64 7)]"
proof -
  from map_set_spec [where env = sample_env and m = map_create and vp = 7, OF create_ok(1) sample_set(1-3) disjI1 [OF sample_set(4)]]
  show thesis using that sample_set(5) [of "0x10000"] by (auto simp: create_ok omap_set_def elim!: wpE)
qed

text \<open>C7: \<open>set\<close> returns, and the block then stands for the same ordered map with the key
  bound: an existing key keeps its place, a new one goes last. The key is new or the table
  has no tombstone, and the counts are far from wrapping.\<close>

theorem map_set_correct:
  assumes "map_ok env m" "small m" "storable kt kp" "admits_value m vt"
    "n_tombstones m = 0 \<or> key_class (env_heap env) kt kp \<in> fst ` set (contents env m)"
  shows "wp (map_set env (Some m) kt kp vt vp) (\<lambda>(p, evs). \<exists>m'. p = Some m' \<and> map_ok env m' \<and>
    contents env m' = omap_set (key_class (env_heap env) kt kp) (box_key vt vp) (contents env m))"
  using map_set_spec [OF assms, of vp] by (auto elim!: wp_mono)

theorem map_set_correct_witness:
  "wp (map_set sample_env (Some map_create) ANY_HEAP 0x10000 ANY_I64 7) (\<lambda>(p, evs). \<exists>m'. p = Some m' \<and>
    contents sample_env m' = [(JStr [104, 105], box_key ANY_I64 7)])"
  using map_set_correct [where env = sample_env and m = map_create and vp = 7, OF create_ok(1) sample_set(1-3) disjI1 [OF sample_set(4)]]
  by (auto simp: create_ok omap_set_def sample_set(5) elim!: wp_mono)

text \<open>C13: \<open>delete\<close> returns whether the key was there and removes it, tombstones or not, with or
  without the compaction it may end with.\<close>

theorem map_delete_correct:
  assumes "map_ok env m"
  shows "wp (map_delete env (Some m) kt kp) (\<lambda>(p, r, evs). \<exists>m'. p = Some m' \<and> map_ok env m' \<and>
    contents env m' = omap_delete (key_class (env_heap env) kt kp) (contents env m) \<and>
    r = (key_class (env_heap env) kt kp \<in> fst ` set (contents env m)))"
  using map_delete_spec [OF assms, of kt kp] by (auto elim!: wp_mono)

theorem map_delete_correct_witness:
  "\<exists>m. contents sample_env m = [(JStr [104, 105], box_key ANY_I64 7)] \<and>
    wp (map_delete sample_env (Some m) ANY_HEAP 0x20000) (\<lambda>(p, r, evs). \<exists>m'. p = Some m' \<and> contents sample_env m' = [] \<and> r)"
proof -
  obtain m evs where m: "map_ok sample_env m" "contents sample_env m = [(JStr [104, 105], box_key ANY_I64 7)]"
    by (rule sample_block)
  then show ?thesis
    using map_delete_correct [where env = sample_env and m = m and kt = ANY_HEAP and kp = "0x20000", OF m(1)]
    by (intro exI [of _ m]) (auto simp: sample_set(5) omap_delete_def elim!: wp_mono)
qed

text \<open>C2: along every history the block is well formed and stands for the ordered map of the
  operations so far: \<open>has\<close>, \<open>get\<close> and \<open>size\<close> answer what that map does.\<close>

theorem map_history:
  assumes "history env m xs"
  shows "map_ok env m \<and> contents env m = xs \<and> map_size (Some m) = word_of_nat (length xs) \<and>
    map_has env (Some m) kt kp = Some (key_class (env_heap env) kt kp \<in> fst ` set xs, drop_pair kt kp) \<and>
    wp (map_get env (Some m) kt kp) (\<lambda>(v, evs).
      v = (case omap_get xs (key_class (env_heap env) kt kp) of
             Some w \<Rightarrow> stored_pair (env_materialize env) w | None \<Rightarrow> (ANY_UNDEF, 0)))"
proof -
  from history_ok [OF assms] have ok: "map_ok env m" and xs: "contents env m = xs" by auto
  have "wp (map_get env (Some m) kt kp) (\<lambda>(v, evs).
      v = (case omap_get xs (key_class (env_heap env) kt kp) of
             Some w \<Rightarrow> stored_pair (env_materialize env) w | None \<Rightarrow> (ANY_UNDEF, 0)))"
    using map_get_spec [OF ok, of kt kp] xs by (auto elim!: wp_mono)
  then show ?thesis
    using ok xs map_size_contents [OF ok] map_has_spec [OF ok, of kt kp] by simp
qed

theorem map_history_witness:
  "\<exists>m. history sample_env m [(JStr [104, 105], box_key ANY_I64 7)] \<and>
     map_has sample_env (Some m) ANY_HEAP 0x20000 = Some (True, [ValueDrop 0x20000])"
proof -
  note c = sample_set(5)
  obtain m evs where m: "map_set sample_env (Some map_create) ANY_HEAP 0x10000 ANY_I64 7 = Some (Some m, evs)"
    by (rule sample_block)
  have "history sample_env m (omap_set (key_class (env_heap sample_env) ANY_HEAP 0x10000) (box_key ANY_I64 7) [])"
    by (rule history.set [OF history.create sample_set(1-3) disjI1 [OF sample_set(4)] m])
  then have h: "history sample_env m [(JStr [104, 105], box_key ANY_I64 7)]" by (simp add: c omap_set_def)
  from map_history [OF this, of ANY_HEAP "0x20000"] h show ?thesis
    by (auto simp: c drop_pair_def)
qed

text \<open>C33: a walk over a block that does not change ends, and meets every live entry once, in
  insertion order.\<close>

theorem iteration_complete:
  assumes "map_ok env m"
  shows "iterate env (Some m) (- 1) =
    Some (map (\<lambda>e. (unbox env (key_anyv e), unbox env (value_anyv e))) (live_entries m))"
  using iterate_from [OF assms, of "- 1" 0] by (simp add: live_entries_def live_idx_def comp_def)

theorem iteration_complete_witness:
  "\<exists>m. contents sample_env m = [(JStr [104, 105], box_key ANY_I64 7)] \<and>
    (\<exists>e. live_entries m = [e] \<and> iterate sample_env (Some m) (- 1) = Some [(unbox sample_env (key_anyv e), unbox sample_env (value_anyv e))])"
proof -
  obtain m evs where m: "map_ok sample_env m" "contents sample_env m = [(JStr [104, 105], box_key ANY_I64 7)]"
    by (rule sample_block)
  from m(2) obtain e where "live_entries m = [e]" by (auto simp: contents_def)
  then show ?thesis using m(2) iteration_complete [where env = sample_env and m = m, OF m(1)] by (intro exI [of _ m]) auto
qed

section \<open>Where the promise ends\<close>

text \<open>Small programs over integer keys.\<close>

definition set_int :: "u64 \<Rightarrow> map_cell option \<Rightarrow> map_cell option option" where
  "set_int k p = do { (p, evs) \<leftarrow> map_set sample_env p ANY_I64 k ANY_BOOL 1; Some p }"

definition delete_int :: "u64 \<Rightarrow> map_cell option \<Rightarrow> map_cell option option" where
  "delete_int k p = do { (p, r, evs) \<leftarrow> map_delete sample_env p ANY_I64 k; Some p }"

definition has_int :: "u64 \<Rightarrow> map_cell option \<Rightarrow> bool option" where
  "has_int k p = do { (b, evs) \<leftarrow> map_has sample_env p ANY_I64 k; Some b }"

text \<open>Keys 0, 25, 26 and 32 have ideal slot 14 of 16 and fill slots 14, 15, 0 and 1. The delete of
  26 leaves a tombstone in slot 0, whose ideal slot reads as 0; key 4, with ideal slot 15,
  displaces it, and is then closer to home than the path to 32 allows.\<close>

definition lost_history :: "map_cell option option" where
  "lost_history = do {
     p \<leftarrow> set_int 0 (Some map_create); p \<leftarrow> set_int 25 p; p \<leftarrow> set_int 26 p; p \<leftarrow> set_int 32 p;
     p \<leftarrow> delete_int 26 p;
     set_int 4 p
   }"

text \<open>After an insertion that displaces a tombstone, a key that is in the block, and that
  \<open>size\<close> and iteration count, is not found by \<open>has\<close>.\<close>

lemma tombstone_hides_key:
  "(do { p \<leftarrow> lost_history; b \<leftarrow> has_int 32 p; Some (b, map_size p, map_option (map fst \<circ> contents sample_env) p) }) =
   Some (False, 4, Some [JInt 0, JInt 25, JInt 32, JInt 4])"
  by code_simp

text \<open>\<open>for (const k of m.keys()) m.delete(k)\<close>, with the keys it visits.\<close>

fun drain_keys :: "nat \<Rightarrow> i64 \<Rightarrow> map_cell option \<Rightarrow> u64 list \<Rightarrow> (u64 list \<times> map_cell option) option" where
  "drain_keys 0 c p seen = None"
| "drain_keys (Suc fuel) c p seen = do {
     (y, c, evs) \<leftarrow> map_iter_step sample_env p IterKeys c;
     case y of
       Some (YieldValue t k) \<Rightarrow> do { p \<leftarrow> delete_int k p; drain_keys fuel c p (seen @ [k]) }
     | _ \<Rightarrow> Some (seen, p)
   }"

definition six_keys :: "map_cell option option" where
  "six_keys = fold (\<lambda>k p. Option.bind p (set_int k)) [0, 1, 2, 3, 4, 5] (Some (Some map_create))"

text \<open>A delete that compacts the entries leaves the cursors of running iterators where they
  are: a loop that deletes the keys it visits ends with a key it never visited.\<close>

lemma compaction_skips_key:
  "(do { p \<leftarrow> six_keys; (seen, p) \<leftarrow> drain_keys 7 0 p []; Some (seen, map_option (map fst \<circ> contents sample_env) p) }) =
   Some ([0, 1, 2, 3, 4], Some [JInt 5])"
  by code_simp

end
