(* ===== verification/GC_Heap.thy ===== *)
theory GC_Heap
  imports TJ_Prelude
begin

text \<open>
  The heap the cycle collector walks (\<open>src/crates/torajs-cycle/src\<close>: \<open>layout.rs\<close>,
  \<open>layout_bag.rs\<close>, the interface of \<open>children.rs\<close>). A cell is its header and the slots
  through which its shape owns other cells, in the order \<open>for_each_child\<close> reads them; a word
  0 is an empty slot. What the shapes of \<open>children.rs\<close> store besides is outside the walk:
  the cells it names (keys of a dictionary, the text of a wrapper) are \<open>c_owned\<close>. Reading a
  block that has been freed has no value.
\<close>

section \<open>Header\<close>

definition FLAG_STATIC_LITERAL :: u16 where "FLAG_STATIC_LITERAL = 4"
definition FLAG_BUFFERED :: u16 where "FLAG_BUFFERED = push_bit 5 1"
definition COLOR_MASK :: u16 where "COLOR_MASK = push_bit 13 3"
definition COLOR_BLACK :: u16 where "COLOR_BLACK = push_bit 13 0"
definition COLOR_GRAY :: u16 where "COLOR_GRAY = push_bit 13 1"
definition COLOR_PURPLE :: u16 where "COLOR_PURPLE = push_bit 13 2"
definition COLOR_WHITE :: u16 where "COLOR_WHITE = push_bit 13 3"

lemmas color_defs = COLOR_BLACK_def COLOR_GRAY_def COLOR_PURPLE_def COLOR_WHITE_def

definition TAG_OBJ :: u16 where "TAG_OBJ = 1"
definition TAG_ARR :: u16 where "TAG_ARR = 2"
definition TAG_CLOSURE :: u16 where "TAG_CLOSURE = 3"
definition TAG_REGEXP :: u16 where "TAG_REGEXP = 4"
definition TAG_DATE :: u16 where "TAG_DATE = 5"
definition TAG_PROMISE :: u16 where "TAG_PROMISE = 8"
definition TAG_DYNOBJ :: u16 where "TAG_DYNOBJ = 14"
definition TAG_MAP :: u16 where "TAG_MAP = 15"
definition TAG_MAP_ITER :: u16 where "TAG_MAP_ITER = 16"
definition TAG_ARR_ITER :: u16 where "TAG_ARR_ITER = 17"
definition TAG_ACCESSOR_PAIR :: u16 where "TAG_ACCESSOR_PAIR = 18"
definition TAG_SET :: u16 where "TAG_SET = 19"
definition TAG_STRING_WRAPPER :: u16 where "TAG_STRING_WRAPPER = 22"
definition TAG_SYMBOL_WRAPPER :: u16 where "TAG_SYMBOL_WRAPPER = 24"
definition TAG_ITER_HELPER :: u16 where "TAG_ITER_HELPER = 25"
definition TAG_PROXY :: u16 where "TAG_PROXY = 26"
definition TAG_ARRAYBUFFER :: u16 where "TAG_ARRAYBUFFER = 27"
definition TAG_TYPEDARRAY :: u16 where "TAG_TYPEDARRAY = 28"
definition TAG_DATAVIEW :: u16 where "TAG_DATAVIEW = 29"
definition TAG_FINREG :: u16 where "TAG_FINREG = 31"
definition TAG_ASYNC_FRAME :: u16 where "TAG_ASYNC_FRAME = 32"

text \<open>The shapes with a bag of own properties at a fixed offset.\<close>

definition bag_only_props_off :: "u16 \<Rightarrow> nat option" where
  "bag_only_props_off tag =
     (if tag = TAG_REGEXP then Some 8
      else if tag = TAG_DATE then Some 16
      else if tag \<in> {TAG_PROMISE, TAG_ARRAYBUFFER, TAG_DATAVIEW, TAG_MAP_ITER, TAG_ARR_ITER} then Some 32
      else if tag = TAG_TYPEDARRAY then Some 40
      else if tag \<in> {TAG_MAP, TAG_SET} then Some 48
      else if tag = TAG_ITER_HELPER then Some 56
      else if tag = TAG_FINREG then Some 32
      else None)"

definition corpse_takes_own_destructor :: "u16 \<Rightarrow> bool" where
  "corpse_takes_own_destructor tag =
     (bag_only_props_off tag \<noteq> None \<or> tag = TAG_PROXY \<or> tag = TAG_ACCESSOR_PAIR)"

section \<open>Cells\<close>

text \<open>Whether the collector may descend into a cell is a matter of its shape: never (a text),
  always (class instances, dictionaries, arrays of cells, traced closures and frames, non-empty
  maps), or while some slot is not empty (wrappers, proxies, bags).\<close>

datatype gc_shape = NeverWalked | AlwaysWalked | WalkedBySlots

record gc_cell =
  c_rc :: u32
  c_tag :: u16
  c_flags :: u16
  c_shape :: gc_shape
  c_slots :: "u64 list"
  c_owned :: "u64 list"
  c_named :: bool

type_synonym gc_heap = "u64 \<rightharpoonup> gc_cell"

definition color_of :: "gc_cell \<Rightarrow> u16" where
  "color_of c = c_flags c AND COLOR_MASK"

definition set_color :: "u16 \<Rightarrow> gc_cell \<Rightarrow> gc_cell" where
  "set_color color c = c\<lparr>c_flags := (c_flags c AND NOT COLOR_MASK) OR color\<rparr>"

definition static_literal :: "gc_cell \<Rightarrow> bool" where
  "static_literal c = (c_flags c AND FLAG_STATIC_LITERAL \<noteq> 0)"

definition buffered :: "gc_cell \<Rightarrow> bool" where
  "buffered c = (c_flags c AND FLAG_BUFFERED \<noteq> 0)"

definition clear_buffered :: "gc_cell \<Rightarrow> gc_cell" where
  "clear_buffered c = c\<lparr>c_flags := c_flags c AND NOT FLAG_BUFFERED\<rparr>"

definition nan_box_is_cell_like :: "u64 \<Rightarrow> bool" where
  "nan_box_is_cell_like v = (v \<noteq> 0 \<and> v AND 0xFFFF000000000000 = 0 \<and> v AND 2 = 0)"

definition walkable :: "gc_cell \<Rightarrow> bool" where
  "walkable c = (\<not> static_literal c \<and>
     (case c_shape c of NeverWalked \<Rightarrow> False | AlwaysWalked \<Rightarrow> True | WalkedBySlots \<Rightarrow> list_ex (\<lambda>w. w \<noteq> 0) (c_slots c)))"

definition has_walkable_children :: "gc_heap \<Rightarrow> u64 \<Rightarrow> bool option" where
  "has_walkable_children h p =
     (if \<not> nan_box_is_cell_like p then Some False else do { c \<leftarrow> h p; Some (walkable c) })"

text \<open>What \<open>for_each_child\<close> hands to its callback: the slots that are not empty, with their index.\<close>

definition children :: "gc_cell \<Rightarrow> (nat \<times> u64) list" where
  "children c = filter (\<lambda>(i, w). w \<noteq> 0) (enumerate 0 (c_slots c))"

definition clear_child_slot :: "gc_heap \<Rightarrow> u64 \<Rightarrow> nat \<Rightarrow> gc_heap option" where
  "clear_child_slot h p i = do {
     c \<leftarrow> h p;
     slots \<leftarrow> wr (c_slots c) i 0;
     Some (h(p \<mapsto> c\<lparr>c_slots := slots\<rparr>))
   }"

primrec each :: "('a \<Rightarrow> 's \<Rightarrow> 's option) \<Rightarrow> 'a list \<Rightarrow> 's \<Rightarrow> 's option" where
  "each f [] s = Some s"
| "each f (x # xs) s = do { s \<leftarrow> f x s; each f xs s }"

section \<open>Colours and flags\<close>

definition proper :: "u16 \<Rightarrow> bool" where
  "proper color = (color AND COLOR_MASK = color)"

lemma proper_colors [simp]: "proper COLOR_BLACK" "proper COLOR_GRAY" "proper COLOR_PURPLE" "proper COLOR_WHITE"
  by (simp_all add: proper_def color_defs COLOR_MASK_def)

lemma colors_distinct [simp]:
  "COLOR_BLACK \<noteq> COLOR_GRAY" "COLOR_BLACK \<noteq> COLOR_PURPLE" "COLOR_BLACK \<noteq> COLOR_WHITE"
  "COLOR_GRAY \<noteq> COLOR_BLACK" "COLOR_GRAY \<noteq> COLOR_PURPLE" "COLOR_GRAY \<noteq> COLOR_WHITE"
  "COLOR_PURPLE \<noteq> COLOR_BLACK" "COLOR_PURPLE \<noteq> COLOR_GRAY" "COLOR_PURPLE \<noteq> COLOR_WHITE"
  "COLOR_WHITE \<noteq> COLOR_BLACK" "COLOR_WHITE \<noteq> COLOR_GRAY" "COLOR_WHITE \<noteq> COLOR_PURPLE"
  by (simp_all add: color_defs)

lemma proper_color_of [simp]: "proper (color_of c)"
  by (simp add: proper_def color_of_def and.assoc)

lemma color_of_set_color [simp]: "proper color \<Longrightarrow> color_of (set_color color c) = color"
proof -
  assume "proper color"
  then have c: "color AND COLOR_MASK = color" by (simp add: proper_def)
  have "((f AND NOT COLOR_MASK) OR color) AND COLOR_MASK = color" for f
    using c by (simp add: bit.conj_disj_distrib2 and.assoc)
  then show ?thesis by (simp add: color_of_def set_color_def)
qed

lemma set_color_twice [simp]: "proper a \<Longrightarrow> set_color b (set_color a c) = set_color b c"
proof -
  assume "proper a"
  then have "a AND NOT COLOR_MASK = (a AND COLOR_MASK) AND NOT COLOR_MASK" by (simp add: proper_def)
  then have a: "a AND NOT COLOR_MASK = 0" by (simp add: and.assoc)
  have "((f AND NOT COLOR_MASK) OR a) AND NOT COLOR_MASK = f AND NOT COLOR_MASK" for f
    using a by (simp add: bit.conj_disj_distrib2 and.assoc)
  then show ?thesis by (simp add: set_color_def)
qed

lemma set_color_same [simp]: "set_color (color_of c) c = c"
proof -
  have "(f AND NOT COLOR_MASK) OR (f AND COLOR_MASK) = f" for f :: u16
    by (metis bit.conj_disj_distrib bit.disj_cancel_left and.right_neutral)
  then show ?thesis by (simp add: set_color_def color_of_def)
qed

lemma set_color_fields [simp]:
  "c_rc (set_color k c) = c_rc c" "c_tag (set_color k c) = c_tag c" "c_shape (set_color k c) = c_shape c"
  "c_slots (set_color k c) = c_slots c" "c_owned (set_color k c) = c_owned c" "c_named (set_color k c) = c_named c"
  "(set_color k c)\<lparr>c_rc := r\<rparr> = set_color k (c\<lparr>c_rc := r\<rparr>)"
  by (simp_all add: set_color_def)

lemma mask_bits:
  "proper k \<Longrightarrow> ((f AND NOT COLOR_MASK) OR k) AND FLAG_STATIC_LITERAL = f AND FLAG_STATIC_LITERAL"
  "proper k \<Longrightarrow> ((f AND NOT COLOR_MASK) OR k) AND FLAG_BUFFERED = f AND FLAG_BUFFERED"
proof -
  assume "proper k"
  then have k: "k AND COLOR_MASK = k" by (simp add: proper_def)
  have m: "NOT COLOR_MASK AND FLAG_STATIC_LITERAL = FLAG_STATIC_LITERAL" "COLOR_MASK AND FLAG_STATIC_LITERAL = 0"
    "NOT COLOR_MASK AND FLAG_BUFFERED = FLAG_BUFFERED" "COLOR_MASK AND FLAG_BUFFERED = 0"
    by (simp_all add: COLOR_MASK_def FLAG_STATIC_LITERAL_def FLAG_BUFFERED_def)
  have "k AND FLAG_STATIC_LITERAL = 0" "k AND FLAG_BUFFERED = 0"
    by (metis k m(2,4) and.assoc and_zero_eq)+
  then show "((f AND NOT COLOR_MASK) OR k) AND FLAG_STATIC_LITERAL = f AND FLAG_STATIC_LITERAL"
    "((f AND NOT COLOR_MASK) OR k) AND FLAG_BUFFERED = f AND FLAG_BUFFERED"
    using m by (simp_all add: bit.conj_disj_distrib2 and.assoc)
qed

lemma set_color_flags [simp]:
  "proper k \<Longrightarrow> static_literal (set_color k c) = static_literal c"
  "proper k \<Longrightarrow> buffered (set_color k c) = buffered c"
  by (simp_all add: static_literal_def buffered_def set_color_def mask_bits)

lemma rc_update_fields [simp]:
  "static_literal (c\<lparr>c_rc := r\<rparr>) = static_literal c" "buffered (c\<lparr>c_rc := r\<rparr>) = buffered c"
  "color_of (c\<lparr>c_rc := r\<rparr>) = color_of c"
  by (simp_all add: static_literal_def buffered_def color_of_def)

lemma clear_buffered_fields [simp]:
  "c_rc (clear_buffered c) = c_rc c" "c_tag (clear_buffered c) = c_tag c" "c_shape (clear_buffered c) = c_shape c"
  "c_slots (clear_buffered c) = c_slots c" "c_owned (clear_buffered c) = c_owned c"
  "c_named (clear_buffered c) = c_named c" "color_of (clear_buffered c) = color_of c"
  "static_literal (clear_buffered c) = static_literal c" "\<not> buffered (clear_buffered c)"
proof -
  have m: "NOT FLAG_BUFFERED AND COLOR_MASK = COLOR_MASK" "NOT FLAG_BUFFERED AND FLAG_STATIC_LITERAL = FLAG_STATIC_LITERAL"
    by (simp_all add: COLOR_MASK_def FLAG_STATIC_LITERAL_def FLAG_BUFFERED_def)
  show "color_of (clear_buffered c) = color_of c" "static_literal (clear_buffered c) = static_literal c"
    using m by (simp_all add: clear_buffered_def color_of_def static_literal_def and.assoc)
  show "\<not> buffered (clear_buffered c)" by (simp add: clear_buffered_def buffered_def and.assoc)
qed (simp_all add: clear_buffered_def)

lemma walkable_cong: "c_shape c = c_shape d \<Longrightarrow> c_slots c = c_slots d \<Longrightarrow> static_literal c = static_literal d \<Longrightarrow> walkable c = walkable d"
  by (simp add: walkable_def split: gc_shape.split)

lemma walkable_updates [simp]:
  "proper k \<Longrightarrow> walkable (set_color k c) = walkable c" "walkable (c\<lparr>c_rc := r\<rparr>) = walkable c"
  "walkable (clear_buffered c) = walkable c"
  by (rule walkable_cong; simp)+

lemma children_updates [simp]:
  "children (set_color k c) = children c" "children (c\<lparr>c_rc := r\<rparr>) = children c"
  "children (clear_buffered c) = children c"
  by (simp_all add: children_def)

lemma wp_each:
  assumes "I [] s" "\<And>x ys zs s. xs = ys @ x # zs \<Longrightarrow> I ys s \<Longrightarrow> wp (f x s) (I (ys @ [x]))"
  shows "wp (each f xs s) (I xs)"
proof -
  have "wp (each f zs s) (I (ys @ zs))" if "xs = ys @ zs" "I ys s" for ys zs s
    using that
  proof (induction zs arbitrary: ys s)
    case (Cons z zs)
    have "wp (f z s) (I (ys @ [z]))" using assms(2) Cons.prems by blast
    then obtain s' where s': "f z s = Some s'" "I (ys @ [z]) s'" by (auto elim: wpE)
    have "wp (each f zs s') (I ((ys @ [z]) @ zs))" by (rule Cons.IH) (use Cons.prems s' in auto)
    then show ?case using s' by simp
  qed simp
  from this [of "[]" xs s] show ?thesis using assms(1) by simp
qed

end
