(* ===== verification/GC_Collect.thy ===== *)
theory GC_Collect
  imports GC_Heap
begin

text \<open>
  The trial-deletion collector (\<open>src/crates/torajs-cycle/src\<close>: \<open>collect.rs\<close>,
  \<open>defer.rs\<close>, \<open>buffer.rs\<close>, with \<open>work_stack.rs\<close> as lists whose head is the top). Calls
  into the other runtime crates are events of a log: what they do to the blocks they are
  given is theirs.
\<close>

datatype gc_event =
  WeakNotify u64 | ValueDrop u64 | StrDrop u64 | DropFn u64 | FrameDrop u64 | FreeCell u64 | FreeParked u64

section \<open>Mark and scan\<close>

text \<open>The callback of \<open>repaint\<close>: the count of a walkable child moves by one, and the child is
  pushed unless it has the colour.\<close>

definition repaint_child :: "u16 \<Rightarrow> nat \<times> u64 \<Rightarrow> gc_heap \<times> u64 list \<Rightarrow> (gc_heap \<times> u64 list) option" where
  "repaint_child color = (\<lambda>(i, child) (h, st). do {
     w \<leftarrow> has_walkable_children h child;
     if \<not> w then Some (h, st)
     else do {
       ch \<leftarrow> h child;
       let ch = (if static_literal ch then ch
                 else if color = COLOR_BLACK then ch\<lparr>c_rc := c_rc ch + 1\<rparr>
                 else ch\<lparr>c_rc := c_rc ch - 1\<rparr>);
       Some (h(child \<mapsto> ch), if color_of ch \<noteq> color then child # st else st)
     }
   })"

definition repaint_cell :: "u16 \<Rightarrow> u64 \<Rightarrow> gc_heap \<times> u32 \<times> u64 list \<Rightarrow> (gc_heap \<times> u32 \<times> u64 list) option" where
  "repaint_cell color p = (\<lambda>(h, live, st). do {
     c \<leftarrow> h p;
     if color_of c = color then Some (h, live, st)
     else do {
       let h = h(p \<mapsto> set_color color c);
       (h, st) \<leftarrow> each (repaint_child color) (children c) (h, st);
       Some (h, if color = COLOR_BLACK then live + 1 else live, st)
     }
   })"

text \<open>The stack of \<open>repaint\<close> holds the entries above the base it was entered with.\<close>

partial_function (option) repaint_loop :: "u16 \<Rightarrow> u64 \<Rightarrow> gc_heap \<times> u32 \<times> u64 list \<Rightarrow> (gc_heap \<times> u32) option" where
  "repaint_loop color p s = do {
     (h, live, st) \<leftarrow> repaint_cell color p s;
     case st of [] \<Rightarrow> Some (h, live) | v # st \<Rightarrow> repaint_loop color v (h, live, st)
   }"

definition repaint :: "u16 \<Rightarrow> u64 \<Rightarrow> gc_heap \<times> u32 \<Rightarrow> (gc_heap \<times> u32) option" where
  "repaint color root = (\<lambda>(h, live). repaint_loop color root (h, live, []))"

definition mark_gray :: "u64 \<Rightarrow> gc_heap \<times> u32 \<Rightarrow> (gc_heap \<times> u32) option" where
  "mark_gray root = (\<lambda>(h, live). do {
     w \<leftarrow> has_walkable_children h root;
     if w then repaint COLOR_GRAY root (h, live) else Some (h, live)
   })"

definition scan_cell :: "u64 \<Rightarrow> gc_heap \<times> u32 \<times> u64 list \<Rightarrow> (gc_heap \<times> u32 \<times> u64 list) option" where
  "scan_cell p = (\<lambda>(h, live, st). do {
     w \<leftarrow> has_walkable_children h p;
     if \<not> w then Some (h, live, st)
     else do {
       c \<leftarrow> h p;
       if color_of c \<noteq> COLOR_GRAY then Some (h, live, st)
       else if c_rc c > 0 then do {
         (h, live) \<leftarrow> repaint COLOR_BLACK p (h, live);
         Some (h, live, st)
       }
       else Some (h(p \<mapsto> set_color COLOR_WHITE c), live, rev (map snd (children c)) @ st)
     }
   })"

partial_function (option) scan_loop :: "u64 \<Rightarrow> gc_heap \<times> u32 \<times> u64 list \<Rightarrow> (gc_heap \<times> u32) option" where
  "scan_loop p s = do {
     (h, live, st) \<leftarrow> scan_cell p s;
     case st of [] \<Rightarrow> Some (h, live) | v # st \<Rightarrow> scan_loop v (h, live, st)
   }"

definition scan :: "u64 \<Rightarrow> gc_heap \<times> u32 \<Rightarrow> (gc_heap \<times> u32) option" where
  "scan root = (\<lambda>(h, live). do {
     w \<leftarrow> has_walkable_children h root;
     if \<not> w then Some (h, live)
     else do {
       c \<leftarrow> h root;
       if color_of c \<noteq> COLOR_GRAY then Some (h, live) else scan_loop root (h, live, [])
     }
   })"

section \<open>Collect\<close>

text \<open>A stack entry of \<open>collect_white\<close>: a cell, or, tagged \<open>AFTER_CHILDREN\<close>, the closing half of one.\<close>

datatype sweep_entry = Visit u64 | AfterChildren u64

definition open_child :: "u64 \<Rightarrow> nat \<times> u64 \<Rightarrow> gc_heap \<times> u64 list \<Rightarrow> (gc_heap \<times> u64 list) option" where
  "open_child p = (\<lambda>(i, child) (h, found). do {
     w \<leftarrow> has_walkable_children h child;
     if \<not> w then Some (h, found)
     else do {
       ch \<leftarrow> h child;
       if color_of ch = COLOR_WHITE then do {
         h \<leftarrow> clear_child_slot h p i;
         Some (h, found @ [child])
       }
       else Some (h, found)
     }
   })"

text \<open>The opening half: whether the cell closes at once, and the stack with the white children
  on top in slot order and the closing entry under them.\<close>

definition collect_white_open :: "u64 \<Rightarrow> gc_heap \<times> gc_event list \<times> sweep_entry list \<Rightarrow>
    (bool \<times> gc_heap \<times> gc_event list \<times> sweep_entry list) option" where
  "collect_white_open p = (\<lambda>(h, log, st). do {
     c \<leftarrow> h p;
     if color_of c \<noteq> COLOR_WHITE then Some (False, h, log, st)
     else do {
       let h = h(p \<mapsto> clear_buffered (set_color COLOR_BLACK c));
       let log = (if c_named c then log @ [WeakNotify p] else log);
       (h, found) \<leftarrow> each (open_child p) (children c) (h, []);
       if found = [] then Some (True, h, log, st)
       else Some (False, h, log, rev (AfterChildren p # rev (map Visit found)) @ st)
     }
   })"

definition close_child :: "gc_heap \<Rightarrow> nat \<times> u64 \<Rightarrow> gc_event list \<Rightarrow> gc_event list option" where
  "close_child h = (\<lambda>(i, child) log. do {
     ch \<leftarrow> h child;
     w \<leftarrow> has_walkable_children h child;
     Some (if c_rc ch > 0 \<and> \<not> w then log @ [ValueDrop child] else log)
   })"

definition collect_white_close :: "gc_heap \<Rightarrow> u64 \<Rightarrow> gc_event list \<times> u64 list \<Rightarrow> (gc_event list \<times> u64 list) option" where
  "collect_white_close h p = (\<lambda>(log, deferred). do {
     c \<leftarrow> h p;
     log \<leftarrow> (if c_tag c \<noteq> TAG_CLOSURE \<and> c_tag c \<noteq> TAG_ASYNC_FRAME \<and> \<not> corpse_takes_own_destructor (c_tag c)
             then each (close_child h) (children c) log else Some log);
     Some (log, deferred @ [p])
   })"

definition sweep_entry_step :: "sweep_entry \<Rightarrow> gc_heap \<times> gc_event list \<times> u64 list \<times> sweep_entry list \<Rightarrow>
    (gc_heap \<times> gc_event list \<times> u64 list \<times> sweep_entry list) option" where
  "sweep_entry_step v = (\<lambda>(h, log, deferred, st).
     (case v of
        AfterChildren p \<Rightarrow> do { (log, deferred) \<leftarrow> collect_white_close h p (log, deferred); Some (h, log, deferred, st) }
      | Visit p \<Rightarrow> do {
          (closes, h, log, st) \<leftarrow> collect_white_open p (h, log, st);
          if closes then do { (log, deferred) \<leftarrow> collect_white_close h p (log, deferred); Some (h, log, deferred, st) }
          else Some (h, log, deferred, st)
        }))"

partial_function (option) collect_white_loop :: "sweep_entry \<Rightarrow> gc_heap \<times> gc_event list \<times> u64 list \<times> sweep_entry list \<Rightarrow>
    (gc_heap \<times> gc_event list \<times> u64 list) option" where
  "collect_white_loop v s = do {
     (h, log, deferred, st) \<leftarrow> sweep_entry_step v s;
     case st of [] \<Rightarrow> Some (h, log, deferred) | v # st \<Rightarrow> collect_white_loop v (h, log, deferred, st)
   }"

definition collect_white :: "u64 \<Rightarrow> gc_heap \<times> gc_event list \<times> u64 list \<Rightarrow> (gc_heap \<times> gc_event list \<times> u64 list) option" where
  "collect_white root = (\<lambda>(h, log, deferred). do {
     w \<leftarrow> has_walkable_children h root;
     if \<not> w then Some (h, log, deferred) else collect_white_loop (Visit root) (h, log, deferred, [])
   })"

section \<open>Free\<close>

text \<open>Pass A of \<open>finalize_all\<close>, on a corpse whose destructor will run: the slots this collect has
  accounted for are emptied; then the cells outside the walk.\<close>

definition preclear_child :: "u64 \<Rightarrow> nat \<times> u64 \<Rightarrow> gc_heap \<Rightarrow> gc_heap option" where
  "preclear_child p = (\<lambda>(i, child) h. do {
     ch \<leftarrow> h child;
     w \<leftarrow> has_walkable_children h child;
     if c_rc ch = 0 \<or> w then clear_child_slot h p i else Some h
   })"

definition pass_a :: "u64 \<Rightarrow> gc_heap \<times> gc_event list \<Rightarrow> (gc_heap \<times> gc_event list) option" where
  "pass_a p = (\<lambda>(h, log). do {
     c \<leftarrow> h p;
     if c_tag c = TAG_CLOSURE \<or> c_tag c = TAG_ASYNC_FRAME \<or> corpse_takes_own_destructor (c_tag c) then do {
       h \<leftarrow> each (preclear_child p) (children c) h;
       Some (h, log)
     }
     else if c_tag c = TAG_DYNOBJ then Some (h, log @ map StrDrop (filter (\<lambda>k. k \<noteq> 0) (c_owned c)))
     else if c_tag c = TAG_STRING_WRAPPER \<or> c_tag c = TAG_SYMBOL_WRAPPER then
       Some (h, log @ map ValueDrop (filter (\<lambda>k. k \<noteq> 0) (c_owned c)))
     else Some (h, log)
   })"

text \<open>Pass B: the block goes back, through the destructor of its shape where it has one.\<close>

definition pass_b :: "u64 \<Rightarrow> gc_heap \<times> gc_event list \<Rightarrow> (gc_heap \<times> gc_event list) option" where
  "pass_b p = (\<lambda>(h, log). do {
     c \<leftarrow> h p;
     Some (h(p := None), log @
       [if c_tag c = TAG_CLOSURE then DropFn p
        else if c_tag c = TAG_ASYNC_FRAME then FrameDrop p
        else if c_tag c = TAG_DYNOBJ then FreeCell p
        else if corpse_takes_own_destructor (c_tag c) then ValueDrop p
        else FreeCell p])
   })"

definition finalize_all :: "u64 list \<Rightarrow> gc_heap \<times> gc_event list \<Rightarrow> (gc_heap \<times> gc_event list) option" where
  "finalize_all deferred s = do {
     s \<leftarrow> each pass_a deferred s;
     each pass_b deferred s
   }"

section \<open>The collector\<close>

definition CYCLE_AUTO_COLLECT_THRESHOLD :: u32 where "CYCLE_AUTO_COLLECT_THRESHOLD = 1024"

record gc_state =
  gc_heap :: gc_heap
  gc_buffer :: "u64 list"
  gc_threshold :: u32
  gc_live :: u32
  gc_in_collect :: bool
  gc_log :: "gc_event list"

definition mark_root :: "nat \<Rightarrow> gc_heap \<times> u32 \<times> u64 list \<times> gc_event list \<Rightarrow>
    (gc_heap \<times> u32 \<times> u64 list \<times> gc_event list) option" where
  "mark_root i = (\<lambda>(h, live, buf, log). do {
     p \<leftarrow> rd buf i;
     if p = 0 then Some (h, live, buf, log)
     else do {
       c \<leftarrow> h p;
       if static_literal c then Some (h, live, buf, log)
       else if c_rc c = 0 then
         (if color_of c = COLOR_BLACK then do {
            buf \<leftarrow> wr buf i 0;
            Some (h(p := None), live, buf, log @ [FreeParked p])
          }
          else Some (h, live, buf, log))
       else if color_of c = COLOR_PURPLE then do {
         (h, live) \<leftarrow> mark_gray p (h, live);
         Some (h, live, buf, log)
       }
       else Some (h, live, buf, log)
     }
   })"

definition scan_root :: "u64 list \<Rightarrow> nat \<Rightarrow> gc_heap \<times> u32 \<Rightarrow> (gc_heap \<times> u32) option" where
  "scan_root buf i s = do { p \<leftarrow> rd buf i; if p = 0 then Some s else scan p s }"

definition sweep_root :: "u64 list \<Rightarrow> nat \<Rightarrow> gc_heap \<times> gc_event list \<times> u64 list \<Rightarrow> (gc_heap \<times> gc_event list \<times> u64 list) option" where
  "sweep_root buf i = (\<lambda>(h, log, deferred). do {
     p \<leftarrow> rd buf i;
     if p = 0 then Some (h, log, deferred)
     else do {
       c \<leftarrow> h p;
       let h = h(p \<mapsto> clear_buffered c);
       if color_of c = COLOR_WHITE then collect_white p (h, log, deferred) else Some (h, log, deferred)
     }
   })"

definition compact_from :: "nat \<Rightarrow> u64 list \<Rightarrow> u64 list" where
  "compact_from processed buf = filter (\<lambda>p. p \<noteq> 0) (drop processed buf)"

definition retune_threshold :: "u32 \<Rightarrow> u32" where
  "retune_threshold live = max (live div 4) CYCLE_AUTO_COLLECT_THRESHOLD"

text \<open>The three phases and the free step over the buffer: heap, live count, buffer with the parked
  slots emptied, and the calls made, in order.\<close>

definition collect_phases :: "gc_heap \<Rightarrow> u32 \<Rightarrow> u64 list \<Rightarrow> (gc_heap \<times> u32 \<times> u64 list \<times> gc_event list) option" where
  "collect_phases h live buf = do {
     let processed = length buf;
     (h, live, buf, log) \<leftarrow> for_range 0 processed mark_root (h, live, buf, []);
     (h, live) \<leftarrow> for_range 0 processed (scan_root buf) (h, live);
     (h, log, deferred) \<leftarrow> for_range 0 processed (sweep_root buf) (h, log, []);
     (h, log) \<leftarrow> finalize_all deferred (h, log);
     Some (h, live, buf, log)
   }"

text \<open>What the calls do to the other cells and to the buffer is a parameter: releasing a leaf lowers
  its count, may free it and what it owns, and may buffer a cell again. Such an entry comes
  after the slots the collection started with, and \<open>compact_from\<close> keeps it. The effects are taken
  together once the collector's own writes are done; no phase reads a buffer slot that a drop has added.\<close>

type_synonym gc_drops = "gc_event list \<Rightarrow> gc_heap \<times> u64 list \<Rightarrow> gc_heap \<times> u64 list"

definition collect_with :: "gc_drops \<Rightarrow> gc_state \<Rightarrow> gc_state option" where
  "collect_with drops s =
     (if gc_buffer s = [] \<or> gc_in_collect s then Some s
      else do {
        let processed = length (gc_buffer s);
        (h, live, buf, log) \<leftarrow> collect_phases (gc_heap s) (gc_live s) (gc_buffer s);
        let (h, buf) = drops log (h, buf);
        Some (s\<lparr>gc_heap := h, gc_buffer := compact_from processed buf, gc_threshold := retune_threshold live,
          gc_live := 0, gc_in_collect := False, gc_log := gc_log s @ log\<rparr>)
      })"

text \<open>The collector by itself: its own writes, the calls left in the log.\<close>

definition no_drops :: gc_drops where
  "no_drops log s = s"

definition cycle_collect :: "gc_state \<Rightarrow> gc_state option" where
  "cycle_collect s = collect_with no_drops s"

section \<open>The root buffer\<close>

definition cycle_buffer :: "u64 \<Rightarrow> gc_state \<Rightarrow> gc_state option" where
  "cycle_buffer p s =
     (if \<not> nan_box_is_cell_like p then Some s
      else do {
        c \<leftarrow> gc_heap s p;
        if buffered c then Some s
        else if \<not> walkable c then Some s
        else do {
          let c = set_color COLOR_PURPLE c;
          let c = c\<lparr>c_flags := c_flags c OR FLAG_BUFFERED\<rparr>;
          let s = s\<lparr>gc_heap := (gc_heap s)(p \<mapsto> c), gc_buffer := gc_buffer s @ [p]\<rparr>;
          if length (gc_buffer s) \<ge> unat (gc_threshold s) then cycle_collect s else Some s
        }
      })"

text \<open>The scan of \<open>cycle_unbuffer\<close>, from the tail: the last slot that holds the cell.\<close>

primrec last_slot :: "u64 \<Rightarrow> u64 list \<Rightarrow> nat \<Rightarrow> nat option" where
  "last_slot p buf 0 = None"
| "last_slot p buf (Suc i) = (if buf ! i = p then Some i else last_slot p buf i)"

definition trim_tail :: "u64 list \<Rightarrow> u64 list" where
  "trim_tail buf = rev (dropWhile (\<lambda>p. p = 0) (rev buf))"

definition cycle_unbuffer :: "u64 \<Rightarrow> gc_state \<Rightarrow> gc_state option" where
  "cycle_unbuffer p s =
     (if p = 0 then Some s
      else do {
        c \<leftarrow> gc_heap s p;
        if \<not> buffered c then Some s
        else do {
          let s = s\<lparr>gc_heap := (gc_heap s)(p \<mapsto> clear_buffered c)\<rparr>;
          case last_slot p (gc_buffer s) (length (gc_buffer s)) of
            None \<Rightarrow> Some s
          | Some i \<Rightarrow>
              (let buf = (gc_buffer s)[i := 0]
               in Some (s\<lparr>gc_buffer := (if gc_in_collect s then buf else trim_tail buf)\<rparr>))
        }
      })"

end
