(* ===== verification/GC_Mark.thy ===== *)
theory GC_Mark
  imports GC_Collect
begin

text \<open>
  Marking. \<open>edges\<close> is the graph the collector walks: the walkable children of the walkable
  cells, with multiplicity. While the counts and colours change and the slots do not, a heap
  is \<open>tinted k d h\<close>: the cells of \<open>h\<close> with the colours \<open>k\<close> and their counts moved by \<open>d\<close>.
  \<open>repaint\<close> from a root colours what is reachable from it, and moves the count of a cell by
  the number of edges out of the cells it coloured.
\<close>

section \<open>The graph\<close>

definition can_walk :: "gc_heap \<Rightarrow> u64 \<Rightarrow> bool" where
  "can_walk h p = (nan_box_is_cell_like p \<and> (case h p of None \<Rightarrow> False | Some c \<Rightarrow> walkable c))"

definition edges :: "gc_heap \<Rightarrow> u64 \<Rightarrow> u64 list" where
  "edges h p = (case h p of None \<Rightarrow> [] | Some c \<Rightarrow>
     if walkable c then filter (can_walk h) (map snd (children c)) else [])"

definition reach :: "gc_heap \<Rightarrow> u64 \<Rightarrow> u64 set" where
  "reach h p = {q. (p, q) \<in> {(x, y). y \<in> set (edges h x)}\<^sup>*}"

definition indeg :: "gc_heap \<Rightarrow> u64 set \<Rightarrow> u64 \<Rightarrow> nat" where
  "indeg h X q = (\<Sum>p\<in>X. count_list (edges h p) q)"

definition closed_under :: "gc_heap \<Rightarrow> u64 set \<Rightarrow> bool" where
  "closed_under h X = (\<forall>p\<in>X. set (edges h p) \<subseteq> X)"

lemma reach_refl [simp]: "p \<in> reach h p"
  by (simp add: reach_def)

lemma reach_step: "q \<in> reach h p \<Longrightarrow> r \<in> set (edges h q) \<Longrightarrow> r \<in> reach h p"
  unfolding reach_def by (auto intro: rtrancl_into_rtrancl)

lemma reach_closed [simp]: "closed_under h (reach h p)"
  by (auto simp: closed_under_def intro: reach_step)

lemma reach_trans: "q \<in> reach h p \<Longrightarrow> r \<in> reach h q \<Longrightarrow> r \<in> reach h p"
  unfolding reach_def by auto

lemma reach_least:
  assumes "p \<in> X" "closed_under h X" shows "reach h p \<subseteq> X"
proof
  fix q assume "q \<in> reach h p"
  then have "(p, q) \<in> {(x, y). y \<in> set (edges h x)}\<^sup>*" by (simp add: reach_def)
  then show "q \<in> X"
    by induction (use assms in \<open>auto simp: closed_under_def\<close>)
qed

lemma closed_Un: "closed_under h X \<Longrightarrow> closed_under h Y \<Longrightarrow> closed_under h (X \<union> Y)"
  by (auto simp: closed_under_def)

lemma closed_UN: "(\<And>i. i \<in> I \<Longrightarrow> closed_under h (X i)) \<Longrightarrow> closed_under h (\<Union>i\<in>I. X i)"
  by (fastforce simp: closed_under_def)

lemma count_list_pos: "count_list xs x = 0 \<longleftrightarrow> x \<notin> set xs"
  by (induction xs) auto

lemma indeg_outside: "closed_under h X \<Longrightarrow> q \<notin> X \<Longrightarrow> indeg h X q = 0"
  unfolding indeg_def by (rule sum.neutral) (auto simp: closed_under_def count_list_pos)

lemma indeg_Un: "finite X \<Longrightarrow> finite Y \<Longrightarrow> X \<inter> Y = {} \<Longrightarrow> indeg h (X \<union> Y) q = indeg h X q + indeg h Y q"
  by (simp add: indeg_def sum.union_disjoint)

lemma indeg_mono: "finite Y \<Longrightarrow> X \<subseteq> Y \<Longrightarrow> indeg h X q \<le> indeg h Y q"
  by (simp add: indeg_def sum_mono2)

lemma indeg_edge: "finite X \<Longrightarrow> p \<in> X \<Longrightarrow> q \<in> set (edges h p) \<Longrightarrow> 0 < indeg h X q"
  unfolding indeg_def by (rule sum_pos2 [of X p]) (auto simp: neq0_conv [symmetric] count_list_pos)

lemma indeg_cong: "(\<And>p. p \<in> X \<Longrightarrow> edges h p = edges h' p) \<Longrightarrow> indeg h X q = indeg h' X q"
  by (simp add: indeg_def)

section \<open>Tinted heaps\<close>

definition tinted :: "(u64 \<Rightarrow> u16) \<Rightarrow> (u64 \<Rightarrow> u32) \<Rightarrow> gc_heap \<Rightarrow> gc_heap" where
  "tinted k d h = (\<lambda>p. map_option (\<lambda>c. set_color (k p) (c\<lparr>c_rc := c_rc c + d p\<rparr>)) (h p))"

definition color_at :: "gc_heap \<Rightarrow> u64 \<Rightarrow> u16" where
  "color_at h p = (case h p of None \<Rightarrow> COLOR_BLACK | Some c \<Rightarrow> color_of c)"

definition rc_at :: "gc_heap \<Rightarrow> u64 \<Rightarrow> u32" where
  "rc_at h p = (case h p of None \<Rightarrow> 0 | Some c \<Rightarrow> c_rc c)"

lemma tinted_apply: "h p = Some c \<Longrightarrow> tinted k d h p = Some (set_color (k p) (c\<lparr>c_rc := c_rc c + d p\<rparr>))"
  by (simp add: tinted_def)

lemma tinted_None [simp]: "tinted k d h p = None \<longleftrightarrow> h p = None"
  by (simp add: tinted_def)

lemma dom_tinted [simp]: "dom (tinted k d h) = dom h"
  by (auto simp: tinted_def)

lemma tinted_id: "tinted (color_at h) (\<lambda>_. 0) h = h"
proof
  fix p
  show "tinted (color_at h) (\<lambda>_. 0) h p = h p"
    by (cases "h p") (simp_all add: tinted_def color_at_def)
qed

lemma proper_color_at [simp]: "proper (color_at h p)"
  by (simp add: color_at_def split: option.split)

lemma walk_tinted:
  assumes "\<And>p. proper (k p)"
  shows "has_walkable_children (tinted k d h) p = has_walkable_children h p"
  using assms by (cases "h p") (simp_all add: has_walkable_children_def tinted_def)

lemma walk_iff: "(nan_box_is_cell_like p \<Longrightarrow> h p \<noteq> None) \<Longrightarrow> has_walkable_children h p = Some (can_walk h p)"
  by (auto simp: has_walkable_children_def can_walk_def)

lemma tinted_set_color:
  assumes "tinted k d h p = Some c" "proper (k p)"
  shows "(tinted k d h)(p \<mapsto> set_color color c) = tinted (k(p := color)) d h"
proof
  fix x
  show "((tinted k d h)(p \<mapsto> set_color color c)) x = tinted (k(p := color)) d h x"
    using assms by (cases "h x") (auto simp: tinted_def)
qed

lemma tinted_set_rc:
  assumes "tinted k d h p = Some c"
  shows "(tinted k d h)(p \<mapsto> c\<lparr>c_rc := c_rc c + e\<rparr>) = tinted k (d(p := d p + e)) h"
proof
  fix x
  show "((tinted k d h)(p \<mapsto> c\<lparr>c_rc := c_rc c + e\<rparr>)) x = tinted k (d(p := d p + e)) h x"
    using assms by (cases "h x") (auto simp: tinted_def algebra_simps)
qed

section \<open>Repainting\<close>

definition rc_step :: "u16 \<Rightarrow> u32" where
  "rc_step color = (if color = COLOR_BLACK then 1 else - 1)"

text \<open>A region of walkable cells whose children can all be read.\<close>

definition region :: "gc_heap \<Rightarrow> u64 set \<Rightarrow> bool" where
  "region h R = (finite R \<and> closed_under h R \<and> (\<forall>p\<in>R. can_walk h p \<and>
     (\<forall>c. h p = Some c \<longrightarrow> (\<forall>w\<in>snd ` set (children c). nan_box_is_cell_like w \<longrightarrow> w \<in> dom h))))"

lemma regionD:
  assumes "region h R" "p \<in> R"
  obtains c where "h p = Some c" "walkable c" "nan_box_is_cell_like p"
    "\<And>w. w \<in> snd ` set (children c) \<Longrightarrow> nan_box_is_cell_like w \<Longrightarrow> h w \<noteq> None"
    "edges h p = filter (can_walk h) (map snd (children c))" "set (edges h p) \<subseteq> R"
proof -
  from assms have "can_walk h p" by (simp add: region_def)
  then obtain c where c: "h p = Some c" "walkable c" "nan_box_is_cell_like p"
    by (auto simp: can_walk_def split: option.splits)
  show ?thesis
  proof (rule that [OF c])
    show "h w \<noteq> None" if "w \<in> snd ` set (children c)" "nan_box_is_cell_like w" for w
      using assms c(1) that by (fastforce simp: region_def)
    show "edges h p = filter (can_walk h) (map snd (children c))" using c by (simp add: edges_def)
    show "set (edges h p) \<subseteq> R" using assms by (simp add: region_def closed_under_def)
  qed
qed

lemma repaint_child_tinted:
  assumes k: "\<And>p. proper (k p)" and w: "nan_box_is_cell_like w \<Longrightarrow> h w \<noteq> None"
  shows "repaint_child color (i, w) (tinted k d h, st) = Some
    (if can_walk h w then (tinted k (d(w := d w + rc_step color)) h, if k w \<noteq> color then w # st else st)
     else (tinted k d h, st))"
proof -
  have hw: "has_walkable_children (tinted k d h) w = Some (can_walk h w)"
    using walk_iff [of w h] w by (simp add: walk_tinted [OF k])
  show ?thesis
  proof (cases "can_walk h w")
    case True
    then obtain c where c: "h w = Some c" "walkable c" by (auto simp: can_walk_def split: option.splits)
    define c' where "c' = set_color (k w) (c\<lparr>c_rc := c_rc c + d w\<rparr>)"
    have c': "tinted k d h w = Some c'" "\<not> static_literal c'" "color_of c' = k w"
      using c k by (simp_all add: tinted_apply c'_def walkable_def)
    have rc: "(if color = COLOR_BLACK then c'\<lparr>c_rc := c_rc c' + 1\<rparr> else c'\<lparr>c_rc := c_rc c' - 1\<rparr>) =
        c'\<lparr>c_rc := c_rc c' + rc_step color\<rparr>"
      by (simp add: rc_step_def)
    show ?thesis
      using True c' tinted_set_rc [OF c'(1), of "rc_step color"]
      by (simp add: repaint_child_def hw rc)
  qed (simp add: repaint_child_def hw)
qed

lemma repaint_children_tinted:
  assumes k: "\<And>p. proper (k p)" and "\<And>w. w \<in> snd ` set cs \<Longrightarrow> nan_box_is_cell_like w \<Longrightarrow> h w \<noteq> None"
  shows "each (repaint_child color) cs (tinted k d h, st) = Some
    (tinted k (\<lambda>x. d x + rc_step color * of_nat (count_list (filter (can_walk h) (map snd cs)) x)) h,
     rev (filter (\<lambda>w. k w \<noteq> color) (filter (can_walk h) (map snd cs))) @ st)"
  using assms(2)
proof (induction cs arbitrary: d st)
  case (Cons iw cs)
  obtain i w where iw: "iw = (i, w)" by (cases iw)
  have w: "nan_box_is_cell_like w \<Longrightarrow> h w \<noteq> None" using Cons.prems by (simp add: iw)
  have cs: "\<And>w. w \<in> snd ` set cs \<Longrightarrow> nan_box_is_cell_like w \<Longrightarrow> h w \<noteq> None" using Cons.prems by simp
  show ?case
  proof (cases "can_walk h w")
    case True
    let ?c = "\<lambda>x. count_list (filter (can_walk h) (map snd cs)) x"
    have d: "(d(w := d w + rc_step color)) x + rc_step color * of_nat (?c x) =
        d x + rc_step color * of_nat (if x = w then ?c x + 1 else ?c x)" for x
      by (simp add: algebra_simps)
    have "tinted k (\<lambda>x. (d(w := d w + rc_step color)) x + rc_step color * of_nat (?c x)) h =
        tinted k (\<lambda>x. d x + rc_step color * of_nat (if x = w then ?c x + 1 else ?c x)) h"
      by (simp only: d)
    then show ?thesis
      using True by (simp add: iw repaint_child_tinted [where k = k and w = w and h = h, OF k w] Cons.IH cs eq_commute [of w])
  next
    case False
    then show ?thesis by (simp add: iw repaint_child_tinted [where k = k and w = w and h = h, OF k w] Cons.IH cs)
  qed
qed simp

lemma repaint_cell_tinted:
  assumes k: "\<And>p. proper (k p)" and color: "proper color" and R: "region h R" "p \<in> R"
  shows "repaint_cell color p (tinted k d h, live, st) = Some
    (if k p = color then (tinted k d h, live, st)
     else (tinted (k(p := color)) (\<lambda>x. d x + rc_step color * of_nat (count_list (edges h p) x)) h,
       live + (if color = COLOR_BLACK then 1 else 0),
       rev (filter (\<lambda>w. (k(p := color)) w \<noteq> color) (edges h p)) @ st))"
proof -
  from regionD [OF R] obtain c where c: "h p = Some c"
    "\<And>w. w \<in> snd ` set (children c) \<Longrightarrow> nan_box_is_cell_like w \<Longrightarrow> h w \<noteq> None"
    "edges h p = filter (can_walk h) (map snd (children c))" by metis
  have k': "\<And>x. proper ((k(p := color)) x)" using k color by simp
  have t: "tinted k d h p = Some (set_color (k p) (c\<lparr>c_rc := c_rc c + d p\<rparr>))"
    by (simp add: tinted_apply c)
  show ?thesis
    using k t tinted_set_color [OF t] repaint_children_tinted [where k = "k(p := color)", OF k' c(2)]
    by (simp add: repaint_cell_def c(3))
qed

lemma repaint_loop_tinted:
  assumes color: "proper color" and R: "region h R"
  shows "(\<And>p. proper (k p)) \<Longrightarrow> set (p # st) \<subseteq> R \<Longrightarrow>
    (\<And>x. x \<in> R \<Longrightarrow> k x = color \<Longrightarrow> set (edges h x) \<subseteq> {y. k y = color} \<union> set (p # st)) \<Longrightarrow>
    \<exists>A. A \<subseteq> R \<and> (\<forall>x\<in>A. k x \<noteq> color) \<and>
      repaint_loop color p (tinted k d h, live, st) = Some
        (tinted (\<lambda>x. if x \<in> A then color else k x) (\<lambda>x. d x + rc_step color * of_nat (indeg h A x)) h,
         live + (if color = COLOR_BLACK then of_nat (card A) else 0)) \<and>
      (\<forall>x\<in>set (p # st). x \<in> A \<or> k x = color) \<and>
      (\<forall>x\<in>R. x \<in> A \<or> k x = color \<longrightarrow> (\<forall>y\<in>set (edges h x). y \<in> A \<or> k y = color))"
proof (induction "(card {x \<in> R. k x \<noteq> color}, length st)" arbitrary: k p st d live
    rule: wf_induct_rule [OF wf_lex_prod [OF wf_less wf_less]])
  case 1
  note IH = 1(1) and k = 1(2) and st = 1(3) and inv = 1(4)
  have p: "p \<in> R" and fin: "finite R" using st R by (auto simp: region_def)
  note cell = repaint_cell_tinted [where k = k and d = d and live = live and st = st, OF k color R p]
  show ?case
  proof (cases "k p = color")
    case True
    have cellT: "repaint_cell color p (tinted k d h, live, st) = Some (tinted k d h, live, st)"
      using cell True by simp
    have inv': "set (edges h x) \<subseteq> {y. k y = color} \<union> set st" if "x \<in> R" "k x = color" for x
      using inv [OF that] True by auto
    show ?thesis
    proof (cases st)
      case Nil
      have run: "repaint_loop color p (tinted k d h, live, st) = Some (tinted k d h, live)"
        by (simp add: repaint_loop.simps [of color p] cellT) (simp add: Nil)
      show ?thesis
        by (rule exI [of _ "{}"])
          (use run True Nil inv' in \<open>simp add: indeg_def subset_eq Ball_def del: Collect_empty_eq\<close>)
    next
      case (Cons v st')
      have "\<exists>A. A \<subseteq> R \<and> (\<forall>x\<in>A. k x \<noteq> color) \<and>
        repaint_loop color v (tinted k d h, live, st') = Some
          (tinted (\<lambda>x. if x \<in> A then color else k x) (\<lambda>x. d x + rc_step color * of_nat (indeg h A x)) h,
           live + (if color = COLOR_BLACK then of_nat (card A) else 0)) \<and>
        (\<forall>x\<in>set (v # st'). x \<in> A \<or> k x = color) \<and>
        (\<forall>x\<in>R. x \<in> A \<or> k x = color \<longrightarrow> (\<forall>y\<in>set (edges h x). y \<in> A \<or> k y = color))"
      proof (rule IH)
        show "set (v # st') \<subseteq> R" using st Cons by simp
        show "set (edges h x) \<subseteq> {y. k y = color} \<union> set (v # st')" if "x \<in> R" "k x = color" for x
          using inv' [OF that] Cons by simp
      qed (use k Cons in auto)
      moreover have "repaint_loop color p (tinted k d h, live, st) = repaint_loop color v (tinted k d h, live, st')"
        by (simp add: repaint_loop.simps [of color p] cellT) (simp add: Cons)
      ultimately show ?thesis using True Cons by auto
    qed
  next
    case False
    define k' where "k' = k(p := color)"
    define d' where "d' = (\<lambda>x. d x + rc_step color * of_nat (count_list (edges h p) x))"
    define live' where "live' = live + (if color = COLOR_BLACK then 1 else 0)"
    define st' where "st' = rev (filter (\<lambda>w. k' w \<noteq> color) (edges h p)) @ st"
    have cell': "repaint_cell color p (tinted k d h, live, st) = Some (tinted k' d' h, live', st')"
      using False cell by (simp add: k'_def d'_def live'_def st'_def)
    have kp': "\<And>x. proper (k' x)" using k color by (simp add: k'_def)
    have st'R: "set st' \<subseteq> R"
      using st R p by (auto simp: st'_def region_def closed_under_def)
    have inv': "set (edges h x) \<subseteq> {y. k' y = color} \<union> set st'" if "x \<in> R" "k' x = color" for x
    proof (cases "x = p")
      case True
      then show ?thesis by (auto simp: st'_def)
    next
      case False
      then have "k x = color" using that by (simp add: k'_def)
      from inv [OF that(1) this] show ?thesis by (auto simp: k'_def st'_def)
    qed
    have less: "card {x \<in> R. k' x \<noteq> color} < card {x \<in> R. k x \<noteq> color}"
      by (rule psubset_card_mono) (use fin p False in \<open>auto simp: k'_def\<close>)
    have fin_loop: "\<exists>A. A \<subseteq> R \<and> (\<forall>x\<in>A. k' x \<noteq> color) \<and>
        (case st' of [] \<Rightarrow> Some (tinted k' d' h, live') | v # st \<Rightarrow> repaint_loop color v (tinted k' d' h, live', st)) = Some
          (tinted (\<lambda>x. if x \<in> A then color else k' x) (\<lambda>x. d' x + rc_step color * of_nat (indeg h A x)) h,
           live' + (if color = COLOR_BLACK then of_nat (card A) else 0)) \<and>
        (\<forall>x\<in>set st'. x \<in> A \<or> k' x = color) \<and>
        (\<forall>x\<in>R. x \<in> A \<or> k' x = color \<longrightarrow> (\<forall>y\<in>set (edges h x). y \<in> A \<or> k' y = color))"
    proof (cases st')
      case Nil
      show ?thesis
        by (rule exI [of _ "{}"]) (use Nil inv' in \<open>auto simp: indeg_def subset_eq\<close>)
    next
      case (Cons v st'')
      have "\<exists>A. A \<subseteq> R \<and> (\<forall>x\<in>A. k' x \<noteq> color) \<and>
        repaint_loop color v (tinted k' d' h, live', st'') = Some
          (tinted (\<lambda>x. if x \<in> A then color else k' x) (\<lambda>x. d' x + rc_step color * of_nat (indeg h A x)) h,
           live' + (if color = COLOR_BLACK then of_nat (card A) else 0)) \<and>
        (\<forall>x\<in>set (v # st''). x \<in> A \<or> k' x = color) \<and>
        (\<forall>x\<in>R. x \<in> A \<or> k' x = color \<longrightarrow> (\<forall>y\<in>set (edges h x). y \<in> A \<or> k' y = color))"
      proof (rule IH)
        show "set (v # st'') \<subseteq> R" using st'R Cons by simp
        show "set (edges h x) \<subseteq> {y. k' y = color} \<union> set (v # st'')" if "x \<in> R" "k' x = color" for x
          using inv' [OF that] Cons by simp
      qed (use kp' less in auto)
      then show ?thesis using Cons by simp
    qed
    then obtain A where A: "A \<subseteq> R" "\<forall>x\<in>A. k' x \<noteq> color"
      "(case st' of [] \<Rightarrow> Some (tinted k' d' h, live') | v # st \<Rightarrow> repaint_loop color v (tinted k' d' h, live', st)) = Some
          (tinted (\<lambda>x. if x \<in> A then color else k' x) (\<lambda>x. d' x + rc_step color * of_nat (indeg h A x)) h,
           live' + (if color = COLOR_BLACK then of_nat (card A) else 0))"
      "\<forall>x\<in>set st'. x \<in> A \<or> k' x = color"
      "\<forall>x\<in>R. x \<in> A \<or> k' x = color \<longrightarrow> (\<forall>y\<in>set (edges h x). y \<in> A \<or> k' y = color)"
      by blast
    have pA: "p \<notin> A" using A(2) by (auto simp: k'_def)
    have finA: "finite A" using A(1) fin by (rule finite_subset)
    have ind: "indeg h (insert p A) x = count_list (edges h p) x + indeg h A x" for x
      using finA pA by (simp add: indeg_def)
    have kk: "(\<lambda>x. if x \<in> A then color else k' x) = (\<lambda>x. if x \<in> insert p A then color else k x)"
      by (auto simp: k'_def)
    have dd: "(\<lambda>x. d' x + rc_step color * of_nat (indeg h A x)) = (\<lambda>x. d x + rc_step color * of_nat (indeg h (insert p A) x))"
      by (simp add: ind d'_def algebra_simps)
    have ll: "live' + (if color = COLOR_BLACK then of_nat (card A) else 0) = live + (if color = COLOR_BLACK then of_nat (card (insert p A)) else 0)"
      using finA pA by (simp add: live'_def)
    have run: "repaint_loop color p (tinted k d h, live, st) = Some
        (tinted (\<lambda>x. if x \<in> insert p A then color else k x) (\<lambda>x. d x + rc_step color * of_nat (indeg h (insert p A) x)) h,
         live + (if color = COLOR_BLACK then of_nat (card (insert p A)) else 0))"
      using A(3) unfolding kk dd ll by (simp add: repaint_loop.simps [of color p] cell')
    show ?thesis
    proof (intro exI [of _ "insert p A"] conjI run)
      show "\<forall>x\<in>set (p # st). x \<in> insert p A \<or> k x = color"
      proof
        fix x assume "x \<in> set (p # st)"
        then show "x \<in> insert p A \<or> k x = color"
          using A(4) by (cases "x = p") (auto simp: st'_def k'_def)
      qed
      show "\<forall>x\<in>R. x \<in> insert p A \<or> k x = color \<longrightarrow> (\<forall>y\<in>set (edges h x). y \<in> insert p A \<or> k y = color)"
        using A(5) by (auto simp: k'_def split: if_splits)
    qed (use A(1,2) p False in \<open>auto simp: k'_def split: if_splits\<close>)
  qed
qed

lemma repaint_tinted:
  assumes k: "\<And>p. proper (k p)" and color: "proper color" and R: "region h (reach h root)"
    and col: "\<And>x. x \<in> reach h root \<Longrightarrow> k x = color \<Longrightarrow> \<forall>y\<in>set (edges h x). k y = color"
  defines "A \<equiv> {x \<in> reach h root. k x \<noteq> color}"
  shows "repaint color root (tinted k d h, live) = Some
    (tinted (\<lambda>x. if x \<in> A then color else k x) (\<lambda>x. d x + rc_step color * of_nat (indeg h A x)) h,
     live + (if color = COLOR_BLACK then of_nat (card A) else 0))"
proof -
  have "\<exists>A. A \<subseteq> reach h root \<and> (\<forall>x\<in>A. k x \<noteq> color) \<and>
      repaint_loop color root (tinted k d h, live, []) = Some
        (tinted (\<lambda>x. if x \<in> A then color else k x) (\<lambda>x. d x + rc_step color * of_nat (indeg h A x)) h,
         live + (if color = COLOR_BLACK then of_nat (card A) else 0)) \<and>
      (\<forall>x\<in>set (root # []). x \<in> A \<or> k x = color) \<and>
      (\<forall>x\<in>reach h root. x \<in> A \<or> k x = color \<longrightarrow> (\<forall>y\<in>set (edges h x). y \<in> A \<or> k y = color))"
    by (rule repaint_loop_tinted [where k = k, OF color R k]) (use col in auto)
  then obtain A' where A': "A' \<subseteq> reach h root" "\<forall>x\<in>A'. k x \<noteq> color" "root \<in> A' \<or> k root = color"
    and run: "repaint_loop color root (tinted k d h, live, []) = Some
        (tinted (\<lambda>x. if x \<in> A' then color else k x) (\<lambda>x. d x + rc_step color * of_nat (indeg h A' x)) h,
         live + (if color = COLOR_BLACK then of_nat (card A') else 0))"
    and cl: "\<forall>x\<in>reach h root. x \<in> A' \<or> k x = color \<longrightarrow> (\<forall>y\<in>set (edges h x). y \<in> A' \<or> k y = color)"
    by auto
  have "reach h root \<subseteq> {x \<in> reach h root. x \<in> A' \<or> k x = color}"
    by (rule reach_least) (use A'(3) cl in \<open>auto simp: closed_under_def intro: reach_step\<close>)
  then have "A' = A" using A'(1,2) by (auto simp: A_def)
  then show ?thesis using run by (simp add: repaint_def)
qed

end
