(* ===== verification/GC_Phases.thy ===== *)
theory GC_Phases
  imports GC_Mark
begin

text \<open>
  The first two phases of a collection. Marking removes the parked blocks and leaves every cell
  reachable from a purple root gray, with the edges out of gray cells taken from the counts.
  Scanning then leaves a gray cell black exactly if it is reachable from a gray cell with
  references left, the others white with count 0: the visit order does not matter.
\<close>

section \<open>Heaps between collections\<close>

definition live_cells :: "gc_heap \<Rightarrow> u64 set" where
  "live_cells h = {p. \<exists>c. h p = Some c \<and> (c_rc c \<noteq> 0 \<or> static_literal c)}"

text \<open>Blocks of cells; a live walkable cell has live children; no cell has fewer counted
  references than live cells hold on it; no collection is under way.\<close>

definition heap_ok :: "gc_heap \<Rightarrow> bool" where
  "heap_ok h = (finite (dom h) \<and> (\<forall>p\<in>dom h. nan_box_is_cell_like p) \<and>
     (\<forall>p\<in>live_cells h. \<forall>c. h p = Some c \<longrightarrow> walkable c \<longrightarrow> snd ` set (children c) \<subseteq> live_cells h) \<and>
     (\<forall>q. indeg h (live_cells h) q \<le> unat (rc_at h q)) \<and>
     (\<forall>p. color_at h p \<in> {COLOR_BLACK, COLOR_PURPLE}))"

definition buffer_ok :: "gc_heap \<Rightarrow> u64 list \<Rightarrow> bool" where
  "buffer_ok h buf = (distinct (filter (\<lambda>p. p \<noteq> 0) buf) \<and> (\<forall>p\<in>set buf. p \<noteq> 0 \<longrightarrow> p \<in> dom h))"

definition roots :: "gc_heap \<Rightarrow> u64 set \<Rightarrow> u64 set" where
  "roots h X = {p \<in> X. p \<noteq> 0 \<and> (\<exists>c. h p = Some c \<and> c_rc c \<noteq> 0 \<and> color_of c = COLOR_PURPLE \<and> walkable c)}"

definition parked :: "gc_heap \<Rightarrow> u64 set \<Rightarrow> u64 set" where
  "parked h X = {p \<in> X. p \<noteq> 0 \<and> (\<exists>c. h p = Some c \<and> c_rc c = 0 \<and> color_of c = COLOR_BLACK \<and> \<not> static_literal c)}"

definition marked :: "gc_heap \<Rightarrow> u64 set \<Rightarrow> u64 set" where
  "marked h X = (\<Union>p\<in>roots h X. reach h p)"

lemma heap_okD:
  assumes "heap_ok h"
  shows "finite (dom h)" "\<And>p. p \<in> dom h \<Longrightarrow> nan_box_is_cell_like p"
    "\<And>p c. p \<in> live_cells h \<Longrightarrow> h p = Some c \<Longrightarrow> walkable c \<Longrightarrow> snd ` set (children c) \<subseteq> live_cells h"
    "\<And>q. indeg h (live_cells h) q \<le> unat (rc_at h q)"
    "\<And>p. color_at h p = COLOR_BLACK \<or> color_at h p = COLOR_PURPLE"
  using assms unfolding heap_ok_def by blast+

lemma no_tint: "heap_ok h \<Longrightarrow> color_at h p \<noteq> COLOR_GRAY" "heap_ok h \<Longrightarrow> color_at h p \<noteq> COLOR_WHITE"
  using heap_okD(5) [of h p] by auto

lemma live_in_dom: "live_cells h \<subseteq> dom h"
  by (auto simp: live_cells_def)

lemma finite_live: "heap_ok h \<Longrightarrow> finite (live_cells h)"
  using heap_okD(1) live_in_dom finite_subset by blast

lemma live_closed: "heap_ok h \<Longrightarrow> closed_under h (live_cells h)"
proof -
  assume ok: "heap_ok h"
  have "set (edges h p) \<subseteq> live_cells h" if p: "p \<in> live_cells h" for p
  proof -
    obtain c where c: "h p = Some c" using p by (auto simp: live_cells_def)
    show ?thesis using heap_okD(3) [OF ok p c] c by (auto simp: edges_def)
  qed
  then show ?thesis by (simp add: closed_under_def)
qed

lemma reach_live: "heap_ok h \<Longrightarrow> p \<in> live_cells h \<Longrightarrow> reach h p \<subseteq> live_cells h"
  by (rule reach_least [OF _ live_closed])

lemma can_walk_edges: "q \<in> set (edges h p) \<Longrightarrow> can_walk h q"
  by (auto simp: edges_def split: option.splits if_splits)

lemma reach_walk: "can_walk h p \<Longrightarrow> q \<in> reach h p \<Longrightarrow> can_walk h q"
proof -
  assume p: "can_walk h p" and q: "q \<in> reach h p"
  have "reach h p \<subseteq> {q. can_walk h q}"
    by (rule reach_least) (use p can_walk_edges in \<open>auto simp: closed_under_def\<close>)
  then show ?thesis using q by auto
qed

lemma roots_live: "roots h X \<subseteq> live_cells h"
  by (auto simp: roots_def live_cells_def)

lemma roots_walk: "heap_ok h \<Longrightarrow> p \<in> roots h X \<Longrightarrow> can_walk h p"
  using heap_okD(2) by (auto simp: roots_def can_walk_def)

lemma marked_live: "heap_ok h \<Longrightarrow> marked h X \<subseteq> live_cells h"
  using reach_live roots_live by (fastforce simp: marked_def)

lemma marked_closed [simp]: "closed_under h (marked h X)"
  unfolding marked_def by (rule closed_UN) simp

lemma marked_walk: "heap_ok h \<Longrightarrow> p \<in> marked h X \<Longrightarrow> can_walk h p"
  by (auto simp: marked_def intro: reach_walk roots_walk)

lemma finite_marked: "heap_ok h \<Longrightarrow> finite (marked h X)"
  using marked_live finite_live finite_subset by blast

text \<open>Removing dead blocks does not change the graph of the live cells.\<close>

lemma walk_restrict: "q \<notin> P \<Longrightarrow> can_walk (h |` (- P)) q = can_walk h q"
  by (simp add: can_walk_def restrict_map_def)

lemma edges_restrict:
  assumes ok: "heap_ok h" and P: "P \<inter> live_cells h = {}" and p: "p \<in> live_cells h"
  shows "edges (h |` (- P)) p = edges h p"
proof -
  obtain c where c: "h p = Some c" using p by (auto simp: live_cells_def)
  have "p \<notin> P" using P p by blast
  then have c': "(h |` (- P)) p = Some c" using c by (simp add: restrict_map_def)
  show ?thesis
  proof (cases "walkable c")
    case True
    have "can_walk (h |` (- P)) w = can_walk h w" if "w \<in> set (map snd (children c))" for w
      using heap_okD(3) [OF ok p c True] P that by (intro walk_restrict) auto
    then have "filter (can_walk (h |` (- P))) (map snd (children c)) = filter (can_walk h) (map snd (children c))"
      by (rule filter_cong [OF refl])
    then show ?thesis using True c c' by (simp add: edges_def)
  qed (use c c' in \<open>simp add: edges_def\<close>)
qed

lemma region_restrict:
  assumes ok: "heap_ok h" and P: "P \<inter> live_cells h = {}"
    and R: "R \<subseteq> live_cells h" "closed_under h R" "\<And>p. p \<in> R \<Longrightarrow> can_walk h p"
  shows "region (h |` (- P)) R"
  unfolding region_def
proof (intro conjI ballI allI impI)
  show "finite R" using R(1) finite_live [OF ok] by (rule finite_subset)
  show "closed_under (h |` (- P)) R"
    unfolding closed_under_def
  proof
    fix p assume p: "p \<in> R"
    then have "edges (h |` (- P)) p = edges h p" using R(1) by (intro edges_restrict [OF ok P]) auto
    then show "set (edges (h |` (- P)) p) \<subseteq> R" using R(2) p by (simp add: closed_under_def)
  qed
next
  fix p assume p: "p \<in> R"
  then show "can_walk (h |` (- P)) p" using R P by (subst walk_restrict) auto
next
  fix p c w assume p: "p \<in> R" "(h |` (- P)) p = Some c" and w: "w \<in> snd ` set (children c)"
  have c: "h p = Some c" using p(2) by (auto simp: restrict_map_def split: if_splits)
  have "walkable c" using R(3) [OF p(1)] c by (simp add: can_walk_def)
  then have "w \<in> live_cells h" using heap_okD(3) [OF ok _ c] R(1) p(1) w by blast
  then show "w \<in> dom (h |` (- P))" using live_in_dom P by (auto simp: restrict_map_def dom_def)
qed

lemma reach_cong:
  assumes "p \<in> L" "closed_under h L" "\<And>x. x \<in> L \<Longrightarrow> edges h' x = edges h x"
  shows "reach h' p = reach h p"
proof
  have L: "reach h p \<subseteq> L" by (rule reach_least [OF assms(1,2)])
  have c: "closed_under h' (reach h p)"
    unfolding closed_under_def
  proof
    fix x assume x: "x \<in> reach h p"
    then have "edges h' x = edges h x" using L assms(3) by auto
    then show "set (edges h' x) \<subseteq> reach h p" using x by (auto intro: reach_step)
  qed
  then show "reach h' p \<subseteq> reach h p" by (intro reach_least) auto
  have "closed_under h' L" using assms(2,3) by (simp add: closed_under_def)
  then have L': "reach h' p \<subseteq> L" by (rule reach_least [OF assms(1)])
  have "closed_under h (reach h' p)"
    unfolding closed_under_def
  proof
    fix x assume x: "x \<in> reach h' p"
    then have "edges h x = edges h' x" using L' assms(3) by auto
    then show "set (edges h x) \<subseteq> reach h' p" using x by (auto intro: reach_step)
  qed
  then show "reach h p \<subseteq> reach h' p" by (intro reach_least) auto
qed

section \<open>Marking\<close>

definition mark_colors :: "gc_heap \<Rightarrow> u64 set \<Rightarrow> u64 \<Rightarrow> u16" where
  "mark_colors h G x = (if x \<in> G then COLOR_GRAY else color_at h x)"

definition mark_delta :: "gc_heap \<Rightarrow> u64 set \<Rightarrow> u64 \<Rightarrow> u32" where
  "mark_delta h G x = - of_nat (indeg h G x)"

lemma proper_mark_colors [simp]: "proper (mark_colors h G x)"
  by (simp add: mark_colors_def)

lemma mark_colors_unmarked:
  assumes "heap_ok h" "mark_colors h G x \<noteq> COLOR_GRAY" shows "x \<notin> G"
  using assms by (auto simp: mark_colors_def)

lemma mark_gray_spec:
  assumes ok: "heap_ok h" and P: "P \<inter> live_cells h = {}" and G: "G \<subseteq> live_cells h" "closed_under h G"
    and root: "root \<in> live_cells h" "can_walk h root" and k: "mark_colors h G = k" and d: "mark_delta h G = d"
  shows "mark_gray root (tinted k d (h |` (- P)), live) =
    Some (tinted (mark_colors h (G \<union> reach h root)) (mark_delta h (G \<union> reach h root)) (h |` (- P)), live)"
proof -
  let ?h = "h |` (- P)"
  let ?R = "reach h root"
  have E: "\<And>x. x \<in> live_cells h \<Longrightarrow> edges ?h x = edges h x" by (rule edges_restrict [OF ok P])
  have R: "reach ?h root = ?R" by (rule reach_cong [OF root(1) live_closed [OF ok] E])
  have RL: "?R \<subseteq> live_cells h" by (rule reach_live [OF ok root(1)])
  have fin: "finite G" "finite ?R" using G(1) RL finite_live [OF ok] by (auto intro: finite_subset)
  have reg: "region ?h ?R" by (rule region_restrict [OF ok P RL]) (use reach_walk [OF root(2)] in auto)
  have w: "can_walk ?h root" using reg by (simp add: region_def)
  define A where "A = {x \<in> ?R. k x \<noteq> COLOR_GRAY}"
  have A: "A = ?R - G" using no_tint(1) [OF ok] by (auto simp: A_def k [symmetric] mark_colors_def)
  have col: "\<forall>y\<in>set (edges ?h x). k y = COLOR_GRAY" if "x \<in> ?R" "k x = COLOR_GRAY" for x
  proof -
    have "x \<in> G" using that no_tint(1) [OF ok, of x] by (auto simp: k [symmetric] mark_colors_def split: if_splits)
    moreover from this have "edges ?h x = edges h x" using G(1) by (intro E) auto
    ultimately have "set (edges ?h x) \<subseteq> G" using G(2) by (simp add: closed_under_def)
    then show ?thesis by (auto simp: k [symmetric] mark_colors_def)
  qed
  have kp: "\<And>x. proper (k x)" by (simp add: k [symmetric])
  have rep: "repaint COLOR_GRAY root (tinted k d ?h, live) = Some
      (tinted (\<lambda>x. if x \<in> A then COLOR_GRAY else k x) (\<lambda>x. d x + rc_step COLOR_GRAY * of_nat (indeg ?h A x)) ?h, live)"
    using repaint_tinted [where k = k and d = d and h = ?h and root = root and live = live, OF kp proper_colors(2)] reg col
    by (simp add: R A_def)
  have kk: "(\<lambda>x. if x \<in> A then COLOR_GRAY else k x) = mark_colors h (G \<union> ?R)"
    by (auto simp: A k [symmetric] mark_colors_def)
  have ind: "indeg ?h A x = indeg h A x" for x
    by (rule indeg_cong) (use A RL E in auto)
  have "indeg h (G \<union> ?R) x = indeg h G x + indeg h A x" for x
    using indeg_Un [of G A h x] fin by (simp add: A)
  then have dd: "(\<lambda>x. d x + rc_step COLOR_GRAY * of_nat (indeg ?h A x)) = mark_delta h (G \<union> ?R)"
    by (simp add: fun_eq_iff ind d [symmetric] mark_delta_def rc_step_def)
  have "has_walkable_children (tinted k d ?h) root = Some True"
    using walk_iff [of root ?h] w by (auto simp: walk_tinted [OF kp] can_walk_def split: option.splits)
  then show ?thesis using rep by (simp add: mark_gray_def kk dd)
qed

text \<open>The walk over the buffer, up to index \<open>i\<close>.\<close>

definition unpark :: "u64 set \<Rightarrow> u64 list \<Rightarrow> u64 list" where
  "unpark P buf = map (\<lambda>p. if p \<in> P then 0 else p) buf"

lemma roots_insert: "roots h (insert p X) = roots h {p} \<union> roots h X"
  by (auto simp: roots_def)

lemma parked_insert: "parked h (insert p X) = parked h {p} \<union> parked h X"
  by (auto simp: parked_def)

lemma marked_insert: "marked h (insert p X) = (if roots h {p} = {} then marked h X else marked h X \<union> reach h p)"
  by (auto simp: marked_def roots_insert [of h p X]) (auto simp: roots_def)

lemma marked_absorb: "p \<in> marked h X \<Longrightarrow> marked h (insert p X) = marked h X"
  using reach_least [OF _ marked_closed, of p h X] by (auto simp: marked_insert)

lemma parked_dead: "parked h X \<inter> live_cells h = {}"
  by (auto simp: parked_def live_cells_def)

lemma restrict_insert: "(tinted k d (h |` (- P)))(p := None) = tinted k d (h |` (- insert p P))"
  by (auto simp: tinted_def restrict_map_def fun_eq_iff)

lemma not_parked_before:
  assumes "distinct (filter (\<lambda>p. p \<noteq> 0) buf)" "i < length buf" "buf ! i \<noteq> 0"
  shows "buf ! i \<notin> set (take i buf)"
proof
  assume "buf ! i \<in> set (take i buf)"
  moreover have "filter (\<lambda>p. p \<noteq> 0) buf = filter (\<lambda>p. p \<noteq> 0) (take i buf) @ buf ! i # filter (\<lambda>p. p \<noteq> 0) (drop (Suc i) buf)"
    using assms(2,3) by (subst id_take_nth_drop [OF assms(2)]) simp
  ultimately show False using assms(1,3) by auto
qed

definition marked_state :: "gc_heap \<Rightarrow> u32 \<Rightarrow> u64 list \<Rightarrow> gc_event list \<Rightarrow> nat \<Rightarrow> gc_heap \<times> u32 \<times> u64 list \<times> gc_event list" where
  "marked_state h live buf log i =
     (let X = set (take i buf)
      in (tinted (mark_colors h (marked h X)) (mark_delta h (marked h X)) (h |` (- parked h X)), live,
          unpark (parked h X) (take i buf) @ drop i buf,
          log @ map FreeParked (filter (\<lambda>p. p \<in> parked h X) (take i buf))))"

lemma unpark_again:
  assumes "p \<notin> set xs" shows "unpark (insert p P) xs = unpark P xs" "filter (\<lambda>q. q \<in> insert p P) xs = filter (\<lambda>q. q \<in> P) xs"
  using assms by (auto simp: unpark_def intro: filter_cong)

lemma mark_root_step:
  assumes ok: "heap_ok h" and buf: "buffer_ok h buf" and i: "i < length buf"
  shows "mark_root i (marked_state h live buf log i) = Some (marked_state h live buf log (Suc i))"
proof -
  define X where "X = set (take i buf)"
  define p where "p = buf ! i"
  define G P where "G = marked h X" and "P = parked h X"
  define k d where "k = mark_colors h G" and "d = mark_delta h G"
  define hi where "hi = tinted k d (h |` (- P))"
  define bufi where "bufi = unpark P (take i buf) @ drop i buf"
  define logi where "logi = log @ map FreeParked (filter (\<lambda>p. p \<in> P) (take i buf))"
  have XS: "set (take (Suc i) buf) = insert p X"
    using i by (simp add: X_def p_def take_Suc_conv_app_nth)
  have st: "marked_state h live buf log i = (hi, live, bufi, logi)"
    by (simp add: marked_state_def Let_def X_def [symmetric] hi_def k_def d_def G_def P_def bufi_def logi_def)
  have rdb: "rd bufi i = Some p"
    using i by (simp add: rd_def bufi_def unpark_def p_def nth_append Cons_nth_drop_Suc [symmetric])
  have same: "marked_state h live buf log (Suc i) = (hi, live, bufi, logi)"
    if "marked h (insert p X) = G" "parked h {p} = {}"
  proof -
    have P': "parked h (insert p X) = P" using that(2) by (simp add: parked_insert [of h p X] P_def)
    have np: "p \<notin> P \<or> p = 0" using that(2) by (auto simp: P_def parked_def)
    have p0: "0 \<notin> P" by (simp add: P_def parked_def)
    have b: "unpark P (take (Suc i) buf) @ drop (Suc i) buf = bufi"
      using i np by (auto simp: unpark_def bufi_def take_Suc_conv_app_nth p_def [symmetric] Cons_nth_drop_Suc [symmetric])
    have l: "filter (\<lambda>q. q \<in> P) (take (Suc i) buf) = filter (\<lambda>q. q \<in> P) (take i buf)"
      using i np p0 by (auto simp: take_Suc_conv_app_nth p_def [symmetric])
    show ?thesis
      by (simp add: marked_state_def Let_def XS that(1) P' b l hi_def k_def d_def logi_def)
  qed
  show ?thesis
  proof (cases "p = 0")
    case True
    then have "roots h {p} = {}" "parked h {p} = {}" by (auto simp: roots_def parked_def)
    then show ?thesis
      using True same by (simp add: st mark_root_def rdb marked_insert G_def)
  next
    case p0: False
    have "p \<in> set buf" using i by (simp add: p_def)
    then obtain c where c: "h p = Some c" using buf p0 by (auto simp: buffer_ok_def)
    have pX: "p \<notin> X" using not_parked_before [of buf i] buf i p0 by (simp add: X_def p_def buffer_ok_def)
    then have pP: "p \<notin> P" by (auto simp: P_def parked_def)
    define c' where "c' = set_color (k p) (c\<lparr>c_rc := c_rc c + d p\<rparr>)"
    have c': "hi p = Some c'" using c pP by (simp add: hi_def tinted_def restrict_map_def c'_def)
    have kp: "\<And>x. proper (k x)" by (simp add: k_def)
    have f: "static_literal c' = static_literal c" "color_of c' = k p" "c_rc c' = c_rc c + d p"
      using kp by (simp_all add: c'_def)
    have GL: "G \<subseteq> live_cells h" "closed_under h G" using marked_live [OF ok] by (simp_all add: G_def)
    have out: "c_rc c' = c_rc c" "color_of c' = color_of c" if "p \<notin> G"
      using indeg_outside [OF GL(2) that] that c by (simp_all add: f d_def mark_delta_def k_def mark_colors_def color_at_def)
    have gray: "color_of c' = COLOR_GRAY" if "p \<in> G" using that by (simp add: f k_def mark_colors_def)
    have inG: "marked h (insert p X) = G" if "p \<in> G" using marked_absorb that by (simp add: G_def)
    have live: "c_rc c \<noteq> 0 \<or> static_literal c" if "p \<in> G" using GL(1) that c by (auto simp: live_cells_def)
    show ?thesis
    proof (cases "static_literal c")
      case True
      then have "roots h {p} = {}" "parked h {p} = {}" using c by (auto simp: roots_def parked_def walkable_def)
      then show ?thesis
        using True same p0 by (simp add: st mark_root_def rdb c' f marked_insert G_def)
    next
      case ns: False
      show ?thesis
      proof (cases "c_rc c' = 0 \<and> color_of c' = COLOR_BLACK")
        case True
        then have pG: "p \<notin> G" using gray by auto
        then have cz: "c_rc c = 0" "color_of c = COLOR_BLACK" using out True by auto
        then have ps: "parked h {p} = {p}" "roots h {p} = {}" using c ns p0 by (auto simp: parked_def roots_def)
        have Pi: "parked h (insert p X) = insert p P" by (simp add: parked_insert [of h p X] ps P_def)
        have Gi: "marked h (insert p X) = G" by (simp add: marked_insert ps G_def)
        have b: "unpark (insert p P) (take (Suc i) buf) @ drop (Suc i) buf = bufi[i := 0]"
          using i pX unpark_again(1) [of p "take i buf" P]
          by (simp add: bufi_def take_Suc_conv_app_nth p_def [symmetric] X_def unpark_def list_update_append Cons_nth_drop_Suc [symmetric])
        have l: "filter (\<lambda>q. q \<in> insert p P) (take (Suc i) buf) = filter (\<lambda>q. q \<in> P) (take i buf) @ [p]"
          using i pX unpark_again(2) [of p "take i buf" P] by (simp add: take_Suc_conv_app_nth p_def [symmetric] X_def)
        have "marked_state h live buf log (Suc i) = (hi(p := None), live, bufi[i := 0], logi @ [FreeParked p])"
          unfolding marked_state_def Let_def XS Gi Pi b l
          by (simp add: hi_def restrict_insert k_def d_def logi_def)
        moreover have "i < length bufi" using i by (simp add: bufi_def unpark_def)
        ultimately show ?thesis
          using True ns p0 by (simp add: st mark_root_def rdb c' f(1) wr_def)
      next
        case nb: False
        have np: "parked h {p} = {}"
          using nb out live ns c by (cases "p \<in> G") (auto simp: parked_def)
        show ?thesis
        proof (cases "c_rc c' \<noteq> 0 \<and> color_of c' = COLOR_PURPLE \<and> walkable c")
          case True
          then have pG: "p \<notin> G" using gray by auto
          then have cp: "c_rc c \<noteq> 0" "color_of c = COLOR_PURPLE" using out True by auto
          then have ps: "roots h {p} = {p}" using c True p0 by (auto simp: roots_def)
          have root: "p \<in> live_cells h" "can_walk h p" using ps roots_live roots_walk [OF ok] by blast+
          have Pi: "parked h (insert p X) = P" by (simp add: parked_insert [of h p X] np P_def)
          have Gi: "marked h (insert p X) = G \<union> reach h p" by (simp add: marked_insert ps G_def)
          have p0': "0 \<notin> P" by (simp add: P_def parked_def)
          have b: "unpark P (take (Suc i) buf) @ drop (Suc i) buf = bufi"
            using i pP by (simp add: unpark_def bufi_def take_Suc_conv_app_nth p_def [symmetric] Cons_nth_drop_Suc [symmetric])
          have l: "filter (\<lambda>q. q \<in> P) (take (Suc i) buf) = filter (\<lambda>q. q \<in> P) (take i buf)"
            using i pP by (simp add: take_Suc_conv_app_nth p_def [symmetric])
          have "mark_gray p (hi, live) = Some (tinted (mark_colors h (G \<union> reach h p)) (mark_delta h (G \<union> reach h p)) (h |` (- P)), live)"
            unfolding hi_def
            by (rule mark_gray_spec [OF ok _ GL root]) (use parked_dead in \<open>auto simp: P_def k_def d_def\<close>)
          moreover have "marked_state h live buf log (Suc i) =
              (tinted (mark_colors h (G \<union> reach h p)) (mark_delta h (G \<union> reach h p)) (h |` (- P)), live, bufi, logi)"
            by (simp add: marked_state_def Let_def XS Gi Pi b l logi_def)
          ultimately show ?thesis
            using True ns p0 by (simp add: st mark_root_def rdb c' f(1))
        next
          case False
          have "marked h (insert p X) = G"
          proof (cases "p \<in> G")
            case pG: False
            then have "roots h {p} = {}" using False out c by (auto simp: roots_def)
            then show ?thesis by (simp add: marked_insert G_def)
          qed (rule inG)
          note res = same [OF this np]
          show ?thesis
          proof (cases "c_rc c' \<noteq> 0 \<and> color_of c' = COLOR_PURPLE")
            case True
            then have nw: "\<not> walkable c" using False by blast
            have "nan_box_is_cell_like p" using heap_okD(2) [OF ok] c by blast
            then have "has_walkable_children hi p = Some False"
              using nw c' kp by (simp add: has_walkable_children_def c'_def)
            then show ?thesis
              using True ns p0 res by (simp add: st mark_root_def rdb c' f(1) mark_gray_def)
          qed (use nb ns p0 res in \<open>auto simp: st mark_root_def rdb c' f(1)\<close>)
        qed
      qed
    qed
  qed
qed

lemma mark_phase:
  assumes ok: "heap_ok h" and buf: "buffer_ok h buf"
  shows "for_range 0 (length buf) mark_root (h, live, buf, log) = Some
    (tinted (mark_colors h (marked h (set buf))) (mark_delta h (marked h (set buf))) (h |` (- parked h (set buf))), live,
     unpark (parked h (set buf)) buf, log @ map FreeParked (filter (\<lambda>p. p \<in> parked h (set buf)) buf))"
proof -
  have start: "(h, live, buf, log) = marked_state h live buf log 0"
  proof -
    have "marked h {} = {}" "parked h {} = {}" by (auto simp: marked_def roots_def parked_def)
    moreover have "mark_colors h {} = color_at h" "mark_delta h {} = (\<lambda>_. 0)"
      by (auto simp: mark_colors_def mark_delta_def indeg_def)
    moreover have "h |` UNIV = h" by (simp add: restrict_map_def)
    ultimately show ?thesis by (simp add: marked_state_def unpark_def tinted_id)
  qed
  have "wp (for_range 0 (length buf) mark_root (marked_state h live buf log 0)) (\<lambda>s. s = marked_state h live buf log (length buf))"
  proof (rule wp_for_range [where I = "\<lambda>i s. s = marked_state h live buf log i"])
    show "wp (mark_root i s) (\<lambda>s. s = marked_state h live buf log (Suc i))"
      if "i < length buf" "s = marked_state h live buf log i" for i s
      using mark_root_step [OF ok buf that(1), of live log] that(2) by simp
  qed auto
  then show ?thesis
    by (simp add: start wp_iff) (simp add: marked_state_def Let_def)
qed

end
