(* ===== verification/GC_Scan.thy ===== *)
theory GC_Scan
  imports GC_Phases
begin

text \<open>
  Scanning. The states of the phase are \<open>tinted\<close> heaps given by the cells painted black so far
  and the white ones; the invariant \<open>scan_inv\<close> holds whatever the order of the visits, and fixes
  both sets at the end.
\<close>

definition scan_colors :: "(u64 \<Rightarrow> u16) \<Rightarrow> u64 set \<Rightarrow> u64 set \<Rightarrow> u64 \<Rightarrow> u16" where
  "scan_colors k B W x = (if x \<in> B then COLOR_BLACK else if x \<in> W then COLOR_WHITE else k x)"

definition scan_delta :: "gc_heap \<Rightarrow> u64 set \<Rightarrow> u64 set \<Rightarrow> u64 \<Rightarrow> u32" where
  "scan_delta h G B x = of_nat (indeg h B x) - of_nat (indeg h G x)"

text \<open>A cell with more counted references than the marked cells hold on it.\<close>

definition held :: "gc_heap \<Rightarrow> u64 set \<Rightarrow> u64 \<Rightarrow> bool" where
  "held h G p = (rc_at h p \<noteq> of_nat (indeg h G p))"

definition scan_inv :: "gc_heap \<Rightarrow> u64 set \<Rightarrow> u64 set \<Rightarrow> u64 set \<Rightarrow> bool" where
  "scan_inv h G B W = (B \<subseteq> G \<and> W \<subseteq> G \<and> B \<inter> W = {} \<and> closed_under h B \<and>
     (\<forall>x\<in>W. rc_at h x + scan_delta h G B x = 0) \<and>
     (\<forall>x\<in>B. \<exists>q\<in>G. x \<in> reach h q \<and> held h G q))"

lemma scan_invD:
  assumes "scan_inv h G B W"
  shows "B \<subseteq> G" "W \<subseteq> G" "B \<inter> W = {}" "closed_under h B" "\<And>x. x \<in> W \<Longrightarrow> rc_at h x + scan_delta h G B x = 0"
    "\<And>x. x \<in> B \<Longrightarrow> \<exists>q\<in>G. x \<in> reach h q \<and> held h G q"
  using assms unfolding scan_inv_def by blast+

definition scanned :: "gc_heap \<Rightarrow> (u64 \<Rightarrow> u16) \<Rightarrow> u64 set \<Rightarrow> u64 set \<Rightarrow> u64 set \<Rightarrow> gc_heap" where
  "scanned h k G B W = tinted (scan_colors k B W) (scan_delta h G B) h"

lemma scan_paint:
  assumes reg: "region h G" and kp: "\<And>x. proper (k x)" and kg: "\<And>x. k x = COLOR_GRAY \<longleftrightarrow> x \<in> G"
    and inv: "scan_inv h G B W" and p: "p \<in> G" "p \<notin> B" "p \<notin> W" and rc: "rc_at h p + scan_delta h G B p \<noteq> 0"
  shows "repaint COLOR_BLACK p (scanned h k G B W, l + of_nat (card B)) =
      Some (scanned h k G (B \<union> reach h p) (W - reach h p), l + of_nat (card (B \<union> reach h p)))"
    "scan_inv h G (B \<union> reach h p) (W - reach h p)"
proof -
  note I = scan_invD [OF inv]
  define R where "R = reach h p"
  have clG: "closed_under h G" "finite G" using reg by (auto simp: region_def)
  have RG: "R \<subseteq> G" unfolding R_def by (rule reach_least [OF p(1) clG(1)])
  have clR: "closed_under h R" by (simp add: R_def)
  have fin: "finite B" "finite R" using I(1) RG clG(2) finite_subset by blast+
  have regR: "region h R" using reg RG clR fin(2) unfolding region_def by blast
  let ?k = "scan_colors k B W"
  have kk: "\<And>x. proper (?k x)" using kp by (simp add: scan_colors_def)
  have kb: "?k x = COLOR_BLACK \<longleftrightarrow> x \<in> B" if "x \<in> R" for x
    using kg [of x] RG that by (auto simp: scan_colors_def)
  define A where "A = {x \<in> R. ?k x \<noteq> COLOR_BLACK}"
  have A: "A = R - B" using kb by (auto simp: A_def)
  have rep: "repaint COLOR_BLACK p (scanned h k G B W, l + of_nat (card B)) = Some
      (tinted (\<lambda>x. if x \<in> A then COLOR_BLACK else ?k x) (\<lambda>x. scan_delta h G B x + rc_step COLOR_BLACK * of_nat (indeg h A x)) h,
       l + of_nat (card B) + (if COLOR_BLACK = COLOR_BLACK then of_nat (card A) else 0))"
    unfolding scanned_def A_def R_def
  proof (rule repaint_tinted [where k = ?k, OF kk proper_colors(1)])
    show "region h (reach h p)" using regR by (simp add: R_def)
    fix x assume x: "x \<in> reach h p" "?k x = COLOR_BLACK"
    then have "x \<in> B" "set (edges h x) \<subseteq> R" using kb clR by (auto simp: R_def closed_under_def)
    then show "\<forall>y\<in>set (edges h x). ?k y = COLOR_BLACK" using I(4) by (auto simp: closed_under_def scan_colors_def)
  qed
  have BR: "B \<union> R = B \<union> A" "B \<inter> A = {}" "finite A" using fin by (auto simp: A)
  have c1: "(\<lambda>x. if x \<in> A then COLOR_BLACK else ?k x) = scan_colors k (B \<union> R) (W - R)"
    using I(3) by (auto simp: A scan_colors_def)
  have ind: "indeg h (B \<union> R) x = indeg h B x + indeg h A x" for x
    unfolding BR(1) by (rule indeg_Un [OF fin(1) BR(3,2)])
  have c2: "(\<lambda>x. scan_delta h G B x + rc_step COLOR_BLACK * of_nat (indeg h A x)) = scan_delta h G (B \<union> R)"
    by (simp add: fun_eq_iff scan_delta_def ind rc_step_def)
  have "card (B \<union> R) = card B + card A" unfolding BR(1) by (rule card_Un_disjoint [OF fin(1) BR(3,2)])
  then show "repaint COLOR_BLACK p (scanned h k G B W, l + of_nat (card B)) =
      Some (scanned h k G (B \<union> reach h p) (W - reach h p), l + of_nat (card (B \<union> reach h p)))"
    using rep c1 c2 by (simp add: scanned_def R_def [symmetric])
  have "indeg h B p = 0" by (rule indeg_outside [OF I(4) p(2)])
  then have held: "held h G p" using rc by (simp add: held_def scan_delta_def)
  have zero: "rc_at h x + scan_delta h G (B \<union> R) x = 0" if "x \<in> W - R" for x
  proof -
    have "indeg h A x = 0" unfolding A
      using indeg_mono [OF fin(2), of "R - B" h x] indeg_outside [OF clR, of x] that by auto
    then show ?thesis using I(5) [of x] that by (simp add: scan_delta_def ind)
  qed
  show "scan_inv h G (B \<union> reach h p) (W - reach h p)"
    unfolding R_def [symmetric] scan_inv_def
    using I RG clR zero held p(1) by (auto simp: closed_Un R_def)
qed

lemma scan_cell_step:
  assumes reg: "region h G" and kp: "\<And>x. proper (k x)" and kg: "\<And>x. k x = COLOR_GRAY \<longleftrightarrow> x \<in> G"
    and inv: "scan_inv h G B W"
    and words: "\<And>w. w \<in> set (p # st) \<Longrightarrow> (nan_box_is_cell_like w \<longrightarrow> h w \<noteq> None) \<and> (can_walk h w \<longrightarrow> w \<in> G)"
    and W: "\<And>x. x \<in> W \<Longrightarrow> set (edges h x) \<subseteq> B \<union> W \<union> set (p # st)"
  obtains B' W' st' where "scan_cell p (scanned h k G B W, l + of_nat (card B), st) =
      Some (scanned h k G B' W', l + of_nat (card B'), st')"
    "scan_inv h G B' W'" "B \<union> W \<subseteq> B' \<union> W'" "can_walk h p \<longrightarrow> p \<in> B' \<union> W'" "set st \<subseteq> set st'"
    "\<And>w. w \<in> set st' \<Longrightarrow> (nan_box_is_cell_like w \<longrightarrow> h w \<noteq> None) \<and> (can_walk h w \<longrightarrow> w \<in> G)"
    "\<And>x. x \<in> W' \<Longrightarrow> set (edges h x) \<subseteq> B' \<union> W' \<union> set st'"
    "st' = st \<or> card (G - (B' \<union> W')) < card (G - (B \<union> W))"
proof -
  let ?t = "scanned h k G B W"
  note I = scan_invD [OF inv]
  have kk: "\<And>x. proper (scan_colors k B W x)" using kp by (simp add: scan_colors_def)
  have hw: "has_walkable_children ?t p = Some (can_walk h p)"
    using words [of p] walk_iff [of p h] by (simp add: scanned_def walk_tinted [OF kk])
  show ?thesis
  proof (cases "p \<in> G \<and> p \<notin> B \<and> p \<notin> W")
    case False
    have "scan_cell p (?t, l + of_nat (card B), st) = Some (?t, l + of_nat (card B), st)"
    proof (cases "can_walk h p")
      case True
      then have "p \<in> G" using words by simp
      then have BW: "p \<in> B \<or> p \<in> W" using False by blast
      obtain c where "h p = Some c" using True by (auto simp: can_walk_def split: option.splits)
      then have "?t p = Some (set_color (scan_colors k B W p) (c\<lparr>c_rc := c_rc c + scan_delta h G B p\<rparr>))"
        by (simp add: scanned_def tinted_apply)
      then show ?thesis using BW I(3) hw True kk by (auto simp: scan_cell_def scan_colors_def)
    qed (simp add: scan_cell_def hw)
    moreover have "can_walk h p \<longrightarrow> p \<in> B \<union> W" using words [of p] False by auto
    moreover have "set (edges h x) \<subseteq> B \<union> W \<union> set st" if x: "x \<in> W" for x
    proof
      fix y assume y: "y \<in> set (edges h x)"
      then have "can_walk h y" by (rule can_walk_edges)
      then show "y \<in> B \<union> W \<union> set st" using W [OF x] y words [of p] False by auto
    qed
    ultimately show ?thesis using that [of B W st] inv words by auto
  next
    case True
    then have p: "p \<in> G" "p \<notin> B" "p \<notin> W" by auto
    from regionD [OF reg p(1)] obtain c where c: "h p = Some c" "walkable c"
      "\<And>w. w \<in> snd ` set (children c) \<Longrightarrow> nan_box_is_cell_like w \<Longrightarrow> h w \<noteq> None"
      "edges h p = filter (can_walk h) (map snd (children c))" "set (edges h p) \<subseteq> G" by metis
    have walk: "can_walk h p" using reg p(1) by (simp add: region_def)
    define c' where "c' = set_color COLOR_GRAY (c\<lparr>c_rc := c_rc c + scan_delta h G B p\<rparr>)"
    have c': "?t p = Some c'" using p kg [of p] c by (simp add: scanned_def tinted_apply scan_colors_def c'_def)
    have rc: "c_rc c' = rc_at h p + scan_delta h G B p" using c by (simp add: c'_def rc_at_def)
    have finG: "finite G" using reg by (simp add: region_def)
    show ?thesis
    proof (cases "c_rc c' = 0")
      case True
      have "?t(p \<mapsto> set_color COLOR_WHITE c') = scanned h k G B (insert p W)"
      proof -
        have "scan_colors k B (insert p W) = (scan_colors k B W)(p := COLOR_WHITE)"
          using p by (auto simp: scan_colors_def)
        then show ?thesis
          using tinted_set_color [of "scan_colors k B W" "scan_delta h G B" h p c' COLOR_WHITE] c' kk
          by (simp add: scanned_def)
      qed
      then have "scan_cell p (?t, l + of_nat (card B), st) =
          Some (scanned h k G B (insert p W), l + of_nat (card B), rev (map snd (children c)) @ st)"
        using hw walk c' True by (simp add: scan_cell_def) (simp add: c'_def)
      moreover have "scan_inv h G B (insert p W)"
        unfolding scan_inv_def using I p True rc by auto
      moreover have "card (G - (B \<union> insert p W)) < card (G - (B \<union> W))"
        by (rule psubset_card_mono) (use finG p in auto)
      moreover have "set (edges h x) \<subseteq> B \<union> insert p W \<union> set (rev (map snd (children c)) @ st)" if "x \<in> insert p W" for x
        using that W [of x] c(4) by (cases "x = p") auto
      moreover have "(nan_box_is_cell_like w \<longrightarrow> h w \<noteq> None) \<and> (can_walk h w \<longrightarrow> w \<in> G)"
        if "w \<in> set (rev (map snd (children c)) @ st)" for w
        using that words [of w] c(3) [of w] c(4,5) by auto
      ultimately show ?thesis by (intro that [of B "insert p W" "rev (map snd (children c)) @ st"]) auto
    next
      case False
      have ne: "rc_at h p + scan_delta h G B p \<noteq> 0" using False rc by simp
      note P = scan_paint [where k = k, OF reg kp kg inv p ne]
      have "scan_cell p (?t, l + of_nat (card B), st) =
          Some (scanned h k G (B \<union> reach h p) (W - reach h p), l + of_nat (card (B \<union> reach h p)), st)"
        using hw walk c' False P(1) [of l] by (simp add: scan_cell_def word_gt_0) (simp add: c'_def)
      moreover have "set (edges h x) \<subseteq> (B \<union> reach h p) \<union> (W - reach h p) \<union> set st" if "x \<in> W - reach h p" for x
        using that W [of x] by auto
      moreover have "card (G - ((B \<union> reach h p) \<union> (W - reach h p))) < card (G - (B \<union> W))"
      proof (rule psubset_card_mono)
        show "G - ((B \<union> reach h p) \<union> (W - reach h p)) \<subset> G - (B \<union> W)" using p reach_refl [of p h] by blast
      qed (simp add: finG)
      ultimately show ?thesis
        using P(2) words by (intro that [of "B \<union> reach h p" "W - reach h p" st]) auto
    qed
  qed
qed

lemma scan_loop_spec:
  assumes reg: "region h G" and kp: "\<And>x. proper (k x)" and kg: "\<And>x. k x = COLOR_GRAY \<longleftrightarrow> x \<in> G"
  shows "scan_inv h G B W \<Longrightarrow>
    (\<And>w. w \<in> set (p # st) \<Longrightarrow> (nan_box_is_cell_like w \<longrightarrow> h w \<noteq> None) \<and> (can_walk h w \<longrightarrow> w \<in> G)) \<Longrightarrow>
    (\<And>x. x \<in> W \<Longrightarrow> set (edges h x) \<subseteq> B \<union> W \<union> set (p # st)) \<Longrightarrow>
    \<exists>B' W'. scan_loop p (scanned h k G B W, l + of_nat (card B), st) = Some (scanned h k G B' W', l + of_nat (card B')) \<and>
      scan_inv h G B' W' \<and> B \<union> W \<subseteq> B' \<union> W' \<and> (\<forall>w\<in>set (p # st). can_walk h w \<longrightarrow> w \<in> B' \<union> W') \<and>
      (\<forall>x\<in>W'. set (edges h x) \<subseteq> B' \<union> W')"
proof (induction "(card (G - (B \<union> W)), length st)" arbitrary: B W p st
    rule: wf_induct_rule [OF wf_lex_prod [OF wf_less wf_less]])
  case 1
  note IH = 1(1) and inv = 1(2) and words = 1(3) and W = 1(4)
  from scan_cell_step [where k = k and l = l, OF reg kp kg inv words W] obtain B' W' st' where
    cell: "scan_cell p (scanned h k G B W, l + of_nat (card B), st) = Some (scanned h k G B' W', l + of_nat (card B'), st')"
    and inv': "scan_inv h G B' W'" and mono: "B \<union> W \<subseteq> B' \<union> W'" and p: "can_walk h p \<longrightarrow> p \<in> B' \<union> W'"
    and st: "set st \<subseteq> set st'"
    and words': "\<And>w. w \<in> set st' \<Longrightarrow> (nan_box_is_cell_like w \<longrightarrow> h w \<noteq> None) \<and> (can_walk h w \<longrightarrow> w \<in> G)"
    and W': "\<And>x. x \<in> W' \<Longrightarrow> set (edges h x) \<subseteq> B' \<union> W' \<union> set st'"
    and dec: "st' = st \<or> card (G - (B' \<union> W')) < card (G - (B \<union> W))" by metis
  show ?case
  proof (cases st')
    case Nil
    have "scan_loop p (scanned h k G B W, l + of_nat (card B), st) = Some (scanned h k G B' W', l + of_nat (card B'))"
      by (simp add: scan_loop.simps [of p] cell) (simp add: Nil)
    moreover have "set (edges h x) \<subseteq> B' \<union> W'" if "x \<in> W'" for x using W' [OF that] Nil by simp
    moreover have "st = []" using st Nil by simp
    ultimately show ?thesis using inv' mono p by (intro exI [of _ B'] exI [of _ W']) auto
  next
    case (Cons v st'')
    have "finite G" using reg by (simp add: region_def)
    then have le: "card (G - (B' \<union> W')) \<le> card (G - (B \<union> W))" using mono by (intro card_mono) auto
    have "\<exists>B'' W''. scan_loop v (scanned h k G B' W', l + of_nat (card B'), st'') = Some (scanned h k G B'' W'', l + of_nat (card B'')) \<and>
      scan_inv h G B'' W'' \<and> B' \<union> W' \<subseteq> B'' \<union> W'' \<and> (\<forall>w\<in>set (v # st''). can_walk h w \<longrightarrow> w \<in> B'' \<union> W'') \<and>
      (\<forall>x\<in>W''. set (edges h x) \<subseteq> B'' \<union> W'')"
    proof (rule IH [OF _ inv'])
      show "((card (G - (B' \<union> W')), length st''), (card (G - (B \<union> W)), length st)) \<in> {(x, y). x < y} <*lex*> {(x, y). x < y}"
        using dec le Cons by auto
    qed (use words' W' Cons in auto)
    then obtain B'' W'' where *: "scan_loop v (scanned h k G B' W', l + of_nat (card B'), st'') = Some (scanned h k G B'' W'', l + of_nat (card B''))"
      "scan_inv h G B'' W''" "B' \<union> W' \<subseteq> B'' \<union> W''" "\<forall>w\<in>set (v # st''). can_walk h w \<longrightarrow> w \<in> B'' \<union> W''"
      "\<forall>x\<in>W''. set (edges h x) \<subseteq> B'' \<union> W''" by blast
    have run: "scan_loop p (scanned h k G B W, l + of_nat (card B), st) = Some (scanned h k G B'' W'', l + of_nat (card B''))"
      by (simp add: scan_loop.simps [of p] cell) (simp add: Cons *(1))
    have "set st \<subseteq> set (v # st'')" using st Cons by simp
    then have "\<forall>w\<in>set (p # st). can_walk h w \<longrightarrow> w \<in> B'' \<union> W''" using *(3,4) p by auto
    then show ?thesis using run * mono by (intro exI [of _ B''] exI [of _ W'']) auto
  qed
qed

lemma scan_phase:
  assumes reg: "region h G" and kp: "\<And>x. proper (k x)" and kg: "\<And>x. k x = COLOR_GRAY \<longleftrightarrow> x \<in> G"
    and buf: "\<And>p. p \<in> set buf \<Longrightarrow> p \<noteq> 0 \<Longrightarrow> h p \<noteq> None"
    and X: "X \<subseteq> set buf" "0 \<notin> X" "G = (\<Union>p\<in>X. reach h p)"
  defines "B \<equiv> (\<Union>q\<in>{q \<in> G. held h G q}. reach h q)"
  shows "for_range 0 (length buf) (scan_root buf) (tinted k (\<lambda>x. - of_nat (indeg h G x)) h, l) =
      Some (scanned h k G B (G - B), l + of_nat (card B))"
    "scan_inv h G B (G - B)"
proof -
  let ?I = "\<lambda>i s. \<exists>B W. s = (scanned h k G B W, l + of_nat (card B)) \<and> scan_inv h G B W \<and>
    (\<forall>x\<in>W. set (edges h x) \<subseteq> B \<union> W) \<and> (\<forall>p\<in>set (take i buf). p \<in> G \<longrightarrow> p \<noteq> 0 \<longrightarrow> p \<in> B \<union> W)"
  have clG: "closed_under h G" "finite G" using reg by (auto simp: region_def)
  have "scan_inv h G {} {}" by (simp add: scan_inv_def closed_under_def)
  moreover have "scan_colors k {} {} = k" "scan_delta h G {} = (\<lambda>x. - of_nat (indeg h G x))"
    by (auto simp: scan_colors_def scan_delta_def indeg_def)
  ultimately have start: "?I 0 (tinted k (\<lambda>x. - of_nat (indeg h G x)) h, l)"
    by (intro exI [of _ "{}"]) (simp add: scanned_def)
  have step: "wp (scan_root buf i s) (?I (Suc i))" if i: "i < length buf" and I: "?I i s" for i s
  proof -
    from I obtain B W where s: "s = (scanned h k G B W, l + of_nat (card B))" and inv: "scan_inv h G B W"
      and W: "\<forall>x\<in>W. set (edges h x) \<subseteq> B \<union> W" and seen: "\<forall>p\<in>set (take i buf). p \<in> G \<longrightarrow> p \<noteq> 0 \<longrightarrow> p \<in> B \<union> W" by blast
    define p where "p = buf ! i"
    have T: "set (take (Suc i) buf) = insert p (set (take i buf))" using i by (simp add: take_Suc_conv_app_nth p_def)
    have kk: "\<And>x. proper (scan_colors k B W x)" using kp by (simp add: scan_colors_def)
    show ?thesis
    proof (cases "p = 0 \<or> \<not> can_walk h p \<or> scan_colors k B W p \<noteq> COLOR_GRAY")
      case True
      have "scan_root buf i s = Some s"
      proof (cases "p = 0")
        case False
        obtain c where c: "h p = Some c" using buf [of p] i False by (auto simp: p_def)
        have t: "scanned h k G B W p = Some (set_color (scan_colors k B W p) (c\<lparr>c_rc := c_rc c + scan_delta h G B p\<rparr>))"
          by (simp add: scanned_def tinted_apply c)
        have hw: "has_walkable_children (scanned h k G B W) p = Some (can_walk h p)"
          using c walk_iff [of p h] by (simp add: scanned_def walk_tinted [OF kk])
        show ?thesis using True False i t kk by (simp add: scan_root_def rd_def p_def [symmetric] scan_def s hw)
      qed (use i in \<open>simp add: scan_root_def rd_def p_def\<close>)
      moreover have "p \<in> B \<union> W" if "p \<in> G" "p \<noteq> 0"
        using True that reg kg [of p] by (auto simp: region_def scan_colors_def split: if_splits)
      ultimately show ?thesis using s inv W seen T by auto
    next
      case False
      have walk: "can_walk h p" using False by blast
      have "scan_colors k B W p = COLOR_GRAY" using False by blast
      then have pG: "p \<in> G" "p \<notin> B" "p \<notin> W" using kg [of p] by (auto simp: scan_colors_def split: if_splits)
      obtain c where c: "h p = Some c" using walk by (auto simp: can_walk_def split: option.splits)
      have t: "scanned h k G B W p = Some (set_color COLOR_GRAY (c\<lparr>c_rc := c_rc c + scan_delta h G B p\<rparr>))"
        using False by (simp add: scanned_def tinted_apply c)
      have hw: "has_walkable_children (scanned h k G B W) p = Some True"
        using c walk_iff [of p h] walk by (simp add: scanned_def walk_tinted [OF kk])
      have "\<exists>B' W'. scan_loop p (scanned h k G B W, l + of_nat (card B), []) = Some (scanned h k G B' W', l + of_nat (card B')) \<and>
          scan_inv h G B' W' \<and> B \<union> W \<subseteq> B' \<union> W' \<and> (\<forall>w\<in>set [p]. can_walk h w \<longrightarrow> w \<in> B' \<union> W') \<and>
          (\<forall>x\<in>W'. set (edges h x) \<subseteq> B' \<union> W')"
        by (rule scan_loop_spec [where k = k, OF reg kp kg inv]) (use c pG W in auto)
      then obtain B' W' where R: "scan_loop p (scanned h k G B W, l + of_nat (card B), []) = Some (scanned h k G B' W', l + of_nat (card B'))"
          "scan_inv h G B' W'" "B \<union> W \<subseteq> B' \<union> W'" "p \<in> B' \<union> W'" "\<forall>x\<in>W'. set (edges h x) \<subseteq> B' \<union> W'"
        using walk by auto
      have "scan_root buf i s = Some (scanned h k G B' W', l + of_nat (card B'))"
        using False i t R(1) by (simp add: scan_root_def rd_def p_def [symmetric] scan_def s hw)
      moreover have "\<forall>q\<in>set (take (Suc i) buf). q \<in> G \<longrightarrow> q \<noteq> 0 \<longrightarrow> q \<in> B' \<union> W'"
        using seen R(3,4) T by auto
      ultimately show ?thesis using R(2,5) by auto
    qed
  qed
  have "wp (for_range 0 (length buf) (scan_root buf) (tinted k (\<lambda>x. - of_nat (indeg h G x)) h, l)) (?I (length buf))"
    by (rule wp_for_range [where I = ?I, OF _ start step]) simp_all
  then obtain B' W' where run: "for_range 0 (length buf) (scan_root buf) (tinted k (\<lambda>x. - of_nat (indeg h G x)) h, l) =
        Some (scanned h k G B' W', l + of_nat (card B'))"
    and inv: "scan_inv h G B' W'" and W: "\<forall>x\<in>W'. set (edges h x) \<subseteq> B' \<union> W'"
    and roots: "\<forall>p\<in>set buf. p \<in> G \<longrightarrow> p \<noteq> 0 \<longrightarrow> p \<in> B' \<union> W'"
    by (auto elim!: wpE)
  note I = scan_invD [OF inv]
  have cl: "closed_under h (B' \<union> W')" using I(4) W by (auto simp: closed_under_def)
  have "reach h p \<subseteq> B' \<union> W'" if "p \<in> X" for p
  proof (rule reach_least [OF _ cl])
    have "p \<in> G" using that reach_refl [of p h] unfolding X(3) by blast
    then show "p \<in> B' \<union> W'" using roots X(1,2) that by auto
  qed
  then have G: "G = B' \<union> W'" using I(1,2) X(3) by blast
  have "B' = B"
  proof
    show "B' \<subseteq> B" using I(6) by (auto simp: B_def)
    have "q \<in> B'" if q: "q \<in> G" "held h G q" for q
    proof (rule ccontr)
      assume nB: "q \<notin> B'"
      then have "q \<in> W'" using q G by blast
      moreover have "indeg h B' q = 0" by (rule indeg_outside [OF I(4) nB])
      ultimately show False using I(5) [of q] q(2) by (simp add: held_def scan_delta_def)
    qed
    then show "B \<subseteq> B'" unfolding B_def using reach_least [OF _ I(4)] by blast
  qed
  then have W'B: "W' = G - B" "B' = B" using G I(3) by auto
  show "for_range 0 (length buf) (scan_root buf) (tinted k (\<lambda>x. - of_nat (indeg h G x)) h, l) =
      Some (scanned h k G B (G - B), l + of_nat (card B))" "scan_inv h G B (G - B)"
    using run inv unfolding W'B by simp_all
qed

end
