(* ===== verification/GC_Sweep.thy ===== *)
theory GC_Sweep
  imports GC_Scan "HOL-Library.Multiset"
begin

text \<open>
  The last phases. From a scanned heap \<open>S\<close> with white cells \<open>W\<close>, sweeping opens and closes
  every white cell once and touches no other; \<open>swept\<close> is its invariant. What the closing
  halves release is counted in \<open>corpse_events\<close>. The free step then removes the corpses.
\<close>

section \<open>White cells\<close>

definition white_ok :: "gc_heap \<Rightarrow> u64 set \<Rightarrow> bool" where
  "white_ok S W = (finite W \<and> (\<forall>p\<in>W. can_walk S p \<and> rc_at S p = 0 \<and>
       (\<forall>c. S p = Some c \<longrightarrow> snd ` set (children c) \<subseteq> dom S \<inter> {w. nan_box_is_cell_like w})) \<and>
     (\<forall>p c. S p = Some c \<longrightarrow> (color_of c = COLOR_WHITE \<longleftrightarrow> p \<in> W)))"

text \<open>What a corpse has become of a white cell: black, not buffered, some slots that named white
  cells emptied.\<close>

definition corpse_of :: "u64 set \<Rightarrow> gc_cell \<Rightarrow> gc_cell \<Rightarrow> bool" where
  "corpse_of W c c' = (c_rc c' = c_rc c \<and> c_tag c' = c_tag c \<and> c_owned c' = c_owned c \<and> c_named c' = c_named c \<and>
     color_of c' = COLOR_BLACK \<and> \<not> buffered c' \<and>
     list_all2 (\<lambda>w w'. w' = w \<or> w' = 0 \<and> w \<in> W) (c_slots c) (c_slots c'))"

definition swept :: "gc_heap \<Rightarrow> u64 set \<Rightarrow> u64 set \<Rightarrow> u64 set \<Rightarrow> gc_heap \<Rightarrow> bool" where
  "swept S W U C h = (dom h = dom S \<and> C \<subseteq> W \<and> (\<forall>p c. S p = Some c \<longrightarrow>
     (if p \<in> C then \<exists>c'. h p = Some c' \<and> corpse_of W c c'
      else h p = Some (if p \<in> U then clear_buffered c else c))))"

lemma sweptD:
  assumes "swept S W U C h" "S p = Some c"
  shows "p \<in> C \<Longrightarrow> \<exists>c'. h p = Some c' \<and> corpse_of W c c'"
    "p \<notin> C \<Longrightarrow> h p = Some (if p \<in> U then clear_buffered c else c)"
  using assms unfolding swept_def by (meson, meson)

lemma swept_dom: "swept S W U C h \<Longrightarrow> dom h = dom S" "swept S W U C h \<Longrightarrow> C \<subseteq> W"
  by (simp_all add: swept_def)

lemma white_cell:
  assumes "white_ok S W" "p \<in> W"
  obtains c where "S p = Some c" "walkable c" "c_rc c = 0" "nan_box_is_cell_like p" "color_of c = COLOR_WHITE"
    "\<And>w. w \<in> snd ` set (children c) \<Longrightarrow> \<exists>cw. S w = Some cw" "\<And>w. w \<in> snd ` set (children c) \<Longrightarrow> nan_box_is_cell_like w"
proof -
  from assms have "can_walk S p" by (simp add: white_ok_def)
  then obtain c where c: "S p = Some c" "walkable c" "nan_box_is_cell_like p"
    by (auto simp: can_walk_def split: option.splits)
  have ch: "snd ` set (children c) \<subseteq> dom S \<inter> {w. nan_box_is_cell_like w}" "rc_at S p = 0"
    using assms c(1) by (simp_all add: white_ok_def)
  moreover have "color_of c = COLOR_WHITE" using assms c(1) by (simp add: white_ok_def)
  ultimately show ?thesis using that [of c] c by (auto simp: rc_at_def)
qed

lemma children_words: "map snd (children c) = filter (\<lambda>w. w \<noteq> 0) (c_slots c)"
proof -
  have "map snd (filter (\<lambda>(i, w). w \<noteq> 0) (enumerate n xs)) = filter (\<lambda>w. w \<noteq> 0) xs" for n and xs :: "u64 list"
    by (induction xs arbitrary: n) auto
  then show ?thesis by (simp add: children_def)
qed

lemma children_nth: "(i, w) \<in> set (children c) \<Longrightarrow> i < length (c_slots c) \<and> c_slots c ! i = w \<and> w \<noteq> 0"
  by (auto simp: children_def in_set_enumerate_eq)

text \<open>How the cells of a state look to the callbacks.\<close>

lemma swept_look:
  assumes W: "white_ok S W" and sw: "swept S W U C h" and w: "S w = Some cw" "nan_box_is_cell_like w"
  obtains c' where "h w = Some c'" "c_rc c' = c_rc cw" "color_of c' = COLOR_WHITE \<longleftrightarrow> w \<in> W \<and> w \<notin> C"
    "has_walkable_children h w = Some (walkable c')" "w \<notin> C \<Longrightarrow> walkable c' = can_walk S w"
proof (cases "w \<in> C")
  case True
  then obtain c' where "h w = Some c'" "corpse_of W cw c'" using sweptD [OF sw w(1)] by auto
  then show ?thesis using that [of c'] True w by (simp add: corpse_of_def has_walkable_children_def)
next
  case False
  then have h: "h w = Some (if w \<in> U then clear_buffered cw else cw)" using sweptD [OF sw w(1)] by simp
  have "color_of cw = COLOR_WHITE \<longleftrightarrow> w \<in> W" using W w(1) by (simp add: white_ok_def)
  then show ?thesis
    using that [OF h] False w by (cases "w \<in> U") (simp_all add: has_walkable_children_def can_walk_def h)
qed

section \<open>Opening a cell\<close>

lemma clear_slot_swept:
  assumes sw: "swept S W U C h" and p: "p \<in> C" "S p = Some c" and i: "i < length (c_slots c)" "c_slots c ! i \<in> W"
  shows "\<exists>h'. clear_child_slot h p i = Some h' \<and> swept S W U C h'"
proof -
  obtain c' where c': "h p = Some c'" "corpse_of W c c'" using sweptD [OF sw p(2)] p(1) by auto
  have len: "length (c_slots c') = length (c_slots c)"
    using c'(2) by (auto simp: corpse_of_def dest: list_all2_lengthD)
  define c'' where "c'' = c'\<lparr>c_slots := (c_slots c')[i := 0]\<rparr>"
  have "list_all2 (\<lambda>w w'. w' = w \<or> w' = 0 \<and> w \<in> W) (c_slots c) ((c_slots c')[i := 0])"
    using c'(2) i by (auto simp: corpse_of_def list_all2_conv_all_nth nth_list_update)
  then have co: "corpse_of W c c''"
    using c'(2) by (simp add: corpse_of_def c''_def color_of_def buffered_def)
  have "clear_child_slot h p i = Some (h(p \<mapsto> c''))"
    using c'(1) i(1) len by (simp add: clear_child_slot_def wr_def c''_def)
  moreover have "swept S W U C (h(p \<mapsto> c''))"
    unfolding swept_def
  proof (intro conjI allI impI)
    show "dom (h(p \<mapsto> c'')) = dom S" using swept_dom(1) [OF sw] p(2) by auto
    fix q d assume q: "S q = Some d"
    show "if q \<in> C then \<exists>c'. (h(p \<mapsto> c'')) q = Some c' \<and> corpse_of W d c'
        else (h(p \<mapsto> c'')) q = Some (if q \<in> U then clear_buffered d else d)"
      using sweptD [OF sw q] q p co by (cases "q = p") auto
  qed (rule swept_dom(2) [OF sw])
  ultimately show ?thesis by blast
qed

lemma open_children:
  assumes W: "white_ok S W" and p: "p \<in> C" "S p = Some c"
  shows "swept S W U C h \<Longrightarrow> set cs \<subseteq> set (children c) \<Longrightarrow>
    \<exists>h'. each (open_child p) cs (h, found) = Some (h', found @ filter (\<lambda>w. w \<in> W \<and> w \<notin> C) (map snd cs)) \<and> swept S W U C h'"
proof (induction cs arbitrary: h found)
  case (Cons iw cs)
  obtain i w where iw: "iw = (i, w)" by (cases iw)
  have CW: "p \<in> W" using p(1) swept_dom(2) [OF Cons.prems(1)] by blast
  obtain c0 where c0: "S p = Some c0" "\<And>w. w \<in> snd ` set (children c0) \<Longrightarrow> \<exists>cw. S w = Some cw"
      "\<And>w. w \<in> snd ` set (children c0) \<Longrightarrow> nan_box_is_cell_like w"
    using white_cell [OF W CW] by metis
  have mem: "(i, w) \<in> set (children c)" using Cons.prems(2) iw by simp
  then have "w \<in> snd ` set (children c0)" using c0(1) p(2) by force
  from c0(2) [OF this] c0(3) [OF this] obtain cw where w: "S w = Some cw" "nan_box_is_cell_like w" by blast
  from swept_look [OF W Cons.prems(1) w] obtain c' where c': "h w = Some c'"
      "color_of c' = COLOR_WHITE \<longleftrightarrow> w \<in> W \<and> w \<notin> C" "has_walkable_children h w = Some (walkable c')"
      "w \<notin> C \<Longrightarrow> walkable c' = can_walk S w" by metis
  have cs: "set cs \<subseteq> set (children c)" using Cons.prems(2) by simp
  show ?case
  proof (cases "w \<in> W \<and> w \<notin> C")
    case True
    have "walkable c'" using c'(4) True W by (simp add: white_ok_def)
    moreover obtain h1 where h1: "clear_child_slot h p i = Some h1" "swept S W U C h1"
      using clear_slot_swept [OF Cons.prems(1) p, of i] children_nth [OF mem] True by auto
    ultimately have "open_child p iw (h, found) = Some (h1, found @ [w])"
      using c' True by (simp add: open_child_def iw)
    then show ?thesis using Cons.IH [OF h1(2) cs, of "found @ [w]"] True by (simp add: iw)
  next
    case False
    have "open_child p iw (h, found) = Some (h, found)"
      using c' False by (simp add: open_child_def iw)
    moreover have "filter (\<lambda>w. w \<in> W \<and> w \<notin> C) (map snd (iw # cs)) = filter (\<lambda>w. w \<in> W \<and> w \<notin> C) (map snd cs)"
      using False by (auto simp: iw)
    ultimately show ?thesis using Cons.IH [OF Cons.prems(1) cs, of found] by simp
  qed
qed simp

definition open_events :: "gc_heap \<Rightarrow> u64 \<Rightarrow> gc_event list" where
  "open_events S p = (case S p of None \<Rightarrow> [] | Some c \<Rightarrow> if c_named c then [WeakNotify p] else [])"

lemma open_white:
  assumes W: "white_ok S W" and sw: "swept S W U C h" and p: "p \<in> W" "p \<notin> C" "S p = Some c"
  defines "fresh \<equiv> filter (\<lambda>w. w \<in> W \<and> w \<notin> insert p C) (map snd (children c))"
  shows "\<exists>h'. collect_white_open p (h, log, st) = Some
      (fresh = [], h', log @ open_events S p, if fresh = [] then st else map Visit fresh @ AfterChildren p # st) \<and>
    swept S W U (insert p C) h'"
proof -
  define c1 where "c1 = (if p \<in> U then clear_buffered c else c)"
  have h: "h p = Some c1" using sweptD [OF sw p(3)] p(2) by (simp add: c1_def)
  have white: "color_of c = COLOR_WHITE" using W p(1,3) by (simp add: white_ok_def)
  define h1 where "h1 = h(p \<mapsto> clear_buffered (set_color COLOR_BLACK c1))"
  have f: "c_named c1 = c_named c" "children c1 = children c" "color_of c1 = COLOR_WHITE" "c_rc c1 = c_rc c"
      "c_tag c1 = c_tag c" "c_owned c1 = c_owned c" "c_slots c1 = c_slots c"
    using white by (simp_all add: c1_def)
  have sw1: "swept S W U (insert p C) h1"
    unfolding swept_def
  proof (intro conjI allI impI)
    show "dom h1 = dom S" using swept_dom(1) [OF sw] p(3) by (auto simp: h1_def)
    show "insert p C \<subseteq> W" using swept_dom(2) [OF sw] p(1) by simp
    fix q d assume q: "S q = Some d"
    show "if q \<in> insert p C then \<exists>c'. h1 q = Some c' \<and> corpse_of W d c'
        else h1 q = Some (if q \<in> U then clear_buffered d else d)"
    proof (cases "q = p")
      case True
      then show ?thesis using q p(3) f by (simp add: h1_def corpse_of_def list_all2_refl)
    qed (use sweptD [OF sw q] in \<open>auto simp: h1_def\<close>)
  qed
  obtain h' where h': "each (open_child p) (children c) (h1, []) = Some (h', fresh)" "swept S W U (insert p C) h'"
    using open_children [OF W _ p(3) sw1, of "children c" "[]"] by (auto simp: fresh_def)
  have "collect_white_open p (h, log, st) = Some
      (fresh = [], h', log @ open_events S p, if fresh = [] then st else map Visit fresh @ AfterChildren p # st)"
    using h f h' p(3) by (simp add: collect_white_open_def h1_def [symmetric] open_events_def rev_map)
  then show ?thesis using h'(2) by blast
qed

section \<open>Closing a cell\<close>

definition leaf_edges :: "gc_heap \<Rightarrow> u64 \<Rightarrow> u64 list" where
  "leaf_edges S p = (case S p of None \<Rightarrow> [] | Some c \<Rightarrow>
     filter (\<lambda>w. \<not> can_walk S w \<and> rc_at S w \<noteq> 0) (map snd (children c)))"

definition close_events :: "gc_heap \<Rightarrow> u64 \<Rightarrow> gc_event list" where
  "close_events S p = (case S p of None \<Rightarrow> [] | Some c \<Rightarrow>
     if c_tag c \<noteq> TAG_CLOSURE \<and> c_tag c \<noteq> TAG_ASYNC_FRAME \<and> \<not> corpse_takes_own_destructor (c_tag c)
     then map ValueDrop (leaf_edges S p) else [])"

lemma close_children:
  assumes W: "white_ok S W" and sw: "swept S W U C h"
    and cs: "\<And>w. w \<in> snd ` set cs \<Longrightarrow> (\<exists>cw. S w = Some cw) \<and> nan_box_is_cell_like w"
  shows "each (close_child h) cs log = Some (log @ map ValueDrop (filter (\<lambda>w. \<not> can_walk S w \<and> rc_at S w \<noteq> 0) (map snd cs)))"
  using cs
proof (induction cs arbitrary: log)
  case (Cons iw cs)
  obtain i w where iw: "iw = (i, w)" by (cases iw)
  obtain cw where w: "S w = Some cw" "nan_box_is_cell_like w" using Cons.prems [of w] iw by auto
  from swept_look [OF W sw w] obtain c' where c': "h w = Some c'" "c_rc c' = c_rc cw"
      "has_walkable_children h w = Some (walkable c')" "w \<notin> C \<Longrightarrow> walkable c' = can_walk S w" by metis
  have "(c_rc c' > 0 \<and> \<not> walkable c') = (\<not> can_walk S w \<and> rc_at S w \<noteq> 0)"
  proof (cases "w \<in> C")
    case True
    then have "w \<in> W" using swept_dom(2) [OF sw] by blast
    then have "can_walk S w" "rc_at S w = 0" using W by (simp_all add: white_ok_def)
    then show ?thesis using w c'(2) by (simp add: rc_at_def)
  qed (use c' w in \<open>auto simp: rc_at_def word_gt_0\<close>)
  then have "close_child h iw log = Some (if \<not> can_walk S w \<and> rc_at S w \<noteq> 0 then log @ [ValueDrop w] else log)"
    using c' by (simp add: close_child_def iw)
  then show ?case using Cons.IH Cons.prems by (simp add: iw)
qed simp

lemma emptied_filter:
  assumes "list_all2 (\<lambda>w w'. w' = w \<or> w' = 0 \<and> w \<in> W) xs ys" "\<And>w. w \<in> W \<Longrightarrow> \<not> P w"
  shows "filter P (filter (\<lambda>w. w \<noteq> 0) ys) = filter P (filter (\<lambda>w. w \<noteq> 0) xs)"
  using assms(1)
  by (induction rule: list_all2_induct) (use assms(2) in auto)

lemma close_white:
  assumes W: "white_ok S W" and sw: "swept S W U C h" and p: "p \<in> C"
  shows "collect_white_close h p (log, deferred) = Some (log @ close_events S p, deferred @ [p])"
proof -
  have pW: "p \<in> W" using p swept_dom(2) [OF sw] by blast
  obtain c where c: "S p = Some c" "\<And>w. w \<in> snd ` set (children c) \<Longrightarrow> \<exists>cw. S w = Some cw"
      "\<And>w. w \<in> snd ` set (children c) \<Longrightarrow> nan_box_is_cell_like w"
    using white_cell [OF W pW] by metis
  obtain c' where c': "h p = Some c'" "corpse_of W c c'" using sweptD [OF sw c(1)] p by auto
  let ?P = "\<lambda>w. \<not> can_walk S w \<and> rc_at S w \<noteq> 0"
  have sub: "snd ` set (children c') \<subseteq> snd ` set (children c)"
  proof -
    have "set (filter (\<lambda>w. w \<noteq> 0) ys) \<subseteq> set (filter (\<lambda>w. w \<noteq> 0) xs)"
      if "list_all2 (\<lambda>w w'. w' = w \<or> w' = 0 \<and> w \<in> W) xs ys" for xs ys :: "u64 list"
      using that by (induction rule: list_all2_induct) auto
    then have "set (map snd (children c')) \<subseteq> set (map snd (children c))"
      unfolding children_words using c'(2) by (simp only: corpse_of_def)
    then show ?thesis by simp
  qed
  have "each (close_child h) (children c') log = Some (log @ map ValueDrop (filter ?P (map snd (children c'))))"
    by (rule close_children [OF W sw]) (use sub c(2,3) in blast)
  also have "filter ?P (map snd (children c')) = filter ?P (map snd (children c))"
    unfolding children_words
    by (rule emptied_filter) (use c'(2) W in \<open>auto simp: corpse_of_def white_ok_def\<close>)
  finally have "each (close_child h) (children c') log = Some (log @ map ValueDrop (leaf_edges S p))"
    by (simp add: leaf_edges_def c(1))
  moreover have "c_tag c' = c_tag c" using c'(2) by (simp add: corpse_of_def)
  ultimately show ?thesis
    by (simp add: collect_white_close_def c'(1) close_events_def c(1))
qed

section \<open>The walk\<close>

fun visits :: "sweep_entry list \<Rightarrow> u64 list" where
  "visits [] = []"
| "visits (Visit p # st) = p # visits st"
| "visits (AfterChildren p # st) = visits st"

fun afters :: "sweep_entry list \<Rightarrow> u64 list" where
  "afters [] = []"
| "afters (Visit p # st) = afters st"
| "afters (AfterChildren p # st) = p # afters st"

lemma visits_append: "visits (xs @ ys) = visits xs @ visits ys" "afters (xs @ ys) = afters xs @ afters ys"
  by (induction xs rule: visits.induct) simp_all

lemma visits_map: "visits (map Visit xs) = xs" "afters (map Visit xs) = []"
  by (induction xs) simp_all

definition sweep_inv :: "gc_heap \<Rightarrow> u64 set \<Rightarrow> u64 set \<Rightarrow> u64 set \<Rightarrow> gc_heap \<Rightarrow> u64 list \<Rightarrow> sweep_entry list \<Rightarrow> bool" where
  "sweep_inv S W U C h D st = (swept S W U C h \<and> set (visits st) \<subseteq> W \<and> distinct (D @ afters st) \<and> set (D @ afters st) = C \<and>
     (\<forall>p\<in>C. \<forall>q\<in>set (edges S p). q \<in> W \<longrightarrow> q \<in> C \<or> q \<in> set (visits st)))"

text \<open>The events of a set of cells that were opened and of one that were closed.\<close>

definition events_of :: "gc_heap \<Rightarrow> u64 set \<Rightarrow> u64 set \<Rightarrow> gc_event multiset" where
  "events_of S C D = (\<Sum>p\<in>C. mset (open_events S p)) + (\<Sum>p\<in>D. mset (close_events S p))"

lemma edges_white:
  assumes "white_ok S W" "p \<in> W" "S p = Some c" "q \<in> set (edges S p)"
  shows "q \<in> set (map snd (children c))"
  using assms by (auto simp: edges_def split: if_splits)

lemma sweep_step:
  assumes W: "white_ok S W" and inv: "sweep_inv S W U C h D (v # st)"
  obtains C' h' D' st' log' where "sweep_entry_step v (h, log, D, st) = Some (h', log', D', st')"
    "sweep_inv S W U C' h' D' st'" "C \<subseteq> C'" "set (visits (v # st)) \<subseteq> C' \<union> set (visits st')" "set D \<subseteq> set D'"
    "mset log' + events_of S C (set D) = mset log + events_of S C' (set D')"
    "card (W - C') < card (W - C) \<or> C' = C \<and> st' = st"
proof -
  from inv have I: "swept S W U C h" "set (visits (v # st)) \<subseteq> W" "distinct (D @ afters (v # st))" "set (D @ afters (v # st)) = C"
    "\<And>p q. p \<in> C \<Longrightarrow> q \<in> set (edges S p) \<Longrightarrow> q \<in> W \<Longrightarrow> q \<in> C \<or> q \<in> set (visits (v # st))"
    unfolding sweep_inv_def by blast+
  have finW: "finite W" using W by (simp add: white_ok_def)
  have CW: "C \<subseteq> W" by (rule swept_dom(2) [OF I(1)])
  have finC: "finite C" using CW finW by (rule finite_subset)
  show ?thesis
  proof (cases v)
    case (AfterChildren p)
    have p: "p \<in> C" "p \<notin> set D" using I(3,4) AfterChildren by auto
    have step: "sweep_entry_step v (h, log, D, st) = Some (h, log @ close_events S p, D @ [p], st)"
      using close_white [OF W I(1) p(1), of log D] by (simp add: sweep_entry_step_def AfterChildren)
    show ?thesis
    proof (rule that [OF step])
      show "sweep_inv S W U C h (D @ [p]) st" using I AfterChildren by (auto simp: sweep_inv_def)
      show "mset (log @ close_events S p) + events_of S C (set D) = mset log + events_of S C (set (D @ [p]))"
        using p(2) by (simp add: events_of_def)
    qed (use AfterChildren in auto)
  next
    case (Visit p)
    have pW: "p \<in> W" using I(2) Visit by simp
    obtain c where c: "S p = Some c" using white_cell [OF W pW] by metis
    show ?thesis
    proof (cases "p \<in> C")
      case True
      from swept_look [OF W I(1) c] obtain c' where c': "h p = Some c'" "color_of c' \<noteq> COLOR_WHITE"
        using True white_cell [OF W pW] by metis
      have step: "sweep_entry_step v (h, log, D, st) = Some (h, log, D, st)"
        using c' by (simp add: sweep_entry_step_def Visit collect_white_open_def)
      show ?thesis
        by (rule that [OF step]) (use I Visit True in \<open>auto simp: sweep_inv_def\<close>)
    next
      case False
      define fresh where "fresh = filter (\<lambda>w. w \<in> W \<and> w \<notin> insert p C) (map snd (children c))"
      from open_white [OF W I(1) pW False c, of log st] obtain h1 where
        open1: "collect_white_open p (h, log, st) = Some
          (fresh = [], h1, log @ open_events S p, if fresh = [] then st else map Visit fresh @ AfterChildren p # st)"
        and sw1: "swept S W U (insert p C) h1" by (auto simp: fresh_def)
      have less: "card (W - insert p C) < card (W - C)"
        by (rule psubset_card_mono) (use finW pW False in auto)
      have freshW: "set fresh \<subseteq> W" by (auto simp: fresh_def)
      have pD: "p \<notin> set D" "p \<notin> set (afters st)" using I(4) Visit False by auto
      have new: "q \<in> insert p C \<or> q \<in> set fresh" if "q \<in> set (edges S p)" "q \<in> W" for q
        using edges_white [OF W pW c that(1)] that(2) by (auto simp: fresh_def)
      have old: "q \<in> insert p C \<or> q \<in> set (visits st)" if "x \<in> C" "q \<in> set (edges S x)" "q \<in> W" for x q
        using I(5) [OF that] Visit by auto
      have opens: "(\<Sum>x\<in>insert p C. mset (open_events S x)) = mset (open_events S p) + (\<Sum>x\<in>C. mset (open_events S x))"
        using finC False by simp
      show ?thesis
      proof (cases "fresh = []")
        case True
        have step: "sweep_entry_step v (h, log, D, st) = Some (h1, (log @ open_events S p) @ close_events S p, D @ [p], st)"
          using open1 True close_white [OF W sw1, of p "log @ open_events S p" D] by (simp add: sweep_entry_step_def Visit)
        show ?thesis
        proof (rule that [OF step])
          show "sweep_inv S W U (insert p C) h1 (D @ [p]) st"
            unfolding sweep_inv_def using sw1 I(2-4) Visit pD new old True by auto
          show "mset ((log @ open_events S p) @ close_events S p) + events_of S C (set D) = mset log + events_of S (insert p C) (set (D @ [p]))"
            unfolding events_of_def opens using pD(1) by simp
        qed (use Visit less in auto)
      next
        case ne: False
        have step: "sweep_entry_step v (h, log, D, st) = Some (h1, log @ open_events S p, D, map Visit fresh @ AfterChildren p # st)"
          using open1 ne by (simp add: sweep_entry_step_def Visit)
        show ?thesis
        proof (rule that [OF step])
          show "sweep_inv S W U (insert p C) h1 D (map Visit fresh @ AfterChildren p # st)"
            unfolding sweep_inv_def using sw1 I(2-4) Visit pD new old freshW
            by (auto simp: visits_append visits_map)
          show "mset (log @ open_events S p) + events_of S C (set D) = mset log + events_of S (insert p C) (set D)"
            unfolding events_of_def opens by simp
        qed (use Visit less in \<open>auto simp: visits_append\<close>)
      qed
    qed
  qed
qed

lemma sweep_loop:
  assumes W: "white_ok S W"
  shows "sweep_inv S W U C h D (v # st) \<Longrightarrow>
    \<exists>C' h' D' log'. collect_white_loop v (h, log, D, st) = Some (h', log', D') \<and> sweep_inv S W U C' h' D' [] \<and>
      C \<union> set (visits (v # st)) \<subseteq> C' \<and> set D \<subseteq> set D' \<and>
      mset log' + events_of S C (set D) = mset log + events_of S C' (set D')"
proof (induction "(card (W - C), length st)" arbitrary: C h D v st log
    rule: wf_induct_rule [OF wf_lex_prod [OF wf_less wf_less]])
  case 1
  note IH = 1(1)
  from sweep_step [OF W 1(2), of log] obtain C1 h1 D1 st1 log1 where
    step: "sweep_entry_step v (h, log, D, st) = Some (h1, log1, D1, st1)" and inv: "sweep_inv S W U C1 h1 D1 st1"
    and sub: "C \<subseteq> C1" "set (visits (v # st)) \<subseteq> C1 \<union> set (visits st1)" "set D \<subseteq> set D1"
    and ev: "mset log1 + events_of S C (set D) = mset log + events_of S C1 (set D1)"
    and dec: "card (W - C1) < card (W - C) \<or> C1 = C \<and> st1 = st" by metis
  show ?case
  proof (cases st1)
    case Nil
    have "collect_white_loop v (h, log, D, st) = Some (h1, log1, D1)"
      by (simp add: collect_white_loop.simps [of v] step) (simp add: Nil)
    then show ?thesis using inv sub ev Nil by auto
  next
    case (Cons v2 st2)
    have "\<exists>C' h' D' log'. collect_white_loop v2 (h1, log1, D1, st2) = Some (h', log', D') \<and> sweep_inv S W U C' h' D' [] \<and>
      C1 \<union> set (visits (v2 # st2)) \<subseteq> C' \<and> set D1 \<subseteq> set D' \<and>
      mset log' + events_of S C1 (set D1) = mset log1 + events_of S C' (set D')"
      by (rule IH) (use dec inv Cons in auto)
    then obtain C' h' D' log' where R: "collect_white_loop v2 (h1, log1, D1, st2) = Some (h', log', D')" "sweep_inv S W U C' h' D' []"
      "C1 \<union> set (visits st1) \<subseteq> C'" "set D1 \<subseteq> set D'" "mset log' + events_of S C1 (set D1) = mset log1 + events_of S C' (set D')"
      using Cons by blast
    have run: "collect_white_loop v (h, log, D, st) = Some (h', log', D')"
      by (simp add: collect_white_loop.simps [of v] step) (simp add: Cons R(1))
    have "mset log' + events_of S C (set D) + events_of S C1 (set D1) = (mset log' + events_of S C1 (set D1)) + events_of S C (set D)"
      by (simp only: add.assoc add.commute add.left_commute)
    also have "\<dots> = (mset log1 + events_of S C (set D)) + events_of S C' (set D')"
      unfolding R(5) by (simp only: add.assoc add.commute add.left_commute)
    also have "\<dots> = mset log + events_of S C' (set D') + events_of S C1 (set D1)"
      unfolding ev by (simp only: add.assoc add.commute add.left_commute)
    finally have "mset log' + events_of S C (set D) + events_of S C1 (set D1) = mset log + events_of S C' (set D') + events_of S C1 (set D1)" .
    then have "mset log' + events_of S C (set D) = mset log + events_of S C' (set D')" by simp
    then show ?thesis using run R sub by (intro exI [of _ C'] exI [of _ h'] exI [of _ D'] exI [of _ log']) auto
  qed
qed

text \<open>The pass over the buffer.\<close>

lemma swept_unbuffer:
  assumes sw: "swept S W U C h" and c: "h p = Some c"
  shows "swept S W (insert p U) C (h(p \<mapsto> clear_buffered c))"
  unfolding swept_def
proof (intro conjI allI impI)
  show "dom (h(p \<mapsto> clear_buffered c)) = dom S" using swept_dom(1) [OF sw] c by auto
  fix q d assume q: "S q = Some d"
  show "if q \<in> C then \<exists>c'. (h(p \<mapsto> clear_buffered c)) q = Some c' \<and> corpse_of W d c'
      else (h(p \<mapsto> clear_buffered c)) q = Some (if q \<in> insert p U then clear_buffered d else d)"
  proof (cases "q = p")
    case True
    show ?thesis
    proof (cases "p \<in> C")
      case pC: True
      then have "corpse_of W d c" using sweptD(1) [OF sw q] True c by auto
      then have "corpse_of W d (clear_buffered c)" by (simp add: corpse_of_def)
      then show ?thesis using pC True by simp
    next
      case False
      then have "c = (if p \<in> U then clear_buffered d else d)" using sweptD(2) [OF sw q] True c by simp
      then have "clear_buffered c = clear_buffered d" by (simp add: clear_buffered_def and.assoc)
      then show ?thesis using False True by simp
    qed
  qed (use sweptD [OF sw q] in auto)
qed (rule swept_dom(2) [OF sw])

lemma sweep_phase:
  assumes W: "white_ok S W" and buf: "\<And>p. p \<in> set buf \<Longrightarrow> p \<noteq> 0 \<Longrightarrow> p \<in> dom S"
  shows "\<exists>C h D log'. for_range 0 (length buf) (sweep_root buf) (S, log, []) = Some (h, log', D) \<and>
    sweep_inv S W (set buf - {0}) C h D [] \<and> W \<inter> (set buf - {0}) \<subseteq> C \<and> mset log' = mset log + events_of S C C"
proof -
  let ?I = "\<lambda>i s. \<exists>C h D log'. s = (h, log', D) \<and> sweep_inv S W (set (take i buf) - {0}) C h D [] \<and>
    W \<inter> (set (take i buf) - {0}) \<subseteq> C \<and> mset log' = mset log + events_of S C (set D)"
  have "swept S W {} {} S" by (simp add: swept_def)
  then have start: "?I 0 (S, log, [])" by (auto simp: sweep_inv_def events_of_def)
  have step: "wp (sweep_root buf i s) (?I (Suc i))" if i: "i < length buf" and I: "?I i s" for i s
  proof -
    from I obtain C h D log1 where s: "s = (h, log1, D)" and inv: "sweep_inv S W (set (take i buf) - {0}) C h D []"
      and seen: "W \<inter> (set (take i buf) - {0}) \<subseteq> C" and ev: "mset log1 = mset log + events_of S C (set D)" by blast
    define p where "p = buf ! i"
    define U where "U = set (take i buf) - {0}"
    have T: "set (take (Suc i) buf) - {0} = (if p = 0 then U else insert p U)"
      using i by (auto simp: take_Suc_conv_app_nth p_def U_def)
    have rd: "rd buf i = Some p" using i by (simp add: rd_def p_def)
    show ?thesis
    proof (cases "p = 0")
      case True
      then have "sweep_root buf i s = Some s" using rd by (simp add: sweep_root_def s)
      then show ?thesis using s inv seen ev T True by (auto simp: U_def)
    next
      case False
      obtain cS where cS: "S p = Some cS" using buf [of p] i False by (auto simp: p_def)
      have sw: "swept S W U C h" using inv by (simp add: sweep_inv_def U_def)
      obtain c where c: "h p = Some c" using swept_dom(1) [OF sw] cS by blast
      define h1 where "h1 = h(p \<mapsto> clear_buffered c)"
      have inv1: "sweep_inv S W (insert p U) C h1 D []"
        using inv swept_unbuffer [OF sw c] by (simp add: sweep_inv_def h1_def)
      have white: "color_of c = COLOR_WHITE \<longleftrightarrow> p \<in> W \<and> p \<notin> C"
      proof (cases "p \<in> C")
        case True
        then show ?thesis using sweptD(1) [OF sw cS] c by (auto simp: corpse_of_def)
      next
        case nC: False
        then have "color_of c = color_of cS" using sweptD(2) [OF sw cS] c by simp
        then show ?thesis using W cS nC by (simp add: white_ok_def)
      qed
      show ?thesis
      proof (cases "p \<in> W \<and> p \<notin> C")
        case True
        obtain c0 where c0: "S p = Some c0" "walkable c0" "nan_box_is_cell_like p" using white_cell [OF W] True by metis
        have sw1: "swept S W (insert p U) C h1" using inv1 by (simp add: sweep_inv_def)
        have "h1 p = Some (clear_buffered c0)" using sweptD(2) [OF sw c0(1)] True c
          by (auto simp: h1_def clear_buffered_def and.assoc)
        then have hw: "has_walkable_children h1 p = Some True" using c0 by (simp add: has_walkable_children_def)
        have inv2: "sweep_inv S W (insert p U) C h1 D [Visit p]" using inv1 True by (auto simp: sweep_inv_def)
        from sweep_loop [OF W inv2, of log1] obtain C' h' D' log' where
          R: "collect_white_loop (Visit p) (h1, log1, D, []) = Some (h', log', D')" "sweep_inv S W (insert p U) C' h' D' []"
          "insert p C \<subseteq> C'" "mset log' + events_of S C (set D) = mset log1 + events_of S C' (set D')" by auto
        have "sweep_root buf i s = Some (h', log', D')"
          using rd False c white True hw R(1) by (simp add: sweep_root_def s h1_def [symmetric] collect_white_def)
        moreover have "mset log' = mset log + events_of S C' (set D')" using R(4) ev by (simp add: add.commute add.left_commute)
        ultimately show ?thesis using R(2,3) seen T False by (auto simp: U_def)
      next
        case nw: False
        have "sweep_root buf i s = Some (h1, log1, D)"
          using rd False c white nw by (auto simp: sweep_root_def s h1_def [symmetric])
        then show ?thesis using inv1 seen ev T False nw by (auto simp: U_def)
      qed
    qed
  qed
  have "wp (for_range 0 (length buf) (sweep_root buf) (S, log, [])) (?I (length buf))"
    by (rule wp_for_range [where I = ?I, OF _ start step]) simp_all
  moreover have "set D = C" if "sweep_inv S W U C h D []" for U C h D
    using that by (simp add: sweep_inv_def)
  ultimately show ?thesis by (fastforce simp: wp_iff)
qed

end
