(* ===== verification/GC_Free.thy ===== *)
theory GC_Free
  imports GC_Sweep
begin

text \<open>The free step on the corpses of a sweep, and the phases composed.\<close>

section \<open>The free step\<close>

definition own_teardown :: "u16 \<Rightarrow> bool" where
  "own_teardown tag = (tag = TAG_CLOSURE \<or> tag = TAG_ASYNC_FRAME \<or> corpse_takes_own_destructor tag)"

definition key_events :: "gc_heap \<Rightarrow> u64 \<Rightarrow> gc_event list" where
  "key_events S p = (case S p of None \<Rightarrow> [] | Some c \<Rightarrow>
     if own_teardown (c_tag c) then []
     else if c_tag c = TAG_DYNOBJ then map StrDrop (filter (\<lambda>k. k \<noteq> 0) (c_owned c))
     else if c_tag c = TAG_STRING_WRAPPER \<or> c_tag c = TAG_SYMBOL_WRAPPER then map ValueDrop (filter (\<lambda>k. k \<noteq> 0) (c_owned c))
     else [])"

definition destroy_event :: "gc_heap \<Rightarrow> u64 \<Rightarrow> gc_event" where
  "destroy_event S p = (case S p of None \<Rightarrow> FreeCell p | Some c \<Rightarrow>
     if c_tag c = TAG_CLOSURE then DropFn p
     else if c_tag c = TAG_ASYNC_FRAME then FrameDrop p
     else if c_tag c = TAG_DYNOBJ then FreeCell p
     else if corpse_takes_own_destructor (c_tag c) then ValueDrop p
     else FreeCell p)"

text \<open>While the corpses are torn down: their slots only lose words, nothing else moves.\<close>

definition torn :: "gc_heap \<Rightarrow> u64 set \<Rightarrow> gc_heap \<Rightarrow> gc_heap \<Rightarrow> bool" where
  "torn S W h0 h = (dom h = dom S \<and> (\<forall>p. p \<notin> W \<longrightarrow> h p = h0 p) \<and>
     (\<forall>p\<in>W. \<forall>c. S p = Some c \<longrightarrow> (\<exists>c'. h p = Some c' \<and> c_tag c' = c_tag c \<and> c_owned c' = c_owned c \<and>
        snd ` set (children c') \<subseteq> snd ` set (children c))))"

lemma words_subset:
  assumes "list_all2 (\<lambda>w w'. w' = w \<or> w' = 0 \<and> w \<in> W) (c_slots c) (c_slots c')"
  shows "snd ` set (children c') \<subseteq> snd ` set (children c)"
proof -
  have "set (filter (\<lambda>w. w \<noteq> 0) ys) \<subseteq> set (filter (\<lambda>w. w \<noteq> 0) xs)"
    if "list_all2 (\<lambda>w w'. w' = w \<or> w' = 0 \<and> w \<in> W) xs ys" for xs ys :: "u64 list"
    using that by (induction rule: list_all2_induct) auto
  then have "set (map snd (children c')) \<subseteq> set (map snd (children c))"
    unfolding children_words using assms .
  then show ?thesis by simp
qed

lemma torn_start: "swept S W U W h \<Longrightarrow> torn S W h h"
proof -
  assume sw: "swept S W U W h"
  have "\<exists>c'. h p = Some c' \<and> c_tag c' = c_tag c \<and> c_owned c' = c_owned c \<and> snd ` set (children c') \<subseteq> snd ` set (children c)"
    if "p \<in> W" "S p = Some c" for p c
    using sweptD(1) [OF sw that(2,1)] words_subset [of W c] by (auto simp: corpse_of_def)
  then show ?thesis using swept_dom(1) [OF sw] by (simp add: torn_def)
qed

lemma clear_torn:
  assumes t: "torn S W h0 h" and p: "p \<in> W" "S p = Some c" and i: "\<And>c'. h p = Some c' \<Longrightarrow> i < length (c_slots c')"
  shows "\<exists>h'. clear_child_slot h p i = Some h' \<and> torn S W h0 h' \<and>
    (\<forall>c'. h p = Some c' \<longrightarrow> (\<exists>c''. h' p = Some c'' \<and> length (c_slots c'') = length (c_slots c')))"
proof -
  obtain c' where c': "h p = Some c'" "c_tag c' = c_tag c" "c_owned c' = c_owned c"
      "snd ` set (children c') \<subseteq> snd ` set (children c)"
    using t p unfolding torn_def by blast
  define c'' where "c'' = c'\<lparr>c_slots := (c_slots c')[i := 0]\<rparr>"
  have "list_all2 (\<lambda>w w'. w' = w \<or> w' = 0 \<and> w \<in> UNIV) (c_slots c') (c_slots c'')"
    using i [OF c'(1)] by (simp add: c''_def list_all2_conv_all_nth nth_list_update)
  then have "snd ` set (children c'') \<subseteq> snd ` set (children c)"
    using words_subset [of UNIV c' c''] c'(4) by blast
  then have "torn S W h0 (h(p \<mapsto> c''))"
    using t p c' unfolding torn_def by (auto simp: c''_def)
  moreover have "clear_child_slot h p i = Some (h(p \<mapsto> c''))"
    using c'(1) i by (simp add: clear_child_slot_def wr_def c''_def)
  ultimately show ?thesis using c'(1) by (auto simp: c''_def)
qed

lemma preclear_children:
  assumes p: "p \<in> W" "S p = Some c" and n: "\<And>i w. (i, w) \<in> set cs \<Longrightarrow> i < n \<and> w \<in> dom S \<and> nan_box_is_cell_like w"
  shows "torn S W h0 h \<Longrightarrow> (\<And>c'. h p = Some c' \<Longrightarrow> length (c_slots c') = n) \<Longrightarrow>
    \<exists>h'. each (preclear_child p) cs h = Some h' \<and> torn S W h0 h'"
  using n
proof (induction cs arbitrary: h)
  case (Cons iw cs)
  obtain i w where iw: "iw = (i, w)" by (cases iw)
  have w: "i < n" "w \<in> dom S" "nan_box_is_cell_like w" using Cons.prems(3) [of i w] iw by auto
  moreover have "dom h = dom S" using Cons.prems(1) by (simp add: torn_def)
  ultimately obtain cw where cw: "h w = Some cw" by blast
  have hw: "has_walkable_children h w = Some (walkable cw)" using cw w by (simp add: has_walkable_children_def)
  have cs: "\<And>i w. (i, w) \<in> set cs \<Longrightarrow> i < n \<and> w \<in> dom S \<and> nan_box_is_cell_like w" by (intro Cons.prems(3)) simp
  show ?case
  proof (cases "c_rc cw = 0 \<or> walkable cw")
    case True
    obtain c' where c': "h p = Some c'" using Cons.prems(1) p unfolding torn_def by blast
    from clear_torn [OF Cons.prems(1) p, of i] w(1) Cons.prems(2)
    obtain h' where h': "clear_child_slot h p i = Some h'" "torn S W h0 h'"
      and len: "\<exists>c''. h' p = Some c'' \<and> length (c_slots c'') = length (c_slots c')" using c' by auto
    have "preclear_child p iw h = Some h'" using cw hw True h'(1) by (simp add: preclear_child_def iw)
    moreover have "\<And>c'. h' p = Some c' \<Longrightarrow> length (c_slots c') = n" using len Cons.prems(2) [OF c'] by auto
    ultimately show ?thesis using Cons.IH [OF h'(2) _ cs] by simp
  next
    case False
    have "preclear_child p iw h = Some h" using cw hw False by (simp add: preclear_child_def iw)
    then show ?thesis using Cons.IH [OF Cons.prems(1,2) cs] by simp
  qed
qed simp

lemma pass_a_torn:
  assumes W: "white_ok S W" and t: "torn S W h0 h" and p: "p \<in> W"
  shows "\<exists>h'. pass_a p (h, log) = Some (h', log @ key_events S p) \<and> torn S W h0 h'"
proof -
  obtain c where c: "S p = Some c" "\<And>w. w \<in> snd ` set (children c) \<Longrightarrow> \<exists>cw. S w = Some cw"
      "\<And>w. w \<in> snd ` set (children c) \<Longrightarrow> nan_box_is_cell_like w"
    using white_cell [OF W p] by metis
  obtain c' where c': "h p = Some c'" "c_tag c' = c_tag c" "c_owned c' = c_owned c"
      "snd ` set (children c') \<subseteq> snd ` set (children c)"
    using t p c(1) unfolding torn_def by blast
  show ?thesis
  proof (cases "own_teardown (c_tag c)")
    case True
    have ch: "i < length (c_slots c') \<and> w \<in> dom S \<and> nan_box_is_cell_like w" if "(i, w) \<in> set (children c')" for i w
    proof -
      have "w \<in> snd ` set (children c)" using c'(4) that by force
      then show ?thesis using children_nth [OF that] c(2,3) by blast
    qed
    have "\<exists>h'. each (preclear_child p) (children c') h = Some h' \<and> torn S W h0 h'"
      by (rule preclear_children [OF p c(1) ch t]) (use c' in auto)
    then show ?thesis using True c' c(1) by (auto simp: pass_a_def key_events_def own_teardown_def)
  next
    case False
    then show ?thesis using c' c(1) t by (auto simp: pass_a_def key_events_def own_teardown_def)
  qed
qed

lemma pass_a_all:
  assumes W: "white_ok S W"
  shows "torn S W h0 h \<Longrightarrow> set D \<subseteq> W \<Longrightarrow>
    \<exists>h'. each pass_a D (h, log) = Some (h', log @ concat (map (key_events S) D)) \<and> torn S W h0 h'"
proof (induction D arbitrary: h log)
  case (Cons p D)
  obtain h1 where "pass_a p (h, log) = Some (h1, log @ key_events S p)" "torn S W h0 h1"
    using pass_a_torn [OF W Cons.prems(1), of p log] Cons.prems(2) by auto
  then show ?case using Cons.IH [of h1 "log @ key_events S p"] Cons.prems(2) by simp
qed simp

lemma pass_b_all:
  assumes W: "white_ok S W" and t: "torn S W h0 h"
  shows "distinct D \<Longrightarrow> set D \<subseteq> W \<Longrightarrow> X \<inter> set D = {} \<Longrightarrow>
    each pass_b D (h |` (- X), log) = Some (h |` (- (X \<union> set D)), log @ map (destroy_event S) D)"
proof (induction D arbitrary: X log)
  case (Cons p D)
  have p: "p \<in> W" "p \<notin> X" using Cons.prems by auto
  obtain c where c: "S p = Some c" using white_cell [OF W p(1)] by metis
  obtain c' where c': "h p = Some c'" "c_tag c' = c_tag c" using t p(1) c unfolding torn_def by blast
  have "(h |` (- X))(p := None) = h |` (- insert p X)" by (auto simp: restrict_map_def fun_eq_iff)
  then have "pass_b p (h |` (- X), log) = Some (h |` (- insert p X), log @ [destroy_event S p])"
    using c' c p(2) by (simp add: pass_b_def destroy_event_def)
  then show ?case using Cons.IH [of "insert p X" "log @ [destroy_event S p]"] Cons.prems by simp
qed simp

lemma finalize_spec:
  assumes W: "white_ok S W" and sw: "swept S W U W h" and D: "distinct D" "set D = W"
  shows "finalize_all D (h, log) = Some (h |` (- W), log @ concat (map (key_events S) D) @ map (destroy_event S) D)"
proof -
  obtain h1 where h1: "each pass_a D (h, log) = Some (h1, log @ concat (map (key_events S) D))" "torn S W h h1"
    using pass_a_all [OF W torn_start [OF sw]] D(2) by blast
  have "h1 |` (- W) = h |` (- W)" using h1(2) by (auto simp: torn_def restrict_map_def fun_eq_iff)
  moreover have "h1 |` (- {}) = h1" by (simp add: restrict_map_def)
  ultimately show ?thesis
    using h1(1) pass_b_all [OF W h1(2), of D "{}" "log @ concat (map (key_events S) D)"] D
    by (simp add: finalize_all_def)
qed

section \<open>A collection\<close>

text \<open>The marked cells that no reference from outside of them keeps alive.\<close>

definition garbage :: "gc_heap \<Rightarrow> u64 set \<Rightarrow> u64 set" where
  "garbage h X = marked h X - (\<Union>q\<in>{q \<in> marked h X. held h (marked h X) q}. reach h q)"

definition survivor :: "gc_heap \<Rightarrow> u64 set \<Rightarrow> u64 \<Rightarrow> gc_cell \<Rightarrow> gc_cell" where
  "survivor h X p c =
     (let c = (if p \<in> marked h X then set_color COLOR_BLACK c else c);
          c = c\<lparr>c_rc := c_rc c - of_nat (indeg h (garbage h X) p)\<rparr>
      in if p \<in> X then clear_buffered c else c)"

definition collected :: "gc_heap \<Rightarrow> u64 set \<Rightarrow> gc_heap" where
  "collected h X = (\<lambda>p. if p \<in> parked h X \<or> p \<in> garbage h X then None else map_option (survivor h X p) (h p))"

definition corpse_events :: "gc_heap \<Rightarrow> u64 \<Rightarrow> gc_event list" where
  "corpse_events h p = open_events h p @ close_events h p @ key_events h p @ [destroy_event h p]"

lemma scanned_cell:
  "H p = Some c \<Longrightarrow> scanned H k G B W p = Some (set_color (scan_colors k B W p) (c\<lparr>c_rc := c_rc c + scan_delta H G B p\<rparr>))"
  by (simp add: scanned_def tinted_apply)

lemma can_walk_scanned:
  assumes "\<And>x. proper (k x)" shows "can_walk (scanned H k G B W) p = can_walk H p"
proof -
  have "proper (scan_colors k B W p)" using assms by (simp add: scan_colors_def)
  then show ?thesis by (cases "H p") (simp_all add: can_walk_def scanned_def tinted_def)
qed

lemma edges_scanned:
  assumes "\<And>x. proper (k x)" shows "edges (scanned H k G B W) p = edges H p"
proof -
  have "proper (scan_colors k B W p)" using assms by (simp add: scan_colors_def)
  then show ?thesis
    using can_walk_scanned [where k = k and H = H and G = G and B = B and W = W, OF assms]
    by (cases "H p") (simp_all add: edges_def scanned_def tinted_def cong: filter_cong)
qed

text \<open>What is fixed during a collection: the heap without the parked blocks, the marked cells
  \<open>G\<close>, the black ones \<open>B\<close> and the white ones \<open>W\<close>.\<close>

lemma collection_sets:
  fixes h :: gc_heap and X :: "u64 set"
  assumes ok: "heap_ok h"
  defines "G \<equiv> marked h X" and "P \<equiv> parked h X"
  defines "H \<equiv> h |` (- P)"
  defines "B \<equiv> (\<Union>q\<in>{q \<in> G. held h G q}. reach h q)"
  shows "region H G" "\<And>p. p \<in> live_cells h \<Longrightarrow> edges H p = edges h p" "\<And>p. p \<in> live_cells h \<Longrightarrow> reach H p = reach h p"
    "\<And>p. p \<in> live_cells h \<Longrightarrow> H p = h p" "\<And>Y q. Y \<subseteq> G \<Longrightarrow> indeg H Y q = indeg h Y q"
    "G = (\<Union>p\<in>roots h X. reach H p)" "(\<Union>q\<in>{q \<in> G. held H G q}. reach H q) = B" "garbage h X = G - B"
proof -
  have dead: "P \<inter> live_cells h = {}" by (simp add: P_def parked_dead)
  have GL: "G \<subseteq> live_cells h" unfolding G_def by (rule marked_live [OF ok])
  show E: "\<And>p. p \<in> live_cells h \<Longrightarrow> edges H p = edges h p" unfolding H_def by (rule edges_restrict [OF ok dead])
  show R: "\<And>p. p \<in> live_cells h \<Longrightarrow> reach H p = reach h p" by (rule reach_cong [OF _ live_closed [OF ok] E])
  show Hh: "\<And>p. p \<in> live_cells h \<Longrightarrow> H p = h p" using dead by (auto simp: H_def restrict_map_def)
  show I: "\<And>Y q. Y \<subseteq> G \<Longrightarrow> indeg H Y q = indeg h Y q" by (rule indeg_cong) (use GL E in auto)
  show "region H G" unfolding H_def
    by (rule region_restrict [OF ok dead GL]) (auto simp: G_def intro: marked_walk [OF ok])
  show "G = (\<Union>p\<in>roots h X. reach H p)" unfolding G_def marked_def
    by (rule SUP_cong [OF refl]) (use R roots_live in \<open>auto simp: subset_eq\<close>)
  have "held H G q = held h G q" if "q \<in> G" for q
    using that GL Hh [of q] I [of G q] by (auto simp: held_def rc_at_def)
  moreover have "reach H q = reach h q" if "q \<in> G" for q using that GL R by auto
  ultimately show "(\<Union>q\<in>{q \<in> G. held H G q}. reach H q) = B" unfolding B_def by auto
  show "garbage h X = G - B" by (simp add: garbage_def G_def B_def)
qed

lemma scan_white_ok:
  fixes h :: gc_heap and X :: "u64 set"
  assumes ok: "heap_ok h"
  defines "G \<equiv> marked h X" and "P \<equiv> parked h X" and "W \<equiv> garbage h X"
  defines "H \<equiv> h |` (- P)"
  assumes inv: "scan_inv H G (G - W) W"
  shows "white_ok (scanned H (mark_colors h G) G (G - W) W) W"
proof -
  let ?S = "scanned H (mark_colors h G) G (G - W) W"
  note sets = collection_sets [where X = X, OF ok, folded G_def P_def, folded H_def]
  note I = scan_invD [OF inv]
  have GL: "G \<subseteq> live_cells h" unfolding G_def by (rule marked_live [OF ok])
  have kp: "\<And>x. proper (mark_colors h G x)" by simp
  have sp: "proper (scan_colors (mark_colors h G) (G - W) W x)" for x by (simp add: scan_colors_def)
  show ?thesis
    unfolding white_ok_def
  proof (intro conjI ballI allI impI)
    show "finite W" using I(2) finite_marked [OF ok] finite_subset by (auto simp: G_def)
  next
    fix p assume p: "p \<in> W"
    have pG: "p \<in> G" using I(2) p by blast
    have "can_walk h p" using pG by (auto simp: G_def intro: marked_walk [OF ok])
    then obtain c where c: "H p = Some c" "walkable c" "h p = Some c"
      using sets(4) [of p] GL pG by (auto simp: can_walk_def split: option.splits)
    show "can_walk ?S p" using sets(1) pG by (simp add: can_walk_scanned region_def)
    show "rc_at ?S p = 0" using I(5) [OF p] c(1) by (simp add: rc_at_def scanned_cell)
    fix d assume d: "?S p = Some d"
    have ch: "children d = children c" using d c(1) by (auto simp: scanned_cell)
    have "snd ` set (children c) \<subseteq> live_cells h" by (rule heap_okD(3) [OF ok _ c(3,2)]) (use GL pG in blast)
    moreover have "live_cells h \<subseteq> dom ?S"
    proof
      fix q assume q: "q \<in> live_cells h"
      then have "H q = h q" "q \<in> dom h" using sets(4) live_in_dom by auto
      then show "q \<in> dom ?S" by (simp add: scanned_def dom_def)
    qed
    moreover have "live_cells h \<subseteq> {w. nan_box_is_cell_like w}" using heap_okD(2) [OF ok] live_in_dom by blast
    ultimately show "snd ` set (children d) \<subseteq> dom ?S \<inter> {w. nan_box_is_cell_like w}" unfolding ch by blast
  next
    fix p d assume d: "?S p = Some d"
    then have "p \<in> dom ?S" by blast
    then have "p \<in> dom H" by (simp add: scanned_def)
    then obtain c where "H p = Some c" by blast
    then have "color_of d = scan_colors (mark_colors h G) (G - W) W p" using d sp by (auto simp: scanned_cell)
    then show "(color_of d = COLOR_WHITE) = (p \<in> W)"
      using I(2) no_tint(2) [OF ok, of p] by (auto simp: scan_colors_def mark_colors_def)
  qed
qed

lemma survivor_scanned:
  fixes h :: gc_heap and X :: "u64 set"
  assumes ok: "heap_ok h" and p: "h p = Some c" "p \<notin> parked h X" "p \<notin> garbage h X" and U: "U \<inter> dom h - parked h X = X \<inter> dom h - parked h X"
  defines "G \<equiv> marked h X" and "W \<equiv> garbage h X" and "H \<equiv> h |` (- parked h X)"
  shows "map_option (\<lambda>c. if p \<in> U then clear_buffered c else c) (scanned H (mark_colors h G) G (G - W) W p) = Some (survivor h X p c)"
proof -
  note sets = collection_sets [where X = X, OF ok, folded G_def H_def]
  have H: "H p = Some c" using p(1,2) by (simp add: H_def restrict_map_def)
  have WG: "W \<subseteq> G" by (auto simp: W_def G_def garbage_def)
  have fin: "finite G" unfolding G_def by (rule finite_marked [OF ok])
  have "G = (G - W) \<union> W" using WG by blast
  then have "indeg H G p = indeg H (G - W) p + indeg H W p"
    using indeg_Un [of "G - W" W H p] fin WG finite_subset by (metis Diff_disjoint Int_commute finite_Diff)
  then have d: "scan_delta H G (G - W) p = - of_nat (indeg h W p)"
    using sets(5) [OF WG, of p] by (simp add: scan_delta_def)
  have k: "set_color (scan_colors (mark_colors h G) (G - W) W p) c' = (if p \<in> G then set_color COLOR_BLACK c' else c')"
    if "color_of c' = color_of c" for c'
  proof -
    have "p \<notin> W" using p(3) by (simp add: W_def)
    moreover have "set_color (color_at h p) c' = c'" using that set_color_same [of c'] p(1) by (simp add: color_at_def)
    ultimately show ?thesis by (simp add: scan_colors_def mark_colors_def)
  qed
  have "p \<in> U \<longleftrightarrow> p \<in> X" using U p by blast
  then show ?thesis
    using k [of "c\<lparr>c_rc := c_rc c - of_nat (indeg h W p)\<rparr>"]
    by (simp add: scanned_cell [of H p c] H d survivor_def G_def [symmetric] W_def [symmetric])
qed

text \<open>The events of a corpse are read off the heap before the collection.\<close>

lemma corpse_events_scanned:
  fixes h :: gc_heap and X :: "u64 set"
  assumes ok: "heap_ok h" and p: "p \<in> garbage h X"
  defines "G \<equiv> marked h X" and "W \<equiv> garbage h X" and "H \<equiv> h |` (- parked h X)"
  defines "S \<equiv> scanned H (mark_colors h G) G (G - W) W"
  shows "open_events S p = open_events h p" "close_events S p = close_events h p" "key_events S p = key_events h p"
    "destroy_event S p = destroy_event h p"
proof -
  note sets = collection_sets [where X = X, OF ok, folded G_def H_def]
  have GL: "G \<subseteq> live_cells h" unfolding G_def by (rule marked_live [OF ok])
  have pG: "p \<in> G" using p by (simp add: garbage_def G_def)
  have "can_walk h p" using pG by (auto simp: G_def intro: marked_walk [OF ok])
  then obtain c where c: "h p = Some c" "walkable c" by (auto simp: can_walk_def split: option.splits)
  have H: "H p = Some c" using sets(4) [of p] GL pG c by auto
  have S: "S p = Some (set_color (scan_colors (mark_colors h G) (G - W) W p) (c\<lparr>c_rc := c_rc c + scan_delta H G (G - W) p\<rparr>))"
    unfolding S_def by (rule scanned_cell [where H = H and p = p, OF H])
  show "open_events S p = open_events h p" "key_events S p = key_events h p" "destroy_event S p = destroy_event h p"
    using S c by (simp_all add: open_events_def key_events_def destroy_event_def)
  have leaf: "(\<not> can_walk S w \<and> rc_at S w \<noteq> 0) = (\<not> can_walk h w \<and> rc_at h w \<noteq> 0)" if w: "w \<in> set (map snd (children c))" for w
  proof -
    have wl: "w \<in> live_cells h" using heap_okD(3) [OF ok _ c] GL pG w by auto
    then obtain cw where cw: "h w = Some cw" by (auto simp: live_cells_def)
    have Hw: "H w = Some cw" using sets(4) [OF wl] cw by simp
    have walk: "can_walk S w = can_walk h w"
      using Hw cw by (simp add: S_def can_walk_scanned) (simp add: can_walk_def)
    show ?thesis
    proof (cases "can_walk h w")
      case False
      have "w \<notin> set (edges H q)" for q using can_walk_edges [of w H q] False Hw cw by (auto simp: can_walk_def)
      then have "indeg H Y w = 0" for Y by (simp add: indeg_def count_list_pos)
      then have "rc_at S w = rc_at h w" by (simp add: rc_at_def S_def scanned_cell [where H = H and p = w, OF Hw] cw scan_delta_def)
      then show ?thesis using walk by simp
    qed (simp add: walk)
  qed
  have "filter (\<lambda>w. \<not> can_walk S w \<and> rc_at S w \<noteq> 0) (map snd (children c)) =
      filter (\<lambda>w. \<not> can_walk h w \<and> rc_at h w \<noteq> 0) (map snd (children c))"
    by (rule filter_cong [OF refl leaf])
  then have "leaf_edges S p = leaf_edges h p"
    using S c by (simp add: leaf_edges_def)
  then show "close_events S p = close_events h p" using S c by (simp add: close_events_def)
qed

lemma phases_spec:
  fixes b :: "u64 list"
  assumes ok': "heap_ok h" and buf': "buffer_ok h b"
  defines "X \<equiv> set b"
  shows "wp (collect_phases h l b) (\<lambda>(h', l', b', log). h' = collected h X \<and>
    l' = l + of_nat (card (marked h X - garbage h X)) \<and> b' = unpark (parked h X) b \<and>
    mset log = image_mset FreeParked (mset_set (parked h X)) + (\<Sum>p\<in>garbage h X. mset (corpse_events h p)))"
proof -
  define G P W H B where "G = marked h X" and "P = parked h X" and "W = garbage h X" and "H = h |` (- P)"
    and "B = (\<Union>q\<in>{q \<in> G. held h G q}. reach h q)"
  have X: "X = set b" by (simp add: X_def)
  note sets = collection_sets [where X = X, OF ok', folded G_def P_def, folded H_def B_def]
  have GL: "G \<subseteq> live_cells h" unfolding G_def by (rule marked_live [OF ok'])
  have BG: "B \<subseteq> G"
  proof -
    have "closed_under h G" by (simp add: G_def)
    then show ?thesis using reach_least [of _ G h] by (auto simp: B_def)
  qed
  have WB: "W = G - B" "G - W = B" using sets(8) BG by (auto simp: W_def)
  define k where "k = mark_colors h G"
  define ub where "ub = unpark P b"
  define log1 where "log1 = map FreeParked (filter (\<lambda>p. p \<in> P) b)"
  have len: "length ub = length b" by (simp add: ub_def unpark_def)
  have subs: "set ub \<subseteq> insert 0 (set b - P)" "set b - P \<subseteq> set ub"
    by (auto simp: ub_def unpark_def)
  have delta: "mark_delta h G = (\<lambda>x. - of_nat (indeg H G x))"
    by (simp add: fun_eq_iff mark_delta_def sets(5))
  have mark: "for_range 0 (length b) mark_root (h, l, b, []) =
      Some (tinted k (\<lambda>x. - of_nat (indeg H G x)) H, l, ub, log1)"
    using mark_phase [OF ok' buf', of l "[]"]
    by (simp add: X [symmetric] G_def [symmetric] P_def [symmetric] k_def H_def [symmetric] ub_def log1_def delta)
  have kg: "k x = COLOR_GRAY \<longleftrightarrow> x \<in> G" for x using no_tint(1) [OF ok'] by (simp add: k_def mark_colors_def)
  have inH: "H p \<noteq> None" if "p \<in> set ub" "p \<noteq> 0" for p
    using that subs(1) buf' by (auto simp: buffer_ok_def H_def restrict_map_def)
  have rX: "roots h X \<subseteq> set ub"
    using parked_dead [of h X] roots_live [of h X] subs(2) by (auto simp: P_def roots_def X)
  define S where "S = scanned H k G B W"
  have scan: "for_range 0 (length ub) (scan_root ub) (tinted k (\<lambda>x. - of_nat (indeg H G x)) H, l) =
      Some (S, l + of_nat (card B))" "scan_inv H G B W"
    using scan_phase(1) [where k = k and h = H and G = G and buf = ub and X = "roots h X" and l = "l", OF sets(1) _ kg inH rX _ sets(6)]
      scan_phase(2) [where k = k and h = H and G = G and buf = ub and X = "roots h X", OF sets(1) _ kg inH rX _ sets(6)]
    by (simp_all add: sets(7) WB(1) [symmetric] S_def k_def roots_def)
  have white: "white_ok S W"
    using scan_white_ok [where X = X, OF ok', folded G_def P_def W_def, folded H_def k_def] scan(2)
    by (simp add: WB(2) S_def)
  have bufS: "p \<in> dom S" if "p \<in> set ub" "p \<noteq> 0" for p using inH [OF that] by (auto simp: S_def scanned_def)
  obtain C h3 D log3 where sweep: "for_range 0 (length ub) (sweep_root ub) (S, log1, []) = Some (h3, log3, D)"
    and sinv: "sweep_inv S W (set ub - {0}) C h3 D []" and wc: "W \<inter> (set ub - {0}) \<subseteq> C"
    and ev: "mset log3 = mset log1 + events_of S C C"
    using sweep_phase [OF white bufS, of ub log1] by blast
  have sw3: "swept S W (set ub - {0}) C h3" using sinv by (simp add: sweep_inv_def)
  have CW: "C \<subseteq> W" by (rule swept_dom(2) [OF sw3])
  have D: "distinct D" "set D = C"
    and cl: "\<And>p q. p \<in> C \<Longrightarrow> q \<in> set (edges S p) \<Longrightarrow> q \<in> W \<Longrightarrow> q \<in> C"
    using sinv unfolding sweep_inv_def by auto
  have "G \<subseteq> C \<union> B"
  proof -
    have "reach H p \<subseteq> C \<union> B" if p: "p \<in> roots h X" for p
    proof (rule reach_least)
      have "p \<in> G" using p sets(6) reach_refl by blast
      moreover have "p \<in> set ub" "p \<noteq> 0" using rX p by (auto simp: roots_def)
      ultimately show "p \<in> C \<union> B" using wc WB(1) by auto
      have "set (edges H q) \<subseteq> C \<union> B" if q: "q \<in> C" for q
      proof
        fix r assume r: "r \<in> set (edges H q)"
        have "q \<in> G" using q CW WB(1) by blast
        then have "r \<in> G" using r sets(1) by (auto simp: region_def closed_under_def)
        then show "r \<in> C \<union> B" using cl [OF q, of r] r WB(1) by (auto simp: S_def edges_scanned k_def)
      qed
      then show "closed_under H (C \<union> B)" using scan_invD(4) [OF scan(2)] by (auto simp: closed_under_def)
    qed
    then show ?thesis using sets(6) by blast
  qed
  then have C: "C = W" using CW WB(1) by blast
  define log4 where "log4 = log3 @ concat (map (key_events S) D) @ map (destroy_event S) D"
  have free: "finalize_all D (h3, log3) = Some (h3 |` (- W), log4)"
    unfolding log4_def by (rule finalize_spec [OF white _ D(1)]) (use sw3 C D(2) in auto)
  have res: "collect_phases h l b = Some (h3 |` (- W), l + of_nat (card B), ub, log4)"
    using mark scan(1) sweep free by (simp add: collect_phases_def len)
  have heap: "h3 |` (- W) = collected h X"
  proof
    fix p
    show "(h3 |` (- W)) p = collected h X p"
    proof (cases "p \<in> W \<or> p \<in> P \<or> h p = None")
      case True
      have "h3 p = None" if "p \<in> P \<or> h p = None"
      proof -
        have "H p = None" using that by (auto simp: H_def restrict_map_def)
        then have "p \<notin> dom S" by (simp add: S_def scanned_def dom_def)
        then show ?thesis using swept_dom(1) [OF sw3] by blast
      qed
      then show ?thesis using True by (auto simp: collected_def W_def [symmetric] P_def [symmetric] restrict_map_def)
    next
      case False
      then obtain c where c: "h p = Some c" by auto
      have "H p = Some c" using c False by (simp add: H_def restrict_map_def)
      then obtain cs where cs: "S p = Some cs" by (simp add: S_def scanned_cell)
      have U: "(set ub - {0}) \<inter> dom h - P = X \<inter> dom h - P"
      proof -
        have "0 \<notin> dom h" using heap_okD(2) [OF ok', of 0] by (auto simp: nan_box_is_cell_like_def)
        then show ?thesis using subs by (auto simp: X)
      qed
      have "map_option (\<lambda>c. if p \<in> set ub - {0} then clear_buffered c else c) (S p) = Some (survivor h X p c)"
        using survivor_scanned [OF ok' c _ _ U [unfolded P_def]] False
        by (simp add: S_def k_def G_def H_def W_def P_def WB(2) [symmetric])
      moreover have "h3 p = Some (if p \<in> set ub - {0} then clear_buffered cs else cs)"
        using sweptD(2) [OF sw3 cs] C False by blast
      ultimately show ?thesis
        using False c cs by (simp add: collected_def W_def [symmetric] P_def [symmetric] restrict_map_def)
    qed
  qed
  have events: "mset log4 = image_mset FreeParked (mset_set (parked h X)) + (\<Sum>p\<in>garbage h X. mset (corpse_events h p))"
  proof -
    have same: "open_events S p = open_events h p" "close_events S p = close_events h p" "key_events S p = key_events h p"
        "destroy_event S p = destroy_event h p" if "p \<in> W" for p
      using corpse_events_scanned [where X = X and p = p, OF ok'] that
      by (simp_all add: S_def k_def G_def H_def W_def P_def WB(2) [symmetric])
    have cat: "mset (concat (map f D)) = (\<Sum>p\<in>W. mset (f p))" for f :: "u64 \<Rightarrow> gc_event list"
    proof -
      have "mset (concat (map f xs)) = (\<Sum>p\<in>set xs. mset (f p))" if "distinct xs" for xs
        using that by (induction xs) auto
      then show ?thesis using D C by simp
    qed
    have one: "mset (map f D) = (\<Sum>p\<in>W. {#f p#})" for f :: "u64 \<Rightarrow> gc_event"
    proof -
      have "mset (map f xs) = (\<Sum>p\<in>set xs. {#f p#})" if "distinct xs" for xs
        using that by (induction xs) auto
      then show ?thesis using D C by simp
    qed
    have "0 \<notin> P" by (simp add: P_def parked_def)
    then have "filter (\<lambda>p. p \<in> P) b = filter (\<lambda>p. p \<in> P) (filter (\<lambda>p. p \<noteq> 0) b)"
      by (auto simp: filter_filter intro: filter_cong)
    moreover have "distinct (filter (\<lambda>p. p \<noteq> 0) b)" using buf' by (simp add: buffer_ok_def)
    ultimately have "distinct (filter (\<lambda>p. p \<in> P) b)" by (metis distinct_filter)
    moreover have "set (filter (\<lambda>p. p \<in> P) b) = P" by (auto simp: P_def parked_def X)
    ultimately have parked: "mset (filter (\<lambda>p. p \<in> P) b) = mset_set P" by (metis mset_set_set)
    have single: "mset [x] = {#x#}" for x :: gc_event by simp
    have l1: "mset log1 = image_mset FreeParked (mset_set P)"
      unfolding log1_def mset_append mset_map parked ..
    have l4: "mset log4 = mset log3 + ((\<Sum>p\<in>W. mset (key_events S p)) + (\<Sum>p\<in>W. {#destroy_event S p#}))"
      unfolding log4_def mset_append cat one ..
    have "mset log4 = image_mset FreeParked (mset_set P) +
        ((\<Sum>p\<in>W. mset (open_events S p)) + (\<Sum>p\<in>W. mset (close_events S p)) + ((\<Sum>p\<in>W. mset (key_events S p)) + (\<Sum>p\<in>W. {#destroy_event S p#})))"
      unfolding l4 ev l1 events_of_def C by (simp only: add.assoc)
    also have "\<dots> = image_mset FreeParked (mset_set P) +
        ((\<Sum>p\<in>W. mset (open_events h p)) + (\<Sum>p\<in>W. mset (close_events h p)) + ((\<Sum>p\<in>W. mset (key_events h p)) + (\<Sum>p\<in>W. {#destroy_event h p#})))"
      by (simp only: same cong: sum.cong)
    also have "\<dots> = image_mset FreeParked (mset_set P) + (\<Sum>p\<in>W. mset (corpse_events h p))"
      by (simp only: corpse_events_def mset_append single sum.distrib add.assoc)
    finally show ?thesis by (simp add: P_def W_def)
  qed
  have "marked h X - garbage h X = B" using WB(2) by (simp add: G_def W_def)
  then show ?thesis using res heap events by (simp add: ub_def P_def)
qed

lemma collect_with_spec:
  assumes ok: "heap_ok (gc_heap s)" and buf: "buffer_ok (gc_heap s) (gc_buffer s)"
    and run: "gc_buffer s \<noteq> []" "\<not> gc_in_collect s"
  defines "h \<equiv> gc_heap s" and "X \<equiv> set (gc_buffer s)"
  shows "wp (collect_with drops s) (\<lambda>s'. \<exists>log h' buf. gc_log s' = gc_log s @ log \<and>
    drops log (collected h X, unpark (parked h X) (gc_buffer s)) = (h', buf) \<and>
    gc_heap s' = h' \<and> gc_buffer s' = compact_from (length (gc_buffer s)) buf \<and>
    \<not> gc_in_collect s' \<and> gc_live s' = 0 \<and>
    gc_threshold s' = retune_threshold (gc_live s + of_nat (card (marked h X - garbage h X))) \<and>
    mset log = image_mset FreeParked (mset_set (parked h X)) + (\<Sum>p\<in>garbage h X. mset (corpse_events h p)))"
proof -
  obtain log where log: "collect_phases h (gc_live s) (gc_buffer s) =
      Some (collected h X, gc_live s + of_nat (card (marked h X - garbage h X)), unpark (parked h X) (gc_buffer s), log)"
    "mset log = image_mset FreeParked (mset_set (parked h X)) + (\<Sum>p\<in>garbage h X. mset (corpse_events h p))"
    using phases_spec [OF ok buf, of "gc_live s"] by (auto simp: wp_iff h_def X_def)
  obtain h' b' where d: "drops log (collected h X, unpark (parked h X) (gc_buffer s)) = (h', b')" by fastforce
  show ?thesis
    unfolding collect_with_def using run log d by (auto simp: h_def [symmetric] X_def [symmetric])
qed

lemma collect_spec:
  assumes ok: "heap_ok (gc_heap s)" and buf: "buffer_ok (gc_heap s) (gc_buffer s)"
    and run: "gc_buffer s \<noteq> []" "\<not> gc_in_collect s"
  defines "h \<equiv> gc_heap s" and "X \<equiv> set (gc_buffer s)"
  shows "wp (cycle_collect s) (\<lambda>s'. gc_heap s' = collected h X \<and> gc_buffer s' = [] \<and> \<not> gc_in_collect s' \<and>
    gc_live s' = 0 \<and> gc_threshold s' = retune_threshold (gc_live s + of_nat (card (marked h X - garbage h X))) \<and>
    mset (gc_log s') = mset (gc_log s) + image_mset FreeParked (mset_set (parked h X)) +
      (\<Sum>p\<in>garbage h X. mset (corpse_events h p)))"
  unfolding cycle_collect_def h_def X_def
  by (rule wp_mono [OF collect_with_spec [OF ok buf run, of no_drops]])
    (auto simp: no_drops_def compact_from_def unpark_def)

end
