(* ===== verification/GC_Semantics.thy ===== *)
theory GC_Semantics
  imports GC_Free
begin

text \<open>
  What the collector promises, on the heap before and after a collection: which blocks go, that
  nothing in use does, that the counts of the survivors are again those of the references left,
  and that a closed structure nothing else refers to is reclaimed.
\<close>

section \<open>Garbage\<close>

lemma garbage_sub: "garbage h X \<subseteq> marked h X"
  by (auto simp: garbage_def)

lemma rc_unat: "h p = Some c \<Longrightarrow> rc_at h p = c_rc c"
  by (simp add: rc_at_def)

lemma held_iff:
  assumes ok: "heap_ok h" and G: "G \<subseteq> live_cells h"
  shows "held h G p \<longleftrightarrow> indeg h G p < unat (rc_at h p)"
proof -
  have "indeg h G p \<le> indeg h (live_cells h) p" by (rule indeg_mono [OF finite_live [OF ok] G])
  also have "\<dots> \<le> unat (rc_at h p)" by (rule heap_okD(4) [OF ok])
  finally have le: "indeg h G p \<le> unat (rc_at h p)" .
  have "rc_at h p = of_nat (indeg h G p) \<longleftrightarrow> unat (rc_at h p) = indeg h G p"
    by (simp add: word_unat_eq_iff le_unat_uoi [OF le])
  then show ?thesis using le by (auto simp: held_def)
qed

text \<open>A live cell outside of the marked ones that refers to a marked cell keeps it.\<close>

lemma outside_holds:
  assumes ok: "heap_ok h" and p: "p \<in> live_cells h" "p \<notin> marked h X" and q: "q \<in> set (edges h p)"
  shows "held h (marked h X) q"
proof -
  let ?G = "marked h X"
  have GL: "?G \<subseteq> live_cells h" by (rule marked_live [OF ok])
  have fin: "finite ?G" by (rule finite_marked [OF ok])
  have "indeg h (?G \<union> {p}) q = indeg h ?G q + indeg h {p} q"
    by (rule indeg_Un [OF fin]) (use p in auto)
  moreover have "0 < indeg h {p} q" by (rule indeg_edge) (use q in auto)
  moreover have "indeg h (?G \<union> {p}) q \<le> indeg h (live_cells h) q"
    by (rule indeg_mono [OF finite_live [OF ok]]) (use GL p in auto)
  moreover have "indeg h (live_cells h) q \<le> unat (rc_at h q)" by (rule heap_okD(4) [OF ok])
  ultimately show ?thesis by (simp add: held_iff [OF ok GL])
qed

lemma not_garbage: "q \<in> marked h X \<Longrightarrow> held h (marked h X) q \<Longrightarrow> p \<in> reach h q \<Longrightarrow> p \<notin> garbage h X"
  by (auto simp: garbage_def)

lemma garbage_pred:
  assumes ok: "heap_ok h" and p: "p \<in> live_cells h" and q: "q \<in> set (edges h p)" "q \<in> garbage h X"
  shows "p \<in> garbage h X"
proof (rule ccontr)
  assume n: "p \<notin> garbage h X"
  have qG: "q \<in> marked h X" using q(2) garbage_sub by blast
  show False
  proof (cases "p \<in> marked h X")
    case True
    then obtain r where r: "r \<in> marked h X" "held h (marked h X) r" "p \<in> reach h r" using n by (auto simp: garbage_def)
    then show False using not_garbage [OF r(1,2) reach_step [OF r(3) q(1)]] q(2) by blast
  next
    case False
    then show False using not_garbage [OF qG outside_holds [OF ok p False q(1)]] q(2) by simp
  qed
qed

text \<open>The references to a cell that no walkable live cell holds: those of stack slots, of globals and
  of blocks outside the walk. A walkable cell with such a reference, and what it reaches
  through walkable cells, is in use.\<close>

definition outside :: "gc_heap \<Rightarrow> u64 \<Rightarrow> nat" where
  "outside h p = unat (rc_at h p) - indeg h (live_cells h) p"

definition in_use :: "gc_heap \<Rightarrow> u64 \<Rightarrow> bool" where
  "in_use h p = (\<exists>q\<in>live_cells h. can_walk h q \<and> 0 < outside h q \<and> p \<in> reach h q)"

lemma in_use_kept:
  assumes ok: "heap_ok h" and use: "in_use h p"
  shows "p \<notin> garbage h X" "p \<notin> parked h X" "p \<in> live_cells h"
proof -
  from use obtain q where q: "q \<in> live_cells h" "0 < outside h q" "p \<in> reach h q" by (auto simp: in_use_def)
  have qn: "q \<notin> garbage h X"
  proof
    assume g: "q \<in> garbage h X"
    then have G: "q \<in> marked h X" using garbage_sub by blast
    have "indeg h (marked h X) q \<le> indeg h (live_cells h) q"
      by (rule indeg_mono [OF finite_live [OF ok] marked_live [OF ok]])
    then have "held h (marked h X) q" using q(2) by (simp add: outside_def held_iff [OF ok marked_live [OF ok]])
    then show False using not_garbage [OF G _ reach_refl] g by blast
  qed
  have "closed_under h (live_cells h - garbage h X)"
    using live_closed [OF ok] garbage_pred [OF ok] by (auto simp: closed_under_def)
  then have "reach h q \<subseteq> live_cells h - garbage h X" using q(1) qn by (intro reach_least) auto
  then show "p \<notin> garbage h X" "p \<in> live_cells h" using q(3) by auto
  then show "p \<notin> parked h X" using parked_dead by blast
qed

section \<open>The heap after a collection\<close>

lemma survivor_fields [simp]:
  "c_rc (survivor h X p c) = c_rc c - of_nat (indeg h (garbage h X) p)"
  "static_literal (survivor h X p c) = static_literal c" "walkable (survivor h X p c) = walkable c"
  "children (survivor h X p c) = children c"
  "color_of (survivor h X p c) = (if p \<in> marked h X then COLOR_BLACK else color_of c)"
  "buffered (survivor h X p c) \<longleftrightarrow> buffered c \<and> p \<notin> X"
  by (simp_all add: survivor_def Let_def)

lemma collected_Some: "collected h X p = Some d \<Longrightarrow> \<exists>c. h p = Some c \<and> d = survivor h X p c \<and> p \<notin> parked h X \<and> p \<notin> garbage h X"
  by (auto simp: collected_def split: if_splits)

lemma indeg_garbage_le:
  assumes ok: "heap_ok h"
  shows "indeg h (garbage h X) p \<le> unat (rc_at h p)"
    "unat (rc_at h p - of_nat (indeg h (garbage h X) p)) = unat (rc_at h p) - indeg h (garbage h X) p"
proof -
  have "garbage h X \<subseteq> live_cells h" using garbage_sub marked_live [OF ok] by blast
  then have "indeg h (garbage h X) p \<le> indeg h (live_cells h) p" by (rule indeg_mono [OF finite_live [OF ok]])
  then show le: "indeg h (garbage h X) p \<le> unat (rc_at h p)" using heap_okD(4) [OF ok, of p] by linarith
  then have "unat (of_nat (indeg h (garbage h X) p) :: u32) = indeg h (garbage h X) p"
    by (metis le_unat_uoi)
  then show "unat (rc_at h p - of_nat (indeg h (garbage h X) p)) = unat (rc_at h p) - indeg h (garbage h X) p"
    using le by (simp add: unat_sub word_le_nat_alt)
qed

lemma live_collected:
  assumes ok: "heap_ok h"
  shows "live_cells (collected h X) = live_cells h - garbage h X"
proof
  show "live_cells (collected h X) \<subseteq> live_cells h - garbage h X"
  proof
    fix p assume "p \<in> live_cells (collected h X)"
    then obtain c where c: "h p = Some c" "p \<notin> garbage h X" "c_rc c - of_nat (indeg h (garbage h X) p) \<noteq> 0 \<or> static_literal c"
      using collected_Some [of h X p] by (auto simp: live_cells_def)
    have "c_rc c \<noteq> 0 \<or> static_literal c"
      using c(3) indeg_garbage_le(1) [OF ok, of X p] c(1) by (auto simp: rc_unat)
    then show "p \<in> live_cells h - garbage h X" using c(1,2) by (simp add: live_cells_def)
  qed
  show "live_cells h - garbage h X \<subseteq> live_cells (collected h X)"
  proof
    fix p assume p: "p \<in> live_cells h - garbage h X"
    then obtain c where c: "h p = Some c" "c_rc c \<noteq> 0 \<or> static_literal c" by (auto simp: live_cells_def)
    have cc: "collected h X p = Some (survivor h X p c)"
      using p c(1) parked_dead [of h X] by (auto simp: collected_def)
    show "p \<in> live_cells (collected h X)"
    proof (cases "static_literal c")
      case False
      have finG: "finite (marked h X)" by (rule finite_marked [OF ok])
      have finW: "finite (garbage h X)" using garbage_sub finG by (rule finite_subset)
      have lt: "indeg h (garbage h X) p < unat (c_rc c)"
      proof (cases "p \<in> marked h X")
        case True
        then obtain q where q: "q \<in> marked h X" "held h (marked h X) q" "p \<in> reach h q" using p by (auto simp: garbage_def)
        show ?thesis
        proof (cases "q = p")
          case True
          have "indeg h (garbage h X) p \<le> indeg h (marked h X) p" by (rule indeg_mono [OF finG garbage_sub])
          then show ?thesis using q(2) True c(1) by (simp add: held_iff [OF ok marked_live [OF ok]] rc_unat)
        next
          case False
          then have "(q, p) \<in> {(x, y). y \<in> set (edges h x)}\<^sup>+" using q(3) by (auto simp: reach_def dest: rtranclD)
          then obtain r where "(q, r) \<in> {(x, y). y \<in> set (edges h x)}\<^sup>*" "p \<in> set (edges h r)"
            by (auto dest: tranclD2)
          then have r: "r \<in> reach h q" "p \<in> set (edges h r)" by (auto simp: reach_def)
          have rB: "r \<notin> garbage h X" by (rule not_garbage [OF q(1,2) r(1)])
          have rG: "r \<in> marked h X" using reach_least [OF q(1) marked_closed] r(1) by blast
          have "indeg h (garbage h X \<union> {r}) p = indeg h (garbage h X) p + indeg h {r} p"
            by (rule indeg_Un [OF finW]) (use rB in auto)
          moreover have "0 < indeg h {r} p" by (rule indeg_edge) (use r in auto)
          moreover have "indeg h (garbage h X \<union> {r}) p \<le> indeg h (live_cells h) p"
            by (rule indeg_mono [OF finite_live [OF ok]]) (use rG garbage_sub marked_live [OF ok] in blast)
          moreover have "indeg h (live_cells h) p \<le> unat (c_rc c)" using heap_okD(4) [OF ok, of p] c(1) by (simp add: rc_unat)
          ultimately show ?thesis by linarith
        qed
      next
        case nG: False
        have "indeg h (garbage h X) p \<le> indeg h (marked h X) p" by (rule indeg_mono [OF finG garbage_sub])
        also have "\<dots> = 0" by (rule indeg_outside [OF marked_closed nG])
        finally have "indeg h (garbage h X) p = 0" by simp
        then show ?thesis using c(2) False by (simp add: unat_gt_0)
      qed
      then have "unat (c_rc c - of_nat (indeg h (garbage h X) p)) \<noteq> 0"
        using indeg_garbage_le(2) [OF ok, of p X] c(1) by (simp add: rc_unat)
      then have "c_rc c - of_nat (indeg h (garbage h X) p) \<noteq> 0" by (metis unat_0)
      then show ?thesis using cc by (simp add: live_cells_def)
    qed (use cc in \<open>simp add: live_cells_def\<close>)
  qed
qed

lemma edges_collected:
  assumes ok: "heap_ok h" and p: "p \<in> live_cells h - garbage h X"
  shows "edges (collected h X) p = edges h p"
proof -
  obtain c where c: "h p = Some c" using p by (auto simp: live_cells_def)
  have cc: "collected h X p = Some (survivor h X p c)"
    using p c parked_dead [of h X] by (auto simp: collected_def)
  show ?thesis
  proof (cases "walkable c")
    case True
    have "can_walk (collected h X) w = can_walk h w" if w: "w \<in> set (map snd (children c))" for w
    proof -
      have wl: "w \<in> live_cells h" using heap_okD(3) [OF ok _ c True] p w by auto
      show ?thesis
      proof (cases "can_walk h w")
        case walk: True
        then have "w \<in> set (edges h p)" using c True w by (simp add: edges_def)
        then have "w \<notin> garbage h X" using garbage_pred [OF ok, of p w X] p by blast
        moreover have "w \<notin> parked h X" using wl parked_dead by blast
        ultimately show ?thesis using walk by (auto simp: can_walk_def collected_def split: option.splits)
      next
        case False
        then show ?thesis by (auto simp: can_walk_def collected_def split: option.splits)
      qed
    qed
    then have "filter (can_walk (collected h X)) (map snd (children c)) = filter (can_walk h) (map snd (children c))"
      by (rule filter_cong [OF refl])
    then show ?thesis using c cc True by (simp add: edges_def)
  qed (use c cc in \<open>simp add: edges_def\<close>)
qed

lemma indeg_collected:
  assumes ok: "heap_ok h"
  shows "indeg (collected h X) (live_cells (collected h X)) p + indeg h (garbage h X) p = indeg h (live_cells h) p"
proof -
  have W: "garbage h X \<subseteq> live_cells h" using garbage_sub marked_live [OF ok] by blast
  have fin: "finite (live_cells h)" by (rule finite_live [OF ok])
  have "indeg (collected h X) (live_cells (collected h X)) p = indeg h (live_cells h - garbage h X) p"
    unfolding live_collected [OF ok] by (rule indeg_cong) (rule edges_collected [OF ok])
  moreover have "indeg h ((live_cells h - garbage h X) \<union> garbage h X) p =
      indeg h (live_cells h - garbage h X) p + indeg h (garbage h X) p"
    by (rule indeg_Un) (use fin W finite_subset in auto)
  moreover have "(live_cells h - garbage h X) \<union> garbage h X = live_cells h" using W by blast
  ultimately show ?thesis by simp
qed

lemma collected_ok:
  assumes ok: "heap_ok h"
  shows "heap_ok (collected h X)"
  unfolding heap_ok_def
proof (intro conjI ballI allI impI)
  have dom: "dom (collected h X) \<subseteq> dom h" using collected_Some [of h X] by blast
  then show "finite (dom (collected h X))" using heap_okD(1) [OF ok] by (rule finite_subset)
  show "nan_box_is_cell_like p" if "p \<in> dom (collected h X)" for p using that dom heap_okD(2) [OF ok] by blast
next
  fix p d assume p: "p \<in> live_cells (collected h X)" "collected h X p = Some d" and walk: "walkable d"
  have pl: "p \<in> live_cells h - garbage h X" using p(1) live_collected [OF ok] by blast
  obtain c where c: "h p = Some c" "d = survivor h X p c" using collected_Some [OF p(2)] by blast
  then have wc: "walkable c" using walk by simp
  have "w \<notin> garbage h X" if w: "w \<in> snd ` set (children c)" for w
  proof
    assume g: "w \<in> garbage h X"
    then have "can_walk h w" using garbage_sub marked_walk [OF ok] by blast
    then have "w \<in> set (edges h p)" using c(1) wc w by (simp add: edges_def)
    then show False using garbage_pred [OF ok, of p w X] pl g by blast
  qed
  then show "snd ` set (children d) \<subseteq> live_cells (collected h X)"
    unfolding live_collected [OF ok] using heap_okD(3) [OF ok _ c(1) wc] pl c(2) by auto
next
  fix p
  show "indeg (collected h X) (live_cells (collected h X)) p \<le> unat (rc_at (collected h X) p)"
  proof (cases "collected h X p")
    case (Some d)
    then obtain c where c: "h p = Some c" "d = survivor h X p c" using collected_Some by blast
    have "unat (rc_at (collected h X) p) = unat (rc_at h p) - indeg h (garbage h X) p"
      using indeg_garbage_le(2) [OF ok, of p X] Some c by (simp add: rc_unat)
    then show ?thesis using indeg_collected [OF ok, of X p] heap_okD(4) [OF ok, of p] by linarith
  next
    case None
    have "p \<notin> set (edges (collected h X) q)" for q
      using can_walk_edges [of p "collected h X" q] None by (auto simp: can_walk_def)
    then show ?thesis by (simp add: indeg_def count_list_pos)
  qed
next
  fix p
  show "color_at (collected h X) p \<in> {COLOR_BLACK, COLOR_PURPLE}"
    using heap_okD(5) [OF ok, of p] collected_Some [of h X p]
    by (cases "collected h X p") (auto simp: color_at_def split: if_splits)
qed


text \<open>A set of marked cells that holds all the references to its members is garbage.\<close>

lemma isolated_garbage:
  assumes ok: "heap_ok h" and Y: "Y \<subseteq> marked h X" "\<And>p. p \<in> Y \<Longrightarrow> unat (rc_at h p) = indeg h Y p"
  shows "Y \<subseteq> garbage h X"
proof
  fix p assume p: "p \<in> Y"
  have YL: "Y \<subseteq> live_cells h" using Y(1) marked_live [OF ok] by blast
  have finL: "finite (live_cells h)" by (rule finite_live [OF ok])
  have finY: "finite Y" using YL finL by (rule finite_subset)
  have pred: "r \<in> Y" if "r \<in> live_cells h" "q \<in> set (edges h r)" "q \<in> Y" for q r
  proof (rule ccontr)
    assume n: "r \<notin> Y"
    have "indeg h (Y \<union> {r}) q = indeg h Y q + indeg h {r} q" by (rule indeg_Un [OF finY]) (use n in auto)
    moreover have "0 < indeg h {r} q" by (rule indeg_edge) (use that in auto)
    moreover have "indeg h (Y \<union> {r}) q \<le> indeg h (live_cells h) q" by (rule indeg_mono [OF finL]) (use YL that in auto)
    ultimately show False using heap_okD(4) [OF ok, of q] Y(2) [OF that(3)] by linarith
  qed
  have bk: "p \<in> Y \<longrightarrow> q \<in> Y" if "q \<in> live_cells h" "p \<in> reach h q" for q
  proof -
    have "closed_under h {x \<in> live_cells h. x \<in> Y \<longrightarrow> q \<in> Y}"
      using live_closed [OF ok] pred by (auto simp: closed_under_def)
    then have "reach h q \<subseteq> {x \<in> live_cells h. x \<in> Y \<longrightarrow> q \<in> Y}" using that(1) by (intro reach_least) auto
    then show ?thesis using that(2) by blast
  qed
  show "p \<in> garbage h X"
  proof (rule ccontr)
    assume "p \<notin> garbage h X"
    then obtain q where q: "q \<in> marked h X" "held h (marked h X) q" "p \<in> reach h q"
      using p Y(1) by (auto simp: garbage_def)
    then have "q \<in> Y" using bk [of q] p marked_live [OF ok] by blast
    then have "unat (rc_at h q) = indeg h Y q" by (rule Y(2))
    also have "\<dots> \<le> indeg h (marked h X) q" by (rule indeg_mono [OF finite_marked [OF ok] Y(1)])
    finally show False using q(2) by (simp add: held_iff [OF ok marked_live [OF ok]])
  qed
qed

text \<open>When every walkable live cell was marked, what is not garbage is in use.\<close>

lemma garbage_exact:
  assumes ok: "heap_ok h" and all: "{p \<in> live_cells h. can_walk h p} \<subseteq> marked h X"
  shows "garbage h X = {p \<in> marked h X. \<not> in_use h p}"
proof
  show "garbage h X \<subseteq> {p \<in> marked h X. \<not> in_use h p}" using garbage_sub in_use_kept(1) [OF ok] by blast
  have fin: "finite (live_cells h)" by (rule finite_live [OF ok])
  have G: "marked h X \<subseteq> live_cells h" by (rule marked_live [OF ok])
  have "indeg h (live_cells h - marked h X) q = 0" for q
  proof -
    have "edges h p = []" if "p \<in> live_cells h - marked h X" for p
    proof (cases "h p")
      case (Some c)
      then have "nan_box_is_cell_like p" using heap_okD(2) [OF ok, of p] by blast
      then have "\<not> walkable c" using all that Some by (auto simp: can_walk_def)
      then show ?thesis using Some by (simp add: edges_def)
    qed (simp add: edges_def)
    then show ?thesis by (simp add: indeg_def)
  qed
  moreover have "indeg h ((live_cells h - marked h X) \<union> marked h X) q = indeg h (live_cells h - marked h X) q + indeg h (marked h X) q" for q
    by (rule indeg_Un) (use fin G finite_subset in auto)
  moreover have "(live_cells h - marked h X) \<union> marked h X = live_cells h" using G by blast
  ultimately have same: "indeg h (live_cells h) q = indeg h (marked h X) q" for q by simp
  show "{p \<in> marked h X. \<not> in_use h p} \<subseteq> garbage h X"
  proof clarify
    fix p assume p: "p \<in> marked h X" "\<not> in_use h p"
    have "\<not> held h (marked h X) q \<or> p \<notin> reach h q" if "q \<in> marked h X" for q
      using p(2) that G same [of q] marked_walk [OF ok that] by (auto simp: in_use_def outside_def held_iff [OF ok G])
    then show "p \<in> garbage h X" using p(1) by (auto simp: garbage_def)
  qed
qed

section \<open>The collector between collections\<close>

text \<open>A cell is in the buffer once, exactly if its \<open>BUFFERED\<close> bit is set.\<close>

definition gc_ok :: "gc_state \<Rightarrow> bool" where
  "gc_ok s = (heap_ok (gc_heap s) \<and> buffer_ok (gc_heap s) (gc_buffer s) \<and> \<not> gc_in_collect s \<and>
     (\<forall>p c. p \<noteq> 0 \<longrightarrow> gc_heap s p = Some c \<longrightarrow> (buffered c \<longleftrightarrow> p \<in> set (gc_buffer s))))"

lemma gc_okD:
  assumes "gc_ok s"
  shows "heap_ok (gc_heap s)" "buffer_ok (gc_heap s) (gc_buffer s)" "\<not> gc_in_collect s"
    "\<And>p c. p \<noteq> 0 \<Longrightarrow> gc_heap s p = Some c \<Longrightarrow> buffered c \<longleftrightarrow> p \<in> set (gc_buffer s)"
  using assms by (auto simp: gc_ok_def)

text \<open>Updates of a header that leave count, shape and slots leave the graph.\<close>

lemma upd_graph:
  assumes "h p = Some c" "walkable d = walkable c" "children d = children c"
  shows "can_walk (h(p \<mapsto> d)) q = can_walk h q" "edges (h(p \<mapsto> d)) q = edges h q"
proof -
  show w: "can_walk (h(p \<mapsto> d)) q = can_walk h q" for q using assms by (simp add: can_walk_def)
  then have "can_walk (h(p \<mapsto> d)) = can_walk h" by blast
  then show "edges (h(p \<mapsto> d)) q = edges h q" using assms by (cases "q = p") (simp_all add: edges_def split: option.split)
qed

lemma upd_heap_ok:
  assumes ok: "heap_ok h" and c: "h p = Some c"
    and d: "walkable d = walkable c" "children d = children c" "c_rc d = c_rc c" "static_literal d = static_literal c"
      "color_of d \<in> {COLOR_BLACK, COLOR_PURPLE}"
  shows "heap_ok (h(p \<mapsto> d))"
proof -
  have live: "live_cells (h(p \<mapsto> d)) = live_cells h" using c d by (auto simp: live_cells_def)
  have deg: "indeg (h(p \<mapsto> d)) (live_cells h) q = indeg h (live_cells h) q" for q
    using upd_graph(2) [where d = d and h = h and p = p and c = c, OF c d(1,2)] by (simp add: indeg_def)
  have rc: "rc_at (h(p \<mapsto> d)) q = rc_at h q" for q using c d by (simp add: rc_at_def)
  have col: "color_at (h(p \<mapsto> d)) q \<in> {COLOR_BLACK, COLOR_PURPLE}" for q
    using heap_okD(5) [OF ok, of q] d(5) by (auto simp: color_at_def)
  have ch: "snd ` set (children e) \<subseteq> live_cells h" if "q \<in> live_cells h" "(h(p \<mapsto> d)) q = Some e" "walkable e" for q e
    using heap_okD(3) [OF ok that(1)] that c d by (auto split: if_splits)
  have dom: "finite (dom (h(p \<mapsto> d)))" "\<forall>q\<in>dom (h(p \<mapsto> d)). nan_box_is_cell_like q"
    using heap_okD(1,2) [OF ok] c by auto
  show ?thesis unfolding heap_ok_def live deg rc
    using dom ch col heap_okD(4) [OF ok] by (intro conjI ballI allI impI) auto
qed

lemma or_buffered [simp]:
  "color_of (c\<lparr>c_flags := c_flags c OR FLAG_BUFFERED\<rparr>) = color_of c"
  "static_literal (c\<lparr>c_flags := c_flags c OR FLAG_BUFFERED\<rparr>) = static_literal c"
  "buffered (c\<lparr>c_flags := c_flags c OR FLAG_BUFFERED\<rparr>)"
proof -
  have m: "FLAG_BUFFERED AND COLOR_MASK = 0" "FLAG_BUFFERED AND FLAG_STATIC_LITERAL = 0" "FLAG_BUFFERED \<noteq> 0"
    by (simp_all add: COLOR_MASK_def FLAG_STATIC_LITERAL_def FLAG_BUFFERED_def)
  show "color_of (c\<lparr>c_flags := c_flags c OR FLAG_BUFFERED\<rparr>) = color_of c"
    "static_literal (c\<lparr>c_flags := c_flags c OR FLAG_BUFFERED\<rparr>) = static_literal c"
    using m by (simp_all add: color_of_def static_literal_def bit.conj_disj_distrib2)
  show "buffered (c\<lparr>c_flags := c_flags c OR FLAG_BUFFERED\<rparr>)"
    using m by (simp add: buffered_def bit.conj_disj_distrib2 or_eq_0_iff)
qed

lemma collect_idle: "gc_buffer s = [] \<Longrightarrow> cycle_collect s = Some s"
  by (simp add: cycle_collect_def collect_with_def)

lemma collect_ok:
  assumes ok: "gc_ok s"
  shows "wp (cycle_collect s) gc_ok"
proof (cases "gc_buffer s = []")
  case True
  then show ?thesis using ok by (simp add: collect_idle)
next
  case False
  show ?thesis
  proof (rule wp_mono [OF collect_spec [OF gc_okD(1,2) [OF ok] False gc_okD(3) [OF ok]]])
    fix s' :: gc_state assume s': "gc_heap s' = collected (gc_heap s) (set (gc_buffer s)) \<and> gc_buffer s' = [] \<and> \<not> gc_in_collect s' \<and>
        gc_live s' = 0 \<and> gc_threshold s' = retune_threshold (gc_live s + of_nat (card (marked (gc_heap s) (set (gc_buffer s)) - garbage (gc_heap s) (set (gc_buffer s))))) \<and>
        mset (gc_log s') = mset (gc_log s) + image_mset FreeParked (mset_set (parked (gc_heap s) (set (gc_buffer s)))) +
        (\<Sum>p\<in>garbage (gc_heap s) (set (gc_buffer s)). mset (corpse_events (gc_heap s) p))"
    have "\<not> buffered d" if "p \<noteq> 0" "gc_heap s' p = Some d" for p d
      using that s' collected_Some [of "gc_heap s" "set (gc_buffer s)" p d] gc_okD(4) [OF ok] by auto
    then show "gc_ok s'" using s' collected_ok [OF gc_okD(1) [OF ok]] by (auto simp: gc_ok_def buffer_ok_def)
  qed
qed

lemma buffer_step_ok:
  assumes ok: "gc_ok s"
  shows "gc_heap s p \<noteq> None \<Longrightarrow> wp (cycle_buffer p s) gc_ok"
proof -
  assume "gc_heap s p \<noteq> None"
  then obtain c where c: "gc_heap s p = Some c" by blast
  define d where "d = (set_color COLOR_PURPLE c)\<lparr>c_flags := c_flags (set_color COLOR_PURPLE c) OR FLAG_BUFFERED\<rparr>"
  define t where "t = s\<lparr>gc_heap := (gc_heap s)(p \<mapsto> d), gc_buffer := gc_buffer s @ [p]\<rparr>"
  have d: "walkable d = walkable c" "children d = children c" "c_rc d = c_rc c" "static_literal d = static_literal c"
    "color_of d = COLOR_PURPLE" "buffered d"
    by (simp_all add: d_def children_def) (rule walkable_cong; simp)
  have "gc_ok t" if "nan_box_is_cell_like p" "\<not> buffered c"
  proof -
    have p0: "p \<noteq> 0" "p \<notin> set (gc_buffer s)" using that gc_okD(4) [OF ok _ c] by (auto simp: nan_box_is_cell_like_def)
    have "heap_ok (gc_heap t)" using upd_heap_ok [OF gc_okD(1) [OF ok] c d(1-4)] d(5) by (simp add: t_def)
    moreover have "buffer_ok (gc_heap t) (gc_buffer t)"
      using gc_okD(2) [OF ok] p0 by (auto simp: buffer_ok_def t_def)
    ultimately show ?thesis using gc_okD(3,4) [OF ok] d(6) p0 by (auto simp: gc_ok_def t_def)
  qed
  then show ?thesis
    using ok collect_ok [of t] c by (auto simp: cycle_buffer_def Let_def t_def d_def wp_simps)
qed

text \<open>Taking a cell out of the buffer.\<close>

lemma last_slot_Some: "last_slot p buf n = Some i \<Longrightarrow> i < n \<and> buf ! i = p"
  by (induction n) (auto split: if_splits)

lemma last_slot_None: "last_slot p buf n = None \<Longrightarrow> j < n \<Longrightarrow> buf ! j \<noteq> p"
  by (induction n) (auto split: if_splits simp: less_Suc_eq)

lemma trim_tail_filter: "filter (\<lambda>p. p \<noteq> 0) (trim_tail buf) = filter (\<lambda>p. p \<noteq> 0) buf"
proof -
  have "filter P (dropWhile (\<lambda>x. \<not> P x) xs) = filter P xs" for P and xs :: "u64 list" by (induction xs) auto
  from this [of "\<lambda>p. p \<noteq> 0" "rev buf"] show ?thesis by (simp add: trim_tail_def rev_filter [symmetric])
qed

lemma emptied_slot:
  assumes i: "i < length buf" "buf ! i = p" and p: "p \<noteq> 0" and d: "distinct (filter (\<lambda>p. p \<noteq> 0) buf)"
  shows "distinct (filter (\<lambda>p. p \<noteq> 0) (buf[i := 0]))"
    "set (filter (\<lambda>p. p \<noteq> 0) (buf[i := 0])) = set (filter (\<lambda>p. p \<noteq> 0) buf) - {p}"
proof -
  have b: "buf = take i buf @ p # drop (Suc i) buf" using i id_take_nth_drop by metis
  have u: "buf[i := 0] = take i buf @ 0 # drop (Suc i) buf" using i(1) by (rule upd_conv_take_nth_drop)
  define xs ys where "xs = filter (\<lambda>p. p \<noteq> 0) (take i buf)" and "ys = filter (\<lambda>p. p \<noteq> 0) (drop (Suc i) buf)"
  have f: "filter (\<lambda>p. p \<noteq> 0) buf = xs @ p # ys" using p by (subst b) (simp add: xs_def ys_def)
  have g: "filter (\<lambda>p. p \<noteq> 0) (buf[i := 0]) = xs @ ys" by (simp add: u xs_def ys_def)
  show "distinct (filter (\<lambda>p. p \<noteq> 0) (buf[i := 0]))"
    "set (filter (\<lambda>p. p \<noteq> 0) (buf[i := 0])) = set (filter (\<lambda>p. p \<noteq> 0) buf) - {p}"
    using d unfolding f g by auto
qed

lemma gc_ok_filter:
  assumes "heap_ok (gc_heap s)" "\<not> gc_in_collect s" "distinct (filter (\<lambda>p. p \<noteq> 0) (gc_buffer s))"
    "set (filter (\<lambda>p. p \<noteq> 0) (gc_buffer s)) \<subseteq> dom (gc_heap s)"
    "\<And>p c. p \<noteq> 0 \<Longrightarrow> gc_heap s p = Some c \<Longrightarrow> buffered c \<longleftrightarrow> p \<in> set (filter (\<lambda>p. p \<noteq> 0) (gc_buffer s))"
  shows "gc_ok s"
  using assms by (auto simp: gc_ok_def buffer_ok_def)

lemma unbuffer_step_ok:
  assumes ok: "gc_ok s" and alive: "gc_heap s p \<noteq> None"
  shows "wp (cycle_unbuffer p s) (\<lambda>s'. gc_ok s' \<and> (p \<noteq> 0 \<longrightarrow> p \<notin> set (gc_buffer s')))"
proof -
  obtain c where c: "gc_heap s p = Some c" using alive by blast
  consider (skip) "p = 0" | (clean) "p \<noteq> 0" "\<not> buffered c" | (queued) "p \<noteq> 0" "buffered c" by blast
  then show ?thesis
  proof cases
    case skip
    then show ?thesis using ok by (simp add: cycle_unbuffer_def)
  next
    case clean
    then show ?thesis using ok c gc_okD(4) [OF ok clean(1) c] by (simp add: cycle_unbuffer_def)
  next
    case queued
    let ?h = "(gc_heap s)(p \<mapsto> clear_buffered c)"
    have pin: "p \<in> set (gc_buffer s)" using gc_okD(4) [OF ok queued(1) c] queued(2) by simp
    obtain i where l: "last_slot p (gc_buffer s) (length (gc_buffer s)) = Some i"
      using last_slot_None pin by (metis in_set_conv_nth option.exhaust)
    note i = last_slot_Some [OF l]
    define buf where "buf = (gc_buffer s)[i := 0]"
    define t where "t = s\<lparr>gc_heap := ?h, gc_buffer := trim_tail buf\<rparr>"
    have run: "cycle_unbuffer p s = Some t"
      using queued c l gc_okD(3) [OF ok] by (simp add: cycle_unbuffer_def t_def buf_def Let_def)
    have dist: "distinct (filter (\<lambda>p. p \<noteq> 0) (gc_buffer s))" using gc_okD(2) [OF ok] by (simp add: buffer_ok_def)
    note e = emptied_slot [OF conjunct1 [OF i] conjunct2 [OF i] queued(1) dist, folded buf_def, folded trim_tail_filter [of buf]]
    have "heap_ok ?h"
      by (rule upd_heap_ok [OF gc_okD(1) [OF ok] c]) (use heap_okD(5) [OF gc_okD(1) [OF ok], of p] c in \<open>simp_all add: color_at_def\<close>)
    moreover have "set (filter (\<lambda>p. p \<noteq> 0) (gc_buffer s)) \<subseteq> dom (gc_heap s)"
      using gc_okD(2) [OF ok] by (auto simp: buffer_ok_def)
    moreover have "buffered d \<longleftrightarrow> q \<in> set (filter (\<lambda>p. p \<noteq> 0) (gc_buffer s)) - {p}"
      if "q \<noteq> 0" "?h q = Some d" for q d
      using that gc_okD(4) [OF ok that(1)] by (cases "q = p") auto
    ultimately have "gc_ok t"
      using gc_okD(3) [OF ok] e by (intro gc_ok_filter) (simp_all add: t_def, blast)
    moreover have "p \<notin> set (trim_tail buf)" using e(2) queued(1) by auto
    ultimately show ?thesis by (simp add: run t_def)
  qed
qed


lemmas gc_collect_spec = collect_spec [OF gc_okD(1) gc_okD(2) _ gc_okD(3)]

lemma gc_collect_heap:
  assumes ok: "gc_ok s" and buf: "gc_buffer s \<noteq> []"
  shows "wp (cycle_collect s) (\<lambda>s'. gc_heap s' = collected (gc_heap s) (set (gc_buffer s)))"
  using gc_collect_spec [OF ok ok buf ok] by (rule wp_mono) blast



section \<open>A concrete heap\<close>

text \<open>A class instance in a ring with a dictionary; it also owns a text. The dictionary has \<open>r\<close>
  references; one is the ring's.\<close>

definition ring :: "u32 \<Rightarrow> gc_heap" where
  "ring r = [8 \<mapsto> \<lparr>c_rc = 1, c_tag = TAG_OBJ, c_flags = COLOR_PURPLE OR FLAG_BUFFERED, c_shape = AlwaysWalked,
               c_slots = [16, 0, 24], c_owned = [], c_named = True\<rparr>,
             16 \<mapsto> \<lparr>c_rc = r, c_tag = TAG_DYNOBJ, c_flags = 0, c_shape = AlwaysWalked,
               c_slots = [8], c_owned = [32], c_named = False\<rparr>,
             24 \<mapsto> \<lparr>c_rc = 1, c_tag = 0, c_flags = 0, c_shape = NeverWalked,
               c_slots = [], c_owned = [], c_named = False\<rparr>]"

definition ring_state :: "u32 \<Rightarrow> gc_state" where
  "ring_state r = \<lparr>gc_heap = ring r, gc_buffer = [8], gc_threshold = CYCLE_AUTO_COLLECT_THRESHOLD, gc_live = 0,
     gc_in_collect = False, gc_log = []\<rparr>"

lemmas flag_defs = color_defs COLOR_MASK_def FLAG_BUFFERED_def FLAG_STATIC_LITERAL_def

lemma ring_edges [simp]: "edges (ring r) 8 = [16]" "edges (ring r) 16 = [8]" "edges (ring r) 24 = []"
  by (simp_all add: edges_def can_walk_def ring_def children_def enumerate_eq_zip walkable_def static_literal_def flag_defs nan_box_is_cell_like_def)

lemma ring_dom [simp]: "dom (ring r) = {8, 16, 24}"
  by (auto simp: ring_def)

lemma ring_live: "r \<noteq> 0 \<Longrightarrow> live_cells (ring r) = {8, 16, 24}"
  by (auto simp: live_cells_def ring_def split: if_splits)

lemma ring_rc: "rc_at (ring r) 8 = 1" "rc_at (ring r) 16 = r" "rc_at (ring r) 24 = 1"
  by (simp_all add: rc_at_def ring_def)

lemma ring_heap_ok: "r \<noteq> 0 \<Longrightarrow> heap_ok (ring r)"
proof -
  assume r: "r \<noteq> 0"
  have "1 \<le> unat r" using r by (simp add: Suc_le_eq unat_gt_0)
  then have deg: "indeg (ring r) {8, 16, 24} q \<le> unat (rc_at (ring r) q)" for q
    by (cases "q = 8 \<or> q = 16") (auto simp: indeg_def ring_rc)
  have ch: "snd ` set (children c) \<subseteq> {8, 16, 24}" if "ring r p = Some c" for p c
    using that by (auto simp: ring_def children_def enumerate_eq_zip split: if_splits)
  have col: "color_at (ring r) p \<in> {COLOR_BLACK, COLOR_PURPLE}" for p
    by (auto simp: color_at_def color_of_def ring_def flag_defs)
  have "\<forall>p\<in>{8, 16, 24 :: u64}. nan_box_is_cell_like p" by (simp add: nan_box_is_cell_like_def)
  then show ?thesis unfolding heap_ok_def ring_live [OF r] ring_dom using deg ch col by blast
qed

lemma ring_ok: "r \<noteq> 0 \<Longrightarrow> gc_ok (ring_state r)"
  using ring_heap_ok
  by (auto simp: gc_ok_def ring_state_def buffer_ok_def) (auto simp: ring_def buffered_def flag_defs split: if_splits)

lemma ring_reach: "reach (ring r) 8 = {8, 16}" "reach (ring r) 16 = {8, 16}"
proof -
  have "closed_under (ring r) {8, 16}" by (simp add: closed_under_def)
  then have "reach (ring r) 8 \<subseteq> {8, 16}" "reach (ring r) 16 \<subseteq> {8, 16}" using reach_least by blast+
  moreover have "16 \<in> reach (ring r) 8" "8 \<in> reach (ring r) 16"
    using reach_step [of 8 "ring r" 8 16] reach_step [of 16 "ring r" 16 8] by simp_all
  ultimately show "reach (ring r) 8 = {8, 16}" "reach (ring r) 16 = {8, 16}" by auto
qed

lemma ring_roots: "roots (ring r) {8} = {8}"
  by (auto simp: roots_def ring_def color_of_def walkable_def static_literal_def flag_defs)

lemma ring_marked: "marked (ring r) {8} = {8, 16}"
  by (simp add: marked_def ring_roots ring_reach)

lemma ring_indeg: "indeg (ring r) {8, 16} 8 = 1" "indeg (ring r) {8, 16} 16 = 1" "indeg (ring r) {8, 16, 24} 8 = 1" "indeg (ring r) {8, 16, 24} 16 = 1"
  by (simp_all add: indeg_def)

lemma ring_parked: "parked (ring r) {8} = {}"
  by (auto simp: parked_def ring_def)

lemma ring_garbage: "garbage (ring 1) {8} = {8, 16}" "garbage (ring 2) {8} = {}"
proof -
  have "held (ring 1) {8, 16} 8 = False" "held (ring 1) {8, 16} 16 = False" "held (ring 2) {8, 16} 16"
    by (simp_all add: held_def ring_indeg ring_rc)
  then show "garbage (ring 1) {8} = {8, 16}" "garbage (ring 2) {8} = {}"
    by (auto simp: garbage_def ring_marked ring_reach)
qed

lemma ring_in_use: "in_use (ring 2) 8"
proof -
  have "0 < outside (ring 2) 16" by (simp add: outside_def ring_live ring_indeg ring_rc)
  moreover have "can_walk (ring 2) 16" by (simp add: can_walk_def ring_def walkable_def static_literal_def flag_defs nan_box_is_cell_like_def)
  ultimately show ?thesis unfolding in_use_def using ring_live [of 2] ring_reach by (intro bexI [of _ 16]) auto
qed

section \<open>Properties\<close>



text \<open>C10: The calls a collection makes: each parked block is freed once; each garbage cell has its
  weak references told once if its class is named, each of its references to a leaf with
  references left released once (unless its own destructor does that), its keys or text released,
  and is destroyed exactly once, through the destructor of its shape. Nothing else is called.\<close>

theorem cycle_collect_calls:
  assumes "gc_ok s" "gc_buffer s \<noteq> []" "cycle_collect s = Some s'"
  shows "mset (gc_log s') = mset (gc_log s) + image_mset FreeParked (mset_set (parked (gc_heap s) (set (gc_buffer s)))) +
    (\<Sum>p\<in>garbage (gc_heap s) (set (gc_buffer s)). mset (corpse_events (gc_heap s) p))"
  using gc_collect_spec [OF assms(1,1,2,1)] assms(3) unfolding wp_iff by auto

theorem cycle_collect_calls_witness:
  "\<exists>s'. cycle_collect (ring_state 1) = Some s' \<and>
     mset (gc_log s') = {#WeakNotify 8, ValueDrop 24, FreeCell 8, StrDrop 32, FreeCell 16#}"
proof -
  have buf: "gc_buffer (ring_state 1) \<noteq> []" and ok: "gc_ok (ring_state 1)" by (simp add: ring_state_def) (simp add: ring_ok)
  obtain s' where s': "cycle_collect (ring_state 1) = Some s'" using gc_collect_heap [OF ok buf] by (auto elim: wpE)
  have ev: "mset (corpse_events (ring 1) 8) = {#WeakNotify 8, ValueDrop 24, FreeCell 8#}" "mset (corpse_events (ring 1) 16) = {#StrDrop 32, FreeCell 16#}"
    by (simp_all add: corpse_events_def open_events_def close_events_def key_events_def destroy_event_def leaf_edges_def
      own_teardown_def corpse_takes_own_destructor_def bag_only_props_off_def can_walk_def children_def enumerate_eq_zip
      walkable_def static_literal_def flag_defs rc_at_def nan_box_is_cell_like_def ring_def TAG_OBJ_def TAG_DYNOBJ_def TAG_CLOSURE_def
      TAG_ASYNC_FRAME_def TAG_PROXY_def TAG_ACCESSOR_PAIR_def TAG_REGEXP_def TAG_DATE_def TAG_PROMISE_def TAG_ARRAYBUFFER_def
      TAG_DATAVIEW_def TAG_MAP_ITER_def TAG_ARR_ITER_def TAG_TYPEDARRAY_def TAG_MAP_def TAG_SET_def TAG_ITER_HELPER_def TAG_FINREG_def
      TAG_STRING_WRAPPER_def TAG_SYMBOL_WRAPPER_def)
  show ?thesis using cycle_collect_calls [OF ok buf s'] s'
    by (simp add: ring_state_def ring_garbage ring_parked ev)
qed



text \<open>C11: A closed structure that nothing else refers to is reclaimed: if the counts of all the cells
  a buffered purple root reaches are accounted for by references among themselves, the
  collection returns with all of them freed.\<close>

theorem cycle_collect_reclaims:
  assumes "gc_ok s" "p \<in> roots (gc_heap s) (set (gc_buffer s))"
    and "\<And>q. q \<in> reach (gc_heap s) p \<Longrightarrow> unat (rc_at (gc_heap s) q) = indeg (gc_heap s) (reach (gc_heap s) p) q"
  shows "\<exists>s'. cycle_collect s = Some s' \<and> (\<forall>q\<in>reach (gc_heap s) p. gc_heap s' q = None)"
proof -
  note ok = gc_okD(1) [OF assms(1)]
  have buf: "gc_buffer s \<noteq> []" using assms(2) by (auto simp: roots_def)
  have "reach (gc_heap s) p \<subseteq> marked (gc_heap s) (set (gc_buffer s))" using assms(2) by (auto simp: marked_def)
  from isolated_garbage [OF ok this assms(3)] have "reach (gc_heap s) p \<subseteq> garbage (gc_heap s) (set (gc_buffer s))" .
  then show ?thesis using gc_collect_heap [OF assms(1) buf] unfolding wp_iff by (auto simp: collected_def)
qed

theorem cycle_collect_reclaims_witness:
  "\<exists>s'. cycle_collect (ring_state 1) = Some s' \<and> gc_heap s' 8 = None \<and> gc_heap s' 16 = None"
proof -
  have r: "gc_heap (ring_state 1) = ring 1" "gc_buffer (ring_state 1) = [8]" by (simp_all add: ring_state_def)
  have "8 \<in> roots (gc_heap (ring_state 1)) (set (gc_buffer (ring_state 1)))" by (simp add: r ring_roots)
  moreover have "unat (rc_at (gc_heap (ring_state 1)) q) = indeg (gc_heap (ring_state 1)) (reach (gc_heap (ring_state 1)) 8) q"
    if "q \<in> reach (gc_heap (ring_state 1)) 8" for q
    using that by (auto simp: r ring_reach ring_rc ring_indeg)
  ultimately have "\<exists>s'. cycle_collect (ring_state 1) = Some s' \<and> (\<forall>q\<in>reach (gc_heap (ring_state 1)) 8. gc_heap s' q = None)"
    by (intro cycle_collect_reclaims ring_ok) simp_all
  then show ?thesis by (simp add: r ring_reach)
qed

text \<open>C37: With every walkable live cell reached from the buffered roots the collector computes
  reachability: of the marked cells exactly those in use are left.\<close>

theorem cycle_collect_exact:
  assumes "gc_ok s" "gc_buffer s \<noteq> []"
    and "{p \<in> live_cells (gc_heap s). can_walk (gc_heap s) p} \<subseteq> marked (gc_heap s) (set (gc_buffer s))"
  shows "\<exists>s'. cycle_collect s = Some s' \<and>
    (\<forall>p\<in>marked (gc_heap s) (set (gc_buffer s)). gc_heap s' p \<noteq> None \<longleftrightarrow> in_use (gc_heap s) p)"
proof -
  let ?h = "gc_heap s" and ?X = "set (gc_buffer s)"
  note ok = gc_okD(1) [OF assms(1)]
  have G: "collected ?h ?X p \<noteq> None \<longleftrightarrow> in_use ?h p" if p: "p \<in> marked ?h ?X" for p
  proof -
    have "p \<in> live_cells ?h" using marked_live [OF ok] p by blast
    then obtain c where "?h p = Some c" by (auto simp: live_cells_def)
    moreover have "p \<notin> parked ?h ?X" using \<open>p \<in> live_cells ?h\<close> parked_dead by blast
    moreover have "p \<in> garbage ?h ?X \<longleftrightarrow> \<not> in_use ?h p" using garbage_exact [OF ok assms(3)] p by blast
    ultimately show ?thesis by (simp add: collected_def)
  qed
  obtain s' where "cycle_collect s = Some s'" "gc_heap s' = collected ?h ?X"
    using gc_collect_heap [OF assms(1,2)] by (auto simp: wp_iff)
  then show ?thesis using G by (intro exI [of _ s']) simp
qed

theorem cycle_collect_exact_witness:
  "\<exists>s'. cycle_collect (ring_state 2) = Some s' \<and> gc_heap s' 8 \<noteq> None \<and> in_use (ring 2) 8"
proof -
  have r: "gc_heap (ring_state 2) = ring 2" "gc_buffer (ring_state 2) = [8]" by (simp_all add: ring_state_def)
  have "\<not> can_walk (ring 2) 24" by (simp add: can_walk_def ring_def walkable_def)
  then have "{p \<in> live_cells (gc_heap (ring_state 2)). can_walk (gc_heap (ring_state 2)) p} \<subseteq> marked (gc_heap (ring_state 2)) (set (gc_buffer (ring_state 2)))"
    by (auto simp: r ring_live ring_marked)
  from cycle_collect_exact [OF ring_ok _ this] show ?thesis by (auto simp: r ring_marked ring_in_use)
qed

text \<open>C38: The operations keep the heap and the buffer in order: after \<open>cycle_buffer\<close> (which may
  collect), \<open>cycle_unbuffer\<close> and \<open>cycle_collect\<close> the counts still cover the references
  of live cells, live cells still have live children, no cell is left gray or white, and a cell is in the
  buffer, once, exactly if its bit is set; an unbuffered cell is named by no slot, so that it may be freed.\<close>

theorem cycle_operations_keep_ok:
  assumes "gc_ok s" "gc_heap s p \<noteq> None"
  shows "\<exists>t u v. cycle_buffer p s = Some t \<and> gc_ok t \<and> cycle_collect s = Some u \<and> gc_ok u \<and>
    cycle_unbuffer p s = Some v \<and> gc_ok v \<and> (p \<noteq> 0 \<longrightarrow> p \<notin> set (gc_buffer v))"
  using buffer_step_ok [OF assms] collect_ok [OF assms(1)] unbuffer_step_ok [OF assms] unfolding wp_iff by blast

theorem cycle_operations_keep_ok_witness:
  "\<exists>t v. cycle_buffer 16 (ring_state 2) = Some t \<and> gc_ok t \<and> cycle_unbuffer 16 (ring_state 2) = Some v \<and> gc_ok v"
proof -
  have "gc_heap (ring_state 2) 16 \<noteq> None" by (simp add: ring_state_def ring_def)
  from cycle_operations_keep_ok [OF ring_ok this] show ?thesis by auto
qed

end
