(* ===== verification/Spec2Isabelle.thy ===== *)
theory Spec2Isabelle
  imports BigInt_Text Regex_Semantics Map_Semantics GC_Semantics
begin

text \<open>
  torajs compiles TypeScript ahead of time to native code. The compiler and the runtime
  are Rust crates under \<open>src/crates\<close>; the runtime crates hold the semantics of the
  language that compiled programs call into: \<open>torajs-bigint\<close> the integers of arbitrary
  size, \<open>torajs-regex\<close> the regular expressions, \<open>torajs-collections\<close> the hash tables of
  \<open>Map\<close> and \<open>Set\<close>, over the dynamic values of \<open>torajs-anyvalue\<close>, and \<open>torajs-cycle\<close>
  the collector that reclaims cycles of counted cells, with which all of them share the heap.
  This development translates these parts from their sources and proves what they promise.

  \<^bold>\<open>Memory and errors.\<close> \<open>TJ_Prelude\<close> holds what the components share. Machine integers are
  words (\<open>u8\<close>, \<open>u32\<close>, \<open>u64\<close>), so that wrapping and truncation are those of the source;
  a raw-pointer or slice access is \<open>rd\<close> or \<open>wr\<close> on a list and has no value outside of it;
  a computation with such accesses is in the option monad, \<open>None\<close> standing for a panic or an
  access out of bounds. Counted loops are \<open>for_range\<close> and \<open>for_down\<close>, and \<open>wp\<close> is
  their weakest precondition: a theorem that concludes \<open>= Some r\<close> says that the code
  returns, and with what.

  \<^bold>\<open>BigInt\<close> (\<open>src/crates/torajs-bigint/src\<close>).
  \<^item> \<open>BigInt_Core\<close>: the heap block of \<open>layout.rs\<close> as a record, the accessors and in-place
    helpers of \<open>internal.rs\<close>, the layout invariant \<open>canonical\<close> and \<open>bi_of_int\<close>, the one
    canonical block of an integer, which the operations are shown to return.
  \<^item> \<open>BigInt_Arith\<close> (\<open>arith.rs\<close>, \<open>compare.rs\<close>), \<open>BigInt_Mul\<close> (\<open>mul.rs\<close>: schoolbook
    and Karatsuba), \<open>BigInt_Div\<close> (\<open>divmod.rs\<close>: division, power, negation),
    \<open>Limb_Bits\<close> and \<open>BigInt_Bits\<close> (\<open>bitwise.rs\<close>), \<open>BigInt_Shift\<close> (\<open>shift.rs\<close>),
    \<open>BigInt_AsN\<close> (\<open>asintn.rs\<close>, \<open>wrap64.rs\<close>), \<open>BigInt_Text\<close> (\<open>construct.rs\<close>,
    \<open>from_str_strict.rs\<close>, \<open>tostring.rs\<close>).
  The lemmas of each theory compute the limb loops against \<open>mval\<close>, the value of a list of
  limbs; its properties then say what the operation is on the integers.

  \<^bold>\<open>Regular expressions\<close> (\<open>src/crates/torajs-regex/src\<close>).
  \<^item> \<open>Regex_Utf8\<close>: flags, encoding and decoding of code points, surrogates, line
    terminators (\<open>utf8.rs\<close>, \<open>flags.rs\<close>, \<open>line_terminator.rs\<close>).
  \<^item> \<open>Regex_Class\<close>: the 256-bit bitmap with property tables and owned ranges of
    \<open>charclass.rs\<close>, and the binary search of \<open>ucd.rs\<close>.
  \<^item> \<open>Regex_Program\<close>: the tree of \<open>node.rs\<close> and the bytecode of \<open>program.rs\<close>.
  \<^item> \<open>Regex_Expand\<close>: \<open>utf8_class_expand.rs\<close>, a class rewritten into a tree of byte classes.
  \<^item> \<open>Regex_Compiler\<close>: \<open>compiler.rs\<close> and \<open>string_trie.rs\<close>, the lowering of a tree.
  \<^item> \<open>Regex_Backtrack\<close>: \<open>vm/backtrack.rs\<close>, the memoised depth-first walk over a
    program, with its job stack and its bitset of visited pairs.
  \<^item> \<open>Regex_Walk\<close>: a program as a nondeterministic machine (\<open>runs\<close> lists the accepting rows
    in priority order), and the walk as a search of it.
  \<^item> \<open>Regex_Spec\<close>: what a pattern means, independently of any bytecode: the matcher of the
    ECMAScript standard as a function from an input and a row of captures to the list of its
    outcomes in priority order, over an abstract type of atoms.
  \<^item> \<open>Regex_Codes\<close>: the layouts of bytecode that \<open>compiler.rs\<close> emits (sequences,
    alternations, loops, unrolled copies, groups) as a relation, the pattern \<open>spec_of\<close> of a
    tree, and \<open>compile_emits\<close>: the compiler writes the layout of the tree it is given.
  \<^item> \<open>Regex_Correct\<close>: each layout, placed anywhere in a program, has the runs that the
    pattern's outcomes prescribe, and leaves the captures of other groups alone.
  \<^item> \<open>Regex_Meaning\<close>: the atoms of the pattern read as code points of the haystack rather
    than as bytes, and the compiled program against that meaning.
  \<^item> \<open>Regex_Eligible\<close>: the invariant that jump targets, slots and operands of a compiled
    program are in range, and hence that the walk may run it.
  \<^item> \<open>Regex_Semantics\<close>: the parts composed: what \<open>backtrack_captures\<close> returns for a
    compiled pattern is the first outcome of the pattern.
  The meaning is stated for patterns without back references, lookarounds and sets of strings,
  on a window of a haystack of well-formed text; that the captures are those of the
  first outcome, for programs without \<open>OP_ITER_CHECK\<close> (no repeated body can match nothing),
  as the memo of the walk forgets where an iteration began.

  \<^bold>\<open>Map and Set\<close> (\<open>src/crates/torajs-collections/src\<close>).
  \<^item> \<open>F64_Int\<close>: the conversions between \<open>f64\<close> and \<open>i64\<close>, on the bits of a double.
  \<^item> \<open>Any_Box\<close>: dynamic values as NaN-boxed words (\<open>torajs-anyvalue/src/nanbox.rs\<close> and
    the pair shims of \<open>nanbox_encode.rs\<close>).
  \<^item> \<open>Map_Key\<close>: hashing and equality of keys (\<open>hash.rs\<close>, \<open>eq.rs\<close>, \<open>key_decode.rs\<close>), and
    \<open>key_class\<close>, the JavaScript value a key stands for.
  \<^item> \<open>Map_Table\<close>: the block, the Robin Hood slots and the rehash (\<open>layout.rs\<close>, \<open>create.rs\<close>,
    \<open>probe.rs\<close>); \<open>Map_Ops\<close>: the operations (\<open>mutate.rs\<close>, \<open>delete.rs\<close>, \<open>query.rs\<close>,
    \<open>iter.rs\<close>, \<open>drop.rs\<close>, \<open>value_lane.rs\<close>). Calls to the reference counts are events of
    the result.
  \<^item> \<open>Map_Slots\<close>, \<open>Map_Lookup\<close>, \<open>Map_Rehash\<close>: the Robin Hood order \<open>rh\<close> of a slot table and
    the invariant \<open>map_ok\<close> of a block, and what insertion, lookup and rehash do under them.
  \<^item> \<open>Map_Correct\<close>, \<open>Map_Semantics\<close>: the operations against the ordered map \<open>contents\<close> of a
    block, histories of operations, iteration, and the two histories that break the promise.

  \<^bold>\<open>Cycle collector\<close> (\<open>src/crates/torajs-cycle/src\<close>).
  \<^item> \<open>GC_Heap\<close>: headers, colours, flags and tags (\<open>layout.rs\<close>, \<open>layout_bag.rs\<close>); a cell is its
    header and the slots \<open>for_each_child\<close> reads.
  \<^item> \<open>GC_Collect\<close>: the three phases and the free step (\<open>collect.rs\<close>, \<open>defer.rs\<close>) and the
    buffer of roots (\<open>buffer.rs\<close>). Calls into other crates are events of a log; what they do to
    other cells and to the buffer is a parameter of \<open>collect_with\<close>, and \<open>cycle_collect\<close> is the
    collector with that parameter idle.
  \<^item> \<open>GC_Mark\<close>: the graph of references with multiplicity, and \<open>repaint\<close> as an update of colours
    and counts on what a root reaches; \<open>GC_Phases\<close>: the heap invariant \<open>heap_ok\<close>, marking and
    scanning over a whole buffer; \<open>GC_Scan\<close>: the scan leaves black what a cell with references
    left reaches; \<open>GC_Sweep\<close>, \<open>GC_Free\<close>: the white cells are opened, closed and freed once each.
  \<^item> \<open>GC_Semantics\<close>: what is garbage and what is in use, the heap after a collection, the
    invariant \<open>gc_ok\<close> of heap and buffer, and the properties.

  \<^bold>\<open>Bounds and termination.\<close> No definition that models code has fuel. The walk terminates because every
  instruction it executes marks an unmarked bit; the loops of the BigInt crate run over
  ranges or carry their measure, except \<open>radix_chunk\<close>, whose endless case is a property.
  Limb counts stay below \<open>LEN_LIM\<close>, the size at which the \<open>u32\<close> count of the block wraps;
  where the code lets it wrap, a property says so. A loop of \<open>tostring.rs\<close> that ends only
  for a radix of at least 2 is a \<open>partial_function\<close> and is shown to return.
  The probe loops and the walk of an iterator are \<open>partial_function\<close>s, shown to return on a
  well-formed block; the growth of a block is followed while it is \<open>small\<close> (below \<open>2^28\<close>
  slots), far from where its \<open>u32\<close> capacities wrap. The test loop \<open>drain_keys\<close> of
  \<open>Map_Semantics\<close> has fuel, and its theorem shows that seven steps are enough.
  The loops of the collector over its stack are \<open>partial_function\<close>s; a collection is shown to
  return on every heap that satisfies its invariant.

  \<^bold>\<open>Not modelled.\<close> The front end (parser, checker, lowering), the optimiser, the back ends
  and the linker; the other runtime crates (dispatch on dynamic values, strings, arrays,
  objects, promises, allocator, dates); of the collector the layouts
  of the shapes and the drain at exit; of the collections the f64 lanes and the
  own properties of iterator objects; of the regex crate the pattern parser, the DFA, the Pike
  machine and the RegExp methods; the generated tables of the Unicode database, which are
  arguments of the definitions that search them.
\<close>

end
